(* ===== verification/Prelude.thy ===== *)
theory Prelude
  imports Main "HOL-Library.Word" "HOL-Library.List_Lexorder" "HOL-Library.Char_ord"
begin

section \<open>Shared vocabulary of the development\<close>

text \<open>
  What every component uses of Rust and its standard library: fixed-width
  integers with checked and saturating addition, \<open>Ordering\<close> and the stable
  \<open>sort_by\<close>/\<open>dedup\<close> of a vector, and \<open>Result\<close> with the \<open>?\<close> operator, \<open>for\<close>
  loops and short-circuiting iteration over it.

  A computation of the checker is a value of type \<open>('e, 'a) run\<close>: \<open>Ok\<close> and
  \<open>Err\<close> are the two constructors of \<open>Result\<close>, \<open>NoFuel\<close> is the model's own
  third outcome, "the recursion bound of the model was reached before the code
  returned". Every function that takes such a bound comes with a lemma that a
  larger bound never changes an \<open>Ok\<close> or \<open>Err\<close> (\<open>run_le\<close> below).
\<close>

named_theorems run_simps \<open>unfolding rules of the Result combinators\<close>
named_theorems run_mono \<open>monotonicity of the Result combinators in the recursion bound\<close>

type_synonym u32 = "32 word"
type_synonym u64 = "64 word"

subsection \<open>Integers\<close>

definition checked_add :: "'a::len word \<Rightarrow> 'a word \<Rightarrow> 'a word option" where
  "checked_add a b = (if unat a + unat b < 2 ^ LENGTH('a) then Some (a + b) else None)"

definition saturating_add :: "'a::len word \<Rightarrow> 'a word \<Rightarrow> 'a word" where
  "saturating_add a b = (if unat a + unat b < 2 ^ LENGTH('a) then a + b else - 1)"

definition saturating_sub :: "'a::len word \<Rightarrow> 'a word \<Rightarrow> 'a word" where
  "saturating_sub a b = (if b \<le> a then a - b else 0)"

lemma checked_add_SomeD:
  "checked_add a b = Some c \<Longrightarrow> unat c = unat a + unat b"
  by (auto simp: checked_add_def unat_word_ariths split: if_splits)

lemma checked_add_NoneD:
  "checked_add (a :: 'a::len word) b = None \<Longrightarrow> 2 ^ LENGTH('a) \<le> unat a + unat b"
  by (auto simp: checked_add_def split: if_splits)

lemma unat_max_word: "unat (- 1 :: 'a::len word) = 2 ^ LENGTH('a) - 1"
  by (simp add: unsigned_minus_1_eq_mask mask_eq_exp_minus_1)

lemma unat_saturating_add:
  "unat (saturating_add (a :: 'a::len word) b) = min (2 ^ LENGTH('a) - 1) (unat a + unat b)"
  by (auto simp: saturating_add_def unat_word_ariths unat_max_word)

lemma unat_saturating_sub [simp]: "unat (saturating_sub a b) = unat a - unat b"
  by (auto simp: saturating_sub_def unat_sub word_le_nat_alt)

lemma unat_bound: "unat (a :: 'a::len word) < 2 ^ LENGTH('a)"
  by (rule unsigned_less)

lemma unat_u32_bound: "unat (a :: u32) < 4294967296"
  using unat_bound [of a] by simp

lemma unat_u32_le: "unat (a :: u32) \<le> 4294967295"
  using unat_u32_bound [of a] by simp

lemma unat_max: "unat (max a b :: 'a::len word) = max (unat a) (unat b)"
  by (simp add: max_def word_le_nat_alt)

lemma unat_eq_0 [simp]: "unat (a :: 'a::len word) = 0 \<longleftrightarrow> a = 0"
  by (simp add: unat_eq_zero)

lemma unat_pos: "(a :: 'a::len word) \<noteq> 0 \<Longrightarrow> 0 < unat a"
  by (simp add: unat_gt_0)

subsection \<open>Ordering, sorting and deduplication\<close>

datatype ordering = Less | Equal | Greater

definition cmp :: "'a::linorder \<Rightarrow> 'a \<Rightarrow> ordering" where
  "cmp x y = (if x < y then Less else if x = y then Equal else Greater)"

definition then_with :: "ordering \<Rightarrow> ordering \<Rightarrow> ordering" where
  "then_with a b = (if a = Equal then b else a)"

lemma cmp_simps [simp]:
  "cmp x y = Less \<longleftrightarrow> x < y"
  "cmp x y = Equal \<longleftrightarrow> x = y"
  "cmp x y = Greater \<longleftrightarrow> y < x"
  by (auto simp: cmp_def)

lemma then_with_simps [simp]:
  "then_with a b = Equal \<longleftrightarrow> a = Equal \<and> b = Equal"
  "then_with a b = Less \<longleftrightarrow> a = Less \<or> a = Equal \<and> b = Less"
  "then_with a b = Greater \<longleftrightarrow> a = Greater \<or> a = Equal \<and> b = Greater"
  by (auto simp: then_with_def)

fun insert_by :: "('a \<Rightarrow> 'a \<Rightarrow> ordering) \<Rightarrow> 'a \<Rightarrow> 'a list \<Rightarrow> 'a list" where
  "insert_by c x [] = [x]"
| "insert_by c x (y # ys) = (if c x y = Greater then y # insert_by c x ys else x # y # ys)"

definition sort_by :: "('a \<Rightarrow> 'a \<Rightarrow> ordering) \<Rightarrow> 'a list \<Rightarrow> 'a list" where
  "sort_by c xs = foldr (insert_by c) xs []"

text \<open>On a comparator that decides a linear order, the stable sort is the library's \<open>sort\<close>.\<close>

lemma insert_by_insort:
  fixes x :: "'a::linorder"
  assumes "\<And>a b. c a b = Greater \<longleftrightarrow> b < a"
  shows "insert_by c x ys = insort x ys"
  by (induction ys) (auto simp: assms)

lemma sort_by_sort:
  fixes xs :: "'a::linorder list"
  assumes "\<And>a b. c a b = Greater \<longleftrightarrow> b < a"
  shows "sort_by c xs = sort xs"
  unfolding sort_by_def
  by (induction xs) (simp_all add: insert_by_insort [OF assms])

abbreviation dedup :: "'a list \<Rightarrow> 'a list" where
  "dedup \<equiv> remdups_adj"

lemma set_insert_by [simp]: "set (insert_by c x ys) = insert x (set ys)"
  by (induction ys) auto

lemma set_sort_by [simp]: "set (sort_by c xs) = set xs"
  by (induction xs) (auto simp: sort_by_def)

subsection \<open>Result, the question mark and loops\<close>

datatype ('e, 'a) run = Ok 'a | Err 'e | NoFuel

definition run_bind :: "('e, 'a) run \<Rightarrow> ('a \<Rightarrow> ('e, 'b) run) \<Rightarrow> ('e, 'b) run" where
  "run_bind r f = (case r of Ok x \<Rightarrow> f x | Err e \<Rightarrow> Err e | NoFuel \<Rightarrow> NoFuel)"

definition ok_or :: "'a option \<Rightarrow> 'e \<Rightarrow> ('e, 'a) run" where
  "ok_or x e = (case x of Some y \<Rightarrow> Ok y | None \<Rightarrow> Err e)"

definition map_err :: "('e \<Rightarrow> 'f) \<Rightarrow> ('e, 'a) run \<Rightarrow> ('f, 'a) run" where
  "map_err f r = (case r of Err e \<Rightarrow> Err (f e) | Ok x \<Rightarrow> Ok x | NoFuel \<Rightarrow> NoFuel)"

fun run_for :: "'s \<Rightarrow> 'a list \<Rightarrow> ('s \<Rightarrow> 'a \<Rightarrow> ('e, 's) run) \<Rightarrow> ('e, 's) run" where
  "run_for s [] f = Ok s"
| "run_for s (x # xs) f = run_bind (f s x) (\<lambda>s'. run_for s' xs f)"

fun all_checked :: "'a list \<Rightarrow> ('a \<Rightarrow> ('e, bool) run) \<Rightarrow> ('e, bool) run" where
  "all_checked [] f = Ok True"
| "all_checked (x # xs) f = run_bind (f x) (\<lambda>b. if b then all_checked xs f else Ok False)"

fun run_map :: "('a \<Rightarrow> ('e, 'b) run) \<Rightarrow> 'a list \<Rightarrow> ('e, 'b list) run" where
  "run_map f [] = Ok []"
| "run_map f (x # xs) = run_bind (f x) (\<lambda>y. run_bind (run_map f xs) (\<lambda>ys. Ok (y # ys)))"

definition and_then :: "('e, bool) run \<Rightarrow> ('e, bool) run \<Rightarrow> ('e, bool) run" where
  "and_then r s = run_bind r (\<lambda>b. if b then s else Ok False)"

lemma run_bind_simps [simp]:
  "run_bind (Ok x) f = f x"
  "run_bind (Err e) f = Err e"
  "run_bind NoFuel f = NoFuel"
  by (simp_all add: run_bind_def)

lemma run_bind_fundef_cong [fundef_cong]:
  "r = r' \<Longrightarrow> (\<And>x. r' = Ok x \<Longrightarrow> f x = g x) \<Longrightarrow> run_bind r f = run_bind r' g"
  by (cases r') auto

lemma run_bind_weak_cong: "r = r' \<Longrightarrow> run_bind r f = run_bind r' f"
  by simp

lemma run_bind_eq_Ok [simp]: "run_bind r f = Ok y \<longleftrightarrow> (\<exists>x. r = Ok x \<and> f x = Ok y)"
  by (cases r) auto

lemma run_bind_eq_NoFuel [simp]:
  "run_bind r f = NoFuel \<longleftrightarrow> r = NoFuel \<or> (\<exists>x. r = Ok x \<and> f x = NoFuel)"
  by (cases r) auto

lemma run_bind_eq_Err [simp]:
  "run_bind r f = Err e \<longleftrightarrow> r = Err e \<or> (\<exists>x. r = Ok x \<and> f x = Err e)"
  by (cases r) auto

lemma run_bind_assoc: "run_bind (run_bind r f) g = run_bind r (\<lambda>x. run_bind (f x) g)"
  by (cases r) auto

lemma ok_or_eq_Ok [simp]: "ok_or x e = Ok y \<longleftrightarrow> x = Some y"
  by (cases x) (auto simp: ok_or_def)

lemma map_err_eq_Ok [simp]: "map_err f r = Ok x \<longleftrightarrow> r = Ok x"
  by (cases r) (auto simp: map_err_def)

lemma and_then_eq_True [simp]: "and_then r s = Ok True \<longleftrightarrow> r = Ok True \<and> s = Ok True"
  by (auto simp: and_then_def split: if_splits)

lemma if_Ok_False [simp]:
  "((if b then r else Ok False) = Ok True) \<longleftrightarrow> b \<and> r = Ok True"
  by simp

lemma all_checked_eq_True:
  "all_checked xs f = Ok True \<longleftrightarrow> (\<forall>x \<in> set xs. f x = Ok True)"
  by (induction xs) auto

lemma all_checked_zip:
  "length xs = length ys \<Longrightarrow>
   all_checked (zip xs ys) f = Ok True \<longleftrightarrow> (\<forall>i < length ys. f (xs ! i, ys ! i) = Ok True)"
  by (fastforce simp: all_checked_eq_True set_zip)

lemma all_checked_enumerate_zip:
  "length xs = length ys \<Longrightarrow>
   all_checked (List.enumerate 0 (zip xs ys)) f = Ok True \<longleftrightarrow>
   (\<forall>i < length ys. f (i, xs ! i, ys ! i) = Ok True)"
  by (simp add: all_checked_eq_True all_set_conv_all_nth nth_enumerate_eq)

lemma run_map_eq_Ok: "run_map f xs = Ok ys \<longleftrightarrow> list_all2 (\<lambda>x y. f x = Ok y) xs ys"
  by (induction xs arbitrary: ys) (auto simp: list_all2_Cons1)

lemma run_for_unit: "run_for () xs (\<lambda>_. f) = Ok u \<longleftrightarrow> (\<forall>x \<in> set xs. f x = Ok ())"
  by (induction xs) auto

lemma run_for_unit_zip:
  "length xs = length ys \<Longrightarrow>
   run_for () (List.enumerate 0 (zip xs ys)) (\<lambda>_. f) = Ok u \<longleftrightarrow>
   (\<forall>i < length ys. f (i, xs ! i, ys ! i) = Ok ())"
  by (simp add: run_for_unit all_set_conv_all_nth nth_enumerate_eq)

text \<open>A loop that collects one result per element.\<close>

lemma run_for_collect:
  assumes "run_for acc xs f = Ok ws" and "\<And>acc x acc'. f acc x = Ok acc' \<Longrightarrow> \<exists>v. acc' = acc @ [v]"
  shows "\<exists>vs. ws = acc @ vs \<and> length vs = length xs \<and>
    (\<forall>i < length xs. f (acc @ take i vs) (xs ! i) = Ok (acc @ take i vs @ [vs ! i]))"
  using assms(1)
proof (induction xs arbitrary: acc)
  case (Cons x xs)
  then obtain acc' where x: "f acc x = Ok acc'" and rest: "run_for acc' xs f = Ok ws" by auto
  from assms(2) [OF x] obtain v where v: "acc' = acc @ [v]" by blast
  from Cons.IH [OF rest] obtain vs where "ws = acc' @ vs" "length vs = length xs"
    "\<And>i. i < length xs \<Longrightarrow> f (acc' @ take i vs) (xs ! i) = Ok (acc' @ take i vs @ [vs ! i])" by blast
  with x v show ?case by (intro exI [of _ "v # vs"]) (auto simp: less_Suc_eq_0_disj)
qed simp

subsection \<open>The recursion bound\<close>

text \<open>
  \<open>run_le r s\<close>: the computation \<open>s\<close>, run with a larger bound, agrees with \<open>r\<close>
  wherever \<open>r\<close> returned.
\<close>

definition run_le :: "('e, 'a) run \<Rightarrow> ('e, 'a) run \<Rightarrow> bool" where
  "run_le r s \<longleftrightarrow> r = NoFuel \<or> r = s"

lemma run_le_refl [simp, intro]: "run_le r r"
  by (simp add: run_le_def)

lemma run_le_NoFuel [simp]: "run_le NoFuel r"
  by (simp add: run_le_def)

lemma run_le_trans [trans]: "run_le r s \<Longrightarrow> run_le s t \<Longrightarrow> run_le r t"
  by (auto simp: run_le_def)

lemma run_le_Ok [dest]: "run_le (Ok x) s \<Longrightarrow> s = Ok x"
  by (auto simp: run_le_def)

lemma run_le_Err [dest]: "run_le (Err e) s \<Longrightarrow> s = Err e"
  by (auto simp: run_le_def)

lemma run_bind_mono [run_mono]:
  "run_le r s \<Longrightarrow> (\<And>x. run_le (f x) (g x)) \<Longrightarrow> run_le (run_bind r f) (run_bind s g)"
  by (cases r; cases s) (auto simp: run_le_def)

lemma map_err_mono [run_mono]: "run_le r s \<Longrightarrow> run_le (map_err f r) (map_err f s)"
  by (cases r; cases s) (auto simp: run_le_def map_err_def)

lemma and_then_mono [run_mono]:
  "run_le r r' \<Longrightarrow> run_le s s' \<Longrightarrow> run_le (and_then r s) (and_then r' s')"
  by (auto simp: and_then_def intro!: run_bind_mono)

lemma run_if_mono [run_mono]:
  "run_le r r' \<Longrightarrow> run_le s s' \<Longrightarrow> run_le (if b then r else s) (if b then r' else s')"
  by simp

lemma run_for_mono [run_mono]:
  "(\<And>s x. run_le (f s x) (g s x)) \<Longrightarrow> run_le (run_for s xs f) (run_for s xs g)"
  by (induction xs arbitrary: s) (auto intro: run_bind_mono)

lemma run_map_mono [run_mono]:
  "(\<And>x. run_le (f x) (g x)) \<Longrightarrow> run_le (run_map f xs) (run_map g xs)"
  by (induction xs) (auto intro!: run_bind_mono)

lemma all_checked_mono [run_mono]:
  "(\<And>x. run_le (f x) (g x)) \<Longrightarrow> run_le (all_checked xs f) (all_checked xs g)"
  by (induction xs) (auto intro!: run_bind_mono)

lemma run_case_option_mono [run_mono]:
  "(x = None \<Longrightarrow> run_le r s) \<Longrightarrow> (\<And>y. x = Some y \<Longrightarrow> run_le (f y) (g y)) \<Longrightarrow>
   run_le (case x of None \<Rightarrow> r | Some y \<Rightarrow> f y) (case x of None \<Rightarrow> s | Some y \<Rightarrow> g y)"
  by (cases x) auto

lemma run_case_prod_mono [run_mono]:
  "(\<And>y z. run_le (f y z) (g y z)) \<Longrightarrow>
   run_le (case x of (y, z) \<Rightarrow> f y z) (case x of (y, z) \<Rightarrow> g y z)"
  by (cases x) auto

lemma run_let_mono [run_mono]:
  "(\<And>y. run_le (f y) (g y)) \<Longrightarrow> run_le (let y = x in f y) (let y = x in g y)"
  by simp

subsection \<open>Lists with positions\<close>

lemma set_enumerate_iff:
  "(i, x) \<in> set (List.enumerate n xs) \<longleftrightarrow> n \<le> i \<and> i < n + length xs \<and> x = xs ! (i - n)"
  by (auto simp: in_set_enumerate_eq)

lemma map_enumerate_cong:
  "(\<And>i x. (i, x) \<in> set (List.enumerate n xs) \<Longrightarrow> f i x = g i x) \<Longrightarrow>
   map (\<lambda>(i, x). f i x) (List.enumerate n xs) = map (\<lambda>(i, x). g i x) (List.enumerate n xs)"
  by auto

end
