(* ===== verification/Levels.thy ===== *)
theory Levels
  imports Prelude "HOL-Library.Multiset"
begin

section \<open>Universe levels\<close>

text \<open>
  Models the type \<open>Level\<close> of \<open>crates/verum_proof/src/proof_checker.rs\<close> and its
  algebra: exact successors and offsets over 32-bit wire integers, \<open>max\<close> with
  its canonical form, and the conservative equality \<open>level_eq\<close>. The meaning of a
  level is a natural number under an assignment of the level variables
  (\<open>level_val\<close>); the lemmas show that every operation computes it exactly, that
  normalisation terminates and keeps it, and what equality therefore decides.
\<close>

named_theorems level_val_simps \<open>what each level operation does to the value of a level\<close>

subsection \<open>The data and its structural order\<close>

datatype level =
    Concrete u32
  | LVar string
  | LSucc level
  | LMax level level
  | Offset level u32

fun level_rank :: "level \<Rightarrow> nat" where
  "level_rank (Concrete _) = 0"
| "level_rank (LVar _) = 1"
| "level_rank (LSucc _) = 2"
| "level_rank (LMax _ _) = 3"
| "level_rank (Offset _ _) = 4"

fun level_struct_cmp :: "level \<Rightarrow> level \<Rightarrow> ordering" where
  "level_struct_cmp a b =
     (case cmp (level_rank a) (level_rank b) of
        Equal \<Rightarrow>
          (case (a, b) of
             (Concrete x, Concrete y) \<Rightarrow> cmp x y
           | (LVar x, LVar y) \<Rightarrow> cmp x y
           | (LSucc x, LSucc y) \<Rightarrow> level_struct_cmp x y
           | (Offset x n, Offset y m) \<Rightarrow> then_with (level_struct_cmp x y) (cmp n m)
           | (LMax xa xb, LMax ya yb) \<Rightarrow>
               then_with (level_struct_cmp xa ya) (level_struct_cmp xb yb)
           | _ \<Rightarrow> Equal)
      | other \<Rightarrow> other)"

declare level_struct_cmp.simps [simp del]

subsection \<open>Offsets\<close>

definition level_offset_node :: "level \<Rightarrow> u32 \<Rightarrow> level" where
  "level_offset_node base k =
     (if k = 0 then base else if k = 1 then LSucc base else Offset base k)"

fun level_add_offset :: "level \<Rightarrow> u32 \<Rightarrow> level" where
  "level_add_offset (Concrete n) k =
     (if k = 0 then Concrete n
      else case checked_add n k of
             Some m \<Rightarrow> Concrete m
           | None \<Rightarrow> level_offset_node (Concrete (- 1)) (k - (- 1 - n)))"
| "level_add_offset (LSucc inner) k =
     (if k = 0 then LSucc inner
      else case checked_add k 1 of
             Some s \<Rightarrow> level_add_offset inner s
           | None \<Rightarrow> level_offset_node (LSucc inner) k)"
| "level_add_offset (Offset inner prior) k =
     (if k = 0 then Offset inner prior
      else case checked_add prior k of
             Some s \<Rightarrow> level_add_offset inner s
           | None \<Rightarrow> level_offset_node (Offset inner prior) k)"
| "level_add_offset (LVar v) k = (if k = 0 then LVar v else level_offset_node (LVar v) k)"
| "level_add_offset (LMax a b) k = (if k = 0 then LMax a b else level_offset_node (LMax a b) k)"

fun level_succ_depth_loop :: "level \<Rightarrow> u32 \<Rightarrow> u32" where
  "level_succ_depth_loop (LSucc inner) depth =
     level_succ_depth_loop inner (saturating_add depth 1)"
| "level_succ_depth_loop (Offset inner k) depth =
     level_succ_depth_loop inner (saturating_add depth k)"
| "level_succ_depth_loop _ depth = depth"

definition level_succ_depth :: "level \<Rightarrow> u32" where
  "level_succ_depth l = level_succ_depth_loop l 0"

fun level_strip_succ :: "level \<Rightarrow> u32 \<Rightarrow> level" where
  "level_strip_succ (LSucc inner) remaining =
     (if remaining = 0 then LSucc inner else level_strip_succ inner (remaining - 1))"
| "level_strip_succ (Offset inner k) remaining =
     (if remaining = 0 then Offset inner k
      else if k \<le> remaining then level_strip_succ inner (remaining - k)
      else level_add_offset inner (k - remaining))"
| "level_strip_succ other remaining = other"

subsection \<open>The canonical form of a maximum\<close>

fun flatten_max :: "level \<Rightarrow> level list" where
  "flatten_max (LMax a b) = flatten_max a @ flatten_max b"
| "flatten_max other = [other]"

fun split_concrete :: "u32 option \<Rightarrow> level list \<Rightarrow> level list \<Rightarrow> u32 option \<times> level list" where
  "split_concrete c syms [] = (c, syms)"
| "split_concrete c syms (Concrete n # rest) =
     split_concrete (Some (case c of None \<Rightarrow> n | Some m \<Rightarrow> max m n)) syms rest"
| "split_concrete c syms (other # rest) = split_concrete c (syms @ [other]) rest"

definition list_min :: "u32 list \<Rightarrow> u32" where
  "list_min xs = (case xs of [] \<Rightarrow> 0 | x # rest \<Rightarrow> fold min rest x)"

definition level_common_succ_depth :: "u32 option \<Rightarrow> level list \<Rightarrow> u32" where
  "level_common_succ_depth concrete symbolic =
     list_min (map level_succ_depth symbolic @ (case concrete of None \<Rightarrow> [] | Some c \<Rightarrow> [c]))"

fun max_chain :: "level list \<Rightarrow> level" where
  "max_chain [] = Concrete 0"
| "max_chain [x] = x"
| "max_chain (x # xs) = LMax x (max_chain xs)"

definition level_assemble_max :: "u32 option \<Rightarrow> level list \<Rightarrow> level" where
  "level_assemble_max concrete symbolic =
     (let drop_zero = concrete = Some 0 \<and> symbolic \<noteq> [];
          keep = (if drop_zero then None else concrete)
      in max_chain ((case keep of None \<Rightarrow> [] | Some n \<Rightarrow> [Concrete n]) @ symbolic))"

text \<open>
  \<open>level_max_canonical\<close> calls \<open>level_normalize\<close> on the interior it uncovers by
  stripping the common offset, so the two are mutually recursive.
\<close>

function level_normalize :: "level \<Rightarrow> level"
  and level_max_canonical :: "level \<Rightarrow> level \<Rightarrow> level" where
  "level_normalize (Concrete n) = Concrete n"
| "level_normalize (LVar v) = LVar v"
| "level_normalize (LSucc inner) = level_add_offset (level_normalize inner) 1"
| "level_normalize (Offset base k) = level_add_offset (level_normalize base) k"
| "level_normalize (LMax a b) = level_max_canonical (level_normalize a) (level_normalize b)"
| "level_max_canonical a b =
     (let (concrete, symbolic) = split_concrete None [] (flatten_max a @ flatten_max b);
          symbolic = dedup (sort_by level_struct_cmp symbolic);
          total = length symbolic + (if concrete = None then 0 else 1);
          succ_count = level_common_succ_depth concrete symbolic
      in if 2 \<le> total \<and> 0 < succ_count
         then level_add_offset
                (level_normalize
                  (level_assemble_max (map_option (\<lambda>n. saturating_sub n succ_count) concrete)
                    (map (\<lambda>s. level_strip_succ s succ_count) symbolic)))
                succ_count
         else level_assemble_max concrete symbolic)"
  by pat_completeness auto

subsection \<open>The value of a level\<close>

primrec level_val :: "(string \<Rightarrow> nat) \<Rightarrow> level \<Rightarrow> nat" where
  "level_val \<rho> (Concrete n) = unat n"
| "level_val \<rho> (LVar v) = \<rho> v"
| "level_val \<rho> (LSucc l) = Suc (level_val \<rho> l)"
| "level_val \<rho> (LMax a b) = max (level_val \<rho> a) (level_val \<rho> b)"
| "level_val \<rho> (Offset l k) = level_val \<rho> l + unat k"

lemma level_val_offset_node [level_val_simps]:
  "level_val \<rho> (level_offset_node l k) = level_val \<rho> l + unat k"
  by (simp add: level_offset_node_def)

lemma offset_past_max:
  assumes "checked_add n k = None"
  shows "unat (k - (- 1 - n) :: u32) + 4294967295 = unat n + unat k"
proof -
  have m: "unat (- 1 :: u32) = 4294967295" by (simp add: unat_max_word)
  have o: "4294967296 \<le> unat n + unat k" using checked_add_NoneD [OF assms] by simp
  have d: "unat (- 1 - n :: u32) = 4294967295 - unat n"
    using unat_u32_bound [of n] by (subst unat_sub) (auto simp: word_le_nat_alt m)
  then show ?thesis
    using unat_u32_bound [of n] o by (subst unat_sub) (auto simp: word_le_nat_alt d)
qed

lemma level_val_add_offset [level_val_simps]:
  "level_val \<rho> (level_add_offset l k) = level_val \<rho> l + unat k"
proof (induction l k rule: level_add_offset.induct)
  case (1 n k)
  show ?case
  proof (cases "checked_add n k")
    case None
    then show ?thesis
      using offset_past_max [OF None]
      by (simp add: level_val_offset_node unat_max_word)
  qed (auto dest: checked_add_SomeD)
qed (auto simp: level_val_offset_node dest!: checked_add_SomeD split: option.splits)

text \<open>The number of successors at the head of a level, not capped by the wire width.\<close>

fun head_offset :: "level \<Rightarrow> nat" where
  "head_offset (LSucc l) = Suc (head_offset l)"
| "head_offset (Offset l k) = head_offset l + unat k"
| "head_offset _ = 0"

lemma head_offset_le_val: "head_offset l \<le> level_val \<rho> l"
  by (induction l rule: head_offset.induct) auto

lemma unat_level_succ_depth_loop:
  "unat (level_succ_depth_loop l d) = min 4294967295 (unat d + head_offset l)"
  by (induction l d rule: level_succ_depth_loop.induct)
    (auto simp: unat_saturating_add unat_u32_le min.absorb2)

lemma level_succ_depth_le: "unat (level_succ_depth l) \<le> head_offset l"
  by (simp add: level_succ_depth_def unat_level_succ_depth_loop)

lemma level_val_strip_succ [level_val_simps]:
  "unat k \<le> head_offset l \<Longrightarrow> level_val \<rho> (level_strip_succ l k) = level_val \<rho> l - unat k"
proof (induction l k rule: level_strip_succ.induct)
  case (1 inner remaining)
  then show ?case
    by (cases "remaining = 0") (auto simp: unat_minus_one dest!: unat_pos)
next
  case (2 inner k remaining)
  then show ?case
    using head_offset_le_val [of inner \<rho>]
    by (auto simp: level_val_add_offset unat_sub word_le_nat_alt not_le)
qed auto

subsection \<open>The value of a canonical maximum\<close>

definition max_val :: "(string \<Rightarrow> nat) \<Rightarrow> level list \<Rightarrow> nat" where
  "max_val \<rho> ls = Max (insert 0 (level_val \<rho> ` set ls))"

definition opt_val :: "u32 option \<Rightarrow> nat" where
  "opt_val c = (case c of None \<Rightarrow> 0 | Some n \<Rightarrow> unat n)"

lemma opt_val_simps [simp]: "opt_val None = 0" "opt_val (Some n) = unat n"
  by (simp_all add: opt_val_def)

lemma max_val_simps [simp]:
  "max_val \<rho> [] = 0"
  "max_val \<rho> (l # ls) = max (level_val \<rho> l) (max_val \<rho> ls)"
  "max_val \<rho> (ls @ ls') = max (max_val \<rho> ls) (max_val \<rho> ls')"
proof -
  have "insert 0 (level_val \<rho> ` set (ls @ ls')) =
      insert 0 (level_val \<rho> ` set ls) \<union> insert 0 (level_val \<rho> ` set ls')"
    by auto
  then show "max_val \<rho> (ls @ ls') = max (max_val \<rho> ls) (max_val \<rho> ls')"
    by (simp only: max_val_def) (subst Max_Un, auto)
qed (simp_all add: max_val_def insert_commute [of 0])

lemma max_val_set: "set ls = set ls' \<Longrightarrow> max_val \<rho> ls = max_val \<rho> ls'"
  by (simp add: max_val_def)

lemma max_val_flatten [simp]: "max_val \<rho> (flatten_max l) = level_val \<rho> l"
  by (induction l rule: flatten_max.induct) simp_all

lemma opt_val_merge:
  "opt_val (Some (case c of None \<Rightarrow> n | Some m \<Rightarrow> max m n)) = max (opt_val c) (unat n)"
  by (cases c) (simp_all add: unat_max)

lemma split_concrete_val:
  "split_concrete c syms ls = (c', syms') \<Longrightarrow>
   max (opt_val c') (max_val \<rho> syms') = max (max (opt_val c) (max_val \<rho> syms)) (max_val \<rho> ls)"
proof (induction c syms ls arbitrary: c' syms' rule: split_concrete.induct)
  case (2 c syms n rest)
  from 2(1) [of c' syms'] 2(2) show ?case
    by (simp only: split_concrete.simps opt_val_merge max_val_simps level_val.simps ac_simps)
qed (simp_all add: max.assoc)

lemma level_val_max_chain: "level_val \<rho> (max_chain ls) = max_val \<rho> ls"
  by (induction ls rule: max_chain.induct) simp_all

lemma level_val_assemble_max [level_val_simps]:
  "level_val \<rho> (level_assemble_max c syms) = max (opt_val c) (max_val \<rho> syms)"
  by (auto simp: level_assemble_max_def level_val_max_chain split: option.splits)

lemma list_min_le: "x \<in> set xs \<Longrightarrow> list_min xs \<le> x"
  by (cases xs) (auto simp: list_min_def Min.set_eq_fold [symmetric])

lemma common_succ_depth_le:
  "s \<in> set syms \<Longrightarrow> unat (level_common_succ_depth c syms) \<le> head_offset s"
  "c = Some n \<Longrightarrow> unat (level_common_succ_depth c syms) \<le> unat n"
proof -
  assume "s \<in> set syms"
  then have "level_common_succ_depth c syms \<le> level_succ_depth s"
    unfolding level_common_succ_depth_def by (intro list_min_le) auto
  then show "unat (level_common_succ_depth c syms) \<le> head_offset s"
    using level_succ_depth_le [of s] by (simp add: word_le_nat_alt)
next
  assume "c = Some n"
  then have "level_common_succ_depth c syms \<le> n"
    unfolding level_common_succ_depth_def by (intro list_min_le) auto
  then show "unat (level_common_succ_depth c syms) \<le> unat n"
    by (simp add: word_le_nat_alt)
qed

lemma max_val_strip:
  "(\<And>s. s \<in> set ls \<Longrightarrow> unat k \<le> head_offset s) \<Longrightarrow>
   max_val \<rho> (map (\<lambda>s. level_strip_succ s k) ls) = max_val \<rho> ls - unat k"
  by (induction ls) (auto simp: level_val_strip_succ)

lemma opt_val_sub: "opt_val (map_option (\<lambda>n. saturating_sub n k) c) = opt_val c - unat k"
  by (cases c) auto

text \<open>Stripping the common offset from every summand subtracts it from the whole maximum.\<close>

lemma level_val_stripped:
  defines "k c syms \<equiv> level_common_succ_depth c syms"
  shows "level_val \<rho> (level_assemble_max (map_option (\<lambda>n. saturating_sub n (k c syms)) c)
            (map (\<lambda>s. level_strip_succ s (k c syms)) syms)) =
         max (opt_val c) (max_val \<rho> syms) - unat (k c syms)"
  using common_succ_depth_le(1) [of _ syms c]
  by (simp add: level_val_assemble_max max_val_strip opt_val_sub k_def)

lemma common_succ_depth_le_max:
  assumes "syms \<noteq> [] \<or> c \<noteq> None"
  shows "unat (level_common_succ_depth c syms) \<le> max (opt_val c) (max_val \<rho> syms)"
proof (cases c)
  case (Some n)
  then show ?thesis using common_succ_depth_le(2) [of c n syms] by simp
next
  case None
  with assms obtain s ss where syms: "syms = s # ss" by (cases syms) auto
  then show ?thesis
    using common_succ_depth_le(1) [of s syms c] head_offset_le_val [of s \<rho>] by simp
qed

subsection \<open>Normalisation terminates and keeps the value\<close>

text \<open>
  One unfolding of \<open>level_max_canonical\<close> keeps the value if the normalisation it calls does;
  the equation holds on the domain of the recursion and, once termination is known, everywhere.
\<close>

definition max_canonical_unfold :: "level \<Rightarrow> level \<Rightarrow> level" where
  "max_canonical_unfold a b =
     (let (concrete, symbolic) = split_concrete None [] (flatten_max a @ flatten_max b);
          symbolic = dedup (sort_by level_struct_cmp symbolic);
          total = length symbolic + (if concrete = None then 0 else 1);
          succ_count = level_common_succ_depth concrete symbolic
      in if 2 \<le> total \<and> 0 < succ_count
         then level_add_offset
                (level_normalize
                  (level_assemble_max (map_option (\<lambda>n. saturating_sub n succ_count) concrete)
                    (map (\<lambda>s. level_strip_succ s succ_count) symbolic)))
                succ_count
         else level_assemble_max concrete symbolic)"

lemma max_canonical_unfold_val:
  assumes IH: "\<And>c syms0 syms k. split_concrete None [] (flatten_max a @ flatten_max b) = (c, syms0) \<Longrightarrow>
      syms = dedup (sort_by level_struct_cmp syms0) \<Longrightarrow> k = level_common_succ_depth c syms \<Longrightarrow>
      2 \<le> length syms + (if c = None then 0 else 1) \<and> 0 < k \<Longrightarrow>
      level_val \<rho> (level_normalize (level_assemble_max (map_option (\<lambda>n. saturating_sub n k) c)
        (map (\<lambda>s. level_strip_succ s k) syms))) =
      level_val \<rho> (level_assemble_max (map_option (\<lambda>n. saturating_sub n k) c)
        (map (\<lambda>s. level_strip_succ s k) syms))"
  shows "level_val \<rho> (max_canonical_unfold a b) = max (level_val \<rho> a) (level_val \<rho> b)"
proof -
  obtain c syms0 where split: "split_concrete None [] (flatten_max a @ flatten_max b) = (c, syms0)"
    by fastforce
  define syms where "syms = dedup (sort_by level_struct_cmp syms0)"
  define k where "k = level_common_succ_depth c syms"
  have "max_val \<rho> syms = max_val \<rho> syms0"
    unfolding syms_def by (rule max_val_set) simp
  then have total: "max (opt_val c) (max_val \<rho> syms) = max (level_val \<rho> a) (level_val \<rho> b)"
    using split_concrete_val [OF split, of \<rho>] by simp
  show ?thesis
  proof (cases "2 \<le> length syms + (if c = None then 0 else 1) \<and> 0 < k")
    case True
    then have ne: "syms \<noteq> [] \<or> c \<noteq> None" by (cases c) auto
    show ?thesis
      using True IH [OF split syms_def k_def True] level_val_stripped [of \<rho> c syms]
        common_succ_depth_le_max [OF ne, of \<rho>] total
      by (simp add: max_canonical_unfold_def split Let_def level_val_add_offset flip: syms_def k_def)
  next
    case False
    have "max_canonical_unfold a b = level_assemble_max c syms"
      by (simp only: max_canonical_unfold_def split Let_def prod.case
          syms_def [symmetric] k_def [symmetric] if_not_P [OF False])
    then show ?thesis using total by (simp add: level_val_assemble_max)
  qed
qed

lemma level_normalize_partial_val:
  "level_normalize_level_max_canonical_dom (Inl l) \<Longrightarrow> level_val \<rho> (level_normalize l) = level_val \<rho> l"
  "level_normalize_level_max_canonical_dom (Inr (a, b)) \<Longrightarrow>
     level_val \<rho> (level_max_canonical a b) = max (level_val \<rho> a) (level_val \<rho> b)"
proof (induction l and a b rule: level_normalize_level_max_canonical.pinduct)
  case (6 a b)
  show ?case
    unfolding level_max_canonical.psimps [OF 6(1)] max_canonical_unfold_def [symmetric]
    by (rule max_canonical_unfold_val) (rule 6(2) [OF _ refl _ refl], auto)
qed (simp_all add: level_normalize.psimps level_val_add_offset)

termination level_normalize
proof (relation "measures
    [\<lambda>x. case x of Inl l \<Rightarrow> level_val (\<lambda>_. 0) l
            | Inr (a, b) \<Rightarrow> max (level_val (\<lambda>_. 0) a) (level_val (\<lambda>_. 0) b),
     \<lambda>x. case x of Inl l \<Rightarrow> size l | Inr _ \<Rightarrow> 0]", goal_cases)
  case (7 a b x c syms0 syms total k)
  then have ne: "syms \<noteq> [] \<or> c \<noteq> None" by (cases c) auto
  have split: "split_concrete None [] (flatten_max a @ flatten_max b) = (c, syms0)"
    using 7 by simp
  have "max_val (\<lambda>_. 0) syms = max_val (\<lambda>_. 0) syms0"
    using 7(3) by (intro max_val_set) simp
  then have "max (opt_val c) (max_val (\<lambda>_. 0) syms) =
      max (level_val (\<lambda>_. 0) a) (level_val (\<lambda>_. 0) b)"
    using split_concrete_val [OF split, of "\<lambda>_. 0"] by simp
  then show ?case
    using level_val_stripped [of "\<lambda>_. 0" c syms] common_succ_depth_le_max [OF ne, of "\<lambda>_. 0"] 7
    by (auto simp: word_less_nat_alt)
qed (auto simp: level_normalize_partial_val unat_pos)

declare level_max_canonical.simps [simp del]

lemma level_max_canonical_unfold: "level_max_canonical a b = max_canonical_unfold a b"
  by (simp only: level_max_canonical.simps max_canonical_unfold_def)

lemma level_val_normalize_max_canonical:
  "level_val \<rho> (level_normalize l) = level_val \<rho> l"
  "level_val \<rho> (level_max_canonical a b) = max (level_val \<rho> a) (level_val \<rho> b)"
proof (induction l and a b rule: level_normalize_level_max_canonical.induct)
  case (6 a b)
  show ?case
    unfolding level_max_canonical_unfold
    by (rule max_canonical_unfold_val) (rule 6 [OF _ refl _ refl], auto)
qed (simp_all add: level_val_add_offset)

lemmas level_val_normalize [level_val_simps] = level_val_normalize_max_canonical(1)

subsection \<open>Successor, maximum, shift and equality\<close>

definition level_successor :: "level \<Rightarrow> level" where
  "level_successor l =
     (case l of
        Concrete n \<Rightarrow> (case checked_add n 1 of Some m \<Rightarrow> Concrete m | None \<Rightarrow> LSucc l)
      | other \<Rightarrow> LSucc other)"

definition max_with :: "level \<Rightarrow> level \<Rightarrow> level" where
  "max_with l other =
     (let a = level_normalize l; b = level_normalize other
      in case (a, b) of
           (Concrete n, Concrete m) \<Rightarrow> Concrete (max n m)
         | _ \<Rightarrow> if a = Concrete 0 then b
                else if b = Concrete 0 then a
                else if a = b then a
                else level_normalize (LMax a b))"

definition as_concrete :: "level \<Rightarrow> u32 option" where
  "as_concrete l = (case level_normalize l of Concrete n \<Rightarrow> Some n | _ \<Rightarrow> None)"

definition shifted_by :: "level \<Rightarrow> u32 \<Rightarrow> level" where
  "shifted_by l k = (if k = 0 then l else level_add_offset (level_normalize l) k)"

definition level_eq :: "level \<Rightarrow> level \<Rightarrow> bool" where
  "level_eq a b \<longleftrightarrow> level_normalize a = level_normalize b"

lemma level_val_successor [level_val_simps]: "level_val \<rho> (level_successor l) = Suc (level_val \<rho> l)"
  by (auto simp: level_successor_def dest: checked_add_SomeD split: level.splits option.splits)

lemma level_val_max_with [level_val_simps]:
  "level_val \<rho> (max_with a b) = max (level_val \<rho> a) (level_val \<rho> b)"
proof -
  define na where "na = level_normalize a"
  define nb where "nb = level_normalize b"
  have "level_val \<rho> (max_with a b) = max (level_val \<rho> na) (level_val \<rho> nb)"
    unfolding max_with_def Let_def na_def [symmetric] nb_def [symmetric]
    by (cases na; cases nb)
      (auto simp: unat_max level_val_normalize simp del: level_normalize.simps)
  then show ?thesis by (simp add: na_def nb_def level_val_normalize)
qed

lemma level_val_shifted_by [level_val_simps]:
  "level_val \<rho> (shifted_by l k) = level_val \<rho> l + unat k"
  by (simp add: shifted_by_def level_val_add_offset level_val_normalize)

lemma level_eq_val: "level_eq a b \<Longrightarrow> level_val \<rho> a = level_val \<rho> b"
  unfolding level_eq_def by (metis level_val_normalize)

subsection \<open>The structural order is linear\<close>

lemma level_struct_cmp_simps [simp]:
  "level_struct_cmp (Concrete x) (Concrete y) = cmp x y"
  "level_struct_cmp (LVar v) (LVar w) = cmp v w"
  "level_struct_cmp (LSucc a) (LSucc b) = level_struct_cmp a b"
  "level_struct_cmp (Offset a k) (Offset b m) = then_with (level_struct_cmp a b) (cmp k m)"
  "level_struct_cmp (LMax a b) (LMax c d) = then_with (level_struct_cmp a c) (level_struct_cmp b d)"
  by (simp_all add: level_struct_cmp.simps [of "Concrete x"] level_struct_cmp.simps [of "LVar v"]
      level_struct_cmp.simps [of "LSucc a" "LSucc b"] level_struct_cmp.simps [of "Offset a k" "Offset b m"]
      level_struct_cmp.simps [of "LMax a b" "LMax c d"] cmp_def)

lemma level_struct_cmp_rank:
  "level_rank a \<noteq> level_rank b \<Longrightarrow> level_struct_cmp a b = cmp (level_rank a) (level_rank b)"
  by (subst level_struct_cmp.simps) (auto simp: cmp_def)

lemma level_struct_cmp_Equal [simp]: "level_struct_cmp a b = Equal \<longleftrightarrow> a = b"
  by (induction a arbitrary: b; case_tac b) (auto simp: level_struct_cmp_rank)

lemma level_struct_cmp_swap: "level_struct_cmp a b = Greater \<longleftrightarrow> level_struct_cmp b a = Less"
  by (induction a arbitrary: b; case_tac b) (auto simp: level_struct_cmp_rank)

lemma level_struct_cmp_trans:
  "level_struct_cmp a b = Less \<Longrightarrow> level_struct_cmp b c = Less \<Longrightarrow> level_struct_cmp a c = Less"
  by (induction a arbitrary: b c; case_tac b; case_tac c) (auto simp: level_struct_cmp_rank)

instantiation level :: linorder
begin

definition less_eq_level :: "level \<Rightarrow> level \<Rightarrow> bool" where
  "less_eq_level a b \<longleftrightarrow> level_struct_cmp a b \<noteq> Greater"

definition less_level :: "level \<Rightarrow> level \<Rightarrow> bool" where
  "less_level a b \<longleftrightarrow> level_struct_cmp a b = Less"

lemma less_eq_level_iff: "a \<le> b \<longleftrightarrow> level_struct_cmp a b = Less \<or> a = (b :: level)"
  unfolding less_eq_level_def
  by (cases "level_struct_cmp a b") (auto simp del: level_struct_cmp_Equal simp flip: level_struct_cmp_Equal)

instance
proof
  fix a b c :: level
  show "a < b \<longleftrightarrow> a \<le> b \<and> \<not> b \<le> a"
    by (auto simp: less_eq_level_def less_level_def level_struct_cmp_swap [of b a])
  show "a \<le> a"
    by (simp add: less_eq_level_iff)
  show "a \<le> b \<Longrightarrow> b \<le> c \<Longrightarrow> a \<le> c"
    unfolding less_eq_level_iff using level_struct_cmp_trans by blast
  show "a \<le> b \<Longrightarrow> b \<le> a \<Longrightarrow> a = b"
    using level_struct_cmp_swap [of a b] by (auto simp: less_eq_level_iff)
  show "a \<le> b \<or> b \<le> a"
    by (cases "level_struct_cmp a b") (auto simp: less_eq_level_iff level_struct_cmp_swap)
qed

end

lemma sort_by_level [simp]: "sort_by level_struct_cmp ls = sort ls"
  by (rule sort_by_sort) (simp add: less_level_def level_struct_cmp_swap)

subsection \<open>What normalisation decides\<close>

definition merge_concrete :: "u32 \<Rightarrow> u32 option \<Rightarrow> u32 option" where
  "merge_concrete n c = Some (case c of None \<Rightarrow> n | Some m \<Rightarrow> max m n)"

fun is_concrete :: "level \<Rightarrow> bool" where
  "is_concrete (Concrete _) = True"
| "is_concrete _ = False"

fun concrete_of :: "level \<Rightarrow> u32" where
  "concrete_of (Concrete n) = n"
| "concrete_of _ = 0"

lemma split_concrete_eq:
  "split_concrete c syms ls =
     (fold merge_concrete (map concrete_of (filter is_concrete ls)) c,
      syms @ filter (\<lambda>l. \<not> is_concrete l) ls)"
  by (induction c syms ls rule: split_concrete.induct) (simp_all add: merge_concrete_def)

lemma merge_concrete_commute: "merge_concrete n \<circ> merge_concrete m = merge_concrete m \<circ> merge_concrete n"
  by (auto simp: merge_concrete_def fun_eq_iff max.commute max.left_commute split: option.splits)

lemma split_concrete_swap:
  assumes "split_concrete None [] (xs @ ys) = (c, syms)"
    and "split_concrete None [] (ys @ xs) = (c', syms')"
  shows "c' = c \<and> sort syms' = sort syms"
proof -
  have "fold merge_concrete (map concrete_of (filter is_concrete (ys @ xs))) =
      fold merge_concrete (map concrete_of (filter is_concrete (xs @ ys)))"
    by (rule fold_multiset_equiv) (simp_all add: merge_concrete_commute)
  moreover have "mset syms' = mset syms"
    using assms by (auto simp: split_concrete_eq)
  ultimately show ?thesis
    using assms properties_for_sort [of "sort syms" syms']
    by (auto simp: split_concrete_eq)
qed

lemma level_max_canonical_commute: "level_max_canonical a b = level_max_canonical b a"
proof -
  obtain c syms where ab: "split_concrete None [] (flatten_max a @ flatten_max b) = (c, syms)"
    by fastforce
  obtain c' syms' where ba: "split_concrete None [] (flatten_max b @ flatten_max a) = (c', syms')"
    by fastforce
  show ?thesis
    using split_concrete_swap [OF ab ba]
    by (simp add: level_max_canonical.simps [of a b] level_max_canonical.simps [of b a] ab ba Let_def)
qed

primrec closed_level :: "level \<Rightarrow> bool" where
  "closed_level (Concrete n) \<longleftrightarrow> True"
| "closed_level (LVar v) \<longleftrightarrow> False"
| "closed_level (LSucc l) \<longleftrightarrow> closed_level l"
| "closed_level (LMax a b) \<longleftrightarrow> closed_level a \<and> closed_level b"
| "closed_level (Offset l k) \<longleftrightarrow> closed_level l"

lemma add_offset_concrete:
  "unat n + unat k < 4294967296 \<Longrightarrow> level_add_offset (Concrete n) k = Concrete (n + k)"
  by (simp add: checked_add_def)

lemma max_canonical_concrete:
  "level_max_canonical (Concrete n) (Concrete m) = Concrete (max n m)"
  by (simp add: level_max_canonical.simps split_concrete_eq merge_concrete_def
      level_assemble_max_def sort_by_def)

lemma normalize_closed_concrete:
  "closed_level l \<Longrightarrow> level_val (\<lambda>_. 0) l < 4294967296 \<Longrightarrow> \<exists>n. level_normalize l = Concrete n"
proof (induction l)
  case (LSucc l)
  then obtain n where n: "level_normalize l = Concrete n" by auto
  then have "unat n + unat (1 :: u32) < 4294967296"
    using LSucc.prems level_val_normalize [of "\<lambda>_. 0" l] by simp
  from add_offset_concrete [OF this] show ?case by (simp add: n)
next
  case (Offset l k)
  then obtain n where n: "level_normalize l = Concrete n" by auto
  then have "unat n + unat k < 4294967296"
    using Offset.prems level_val_normalize [of "\<lambda>_. 0" l] by simp
  from add_offset_concrete [OF this] show ?case by (simp add: n)
next
  case (LMax a b)
  then show ?case by (auto simp: max_canonical_concrete)
qed auto

text \<open>Rules that evaluate a canonical maximum of concrete summands.\<close>

lemmas canonical_eval =
  level_max_canonical.simps sort_by_def level_common_succ_depth_def list_min_def
  level_succ_depth_def level_assemble_max_def level_struct_cmp_rank cmp_def saturating_add_def
  checked_add_def level_offset_node_def min_def

subsection \<open>Properties\<close>

text \<open>Level arithmetic is exact. For every assignment of the level variables, adding an
  offset, taking the successor, shifting and taking the maximum compute the natural-number
  operation on the value of the level, also where the 32-bit wire integers would overflow, and
  normalisation (which always returns) keeps the value.\<close>

theorem level_arithmetic_exact:
  "level_val \<rho> (level_normalize l) = level_val \<rho> l \<and>
   level_val \<rho> (level_successor l) = level_val \<rho> l + 1 \<and>
   level_val \<rho> (level_add_offset l k) = level_val \<rho> l + unat k \<and>
   level_val \<rho> (shifted_by l k) = level_val \<rho> l + unat k \<and>
   level_val \<rho> (max_with l m) = max (level_val \<rho> l) (level_val \<rho> m)"
  by (simp add: level_val_simps)

text \<open>Level equality is sound, and complete on closed levels whose value fits the wire
  integer: equal levels have the same value under every assignment, and two closed levels below
  2 to the 32 are equal exactly when their values are.\<close>

theorem level_eq_decides:
  assumes "closed_level a" and "closed_level b"
    and "level_val (\<lambda>_. 0) a < 2 ^ 32" and "level_val (\<lambda>_. 0) b < 2 ^ 32"
  shows "level_eq a b \<longleftrightarrow> (\<forall>\<rho>. level_val \<rho> a = level_val \<rho> b)"
proof
  assume "level_eq a b"
  then show "\<forall>\<rho>. level_val \<rho> a = level_val \<rho> b" by (blast intro: level_eq_val)
next
  assume eq: "\<forall>\<rho>. level_val \<rho> a = level_val \<rho> b"
  obtain n m where n: "level_normalize a = Concrete n" and m: "level_normalize b = Concrete m"
    using assms normalize_closed_concrete by fastforce
  have "unat n = unat m"
    using eq level_val_normalize [of "\<lambda>_. 0" a] level_val_normalize [of "\<lambda>_. 0" b] n m by simp
  then show "level_eq a b" by (simp add: level_eq_def n m word_unat_eq_iff)
qed

theorem level_eq_decides_witness:
  "level_eq (LMax (LSucc (Concrete 4)) (Concrete 2)) (Offset (Concrete 3) 2) \<longleftrightarrow>
   (\<forall>\<rho>. level_val \<rho> (LMax (LSucc (Concrete 4)) (Concrete 2)) = level_val \<rho> (Offset (Concrete 3) 2))"
  by (rule level_eq_decides) simp_all

text \<open>The canonical form of a maximum does not depend on the order of its arguments.\<close>

theorem level_max_commutative:
  "level_normalize (LMax a b) = level_normalize (LMax b a) \<and> level_eq (LMax a b) (LMax b a)"
  by (simp add: level_eq_def level_max_canonical_commute)

text \<open>Normalisation is not idempotent, although its documentation says so: on
  \<open>max(max(u, v + 1), w + 1)\<close> the first pass leaves the two successors unfactored at the end of
  the chain and the second pass factors them, so the two canonical forms of one level differ.\<close>

theorem level_normalize_not_idempotent:
  "let l = LMax (LMax (LVar ''u'') (LSucc (LVar ''v''))) (LSucc (LVar ''w''))
   in level_normalize (level_normalize l) \<noteq> level_normalize l \<and>
      \<not> level_eq l (LMax (LVar ''u'') (LMax (LSucc (LVar ''v'')) (LSucc (LVar ''w''))))"
  by (simp add: level_eq_def canonical_eval del: sort_by_level)

end
