(* ===== verification/Terms.thy ===== *)
theory Terms
  imports Levels
begin

section \<open>Proof terms and de Bruijn traversals\<close>

text \<open>
  Models the abstract syntax of \<open>crates/verum_proof/src/proof_checker.rs\<close> (\<open>Term\<close>,
  \<open>DataField\<close>, \<open>DataConstructor\<close>) and its traversals: \<open>map_children\<close>,
  \<open>map_variables\<close>, \<open>shift_up\<close>, \<open>shift_down\<close>, \<open>subst\<close> and the free-variable test
  \<open>contains_free_by\<close>. De Bruijn indices (\<open>usize\<close>) are natural numbers; \<open>shift_up_usize\<close> is the
  shift at machine width, and \<open>index_arithmetic_exact\<close> shows that on scoped terms the two agree.

  Every traversal of the source is the one generic traversal \<open>map_variables\<close> with
  its own action on variables; the locale \<open>traversal\<close> states that contract once
  and each traversal interprets it. Two laws of \<open>map_variables\<close>, fusion and
  agreement, then reduce the whole substitution calculus to arithmetic on indices.
\<close>

named_theorems node_simps \<open>each traversal on a term that is not a variable\<close>

subsection \<open>Syntax\<close>

datatype tm =
    Data string level "tm list" "data_constructor list"
  | Construct tm nat "tm list"
  | Induct tm tm "tm list"
  | LetT tm tm
  | Var nat
  | Universe level
  | PiT tm tm
  | Lam tm tm
  | App tm tm
  | SigmaT tm tm
  | PairT tm tm
  | FstT tm
  | SndT tm
  | IdT tm tm tm
  | Refl tm
  | J tm tm tm
  | IdElim tm tm tm
  | FunExt tm tm tm tm
and data_field = Value tm | Dependent tm | Recursive | RecursiveAt "tm list"
and data_constructor = DataConstructor (con_fields: "data_field list") (con_indices: "tm list")

fun map_field :: "(tm \<Rightarrow> nat \<Rightarrow> tm) \<Rightarrow> nat \<Rightarrow> data_field \<Rightarrow> data_field" where
  "map_field f index (Value t) = Value (f t 0)"
| "map_field f index (Dependent t) = Dependent (f t index)"
| "map_field f index Recursive = Recursive"
| "map_field f index (RecursiveAt ts) = RecursiveAt (map (\<lambda>t. f t index) ts)"

fun map_constructor :: "(tm \<Rightarrow> nat \<Rightarrow> tm) \<Rightarrow> data_constructor \<Rightarrow> data_constructor" where
  "map_constructor f (DataConstructor fields indices) =
     DataConstructor (map (\<lambda>(i, field). map_field f i field) (List.enumerate 0 fields))
       (map (\<lambda>t. f t (length fields)) indices)"

fun map_children :: "tm \<Rightarrow> (tm \<Rightarrow> nat \<Rightarrow> tm) \<Rightarrow> tm" where
  "map_children (FunExt a b c d) f = FunExt (f a 0) (f b 0) (f c 0) (f d 0)"
| "map_children (Data n l indices cs) f =
     Data n l (map (\<lambda>(i, ty). f ty i) (List.enumerate 0 indices)) (map (map_constructor f) cs)"
| "map_children (Construct d k args) f = Construct (f d 0) k (map (\<lambda>t. f t 0) args)"
| "map_children (Induct s m cases) f = Induct (f s 0) (f m 0) (map (\<lambda>t. f t 0) cases)"
| "map_children (LetT v b) f = LetT (f v 0) (f b 1)"
| "map_children (PiT a b) f = PiT (f a 0) (f b 1)"
| "map_children (Lam a b) f = Lam (f a 0) (f b 1)"
| "map_children (SigmaT a b) f = SigmaT (f a 0) (f b 1)"
| "map_children (App a b) f = App (f a 0) (f b 0)"
| "map_children (PairT a b) f = PairT (f a 0) (f b 0)"
| "map_children (FstT a) f = FstT (f a 0)"
| "map_children (SndT a) f = SndT (f a 0)"
| "map_children (Refl a) f = Refl (f a 0)"
| "map_children (IdT a b c) f = IdT (f a 0) (f b 0) (f c 0)"
| "map_children (J m b s) f = J (f m 0) (f b 0) (f s 0)"
| "map_children (IdElim m b s) f = IdElim (f m 0) (f b 0) (f s 0)"
| "map_children (Var i) f = Var i"
| "map_children (Universe l) f = Universe l"

text \<open>The immediate children of a term, each with the number of binders it is under.\<close>

fun field_children :: "nat \<Rightarrow> data_field \<Rightarrow> (tm \<times> nat) list" where
  "field_children index (Value t) = [(t, 0)]"
| "field_children index (Dependent t) = [(t, index)]"
| "field_children index Recursive = []"
| "field_children index (RecursiveAt ts) = map (\<lambda>t. (t, index)) ts"

fun con_children :: "data_constructor \<Rightarrow> (tm \<times> nat) list" where
  "con_children (DataConstructor fields indices) =
     map (\<lambda>t. (t, length fields)) indices @
     concat (map (\<lambda>(i, field). field_children i field) (List.enumerate 0 fields))"

fun children :: "tm \<Rightarrow> (tm \<times> nat) list" where
  "children (FunExt a b c d) = [(a, 0), (b, 0), (c, 0), (d, 0)]"
| "children (Data n l indices cs) =
     map (\<lambda>(i, ty). (ty, i)) (List.enumerate 0 indices) @ concat (map con_children cs)"
| "children (Construct d k args) = (d, 0) # map (\<lambda>t. (t, 0)) args"
| "children (Induct s m cases) = (s, 0) # (m, 0) # map (\<lambda>t. (t, 0)) cases"
| "children (LetT a b) = [(a, 0), (b, 1)]"
| "children (PiT a b) = [(a, 0), (b, 1)]"
| "children (Lam a b) = [(a, 0), (b, 1)]"
| "children (SigmaT a b) = [(a, 0), (b, 1)]"
| "children (App a b) = [(a, 0), (b, 0)]"
| "children (PairT a b) = [(a, 0), (b, 0)]"
| "children (FstT a) = [(a, 0)]"
| "children (SndT a) = [(a, 0)]"
| "children (Refl a) = [(a, 0)]"
| "children (IdT a b c) = [(a, 0), (b, 0), (c, 0)]"
| "children (J m b s) = [(m, 0), (b, 0), (s, 0)]"
| "children (IdElim m b s) = [(m, 0), (b, 0), (s, 0)]"
| "children (Var i) = []"
| "children (Universe l) = []"

lemma in_enumerateD: "(i, x) \<in> set (List.enumerate n xs) \<Longrightarrow> x \<in> set xs"
  by (auto simp: set_enumerate_iff)

lemma field_children_size: "(c, b) \<in> set (field_children i f) \<Longrightarrow> size c < size f"
  by (cases f) (auto simp: less_Suc_eq_le intro: size_list_estimation')

lemma con_children_size: "(c, b) \<in> set (con_children k) \<Longrightarrow> size c < size k"
  by (cases k)
    (auto simp: less_Suc_eq_le dest!: field_children_size in_enumerateD
      intro: size_list_estimation' trans_le_add1 trans_le_add2 less_imp_le)

lemma children_size [dest]: "(c, b) \<in> set (children t) \<Longrightarrow> size c < size t"
  by (cases t)
    (auto simp: less_Suc_eq_le dest!: con_children_size in_enumerateD
      intro: size_list_estimation' trans_le_add1 trans_le_add2 less_imp_le)

lemma tm_children_induct [case_names node]:
  "(\<And>t. (\<And>c b. (c, b) \<in> set (children t) \<Longrightarrow> P c) \<Longrightarrow> P t) \<Longrightarrow> P t"
  by (induction t rule: measure_induct_rule [of size]) blast

lemma map_field_cong:
  "(\<And>c b. (c, b) \<in> set (field_children i fd) \<Longrightarrow> f c b = g c b) \<Longrightarrow> map_field f i fd = map_field g i fd"
  by (cases fd) auto

lemma map_constructor_cong:
  "(\<And>c b. (c, b) \<in> set (con_children k) \<Longrightarrow> f c b = g c b) \<Longrightarrow> map_constructor f k = map_constructor g k"
  by (cases k) (fastforce intro: map_field_cong)

lemma map_children_cong [fundef_cong]:
  "t = t' \<Longrightarrow> (\<And>c b. (c, b) \<in> set (children t') \<Longrightarrow> f c b = g c b) \<Longrightarrow>
   map_children t f = map_children t' g"
  by (cases t') (force intro: map_constructor_cong)+

lemma children_map_field:
  "field_children i (map_field f i fd) = map (\<lambda>(c, b). (f c b, b)) (field_children i fd)"
  by (cases fd) auto

lemma map_concat_enumerate:
  "(\<And>i x. h i (g i x) = map k (h' i x)) \<Longrightarrow>
   concat (map (\<lambda>(i, x). h i x) (List.enumerate n (map (\<lambda>(i, x). g i x) (List.enumerate n xs)))) =
   map k (concat (map (\<lambda>(i, x). h' i x) (List.enumerate n xs)))"
  by (induction xs arbitrary: n) auto

lemma children_map_constructor:
  "con_children (map_constructor f k) = map (\<lambda>(c, b). (f c b, b)) (con_children k)"
  by (cases k) (auto simp: children_map_field intro!: map_concat_enumerate)

lemma enumerate_map_enumerate:
  "List.enumerate n (map (\<lambda>(i, x). g i x) (List.enumerate n xs)) =
   map (\<lambda>(i, x). (i, g i x)) (List.enumerate n xs)"
  by (induction xs arbitrary: n) auto

lemma children_map_children:
  "children (map_children t f) = map (\<lambda>(c, b). (f c b, b)) (children t)"
  by (cases t) (auto simp: enumerate_map_enumerate children_map_constructor map_concat comp_def)

lemma map_field_comp: "map_field f i (map_field g i fd) = map_field (\<lambda>c b. f (g c b) b) i fd"
  by (cases fd) auto

lemma map_constructor_comp:
  "map_constructor f (map_constructor g k) = map_constructor (\<lambda>c b. f (g c b) b) k"
  by (cases k) (auto simp: enumerate_map_enumerate map_field_comp)

lemma map_children_comp:
  "map_children (map_children t g) f = map_children t (\<lambda>c b. f (g c b) b)"
  by (cases t) (auto simp: enumerate_map_enumerate map_constructor_comp)

lemma map_field_ident: "map_field (\<lambda>c b. c) i fd = fd"
  by (cases fd) auto

lemma map_enumerate_ident:
  "(\<And>i x. g i x = x) \<Longrightarrow> map (\<lambda>(i, x). g i x) (List.enumerate n xs) = xs"
  by (induction xs arbitrary: n) auto

lemma map_constructor_ident: "map_constructor (\<lambda>c b. c) k = k"
  by (cases k) (simp add: map_enumerate_ident map_field_ident)

lemma map_children_ident [simp]: "map_children t (\<lambda>c b. c) = t"
  by (cases t) (simp_all add: map_idI map_constructor_ident map_enumerate_ident)

fun is_var :: "tm \<Rightarrow> bool" where
  "is_var (Var i) = True"
| "is_var _ = False"

lemma is_var_map_children [simp]: "is_var (map_children t f) = is_var t"
  by (cases t) auto

subsection \<open>The generic traversal\<close>

function map_variables :: "tm \<Rightarrow> nat \<Rightarrow> (nat \<Rightarrow> nat \<Rightarrow> tm) \<Rightarrow> tm" where
  "map_variables t depth f =
     (case t of
        Var index \<Rightarrow> f index depth
      | _ \<Rightarrow> map_children t (\<lambda>child binders. map_variables child (depth + binders) f))"
  by pat_completeness auto
termination
  by (relation "measure (\<lambda>(t, _, _). size t)") (auto simp del: children.simps)

declare map_variables.simps [simp del]

lemma map_variables_Var [simp]: "map_variables (Var i) d f = f i d"
  by (simp add: map_variables.simps)

lemma map_variables_node [node_simps]:
  "\<not> is_var t \<Longrightarrow> map_variables t d f = map_children t (\<lambda>c b. map_variables c (d + b) f)"
  by (subst map_variables.simps) (cases t; simp)

text \<open>Agreement: two actions that agree at every depth traverse alike.\<close>

lemma map_variables_agree:
  "(\<And>i k. f i (d + k) = g i (e + k)) \<Longrightarrow> map_variables t d f = map_variables t e g"
proof (induction t arbitrary: d e rule: tm_children_induct)
  case (node t)
  show ?case
  proof (cases "is_var t")
    case True
    then show ?thesis using node.prems [of _ 0] by (cases t) auto
  next
    case False
    have "map_variables c (d + b) f = map_variables c (e + b) g" if "(c, b) \<in> set (children t)" for c b
      using node.IH [OF that, of "d + b" "e + b"] node.prems by (simp add: add.assoc)
    then show ?thesis using False by (simp add: map_variables_node cong: map_children_cong)
  qed
qed

text \<open>Fusion: one traversal after another is the traversal by the composed action.\<close>

lemma map_variables_fuse:
  "(\<And>i k. map_variables (f i (d + k)) (e + k) g = h i (m + k)) \<Longrightarrow>
   map_variables (map_variables t d f) e g = map_variables t m h"
proof (induction t arbitrary: d e m rule: tm_children_induct)
  case (node t)
  show ?case
  proof (cases "is_var t")
    case True
    then show ?thesis using node.prems [of _ 0] by (cases t) auto
  next
    case False
    have "map_variables (map_variables c (d + b) f) (e + b) g = map_variables c (m + b) h"
      if "(c, b) \<in> set (children t)" for c b
      using node.IH [OF that, of "d + b" "e + b" "m + b"] node.prems by (simp add: add.assoc)
    then show ?thesis using False by (simp add: map_variables_node map_children_comp cong: map_children_cong)
  qed
qed

lemma map_variables_ident: "(\<And>i k. f i (d + k) = Var i) \<Longrightarrow> map_variables t d f = t"
proof (induction t arbitrary: d rule: tm_children_induct)
  case (node t)
  show ?case
  proof (cases "is_var t")
    case True
    then show ?thesis using node.prems [of _ 0] by (cases t) auto
  next
    case False
    have "map_variables c (d + b) f = c" if "(c, b) \<in> set (children t)" for c b
      using node.IH [OF that, of "d + b"] node.prems by (simp add: add.assoc)
    then have "map_children t (\<lambda>c b. map_variables c (d + b) f) = map_children t (\<lambda>c b. c)"
      by (intro map_children_cong) auto
    then show ?thesis using False by (simp add: map_variables_node)
  qed
qed

text \<open>
  The contract of a traversal of the source: its action on a variable at a depth, and that it
  maps every child at the depth its binders add.
\<close>

locale traversal =
  fixes trav :: "tm \<Rightarrow> nat \<Rightarrow> tm" and act :: "nat \<Rightarrow> nat \<Rightarrow> tm"
  assumes trav_Var: "trav (Var i) d = act i d"
    and trav_node: "\<not> is_var t \<Longrightarrow> trav t d = map_children t (\<lambda>c b. trav c (d + b))"
begin

lemma trav_eq_map_variables: "trav t d = map_variables t d act"
proof (induction t arbitrary: d rule: tm_children_induct)
  case (node t)
  show ?case
  proof (cases "is_var t")
    case True
    then show ?thesis by (cases t) (auto simp: trav_Var)
  next
    case False
    then show ?thesis using node.IH by (simp add: trav_node map_variables_node cong: map_children_cong)
  qed
qed

lemma trav_ident: "(\<And>i k. act i (d + k) = Var i) \<Longrightarrow> trav t d = t"
  unfolding trav_eq_map_variables by (rule map_variables_ident)

lemma trav_agree: "(\<And>i k. act i (d + k) = act i (e + k)) \<Longrightarrow> trav t d = trav t e"
  unfolding trav_eq_map_variables by (rule map_variables_agree)

end

subsection \<open>Shifting and substitution\<close>

function shift_up :: "tm \<Rightarrow> nat \<Rightarrow> nat \<Rightarrow> tm" where
  "shift_up t amount cutoff =
     (if amount = 0 then t else case t of
        LetT v b \<Rightarrow> LetT (shift_up v amount cutoff) (shift_up b amount (cutoff + 1))
      | Data _ _ _ _ \<Rightarrow> map_children t (\<lambda>child binders. shift_up child amount (cutoff + binders))
      | Construct _ _ _ \<Rightarrow> map_children t (\<lambda>child binders. shift_up child amount (cutoff + binders))
      | Induct _ _ _ \<Rightarrow> map_children t (\<lambda>child binders. shift_up child amount (cutoff + binders))
      | FunExt _ _ _ _ \<Rightarrow> map_children t (\<lambda>child binders. shift_up child amount (cutoff + binders))
      | Var i \<Rightarrow> if cutoff \<le> i then Var (i + amount) else Var i
      | Universe l \<Rightarrow> Universe l
      | PiT a b \<Rightarrow> PiT (shift_up a amount cutoff) (shift_up b amount (cutoff + 1))
      | Lam a b \<Rightarrow> Lam (shift_up a amount cutoff) (shift_up b amount (cutoff + 1))
      | App a b \<Rightarrow> App (shift_up a amount cutoff) (shift_up b amount cutoff)
      | SigmaT a b \<Rightarrow> SigmaT (shift_up a amount cutoff) (shift_up b amount (cutoff + 1))
      | PairT a b \<Rightarrow> PairT (shift_up a amount cutoff) (shift_up b amount cutoff)
      | FstT a \<Rightarrow> FstT (shift_up a amount cutoff)
      | SndT a \<Rightarrow> SndT (shift_up a amount cutoff)
      | IdT a b c \<Rightarrow> IdT (shift_up a amount cutoff) (shift_up b amount cutoff) (shift_up c amount cutoff)
      | Refl a \<Rightarrow> Refl (shift_up a amount cutoff)
      | J m b s \<Rightarrow>
          J (shift_up m amount cutoff) (shift_up b amount cutoff) (shift_up s amount cutoff)
      | IdElim m b s \<Rightarrow>
          IdElim (shift_up m amount cutoff) (shift_up b amount cutoff) (shift_up s amount cutoff))"
  by pat_completeness auto
termination
  by (relation "measure (\<lambda>(t, _, _). size t)") (auto simp del: children.simps)

declare shift_up.simps [simp del]

function subst :: "tm \<Rightarrow> nat \<Rightarrow> tm \<Rightarrow> tm" where
  "subst t target replacement =
     (case t of
        LetT v b \<Rightarrow> LetT (subst v target replacement) (subst b (target + 1) replacement)
      | Data _ _ _ _ \<Rightarrow> map_children t (\<lambda>child binders. subst child (target + binders) replacement)
      | Construct _ _ _ \<Rightarrow> map_children t (\<lambda>child binders. subst child (target + binders) replacement)
      | Induct _ _ _ \<Rightarrow> map_children t (\<lambda>child binders. subst child (target + binders) replacement)
      | FunExt _ _ _ _ \<Rightarrow> map_children t (\<lambda>child binders. subst child (target + binders) replacement)
      | Var i \<Rightarrow> 
          (case cmp i target of
             Equal \<Rightarrow> shift_up replacement target 0
           | Greater \<Rightarrow> Var (i - 1)
           | Less \<Rightarrow> Var i)
      | Universe l \<Rightarrow> Universe l
      | PiT a b \<Rightarrow> PiT (subst a target replacement) (subst b (target + 1) replacement)
      | Lam a b \<Rightarrow> Lam (subst a target replacement) (subst b (target + 1) replacement)
      | App a b \<Rightarrow> App (subst a target replacement) (subst b target replacement)
      | SigmaT a b \<Rightarrow> SigmaT (subst a target replacement) (subst b (target + 1) replacement)
      | PairT a b \<Rightarrow> PairT (subst a target replacement) (subst b target replacement)
      | FstT a \<Rightarrow> FstT (subst a target replacement)
      | SndT a \<Rightarrow> SndT (subst a target replacement)
      | IdT a b c \<Rightarrow> IdT (subst a target replacement) (subst b target replacement) (subst c target replacement)
      | Refl a \<Rightarrow> Refl (subst a target replacement)
      | J m b s \<Rightarrow>
          J (subst m target replacement) (subst b target replacement) (subst s target replacement)
      | IdElim m b s \<Rightarrow>
          IdElim (subst m target replacement) (subst b target replacement) (subst s target replacement))"
  by pat_completeness auto
termination
  by (relation "measure (\<lambda>(t, _, _). size t)") (auto simp del: children.simps)

declare subst.simps [simp del]

function shift_down :: "tm \<Rightarrow> nat \<Rightarrow> nat \<Rightarrow> tm" where
  "shift_down t amount cutoff =
     (case t of
        LetT v b \<Rightarrow> LetT (shift_down v amount cutoff) (shift_down b amount (cutoff + 1))
      | Data _ _ _ _ \<Rightarrow> map_children t (\<lambda>child binders. shift_down child amount (cutoff + binders))
      | Construct _ _ _ \<Rightarrow> map_children t (\<lambda>child binders. shift_down child amount (cutoff + binders))
      | Induct _ _ _ \<Rightarrow> map_children t (\<lambda>child binders. shift_down child amount (cutoff + binders))
      | FunExt _ _ _ _ \<Rightarrow> map_children t (\<lambda>child binders. shift_down child amount (cutoff + binders))
      | Var i \<Rightarrow> if cutoff + amount \<le> i then Var (i - amount) else if i < cutoff then Var i else Var i
      | Universe l \<Rightarrow> Universe l
      | PiT a b \<Rightarrow> PiT (shift_down a amount cutoff) (shift_down b amount (cutoff + 1))
      | Lam a b \<Rightarrow> Lam (shift_down a amount cutoff) (shift_down b amount (cutoff + 1))
      | App a b \<Rightarrow> App (shift_down a amount cutoff) (shift_down b amount cutoff)
      | SigmaT a b \<Rightarrow> SigmaT (shift_down a amount cutoff) (shift_down b amount (cutoff + 1))
      | PairT a b \<Rightarrow> PairT (shift_down a amount cutoff) (shift_down b amount cutoff)
      | FstT a \<Rightarrow> FstT (shift_down a amount cutoff)
      | SndT a \<Rightarrow> SndT (shift_down a amount cutoff)
      | IdT a b c \<Rightarrow> IdT (shift_down a amount cutoff) (shift_down b amount cutoff) (shift_down c amount cutoff)
      | Refl a \<Rightarrow> Refl (shift_down a amount cutoff)
      | J m b s \<Rightarrow>
          J (shift_down m amount cutoff) (shift_down b amount cutoff) (shift_down s amount cutoff)
      | IdElim m b s \<Rightarrow>
          IdElim (shift_down m amount cutoff) (shift_down b amount cutoff) (shift_down s amount cutoff))"
  by pat_completeness auto
termination
  by (relation "measure (\<lambda>(t, _, _). size t)") (auto simp del: children.simps)

declare shift_down.simps [simp del]

definition lift_term_one_binder :: "tm \<Rightarrow> tm" where
  "lift_term_one_binder t = shift_up t 1 0"

abbreviation shift_act :: "nat \<Rightarrow> nat \<Rightarrow> nat \<Rightarrow> tm" where
  "shift_act amount i d \<equiv> Var (if d \<le> i then i + amount else i)"

abbreviation subst_act :: "tm \<Rightarrow> nat \<Rightarrow> nat \<Rightarrow> tm" where
  "subst_act u i d \<equiv> if i = d then shift_up u d 0 else if d < i then Var (i - 1) else Var i"

abbreviation shift_down_act :: "nat \<Rightarrow> nat \<Rightarrow> nat \<Rightarrow> tm" where
  "shift_down_act amount i d \<equiv> if d + amount \<le> i then Var (i - amount) else Var i"

lemma shift_up_0 [simp]: "shift_up t 0 c = t"
  by (simp add: shift_up.simps)

lemma shift_up_node:
  "\<not> is_var t \<Longrightarrow> shift_up t amount d = map_children t (\<lambda>c b. shift_up c amount (d + b))"
proof (cases "amount = 0")
  case False
  assume "\<not> is_var t"
  then show ?thesis using False by (subst shift_up.simps) (cases t; simp)
qed simp

interpretation up: traversal "\<lambda>t c. shift_up t amount c" "shift_act amount" for amount
proof
  show "shift_up (Var i) amount d = shift_act amount i d" for i d
    by (simp add: shift_up.simps)
  show "\<not> is_var t \<Longrightarrow> shift_up t amount d = map_children t (\<lambda>c b. shift_up c amount (d + b))" for t d
    by (rule shift_up_node)
qed

interpretation sub: traversal "\<lambda>t k. subst t k u" "subst_act u" for u
proof
  show "subst (Var i) d u = subst_act u i d" for i d
    by (auto simp: subst.simps cmp_def)
  show "\<not> is_var t \<Longrightarrow> subst t d u = map_children t (\<lambda>c b. subst c (d + b) u)" for t d
    by (subst subst.simps) (cases t; simp)
qed

interpretation down: traversal "\<lambda>t c. shift_down t amount c" "shift_down_act amount" for amount
proof
  show "shift_down (Var i) amount d = shift_down_act amount i d" for i d
    by (simp add: shift_down.simps)
  show "\<not> is_var t \<Longrightarrow> shift_down t amount d = map_children t (\<lambda>c b. shift_down c amount (d + b))" for t d
    by (subst shift_down.simps) (cases t; simp)
qed

lemmas trav_Var_simps [simp] = up.trav_Var sub.trav_Var down.trav_Var
lemmas trav_node_simps [node_simps] = up.trav_node sub.trav_node down.trav_node
lemmas as_map_variables = up.trav_eq_map_variables sub.trav_eq_map_variables down.trav_eq_map_variables

subsection \<open>The substitution calculus\<close>

lemma shift_up_add:
  assumes "c \<le> c'" and "c' \<le> c + a"
  shows "shift_up (shift_up t a c) b c' = shift_up t (a + b) c"
  unfolding as_map_variables
  by (rule map_variables_fuse) (use assms in auto)

lemma shift_up_commute:
  assumes "c' \<le> c"
  shows "shift_up (shift_up t a c) b c' = shift_up (shift_up t b c') a (c + b)"
proof -
  have "map_variables (map_variables t c (shift_act a)) c' (shift_act b) =
      map_variables t 0 (\<lambda>i k. Var (if c + k \<le> i then i + a + b else if c' + k \<le> i then i + b else i))"
    by (rule map_variables_fuse) (use assms in auto)
  also have "\<dots> = map_variables (map_variables t c' (shift_act b)) (c + b) (shift_act a)"
    by (rule map_variables_fuse [symmetric]) (use assms in auto)
  finally show ?thesis by (simp add: as_map_variables)
qed

lemma shift_down_shift_up: "shift_down (shift_up t a c) a c = t"
proof -
  have "map_variables (map_variables t c (shift_act a)) c (shift_down_act a) = map_variables t c (\<lambda>i _. Var i)"
    by (rule map_variables_fuse) auto
  also have "\<dots> = t" by (rule map_variables_ident) simp
  finally show ?thesis by (simp add: as_map_variables)
qed

lemma subst_shift_up: "subst (shift_up t (Suc a) c) (c + k) u = shift_up t a c"
  if "k \<le> a"
  unfolding as_map_variables
  by (rule map_variables_fuse) (use that in auto)

lemma subst_shift_up_1 [simp]: "subst (shift_up t (Suc 0) 0) 0 u = t"
  using subst_shift_up [of 0 0 t 0 u] by simp

lemma shift_up_subst:
  "shift_up (subst t j u) a (c + j) = subst (shift_up t a (c + j + 1)) j (shift_up u a c)"
proof -
  let ?h = "\<lambda>i k. if i = j + k then shift_up (shift_up u (j + k) 0) a (c + j + k)
      else if j + k < i then Var (if c + j + k \<le> i - 1 then i - 1 + a else i - 1) else Var i"
  have "map_variables (map_variables t j (subst_act u)) (c + j) (shift_act a) = map_variables t 0 ?h"
    by (rule map_variables_fuse) (auto simp: up.trav_eq_map_variables [symmetric])
  also have "\<dots> = map_variables (map_variables t (c + j + 1) (shift_act a)) j (subst_act (shift_up u a c))"
  proof (rule map_variables_fuse [symmetric])
    fix i k
    have "shift_up (shift_up u (j + k) 0) a (c + j + k) = shift_up (shift_up u a c) (j + k) 0"
      using shift_up_commute [of 0 c u a "j + k"] by (simp add: add.assoc)
    then show "map_variables (shift_act a i (c + j + 1 + k)) (j + k) (subst_act (shift_up u a c)) = ?h i (0 + k)"
      by auto
  qed
  finally show ?thesis by (simp flip: as_map_variables)
qed

lemma subst_subst:
  "subst (subst t j u) (k + j) v = subst (subst t (k + j + 1) v) j (subst u k v)"
proof -
  let ?h = "\<lambda>i m. if i = j + m then subst (shift_up u (j + m) 0) (k + j + m) v
      else if i = k + j + m + 1 then shift_up v (k + j + m) 0
      else if k + j + m + 1 < i then Var (i - 2) else if j + m < i then Var (i - 1) else Var i"
  have 1: "subst (shift_up u (j + m) 0) (k + j + m) v = shift_up (subst u k v) (j + m) 0" for m
  proof -
    have "map_variables (map_variables u 0 (shift_act (j + m))) (k + j + m) (subst_act v) =
        map_variables u 0 (\<lambda>i n. if i = k + n then shift_up v (k + j + m + n) 0
          else if i < n then Var i else if i < k + n then Var (i + j + m) else Var (i + j + m - 1))"
      by (rule map_variables_fuse) auto
    also have "\<dots> = map_variables (map_variables u k (subst_act v)) 0 (shift_act (j + m))"
      by (rule map_variables_fuse [symmetric])
        (auto simp: up.trav_eq_map_variables [symmetric] shift_up_add ac_simps)
    finally show ?thesis by (simp flip: as_map_variables)
  qed
  have "map_variables (map_variables t j (subst_act u)) (k + j) (subst_act v) = map_variables t 0 ?h"
    by (rule map_variables_fuse) (auto simp: sub.trav_eq_map_variables [symmetric])
  also have "\<dots> = map_variables (map_variables t (k + j + 1) (subst_act v)) j (subst_act (subst u k v))"
  proof (rule map_variables_fuse [symmetric])
    fix i m
    have "subst (shift_up v (k + j + 1 + m) 0) (j + m) (subst u k v) = shift_up v (k + j + m) 0"
      using subst_shift_up [of "j + m" "k + j + m" v 0] by simp
    then show "map_variables (subst_act v i (k + j + 1 + m)) (j + m) (subst_act (subst u k v)) = ?h i (0 + m)"
      by (auto simp: sub.trav_eq_map_variables [symmetric] 1)
  qed
  finally show ?thesis by (simp flip: as_map_variables)
qed

subsection \<open>Free variables\<close>

function contains_free_by :: "tm \<Rightarrow> nat \<Rightarrow> (nat \<Rightarrow> bool) \<Rightarrow> bool" where
  "contains_free_by t depth wanted =
     (case t of
        Var index \<Rightarrow> depth \<le> index \<and> wanted (index - depth)
      | Universe l \<Rightarrow> False
      | LetT a b \<Rightarrow> contains_free_by a depth wanted \<or> contains_free_by b (depth + 1) wanted
      | PiT a b \<Rightarrow> contains_free_by a depth wanted \<or> contains_free_by b (depth + 1) wanted
      | Lam a b \<Rightarrow> contains_free_by a depth wanted \<or> contains_free_by b (depth + 1) wanted
      | SigmaT a b \<Rightarrow> contains_free_by a depth wanted \<or> contains_free_by b (depth + 1) wanted
      | App a b \<Rightarrow> contains_free_by a depth wanted \<or> contains_free_by b depth wanted
      | PairT a b \<Rightarrow> contains_free_by a depth wanted \<or> contains_free_by b depth wanted
      | FstT a \<Rightarrow> contains_free_by a depth wanted
      | SndT a \<Rightarrow> contains_free_by a depth wanted
      | Refl a \<Rightarrow> contains_free_by a depth wanted
      | IdT a b c \<Rightarrow> contains_free_by a depth wanted \<or> contains_free_by b depth wanted \<or>
          contains_free_by c depth wanted
      | FunExt a b c d \<Rightarrow> contains_free_by a depth wanted \<or> contains_free_by b depth wanted \<or>
          contains_free_by c depth wanted \<or> contains_free_by d depth wanted
      | J m b s \<Rightarrow> contains_free_by m depth wanted \<or> contains_free_by b depth wanted \<or>
          contains_free_by s depth wanted
      | IdElim m b s \<Rightarrow> contains_free_by m depth wanted \<or> contains_free_by b depth wanted \<or>
          contains_free_by s depth wanted
      | Data n l indices constructors \<Rightarrow>
          list_ex (\<lambda>(i, ty). contains_free_by ty (depth + i) wanted) (List.enumerate 0 indices) \<or>
          list_ex (\<lambda>k.
            list_ex (\<lambda>ty. contains_free_by ty (depth + length (con_fields k)) wanted) (con_indices k) \<or>
            list_ex (\<lambda>(i, field).
              case field of
                Value ty \<Rightarrow> contains_free_by ty depth wanted
              | Dependent ty \<Rightarrow> contains_free_by ty (depth + i) wanted
              | Recursive \<Rightarrow> False
              | RecursiveAt ts \<Rightarrow> list_ex (\<lambda>ty. contains_free_by ty (depth + i) wanted) ts)
              (List.enumerate 0 (con_fields k))) constructors
      | Construct d k args \<Rightarrow> contains_free_by d depth wanted \<or>
          list_ex (\<lambda>ty. contains_free_by ty depth wanted) args
      | Induct s m cs \<Rightarrow> contains_free_by s depth wanted \<or> contains_free_by m depth wanted \<or>
          list_ex (\<lambda>ty. contains_free_by ty depth wanted) cs)"
  by pat_completeness auto

lemma in_children_Data:
  "(i, ty) \<in> set (List.enumerate 0 indices) \<Longrightarrow> (ty, i) \<in> set (children (Data n l indices cs))"
  "k \<in> set cs \<Longrightarrow> ty \<in> set (con_indices k) \<Longrightarrow>
     (ty, length (con_fields k)) \<in> set (children (Data n l indices cs))"
  "k \<in> set cs \<Longrightarrow> (i, fd) \<in> set (List.enumerate 0 (con_fields k)) \<Longrightarrow>
     (ty, b) \<in> set (field_children i fd) \<Longrightarrow> (ty, b) \<in> set (children (Data n l indices cs))"
proof -
  show "(i, ty) \<in> set (List.enumerate 0 indices) \<Longrightarrow> (ty, i) \<in> set (children (Data n l indices cs))"
    by force
  show "k \<in> set cs \<Longrightarrow> ty \<in> set (con_indices k) \<Longrightarrow>
     (ty, length (con_fields k)) \<in> set (children (Data n l indices cs))"
    by (cases k) force
  show "k \<in> set cs \<Longrightarrow> (i, fd) \<in> set (List.enumerate 0 (con_fields k)) \<Longrightarrow>
     (ty, b) \<in> set (field_children i fd) \<Longrightarrow> (ty, b) \<in> set (children (Data n l indices cs))"
    by (cases k) force
qed

lemma in_children_RecursiveAt:
  "k \<in> set cs \<Longrightarrow> (i, RecursiveAt ts) \<in> set (List.enumerate 0 (con_fields k)) \<Longrightarrow> ty \<in> set ts \<Longrightarrow>
     (ty, i) \<in> set (children (Data n l indices cs))"
  by (rule in_children_Data(3)) auto

lemmas children_Data_size = in_children_Data [THEN children_size] in_children_RecursiveAt [THEN children_size]

termination contains_free_by
  by (relation "measure (\<lambda>(t, _, _). size t)")
    (auto intro: children_Data_size children_size [of _ 0] children_size [of _ 1] simp del: tm.size)

declare contains_free_by.simps [simp del]

lemma contains_free_by_Var [simp]: "contains_free_by (Var i) d w \<longleftrightarrow> d \<le> i \<and> w (i - d)"
  by (simp add: contains_free_by.simps)

lemma contains_free_field:
  "(case field of
      Value ty \<Rightarrow> contains_free_by ty d w
    | Dependent ty \<Rightarrow> contains_free_by ty (d + i) w
    | Recursive \<Rightarrow> False
    | RecursiveAt ts \<Rightarrow> list_ex (\<lambda>ty. contains_free_by ty (d + i) w) ts) \<longleftrightarrow>
   (\<exists>(c, b) \<in> set (field_children i field). contains_free_by c (d + b) w)"
  by (cases field) (auto simp: list_ex_iff)

lemma contains_free_con:
  "(list_ex (\<lambda>ty. contains_free_by ty (d + length (con_fields k)) w) (con_indices k) \<or>
    list_ex (\<lambda>(i, field).
      case field of
        Value ty \<Rightarrow> contains_free_by ty d w
      | Dependent ty \<Rightarrow> contains_free_by ty (d + i) w
      | Recursive \<Rightarrow> False
      | RecursiveAt ts \<Rightarrow> list_ex (\<lambda>ty. contains_free_by ty (d + i) w) ts)
      (List.enumerate 0 (con_fields k))) \<longleftrightarrow>
   (\<exists>(c, b) \<in> set (con_children k). contains_free_by c (d + b) w)"
  by (cases k) (simp add: list_ex_iff [of _ "List.enumerate n xs" for n xs] split_beta contains_free_field,
      simp add: list_ex_iff bex_Un split_beta)

lemma contains_free_by_node [node_simps]:
  "\<not> is_var t \<Longrightarrow> contains_free_by t d w \<longleftrightarrow> (\<exists>(c, b) \<in> set (children t). contains_free_by c (d + b) w)"
proof (cases t)
  case (Data n l indices cs)
  have "contains_free_by (Data n l indices cs) d w \<longleftrightarrow>
      list_ex (\<lambda>(i, ty). contains_free_by ty (d + i) w) (List.enumerate 0 indices) \<or>
      list_ex (\<lambda>k. \<exists>(c, b) \<in> set (con_children k). contains_free_by c (d + b) w) cs"
    by (subst contains_free_by.simps) (simp only: tm.case contains_free_con)
  then show ?thesis
    unfolding Data by (simp add: list_ex_iff split_beta bex_Un del: con_children.simps)
qed (subst contains_free_by.simps, simp add: list_ex_iff)+

definition contains_free :: "tm \<Rightarrow> nat \<Rightarrow> nat option \<Rightarrow> bool" where
  "contains_free t depth wanted =
     contains_free_by t depth (\<lambda>index. case wanted of None \<Rightarrow> True | Some j \<Rightarrow> index = j)"

definition is_free_in :: "tm \<Rightarrow> nat \<Rightarrow> bool" where
  "is_free_in t target = contains_free t 0 (Some target)"

definition scoped :: "nat \<Rightarrow> tm \<Rightarrow> bool" where
  "scoped n t \<longleftrightarrow> \<not> contains_free t n None"

text \<open>
  A property of every variable occurrence, at its binding depth; the free-variable tests are
  instances of it.
\<close>

function vars_ok :: "(nat \<Rightarrow> nat \<Rightarrow> bool) \<Rightarrow> tm \<Rightarrow> nat \<Rightarrow> bool" where
  "vars_ok P t d =
     (case t of Var i \<Rightarrow> P i d | _ \<Rightarrow> \<forall>(c, b) \<in> set (children t). vars_ok P c (d + b))"
  by pat_completeness auto
termination
  by (relation "measure (\<lambda>(_, t, _). size t)") (auto simp del: children.simps)

declare vars_ok.simps [simp del]

lemma vars_ok_Var [simp]: "vars_ok P (Var i) d \<longleftrightarrow> P i d"
  by (simp add: vars_ok.simps)

lemma vars_ok_node [node_simps]:
  "\<not> is_var t \<Longrightarrow> vars_ok P t d \<longleftrightarrow> (\<forall>(c, b) \<in> set (children t). vars_ok P c (d + b))"
  by (subst vars_ok.simps) (cases t; simp del: children.simps)

lemma contains_free_by_vars_ok:
  "contains_free_by t d w \<longleftrightarrow> \<not> vars_ok (\<lambda>i k. \<not> (k \<le> i \<and> w (i - k))) t d"
proof (induction t arbitrary: d rule: tm_children_induct)
  case (node t)
  show ?case
  proof (cases "is_var t")
    case True
    then show ?thesis by (cases t) auto
  next
    case False
    have "contains_free_by (fst x) (d + snd x) w \<longleftrightarrow>
        \<not> vars_ok (\<lambda>i k. \<not> (k \<le> i \<and> w (i - k))) (fst x) (d + snd x)" if "x \<in> set (children t)" for x
      using node.IH [of "fst x" "snd x"] that by simp
    then show ?thesis
      unfolding contains_free_by_node [OF False] vars_ok_node [OF False] split_beta by blast
  qed
qed

lemma vars_ok_mono:
  "vars_ok P t d \<Longrightarrow> (\<And>i k. P i (d + k) \<Longrightarrow> Q i (e + k)) \<Longrightarrow> vars_ok Q t e"
proof (induction t arbitrary: d e rule: tm_children_induct)
  case (node t)
  show ?case
  proof (cases "is_var t")
    case True
    then show ?thesis using node.prems(1) node.prems(2) [of _ 0] by (cases t) auto
  next
    case False
    have "vars_ok Q c (e + b)" if "(c, b) \<in> set (children t)" for c b
      by (rule node.IH [OF that, of "d + b"])
        (use False that node.prems in \<open>auto simp: vars_ok_node add.assoc\<close>)
    then show ?thesis using False by (auto simp: vars_ok_node)
  qed
qed

lemma vars_ok_map_variables:
  "vars_ok Q t m \<Longrightarrow> (\<And>i k. Q i (m + k) \<Longrightarrow> vars_ok P (f i (d + k)) (e + k)) \<Longrightarrow>
   vars_ok P (map_variables t d f) e"
proof (induction t arbitrary: d e m rule: tm_children_induct)
  case (node t)
  show ?case
  proof (cases "is_var t")
    case True
    then show ?thesis using node.prems(1) node.prems(2) [of _ 0] by (cases t) auto
  next
    case False
    have "vars_ok P (map_variables c (d + b) f) (e + b)" if "(c, b) \<in> set (children t)" for c b
      by (rule node.IH [OF that, of "m + b"])
        (use False that node.prems in \<open>auto simp: vars_ok_node add.assoc\<close>)
    then show ?thesis using False by (auto simp: vars_ok_node map_variables_node children_map_children)
  qed
qed

lemma map_variables_agree_on:
  "vars_ok P t m \<Longrightarrow> (\<And>i k. P i (m + k) \<Longrightarrow> f i (d + k) = g i (e + k)) \<Longrightarrow>
   map_variables t d f = map_variables t e g"
proof (induction t arbitrary: d e m rule: tm_children_induct)
  case (node t)
  show ?case
  proof (cases "is_var t")
    case True
    then show ?thesis using node.prems(1) node.prems(2) [of _ 0] by (cases t) auto
  next
    case False
    have "map_variables c (d + b) f = map_variables c (e + b) g" if "(c, b) \<in> set (children t)" for c b
      by (rule node.IH [OF that, of "m + b"])
        (use False that node.prems in \<open>auto simp: vars_ok_node add.assoc\<close>)
    then show ?thesis using False by (simp add: map_variables_node cong: map_children_cong)
  qed
qed

lemma scoped_vars_ok: "scoped n t \<longleftrightarrow> vars_ok (\<lambda>i d. i < d) t n"
  by (simp add: scoped_def contains_free_def contains_free_by_vars_ok not_le)

lemma scoped_Var [simp]: "scoped n (Var i) \<longleftrightarrow> i < n"
  by (simp add: scoped_vars_ok)

lemma scoped_node [node_simps]:
  "\<not> is_var t \<Longrightarrow> scoped n t \<longleftrightarrow> (\<forall>(c, b) \<in> set (children t). scoped (n + b) c)"
  by (simp add: scoped_vars_ok vars_ok_node)

lemma scoped_mono: "scoped n t \<Longrightarrow> n \<le> m \<Longrightarrow> scoped m t"
  unfolding scoped_vars_ok by (erule vars_ok_mono) simp

lemma scoped_shift_up: "scoped n t \<Longrightarrow> scoped (n + a) (shift_up t a c)"
  unfolding scoped_vars_ok up.trav_eq_map_variables
  by (erule vars_ok_map_variables) auto

lemma scoped_subst: "scoped (Suc n) t \<Longrightarrow> scoped n u \<Longrightarrow> scoped n (subst t 0 u)"
  unfolding scoped_vars_ok sub.trav_eq_map_variables
  by (erule vars_ok_map_variables)
    (auto simp flip: scoped_vars_ok dest: scoped_shift_up)

lemma scoped_shift_up_iff: "c \<le> n \<Longrightarrow> scoped (n + a) (shift_up t a c) \<longleftrightarrow> scoped n t"
proof (induction t arbitrary: c n rule: tm_children_induct)
  case (node t)
  show ?case
  proof (cases "is_var t")
    case True
    then show ?thesis using node.prems by (cases t) auto
  next
    case False
    have "scoped (n + a + b) (shift_up u a (c + b)) \<longleftrightarrow> scoped (n + b) u" if "(u, b) \<in> set (children t)" for u b
      using node.IH [OF that, of "c + b" "n + b"] node.prems by (simp add: ac_simps)
    then show ?thesis
      using False by (auto simp: up.trav_node scoped_node children_map_children)
  qed
qed

lemma shift_up_scoped:
  assumes "scoped n t" and "n \<le> c"
  shows "shift_up t a c = t"
proof -
  have "map_variables t c (shift_act a) = map_variables t 0 (\<lambda>i _. Var i)"
    by (rule map_variables_agree_on [OF assms(1) [unfolded scoped_vars_ok]]) (use assms(2) in auto)
  also have "\<dots> = t" by (rule map_variables_ident) simp
  finally show ?thesis by (simp add: as_map_variables)
qed

lemma shift_up_shift_down:
  assumes "\<not> is_free_in t 0"
  shows "shift_up (shift_down t 1 0) 1 0 = t"
proof -
  have "vars_ok (\<lambda>i k. \<not> (k \<le> i \<and> i - k = 0)) t 0"
    using assms by (simp add: is_free_in_def contains_free_def contains_free_by_vars_ok)
  then have "vars_ok (\<lambda>i k. i \<noteq> k) t 0" by (rule vars_ok_mono) auto
  then have "map_variables t 0 (\<lambda>i k. map_variables (shift_down_act 1 i k) k (shift_act 1)) =
      map_variables t 0 (\<lambda>i _. Var i)"
    by (rule map_variables_agree_on) auto
  also have "\<dots> = t" by (rule map_variables_ident) simp
  finally have *: "map_variables t 0 (\<lambda>i k. map_variables (shift_down_act 1 i k) k (shift_act 1)) = t" .
  have "map_variables (map_variables t 0 (shift_down_act 1)) 0 (shift_act 1) =
      map_variables t 0 (\<lambda>i k. map_variables (shift_down_act 1 i k) k (shift_act 1))"
    by (rule map_variables_fuse) simp
  from trans [OF this *] show ?thesis by (simp only: as_map_variables)
qed

lemma subst_scoped:
  assumes "scoped n t" and "n \<le> k"
  shows "subst t k u = t"
proof -
  have "map_variables t k (subst_act u) = map_variables t 0 (\<lambda>i _. Var i)"
    by (rule map_variables_agree_on [OF assms(1) [unfolded scoped_vars_ok]]) (use assms(2) in auto)
  also have "\<dots> = t" by (rule map_variables_ident) simp
  finally show ?thesis by (simp only: sub.trav_eq_map_variables)
qed

lemma size_list_nth: "i < length xs \<Longrightarrow> i + f (xs ! i) < size_list f xs"
proof (induction xs arbitrary: i)
  case (Cons x xs)
  then show ?case by (cases i) fastforce+
qed simp

lemma length_le_size_list: "length xs \<le> size_list f xs"
  by (induction xs) auto

lemma field_children_depth: "(c, b) \<in> set (field_children i f) \<Longrightarrow> b + size c < i + size f"
  by (cases f) (auto simp: less_Suc_eq_le intro: size_list_estimation')

lemma con_children_depth: "(c, b) \<in> set (con_children k) \<Longrightarrow> b + size c < size k"
proof (cases k)
  case (DataConstructor fs ts)
  assume "(c, b) \<in> set (con_children k)"
  then consider "c \<in> set ts" "b = length fs" | i where "i < length fs" "(c, b) \<in> set (field_children i (fs ! i))"
    by (auto simp: DataConstructor set_enumerate_iff)
  then show ?thesis
  proof cases
    case 1
    then have "size c < Suc (size_list size ts)" by (auto simp: less_Suc_eq_le intro: size_list_estimation')
    then show ?thesis using 1 length_le_size_list [of fs size] by (simp add: DataConstructor)
  next
    case 2
    then show ?thesis
      using field_children_depth [OF 2(2)] size_list_nth [OF 2(1), of size] by (simp add: DataConstructor)
  qed
qed

lemma children_depth:
  assumes "(c, b) \<in> set (children t)"
  shows "b + size c \<le> size t"
proof (cases t)
  case (Data n l ts cs)
  from assms consider "b < length ts" "c = ts ! b" | k where "k \<in> set cs" "(c, b) \<in> set (con_children k)"
    by (auto simp: Data set_enumerate_iff simp del: con_children.simps)
  then show ?thesis
  proof cases
    case 1
    then show ?thesis using size_list_nth [OF 1(1), of size] by (simp add: Data)
  next
    case 2
    then have "size k \<le> size_list size cs" by (rule_tac size_list_estimation') auto
    then show ?thesis using con_children_depth [OF 2(2)] by (simp add: Data)
  qed
qed (use assms children_size [OF assms] in auto)

subsection \<open>Machine indices\<close>

text \<open>
  Indices, cutoffs and amounts are \<open>usize\<close>, and a release build wraps their sums. \<open>shift_up_usize\<close> is
  \<open>shift_up\<close> with its two sums at that width (every arm but the variable maps the children, as
  \<open>shift_up_node\<close> shows of the arms as they are written). It is the only traversal that adds to an index.
\<close>

function shift_up_usize :: "tm \<Rightarrow> nat \<Rightarrow> nat \<Rightarrow> tm" where
  "shift_up_usize t amount cutoff =
     (if amount = 0 then t else case t of
        Var i \<Rightarrow> if cutoff \<le> i then Var ((i + amount) mod 2 ^ 64) else Var i
      | _ \<Rightarrow> map_children t (\<lambda>child binders. shift_up_usize child amount ((cutoff + binders) mod 2 ^ 64)))"
  by pat_completeness auto
termination
  by (relation "measure (\<lambda>(t, _, _). size t)") (auto simp del: children.simps)

declare shift_up_usize.simps [simp del]

lemma shift_up_usize_0 [simp]: "shift_up_usize t 0 c = t"
  by (simp add: shift_up_usize.simps)

lemma shift_up_usize_Var:
  "shift_up_usize (Var i) a c = (if a = 0 \<or> i < c then Var i else Var ((i + a) mod 2 ^ 64))"
  by (simp add: shift_up_usize.simps)

lemma shift_up_usize_node:
  "a \<noteq> 0 \<Longrightarrow> \<not> is_var t \<Longrightarrow>
   shift_up_usize t a d = map_children t (\<lambda>c b. shift_up_usize c a ((d + b) mod 2 ^ 64))"
  by (subst shift_up_usize.simps) (cases t; simp)

lemma shift_up_usize_eq:
  "scoped n t \<Longrightarrow> d \<le> n \<Longrightarrow> n + size t + a < 2 ^ 64 \<Longrightarrow> shift_up_usize t a d = shift_up t a d"
proof (induction t arbitrary: n d rule: tm_children_induct)
  case (node t)
  show ?case
  proof (cases "a = 0 \<or> is_var t")
    case True
    then show ?thesis using node.prems by (cases t) (auto simp: shift_up_usize_Var)
  next
    case False
    have "shift_up_usize c a ((d + b) mod 2 ^ 64) = shift_up c a (d + b)" if c: "(c, b) \<in> set (children t)" for c b
    proof -
      have "n + b + size c \<le> n + size t" using children_depth [OF c] by simp
      moreover have "scoped (n + b) c" using node.prems(1) False c by (auto simp: scoped_node)
      ultimately show ?thesis using node.IH [OF c, of "n + b" "d + b"] node.prems by simp
    qed
    then show ?thesis using False by (simp add: shift_up_usize_node shift_up_node cong: map_children_cong)
  qed
qed

subsection \<open>Properties\<close>

text \<open>C25: Index arithmetic is exact where it matters and only there: on a term whose variables are bound
  in a scope of \<open>n\<close> binders, when scope, size of the term and amount together are below 2 to the 64 (no
  term held in memory is larger), the shift computed in \<open>usize\<close> is the shift on natural numbers, so
  that every theorem about \<open>shift_up\<close> speaks of the compiled code; an index outside every scope can
  wrap, and then becomes the index of a variable that is bound.\<close>

theorem index_arithmetic_exact:
  "(scoped n t \<and> c \<le> n \<and> n + size t + a < 2 ^ 64 \<longrightarrow> shift_up_usize t a c = shift_up t a c) \<and>
   (i < 2 ^ 64 \<and> a < 2 ^ 64 \<and> c \<le> i \<and> 2 ^ 64 \<le> i + a \<longrightarrow>
      shift_up_usize (Var i) a c = Var (i + a - 2 ^ 64) \<and> i + a - 2 ^ 64 < a \<and> \<not> scoped a (shift_up (Var i) a c))"
  using shift_up_usize_eq [of n t c a]
  by (auto simp: shift_up_usize_Var mod_if)

theorem index_arithmetic_exact_witness:
  "shift_up_usize (Lam (Var 0) (Var 1)) 3 0 = shift_up (Lam (Var 0) (Var 1)) 3 0 \<and>
   shift_up_usize (Var (2 ^ 64 - 1)) 1 0 = Var 0"
  using index_arithmetic_exact [of 1 "Lam (Var 0) (Var 1)" 0 3 "2 ^ 64 - 1"]
    index_arithmetic_exact [of 1 "Lam (Var 0) (Var 1)" 0 1 "2 ^ 64 - 1"]
  by (simp add: scoped_node)

text \<open>Each hand-written traversal of the source (\<open>shift_up\<close>, \<open>subst\<close>, \<open>shift_down\<close>, with an arm
  per term constructor and their short cuts) is the one generic traversal \<open>map_variables\<close> with its
  action on variables.\<close>

theorem traversals_generic:
  "shift_up t a c = map_variables t c (\<lambda>i d. Var (if d \<le> i then i + a else i)) \<and>
   subst t k u = map_variables t k
     (\<lambda>i d. if i = d then shift_up u d 0 else if d < i then Var (i - 1) else Var i) \<and>
   shift_down t a c = map_variables t c (\<lambda>i d. if d + a \<le> i then Var (i - a) else Var i)"
  by (simp add: as_map_variables)

text \<open>The substitution lemma: two substitutions commute, the inner replacement being
  substituted itself.\<close>

theorem substitution_lemma:
  "subst (subst t j u) (k + j) v = subst (subst t (k + j + 1) v) j (subst u k v)"
  by (rule subst_subst)

text \<open>Shifting up and down are inverse: lowering undoes raising, raising undoes lowering on a
  term without the lowered variable, and substituting for a variable that raising made fresh gives
  the term back.\<close>

theorem shift_round_trip:
  "shift_down (shift_up t a c) a c = t \<and> subst (shift_up t 1 0) 0 u = t \<and>
   (\<not> is_free_in t 0 \<longrightarrow> shift_up (shift_down t 1 0) 1 0 = t)"
  using shift_down_shift_up [of t a c] subst_shift_up_1 [of t u] shift_up_shift_down [of t] by simp

theorem shift_round_trip_witness:
  "\<not> is_free_in (App (Var 1) (Lam (Var 2) (Var 0))) 0 \<and>
   shift_up (shift_down (App (Var 1) (Lam (Var 2) (Var 0))) 1 0) 1 0 = App (Var 1) (Lam (Var 2) (Var 0))"
proof -
  have "\<not> is_free_in (App (Var 1) (Lam (Var 2) (Var 0))) 0"
    by (simp add: is_free_in_def contains_free_def contains_free_by.simps)
  with shift_round_trip [of "App (Var 1) (Lam (Var 2) (Var 0))"] show ?thesis by blast
qed

text \<open>Scopes: shifting and substitution keep every variable bound, and leave a term alone whose
  variables are all below the cutoff.\<close>

theorem traversals_scoped:
  assumes "scoped (Suc n) t" and "scoped n u"
  shows "scoped n (subst t 0 u) \<and> scoped (Suc n + a) (shift_up t a c) \<and>
    shift_up u a n = u \<and> subst u n t = u"
  using assms by (simp add: scoped_subst scoped_shift_up shift_up_scoped subst_scoped
      del: add_Suc)

theorem traversals_scoped_witness:
  "scoped 1 (subst (App (Var 1) (Var 0)) 0 (Var 0)) \<and> scoped (Suc 1 + 3) (shift_up (App (Var 1) (Var 0)) 3 1) \<and>
   shift_up (Var 0) 3 1 = Var 0 \<and> subst (Var 0) 1 (App (Var 1) (Var 0)) = Var 0"
  by (rule traversals_scoped) (simp_all add: scoped_node)

end
