(* ===== verification/Telescopes.thy ===== *)
theory Telescopes
  imports Terms
begin

section \<open>Constructor telescopes and induction branches\<close>

text \<open>
  Models the helpers of \<open>crates/verum_proof/src/proof_checker.rs\<close> that read a data
  declaration: the type of a field in the frame of the preceding fields, the
  instantiation of a telescope by arguments, and the type of an induction branch
  (each recursive field followed by its hypothesis). The lemmas identify
  \<open>instantiate_fields\<close> with a simultaneous substitution and bound the variables of
  every type these helpers build.
\<close>

definition field_value_type :: "data_field \<Rightarrow> nat \<Rightarrow> tm option" where
  "field_value_type field preceding =
     (case field of
        Value ty \<Rightarrow> Some (shift_up ty preceding 0)
      | Dependent ty \<Rightarrow> Some ty
      | Recursive \<Rightarrow> None
      | RecursiveAt _ \<Rightarrow> None)"

definition instantiate_fields :: "tm \<Rightarrow> tm list \<Rightarrow> tm" where
  "instantiate_fields t arguments =
     fold (\<lambda>(remaining, argument) t. subst t 0 (shift_up argument remaining 0))
       (rev (List.enumerate 0 arguments)) t"

definition recursive_indices :: "data_field \<Rightarrow> tm list option" where
  "recursive_indices field =
     (case field of Recursive \<Rightarrow> Some [] | RecursiveAt indices \<Rightarrow> Some indices | _ \<Rightarrow> None)"

definition apply_terms :: "tm \<Rightarrow> tm list \<Rightarrow> tm" where
  "apply_terms head arguments = foldl App head arguments"

definition field_domain :: "tm \<Rightarrow> data_field \<Rightarrow> nat \<Rightarrow> tm" where
  "field_domain data field preceding =
     (case field_value_type field preceding of
        Some ty \<Rightarrow> ty
      | None \<Rightarrow> apply_terms (shift_up data preceding 0) (the (recursive_indices field)))"

definition rebind_fields :: "tm \<Rightarrow> nat list \<Rightarrow> nat \<Rightarrow> tm" where
  "rebind_fields t positions depth =
     instantiate_fields (shift_up t depth (length positions))
       (map (\<lambda>p. Var (depth - 1 - p)) positions)"

fun case_domains ::
  "tm \<Rightarrow> tm \<Rightarrow> tm list \<Rightarrow> nat list \<Rightarrow> data_field list \<Rightarrow> tm list \<times> nat list" where
  "case_domains data motive domains positions [] = (domains, positions)"
| "case_domains data motive domains positions (field # rest) =
     (let depth = length domains;
          domain = rebind_fields (field_domain data field (length positions)) positions depth;
          hypothesis =
            (case recursive_indices field of
               None \<Rightarrow> []
             | Some indices \<Rightarrow>
                 [App (apply_terms (shift_up motive (depth + 1) 0)
                        (map (\<lambda>t. rebind_fields t positions (depth + 1)) indices)) (Var 0)])
      in case_domains data motive (domains @ [domain] @ hypothesis) (positions @ [depth]) rest)"

definition induction_case_type :: "tm \<Rightarrow> tm \<Rightarrow> nat \<Rightarrow> data_constructor \<Rightarrow> tm" where
  "induction_case_type data motive index k =
     (let (domains, positions) = case_domains data motive [] [] (con_fields k);
          depth = length domains;
          indices = map (\<lambda>t. rebind_fields t positions depth) (con_indices k);
          applied = Construct (shift_up data depth 0) index (map (\<lambda>p. Var (depth - 1 - p)) positions);
          result = App (apply_terms (shift_up motive depth 0) indices) applied
      in foldr PiT domains result)"

subsection \<open>Instantiation is simultaneous substitution\<close>

definition inst_act :: "tm list \<Rightarrow> nat \<Rightarrow> nat \<Rightarrow> tm" where
  "inst_act args i d =
     (if i < d then Var i
      else if i - d < length args then shift_up (args ! (length args - 1 - (i - d))) d 0
      else Var (i - length args))"

lemma enumerate_append:
  "List.enumerate n (xs @ ys) = List.enumerate n xs @ List.enumerate (n + length xs) ys"
  by (induction xs arbitrary: n) auto

lemma instantiate_fields_Nil [simp]: "instantiate_fields t [] = t"
  by (simp add: instantiate_fields_def)

lemma instantiate_fields_snoc:
  "instantiate_fields t (args @ [a]) = instantiate_fields (subst t 0 (shift_up a (length args) 0)) args"
  by (simp add: instantiate_fields_def enumerate_append)

lemma instantiate_fields_eq: "instantiate_fields t args = map_variables t 0 (inst_act args)"
proof (induction args arbitrary: t rule: rev_induct)
  case Nil
  then show ?case by (simp add: inst_act_def map_variables_ident)
next
  case (snoc a args)
  have "instantiate_fields t (args @ [a]) =
      map_variables (map_variables t 0 (subst_act (shift_up a (length args) 0))) 0 (inst_act args)"
    by (simp add: instantiate_fields_snoc snoc.IH sub.trav_eq_map_variables)
  also have "\<dots> = map_variables t 0 (inst_act (args @ [a]))"
  proof (rule map_variables_fuse)
    fix i k
    have "map_variables (map_variables a 0 (shift_act (length args + k))) k (inst_act args) =
        map_variables a 0 (shift_act k)"
      by (rule map_variables_fuse) (auto simp: inst_act_def)
    then have *: "map_variables (shift_up a (length args + k) 0) k (inst_act args) = shift_up a k 0"
      by (simp only: up.trav_eq_map_variables)
    have "shift_up (shift_up a (length args) 0) k 0 = shift_up a (length args + k) 0"
      by (rule shift_up_add) auto
    with * have "map_variables (shift_up (shift_up a (length args) 0) k 0) k (inst_act args) = shift_up a k 0"
      by simp
    then show "map_variables (subst_act (shift_up a (length args) 0) i (0 + k)) (0 + k) (inst_act args) =
        inst_act (args @ [a]) i (0 + k)"
      by (auto simp: inst_act_def nth_append not_less le_Suc_eq)
  qed
  finally show ?case .
qed

subsection \<open>Scope of the types a declaration yields\<close>

lemma scoped_instantiate_fields:
  assumes "scoped (n + length args) t" and "\<And>a. a \<in> set args \<Longrightarrow> scoped n a"
  shows "scoped n (instantiate_fields t args)"
proof -
  have *: "scoped (n + k) (inst_act args i (0 + k))" if "i < n + length args + k" for i k
    using that assms(2) scoped_shift_up [of n _ k 0] by (auto simp: inst_act_def)
  show ?thesis
    unfolding instantiate_fields_eq scoped_vars_ok
    by (rule vars_ok_map_variables [OF assms(1) [unfolded scoped_vars_ok]])
      (use * in \<open>simp flip: scoped_vars_ok\<close>)
qed

lemma scoped_apply_terms:
  "scoped n (apply_terms h args) \<longleftrightarrow> scoped n h \<and> (\<forall>a \<in> set args. scoped n a)"
  unfolding apply_terms_def
  by (induction args arbitrary: h) (auto simp: scoped_node)

lemma scoped_foldr_PiT:
  "scoped n (foldr PiT ts r) \<longleftrightarrow> (\<forall>j < length ts. scoped (n + j) (ts ! j)) \<and> scoped (n + length ts) r"
proof (induction ts arbitrary: n)
  case (Cons t ts)
  have "(\<forall>j < length (t # ts). scoped (n + j) ((t # ts) ! j)) \<longleftrightarrow>
      scoped n t \<and> (\<forall>j < length ts. scoped (Suc n + j) (ts ! j))"
    by (auto simp: less_Suc_eq_0_disj)
  with Cons show ?case by (simp add: scoped_node)
qed simp

lemma scoped_rebind_fields:
  assumes "scoped (n + length ps) t" and "\<And>p. p \<in> set ps \<Longrightarrow> p < d"
  shows "scoped (n + d) (rebind_fields t ps d)"
  unfolding rebind_fields_def
proof (rule scoped_instantiate_fields)
  show "scoped (n + d + length (map (\<lambda>p. Var (d - 1 - p)) ps)) (shift_up t d (length ps))"
    using scoped_shift_up [OF assms(1), of d "length ps"] by (simp add: ac_simps)
  show "scoped (n + d) a" if "a \<in> set (map (\<lambda>p. Var (d - 1 - p)) ps)" for a
    using that assms(2) by fastforce
qed

lemma scoped_field_domain:
  assumes "scoped n data" and "\<And>u b. (u, b) \<in> set (field_children i f) \<Longrightarrow> scoped (n + b) u"
  shows "scoped (n + i) (field_domain data f i)"
  using assms scoped_shift_up [of n _ i 0]
  by (cases f) (auto simp: field_domain_def field_value_type_def recursive_indices_def scoped_apply_terms)

lemma recursive_indices_children:
  "recursive_indices f = Some ts \<Longrightarrow> t \<in> set ts \<Longrightarrow> (t, i) \<in> set (field_children i f)"
  by (cases f) (auto simp: recursive_indices_def)

definition domains_scoped :: "nat \<Rightarrow> tm list \<Rightarrow> nat list \<Rightarrow> bool" where
  "domains_scoped n ds ps \<longleftrightarrow>
     (\<forall>j < length ds. scoped (n + j) (ds ! j)) \<and> (\<forall>p \<in> set ps. p < length ds)"

lemma domains_scoped_snoc:
  "domains_scoped n ds ps \<Longrightarrow> scoped (n + length ds) d \<Longrightarrow> domains_scoped n (ds @ [d]) (ps @ [length ds])"
  by (auto simp: domains_scoped_def nth_append less_Suc_eq)

lemma domains_scoped_weaken: "domains_scoped n ds ps \<Longrightarrow> scoped (n + length ds) d \<Longrightarrow> domains_scoped n (ds @ [d]) ps"
  by (auto simp: domains_scoped_def nth_append less_Suc_eq)

lemma case_domains_scoped:
  assumes "scoped n data" and "scoped n motive"
  shows "domains_scoped n ds ps \<Longrightarrow>
    (\<And>i u b. i < length fs \<Longrightarrow> (u, b) \<in> set (field_children (length ps + i) (fs ! i)) \<Longrightarrow> scoped (n + b) u) \<Longrightarrow>
    case_domains data motive ds ps fs = (ds', ps') \<Longrightarrow> domains_scoped n ds' ps' \<and> length ps' = length ps + length fs"
proof (induction fs arbitrary: ds ps)
  case (Cons f fs)
  let ?d = "rebind_fields (field_domain data f (length ps)) ps (length ds)"
  have f: "(u, b) \<in> set (field_children (length ps) f) \<Longrightarrow> scoped (n + b) u" for u b
    using Cons.prems(2) [of 0] by simp
  have ps: "p \<in> set ps \<Longrightarrow> p < length ds" for p using Cons.prems(1) by (simp add: domains_scoped_def)
  have d: "scoped (n + length ds) ?d"
    by (rule scoped_rebind_fields [OF scoped_field_domain [OF assms(1)] ps]) (use f in auto)
  note ok = domains_scoped_snoc [OF Cons.prems(1) d]
  have rest: "i < length fs \<Longrightarrow> (u, b) \<in> set (field_children (length (ps @ [length ds]) + i) (fs ! i)) \<Longrightarrow> scoped (n + b) u"
    for i u b using Cons.prems(2) [of "Suc i"] by simp
  show ?case
  proof (cases "recursive_indices f")
    case None
    with Cons.IH [OF ok rest] Cons.prems(3) show ?thesis by (simp add: Let_def)
  next
    case (Some ts)
    let ?h = "App (apply_terms (shift_up motive (length ds + 1) 0)
        (map (\<lambda>t. rebind_fields t ps (length ds + 1)) ts)) (Var 0)"
    have "scoped (n + (length ds + 1)) (rebind_fields t ps (length ds + 1))" if "t \<in> set ts" for t
      by (rule scoped_rebind_fields) (use f [OF recursive_indices_children [OF Some that]] ps in \<open>auto intro: less_SucI\<close>)
    then have "scoped (n + length (ds @ [?d])) ?h"
      using scoped_shift_up [OF assms(2), of "length ds + 1" 0]
      by (auto simp: scoped_node scoped_apply_terms)
    from Cons.IH [OF domains_scoped_weaken [OF ok this] rest] Cons.prems(3) Some show ?thesis
      by (simp add: Let_def)
  qed
qed simp

lemma scoped_induction_case_type:
  assumes data: "scoped n (Data nm l ts cs)" and motive: "scoped n motive" and k: "k \<in> set cs"
  shows "scoped n (induction_case_type (Data nm l ts cs) motive i k)"
proof -
  let ?data = "Data nm l ts cs"
  obtain ds ps where cd: "case_domains ?data motive [] [] (con_fields k) = (ds, ps)" by fastforce
  have child: "(u, b) \<in> set (con_children k) \<Longrightarrow> scoped (n + b) u" for u b
    using data k by (force simp: scoped_node simp del: con_children.simps)
  have field: "scoped (n + b) u" if "i < length (con_fields k)" "(u, b) \<in> set (field_children i (con_fields k ! i))" for i u b
    by (rule child) (use that in \<open>cases k, force simp: set_enumerate_iff\<close>)
  have ok: "domains_scoped n ds ps" "length ps = length (con_fields k)"
    using case_domains_scoped [OF data motive _ _ cd] field by (auto simp: domains_scoped_def)
  have "scoped (n + length ds) (rebind_fields t ps (length ds))" if "t \<in> set (con_indices k)" for t
    by (rule scoped_rebind_fields)
      (use that child [of t "length (con_fields k)"] ok in \<open>cases k, auto simp: domains_scoped_def\<close>)
  moreover have "scoped (n + length ds) (Construct (shift_up ?data (length ds) 0) i (map (\<lambda>p. Var (length ds - 1 - p)) ps))"
    using scoped_shift_up [OF data, of "length ds" 0] ok(1) by (fastforce simp: scoped_node domains_scoped_def)
  ultimately show ?thesis
    using ok(1) scoped_shift_up [OF motive, of "length ds" 0]
    by (simp add: induction_case_type_def cd Let_def scoped_foldr_PiT domains_scoped_def scoped_node scoped_apply_terms)
qed

subsection \<open>Properties\<close>

text \<open>Instantiating a telescope, which the code does by one substitution per argument from the
  last to the first, is the simultaneous substitution of all arguments.\<close>

theorem instantiate_fields_simultaneous:
  "instantiate_fields t args = map_variables t 0 (inst_act args)"
  by (rule instantiate_fields_eq)

text \<open>C33: The type of an induction branch is well scoped: for a declaration and a motive whose
  variables are bound, every variable of the branch type of each constructor (fields, induction
  hypotheses, result) is bound.\<close>

theorem induction_case_type_closed:
  assumes "scoped n (Data nm l ts cs)" and "scoped n motive" and "k \<in> set cs"
  shows "scoped n (induction_case_type (Data nm l ts cs) motive i k)"
  using assms by (rule scoped_induction_case_type)

theorem induction_case_type_closed_witness:
  "scoped 1 (induction_case_type
     (Data ''Nat'' (Concrete 0) [] [DataConstructor [] [], DataConstructor [Recursive] []])
     (Var 0) 1 (DataConstructor [Recursive] []))"
  by (rule induction_case_type_closed)
    (simp_all add: scoped_node)

end
