(* ===== verification/Contexts.thy ===== *)
theory Contexts
  imports Telescopes
begin

section \<open>Typing contexts, foundations and errors\<close>

text \<open>
  Models \<open>Foundation\<close>, \<open>Context\<close> and \<open>CheckError\<close> of
  \<open>crates/verum_proof/src/proof_checker.rs\<close>. A context is a vector of bindings, the
  innermost last; each stores its type and its optional transparent definition in
  the frame of its binding site, with a flag that caches whether the type is
  closed. The lazily filled \<open>types_view\<close> cache holds what \<open>types\<close> returns and
  carries no state of its own.

  The locale \<open>environment\<close> is the interface the checker relies on: what a lookup
  returns after an extension or a definition. It is interpreted on these contexts,
  restricted to the ones whose closed flags are right (\<open>wf_ctx\<close>), which every
  operation keeps.
\<close>

datatype foundation = Intensional | FunctionExtensionality

datatype check_error =
    FuelExhausted
  | FoundationRequired foundation
  | InvalidInductive string
  | UnboundVariable nat
  | NotAType tm
  | NotAFunction tm
  | NotASigma tm
  | NotAnIdentity tm
  | ReflEndpointMismatch tm tm
  | NotAValidJMotive tm
  | DomainMismatch tm tm
  | TypeMismatch tm tm
  | KernelV0ManifestUnclean string string
  | KernelV0MetaSoundnessExceeded
  | KernelV0StrictIntrinsicDisagreement string
  | UniverseOverflow u32
  | ClaimedTypeNotAType tm tm

record context_binding =
  bind_ty :: tm
  bind_closed :: bool
  bind_def :: "tm option"

record ctx =
  ctx_foundation :: foundation
  bindings :: "context_binding list"

definition with_foundation :: "foundation \<Rightarrow> ctx" where
  "with_foundation f = \<lparr>ctx_foundation = f, bindings = []\<rparr>"

definition new_ctx :: ctx where
  "new_ctx = with_foundation Intensional"

definition depth :: "ctx \<Rightarrow> nat" where
  "depth c = length (bindings c)"

text \<open>The vector position of de Bruijn index \<open>i\<close>: two checked subtractions in the source.\<close>

definition ctx_position :: "ctx \<Rightarrow> nat \<Rightarrow> nat option" where
  "ctx_position c i =
     (if i + 1 \<le> length (bindings c) then Some (length (bindings c) - (i + 1)) else None)"

definition lookup :: "ctx \<Rightarrow> nat \<Rightarrow> tm option" where
  "lookup c i =
     (case ctx_position c i of
        None \<Rightarrow> None
      | Some position \<Rightarrow>
          let binding = bindings c ! position; raw = bind_ty binding
          in Some (if bind_closed binding then raw else shift_up raw (i + 1) 0))"

definition ctx_extend :: "ctx \<Rightarrow> tm \<Rightarrow> ctx" where
  "ctx_extend c ty =
     c\<lparr>bindings := bindings c @
       [\<lparr>bind_ty = ty, bind_closed = (\<not> contains_free ty 0 None), bind_def = None\<rparr>]\<rparr>"

definition define_local :: "ctx \<Rightarrow> tm \<Rightarrow> tm \<Rightarrow> ctx" where
  "define_local c ty v =
     (let out = ctx_extend c ty
      in out\<lparr>bindings := butlast (bindings out) @ [(last (bindings out))\<lparr>bind_def := Some v\<rparr>]\<rparr>)"

definition definition_under :: "ctx \<Rightarrow> nat \<Rightarrow> nat \<Rightarrow> tm option" where
  "definition_under c index binders =
     (case ctx_position c index of
        None \<Rightarrow> None
      | Some position \<Rightarrow>
          map_option (\<lambda>t. shift_up t (index + 1 + binders) 0) (bind_def (bindings c ! position)))"

definition ctx_definition :: "ctx \<Rightarrow> nat \<Rightarrow> tm option" where
  "ctx_definition c index = definition_under c index 0"

definition ctx_types :: "ctx \<Rightarrow> tm list" where
  "ctx_types c = map bind_ty (bindings c)"

subsection \<open>The closed flag\<close>

definition wf_ctx :: "ctx \<Rightarrow> bool" where
  "wf_ctx c \<longleftrightarrow> (\<forall>b \<in> set (bindings c). bind_closed b = scoped 0 (bind_ty b))"

lemma bindings_define_local:
  "define_local c ty v =
     c\<lparr>bindings := bindings c @
       [\<lparr>bind_ty = ty, bind_closed = scoped 0 ty, bind_def = Some v\<rparr>]\<rparr>"
  by (simp add: define_local_def ctx_extend_def scoped_def)

lemma bindings_extend:
  "ctx_extend c ty =
     c\<lparr>bindings := bindings c @ [\<lparr>bind_ty = ty, bind_closed = scoped 0 ty, bind_def = None\<rparr>]\<rparr>"
  by (simp add: ctx_extend_def scoped_def)

lemmas binding_simps = bindings_define_local bindings_extend with_foundation_def

lemma wf_ctx_simps [simp, intro]:
  "wf_ctx (with_foundation f)"
  "wf_ctx (ctx_extend c ty) = wf_ctx c"
  "wf_ctx (define_local c ty v) = wf_ctx c"
  by (auto simp: wf_ctx_def binding_simps)

lemma ctx_foundation_simps [simp]:
  "ctx_foundation (with_foundation f) = f"
  "ctx_foundation (ctx_extend c ty) = ctx_foundation c"
  "ctx_foundation (define_local c ty v) = ctx_foundation c"
  by (simp_all add: binding_simps)

lemma depth_simps [simp]:
  "depth (with_foundation f) = 0"
  "depth (ctx_extend c ty) = Suc (depth c)"
  "depth (define_local c ty v) = Suc (depth c)"
  by (simp_all add: depth_def binding_simps)

text \<open>On a well-formed context the cached flag never changes what a lookup returns.\<close>

lemma lookup_eq:
  assumes "wf_ctx c"
  shows "lookup c i =
    (if i < depth c then Some (shift_up (bind_ty (rev (bindings c) ! i)) (Suc i) 0) else None)"
proof (cases "i < depth c")
  case True
  let ?b = "bindings c ! (length (bindings c) - (i + 1))"
  have mem: "?b \<in> set (bindings c)" using True by (simp add: depth_def)
  have "bind_closed ?b \<Longrightarrow> shift_up (bind_ty ?b) (Suc i) 0 = bind_ty ?b"
    using assms mem by (intro shift_up_scoped [of 0]) (auto simp: wf_ctx_def)
  then show ?thesis
    using True by (simp add: lookup_def ctx_position_def depth_def rev_nth Let_def)
qed (simp add: lookup_def ctx_position_def depth_def)

lemma definition_under_eq:
  "definition_under c i b =
    (if i < depth c then map_option (\<lambda>t. shift_up t (Suc i + b) 0) (bind_def (rev (bindings c) ! i))
     else None)"
  by (simp add: definition_under_def ctx_position_def depth_def rev_nth)

subsection \<open>The interface the checker relies on\<close>

locale environment =
  fixes ok :: "'c \<Rightarrow> bool"
    and dep :: "'c \<Rightarrow> nat"
    and look :: "'c \<Rightarrow> nat \<Rightarrow> tm option"
    and defn :: "'c \<Rightarrow> nat \<Rightarrow> tm option"
    and ext :: "'c \<Rightarrow> tm \<Rightarrow> 'c"
    and dfn :: "'c \<Rightarrow> tm \<Rightarrow> tm \<Rightarrow> 'c"
    and empty :: "'c"
  assumes ok_empty: "ok empty"
    and ok_ext: "ok c \<Longrightarrow> ok (ext c a)"
    and ok_dfn: "ok c \<Longrightarrow> ok (dfn c a v)"
    and dep_empty: "dep empty = 0"
    and dep_ext: "dep (ext c a) = Suc (dep c)"
    and dep_dfn: "dep (dfn c a v) = Suc (dep c)"
    and look_bound: "ok c \<Longrightarrow> look c i \<noteq> None \<longleftrightarrow> i < dep c"
    and look_ext: "ok c \<Longrightarrow> look (ext c a) i =
      (case i of 0 \<Rightarrow> Some (shift_up a 1 0) | Suc j \<Rightarrow> map_option (\<lambda>t. shift_up t 1 0) (look c j))"
    and look_dfn: "ok c \<Longrightarrow> look (dfn c a v) i = look (ext c a) i"
    and defn_ext: "ok c \<Longrightarrow> defn (ext c a) i =
      (case i of 0 \<Rightarrow> None | Suc j \<Rightarrow> map_option (\<lambda>t. shift_up t 1 0) (defn c j))"
    and defn_dfn: "ok c \<Longrightarrow> defn (dfn c a v) i =
      (case i of 0 \<Rightarrow> Some (shift_up v 1 0) | Suc j \<Rightarrow> map_option (\<lambda>t. shift_up t 1 0) (defn c j))"
begin

text \<open>Entering a block of binders shifts everything known about the outer variables.\<close>

lemma ok_fold_ext: "ok c \<Longrightarrow> ok (foldl ext c ts)"
  by (induction ts arbitrary: c) (auto intro: ok_ext)

lemma dep_fold_ext: "dep (foldl ext c ts) = dep c + length ts"
  by (induction ts arbitrary: c) (auto simp: dep_ext)

lemma look_fold_ext:
  "ok c \<Longrightarrow> look (foldl ext c ts) (length ts + i) = map_option (\<lambda>t. shift_up t (length ts) 0) (look c i)"
proof (induction ts arbitrary: c i rule: rev_induct)
  case (snoc a ts)
  have "look (ext (foldl ext c ts) a) (Suc (length ts + i)) =
      map_option (\<lambda>t. shift_up t 1 0) (map_option (\<lambda>t. shift_up t (length ts) 0) (look c i))"
    using snoc by (simp add: look_ext [OF ok_fold_ext])
  also have "\<dots> = map_option (\<lambda>t. shift_up t (length ts + 1) 0) (look c i)"
    by (simp add: option.map_comp o_def shift_up_add)
  finally show ?case by simp
qed (simp add: option.map_id0 [unfolded id_def])

lemma defn_fold_ext:
  "ok c \<Longrightarrow> defn (foldl ext c ts) (length ts + i) = map_option (\<lambda>t. shift_up t (length ts) 0) (defn c i)"
proof (induction ts arbitrary: c i rule: rev_induct)
  case (snoc a ts)
  have "defn (ext (foldl ext c ts) a) (Suc (length ts + i)) =
      map_option (\<lambda>t. shift_up t 1 0) (map_option (\<lambda>t. shift_up t (length ts) 0) (defn c i))"
    using snoc by (simp add: defn_ext [OF ok_fold_ext])
  also have "\<dots> = map_option (\<lambda>t. shift_up t (length ts + 1) 0) (defn c i)"
    by (simp add: option.map_comp o_def shift_up_add)
  finally show ?case by simp
qed (simp add: option.map_id0 [unfolded id_def])

end

lemma ctx_rev_bindings [simp]:
  "rev (bindings (ctx_extend c ty)) =
    \<lparr>bind_ty = ty, bind_closed = scoped 0 ty, bind_def = None\<rparr> # rev (bindings c)"
  "rev (bindings (define_local c ty v)) =
    \<lparr>bind_ty = ty, bind_closed = scoped 0 ty, bind_def = Some v\<rparr> # rev (bindings c)"
  by (simp_all add: binding_simps)

interpretation cx: environment wf_ctx depth lookup ctx_definition ctx_extend define_local new_ctx
proof unfold_locales
  fix c :: ctx and a v :: tm and i :: nat
  assume c: "wf_ctx c"
  show "lookup c i \<noteq> None \<longleftrightarrow> i < depth c" using c by (simp add: lookup_eq)
  show "lookup (ctx_extend c a) i = (case i of 0 \<Rightarrow> Some (shift_up a 1 0)
      | Suc j \<Rightarrow> map_option (\<lambda>t. shift_up t 1 0) (lookup c j))"
    using c by (auto simp: lookup_eq shift_up_add split: nat.split)
  show "lookup (define_local c a v) i = lookup (ctx_extend c a) i"
    using c by (cases i) (simp_all add: lookup_eq)
  show "ctx_definition (ctx_extend c a) i =
      (case i of 0 \<Rightarrow> None | Suc j \<Rightarrow> map_option (\<lambda>t. shift_up t 1 0) (ctx_definition c j))"
    using c by (auto simp: ctx_definition_def definition_under_eq option.map_comp o_def shift_up_add split: nat.split)
  show "ctx_definition (define_local c a v) i =
      (case i of 0 \<Rightarrow> Some (shift_up v 1 0) | Suc j \<Rightarrow> map_option (\<lambda>t. shift_up t 1 0) (ctx_definition c j))"
    using c by (auto simp: ctx_definition_def definition_under_eq option.map_comp o_def shift_up_add split: nat.split)
qed (simp_all add: new_ctx_def)

subsection \<open>Properties\<close>

text \<open>A context as the checker builds one: from the empty context, one assumption or definition at
  a time, the outermost first.\<close>

definition build_ctx :: "foundation \<Rightarrow> (tm \<times> tm option) list \<Rightarrow> ctx" where
  "build_ctx f entries =
     foldl (\<lambda>c (ty, v). case v of None \<Rightarrow> ctx_extend c ty | Some v \<Rightarrow> define_local c ty v)
       (with_foundation f) entries"

lemma build_ctx_snoc:
  "build_ctx f (es @ [(ty, v)]) =
     (case v of None \<Rightarrow> ctx_extend (build_ctx f es) ty | Some v \<Rightarrow> define_local (build_ctx f es) ty v)"
  by (simp add: build_ctx_def split: option.split)

lemma build_ctx_bindings:
  "wf_ctx (build_ctx f es) \<and> ctx_foundation (build_ctx f es) = f \<and>
   map (\<lambda>b. (bind_ty b, bind_def b)) (bindings (build_ctx f es)) = es"
proof (induction es rule: rev_induct)
  case (snoc e es)
  then show ?case
    by (cases e; cases "snd e") (auto simp: build_ctx_snoc binding_simps wf_ctx_def)
qed (simp add: build_ctx_def wf_ctx_def with_foundation_def)

text \<open>C32: The contexts the checker builds keep every binding: whatever sequence of assumptions and
  definitions was entered, the cached closed flags are right, index \<open>i\<close> finds the type and the
  definition of the \<open>i\<close>-th innermost binding moved into the current scope, and an index beyond
  the depth finds nothing.\<close>

theorem context_faithful:
  "wf_ctx (build_ctx f es) \<and> depth (build_ctx f es) = length es \<and>
   lookup (build_ctx f es) i =
     (if i < length es then Some (shift_up (fst (rev es ! i)) (Suc i) 0) else None) \<and>
   ctx_definition (build_ctx f es) i =
     (if i < length es then map_option (\<lambda>v. shift_up v (Suc i) 0) (snd (rev es ! i)) else None) \<and>
   ctx_types (build_ctx f es) = map fst es"
proof -
  let ?c = "build_ctx f es"
  have wf: "wf_ctx ?c" and es: "map (\<lambda>b. (bind_ty b, bind_def b)) (bindings ?c) = es"
    using build_ctx_bindings [of f es] by auto
  have len: "depth ?c = length es" unfolding depth_def by (subst es [symmetric]) simp
  have "rev es ! i = (bind_ty (rev (bindings ?c) ! i), bind_def (rev (bindings ?c) ! i))" if "i < length es"
    by (subst es [symmetric]) (use that len in \<open>simp add: rev_map depth_def\<close>)
  moreover have "ctx_types ?c = map fst es"
    unfolding ctx_types_def by (subst es [symmetric]) simp
  ultimately show ?thesis
    using wf len by (simp add: lookup_eq ctx_definition_def definition_under_eq)
qed

end
