(* ===== verification/Conversion.thy ===== *)
theory Conversion
  imports Contexts
begin

section \<open>Weak head normalisation and definitional equality\<close>

text \<open>
  Models the \<open>Conversion\<close> engine of \<open>crates/verum_proof/src/proof_checker.rs\<close>:
  \<open>whnf_fuel\<close> with its explicit reduction budget, \<open>def_eq\<close>, the structural
  comparison \<open>def_eq_whnf\<close> and the eta rule \<open>eta_match\<close>.

  The reduction budget of the code is the argument \<open>fuel\<close> of \<open>whnf_fuel\<close>: each turn
  of the loop, nested calls included, spends one unit, which is also why the
  function terminates. The recursion of \<open>def_eq\<close> has no budget in the code (it
  follows the structure of normal forms, which ill-typed input can make infinite),
  so the model takes a bound on its depth and answers \<open>NoFuel\<close> beyond it;
  \<open>def_eq_mono\<close> shows that a larger bound never changes an answer.
\<close>

record conversion =
  conv_context :: ctx
  conv_binders :: nat

definition WHNF_FUEL_CEILING :: nat where
  "WHNF_FUEL_CEILING = 2 ^ 20"

definition ctx_conversion :: "ctx \<Rightarrow> conversion" where
  "ctx_conversion c = \<lparr>conv_context = c, conv_binders = 0\<rparr>"

definition under :: "conversion \<Rightarrow> nat \<Rightarrow> conversion" where
  "under cv binders = cv\<lparr>conv_binders := conv_binders cv + binders\<rparr>"

subsection \<open>Views: the single-constructor patterns of the source\<close>

definition as_lam :: "tm \<Rightarrow> (tm \<times> tm) option" where
  "as_lam t = (case t of Lam a b \<Rightarrow> Some (a, b) | _ \<Rightarrow> None)"

definition as_pi :: "tm \<Rightarrow> (tm \<times> tm) option" where
  "as_pi t = (case t of PiT a b \<Rightarrow> Some (a, b) | _ \<Rightarrow> None)"

definition as_sigma :: "tm \<Rightarrow> (tm \<times> tm) option" where
  "as_sigma t = (case t of SigmaT a b \<Rightarrow> Some (a, b) | _ \<Rightarrow> None)"

definition as_pair :: "tm \<Rightarrow> (tm \<times> tm) option" where
  "as_pair t = (case t of PairT a b \<Rightarrow> Some (a, b) | _ \<Rightarrow> None)"

definition as_app :: "tm \<Rightarrow> (tm \<times> tm) option" where
  "as_app t = (case t of App a b \<Rightarrow> Some (a, b) | _ \<Rightarrow> None)"

definition as_refl :: "tm \<Rightarrow> tm option" where
  "as_refl t = (case t of Refl a \<Rightarrow> Some a | _ \<Rightarrow> None)"

definition as_id :: "tm \<Rightarrow> (tm \<times> tm \<times> tm) option" where
  "as_id t = (case t of IdT a b c \<Rightarrow> Some (a, b, c) | _ \<Rightarrow> None)"

definition as_universe :: "tm \<Rightarrow> level option" where
  "as_universe t = (case t of Universe l \<Rightarrow> Some l | _ \<Rightarrow> None)"

definition as_construct :: "tm \<Rightarrow> (tm \<times> nat \<times> tm list) option" where
  "as_construct t = (case t of Construct d k args \<Rightarrow> Some (d, k, args) | _ \<Rightarrow> None)"

definition as_data :: "tm \<Rightarrow> (string \<times> level \<times> tm list \<times> data_constructor list) option" where
  "as_data t = (case t of Data n l is cs \<Rightarrow> Some (n, l, is, cs) | _ \<Rightarrow> None)"

lemma view_Some [simp]:
  "as_lam t = Some (a, b) \<longleftrightarrow> t = Lam a b"
  "as_pi t = Some (a, b) \<longleftrightarrow> t = PiT a b"
  "as_sigma t = Some (a, b) \<longleftrightarrow> t = SigmaT a b"
  "as_pair t = Some (a, b) \<longleftrightarrow> t = PairT a b"
  "as_app t = Some (a, b) \<longleftrightarrow> t = App a b"
  "as_refl t = Some a \<longleftrightarrow> t = Refl a"
  "as_id t = Some (a, b, c) \<longleftrightarrow> t = IdT a b c"
  "as_universe t = Some l \<longleftrightarrow> t = Universe l"
  "as_construct t = Some (d, k, args) \<longleftrightarrow> t = Construct d k args"
  "as_data t = Some (n, l, is, cs) \<longleftrightarrow> t = Data n l is cs"
  by (simp_all add: as_lam_def as_pi_def as_sigma_def as_pair_def as_app_def as_refl_def as_id_def
      as_universe_def as_construct_def as_data_def split: tm.splits)

lemma view_self [simp]:
  "as_lam (Lam a b) = Some (a, b)" "as_pi (PiT a b) = Some (a, b)" "as_sigma (SigmaT a b) = Some (a, b)"
  "as_pair (PairT a b) = Some (a, b)" "as_app (App a b) = Some (a, b)" "as_refl (Refl a) = Some a"
  "as_id (IdT a b c) = Some (a, b, c)" "as_universe (Universe l) = Some l"
  "as_construct (Construct d k args) = Some (d, k, args)" "as_data (Data n l is cs) = Some (n, l, is, cs)"
  by simp_all

lemmas view_defs = as_lam_def as_pi_def as_sigma_def as_pair_def as_app_def as_refl_def as_id_def
  as_universe_def as_construct_def as_data_def

subsection \<open>Weak head normal form\<close>

text \<open>The value a variable unfolds to, under the binders entered during conversion.\<close>

definition conv_definition :: "conversion \<Rightarrow> nat \<Rightarrow> tm option" where
  "conv_definition cv index =
     (if conv_binders cv \<le> index
      then definition_under (conv_context cv) (index - conv_binders cv) (conv_binders cv)
      else None)"

definition is_recursive :: "data_field \<Rightarrow> bool" where
  "is_recursive field = (case field of Recursive \<Rightarrow> True | RecursiveAt _ \<Rightarrow> True | _ \<Rightarrow> False)"

definition induct_apply ::
  "tm \<Rightarrow> tm list \<Rightarrow> tm \<Rightarrow> (data_field \<times> tm) list \<Rightarrow> tm" where
  "induct_apply motive cases result pairs =
     foldl (\<lambda>result (field, argument).
         let result = App result argument
         in if is_recursive field then App result (Induct argument motive cases) else result)
       result pairs"

definition iota_contract ::
  "tm \<Rightarrow> nat \<Rightarrow> tm list \<Rightarrow> tm \<Rightarrow> tm list \<Rightarrow> tm option" where
  "iota_contract declaration k args motive cases =
     (case as_data declaration of
        Some (_, _, _, constructors) \<Rightarrow>
          (if k < length constructors \<and> k < length cases \<and>
              length (con_fields (constructors ! k)) = length args
           then Some (induct_apply motive cases (cases ! k) (zip (con_fields (constructors ! k)) args))
           else None)
      | None \<Rightarrow> None)"

function whnf_fuel :: "conversion \<Rightarrow> tm \<Rightarrow> nat \<Rightarrow> (check_error, tm \<times> nat) run" where
  "whnf_fuel cv t fuel =
     (if fuel = 0 then Err FuelExhausted
      else let fuel = fuel - 1 in
        case t of
          Var index \<Rightarrow>
            (case conv_definition cv index of
               Some v \<Rightarrow> whnf_fuel cv v fuel
             | None \<Rightarrow> Ok (Var index, fuel))
        | LetT v body \<Rightarrow> whnf_fuel cv (subst body 0 v) fuel
        | Induct scrutinee motive cases \<Rightarrow>
            run_bind (whnf_fuel cv scrutinee fuel) (\<lambda>(head, fuel).
              case as_construct head of
                Some (data, k, args) \<Rightarrow>
                  run_bind (whnf_fuel cv data fuel) (\<lambda>(declaration, fuel).
                    case iota_contract declaration k args motive cases of
                      Some result \<Rightarrow> whnf_fuel cv result fuel
                    | None \<Rightarrow> Ok (Induct head motive cases, fuel))
              | None \<Rightarrow> Ok (Induct head motive cases, fuel))
        | App f x \<Rightarrow>
            run_bind (whnf_fuel cv f fuel) (\<lambda>(f, fuel).
              case as_lam f of
                Some (_, body) \<Rightarrow> whnf_fuel cv (subst body 0 x) fuel
              | None \<Rightarrow> Ok (App f x, fuel))
        | FstT p \<Rightarrow>
            run_bind (whnf_fuel cv p fuel) (\<lambda>(p, fuel).
              case as_pair p of
                Some (a, _) \<Rightarrow> whnf_fuel cv a fuel
              | None \<Rightarrow> Ok (FstT p, fuel))
        | SndT p \<Rightarrow>
            run_bind (whnf_fuel cv p fuel) (\<lambda>(p, fuel).
              case as_pair p of
                Some (_, b) \<Rightarrow> whnf_fuel cv b fuel
              | None \<Rightarrow> Ok (SndT p, fuel))
        | J motive base scrutinee \<Rightarrow>
            run_bind (whnf_fuel cv scrutinee fuel) (\<lambda>(s, fuel).
              case as_refl s of
                Some _ \<Rightarrow> whnf_fuel cv base fuel
              | None \<Rightarrow> Ok (J motive base s, fuel))
        | IdElim motive base scrutinee \<Rightarrow>
            run_bind (whnf_fuel cv scrutinee fuel) (\<lambda>(s, fuel).
              case as_refl s of
                Some _ \<Rightarrow> whnf_fuel cv base fuel
              | None \<Rightarrow> Ok (IdElim motive base s, fuel))
        | _ \<Rightarrow> Ok (t, fuel))"
  by pat_completeness auto


lemma whnf_fuel_dom_less:
  "whnf_fuel_dom (cv, t, n) \<Longrightarrow> whnf_fuel cv t n = Ok (t', n') \<Longrightarrow> n' < n"
proof (induction arbitrary: t' n' rule: whnf_fuel.pinduct)
  case (1 cv t n)
  have n: "n \<noteq> 0" using "1.prems" whnf_fuel.psimps [OF 1(1)] by (intro notI) simp
  note step = whnf_fuel.psimps [OF 1(1)] Let_def n
  note IH = "1.IH" [OF n refl]
  show ?case
  proof (cases t)
    case (Induct s m cs)
    obtain h k where h: "whnf_fuel cv s (n - 1) = Ok (h, k)" and
      rest: "(case as_construct h of
          Some (data, c, args) \<Rightarrow>
            run_bind (whnf_fuel cv data k) (\<lambda>(declaration, fuel).
              case iota_contract declaration c args m cs of
                Some result \<Rightarrow> whnf_fuel cv result fuel
              | None \<Rightarrow> Ok (Induct h m cs, fuel))
        | None \<Rightarrow> Ok (Induct h m cs, k)) = Ok (t', n')"
      using "1.prems" unfolding step by (auto simp: Induct n)
    have k: "k < n - 1" by (rule IH(1) [OF Induct h])
    show ?thesis
    proof (cases "as_construct h")
      case (Some x)
      then obtain d c args where x: "as_construct h = Some (d, c, args)" by (cases x) auto
      with rest obtain decl l where decl: "whnf_fuel cv d k = Ok (decl, l)" and
        rest': "(case iota_contract decl c args m cs of
            Some result \<Rightarrow> whnf_fuel cv result l | None \<Rightarrow> Ok (Induct h m cs, l)) = Ok (t', n')"
        by auto
      have "l < k" by (rule IH(2) [OF Induct h refl x refl refl decl])
      moreover have "n' \<le> l"
        using rest' IH(3) [OF Induct h refl x refl refl decl refl] by (auto split: option.splits dest: less_imp_le)
      ultimately show ?thesis using k by simp
    qed (use k rest in auto)
  next
    case (App f x)
    show ?thesis
      using "1.prems" IH(6) [OF App] IH(7) [OF App _ refl _ refl]
      unfolding step unfolding App by (fastforce simp: n split: option.splits)
  next
    case (FstT p)
    show ?thesis
      using "1.prems" IH(8) [OF FstT] IH(9) [OF FstT _ refl _ refl]
      unfolding step unfolding FstT by (fastforce simp: n split: option.splits)
  next
    case (SndT p)
    show ?thesis
      using "1.prems" IH(10) [OF SndT] IH(11) [OF SndT _ refl _ refl]
      unfolding step unfolding SndT by (fastforce simp: n split: option.splits)
  next
    case (J m b s)
    show ?thesis
      using "1.prems" IH(12) [OF J] IH(13) [OF J _ refl]
      unfolding step unfolding J by (fastforce simp: n split: option.splits)
  next
    case (IdElim m b s)
    show ?thesis
      using "1.prems" IH(14) [OF IdElim] IH(15) [OF IdElim _ refl]
      unfolding step unfolding IdElim by (fastforce simp: n split: option.splits)
  next
    case (LetT v b)
    show ?thesis using "1.prems" IH(4) [OF LetT] unfolding step unfolding LetT by (fastforce simp: n)
  next
    case (Var i)
    show ?thesis using "1.prems" n IH(5) [OF Var] unfolding step unfolding Var by (fastforce simp: n split: option.splits)
  qed (use "1.prems" n in \<open>unfold step, auto\<close>)
qed

termination whnf_fuel
  by (relation "measure (\<lambda>(cv, t, n). n)") (fastforce dest: whnf_fuel_dom_less)+

declare whnf_fuel.simps [simp del]

subsection \<open>The reduction the loop computes\<close>

text \<open>
  \<open>whr \<delta> t k w\<close>: under the definitions \<open>\<delta>\<close>, the term \<open>t\<close> reduces to the weak head normal form \<open>w\<close>
  at a cost of \<open>k\<close>. The cost is what the loop charges: one unit for every head it looks at, in the term
  itself and in the scrutinees, function positions and declarations it normalises on the way, whether
  the head is contracted or found normal. A beta redex with a normal function and a normal result
  therefore costs three units (the application, the function, the result), not one.
\<close>

fun is_intro :: "tm \<Rightarrow> bool" where
  "is_intro (Var i) = False"
| "is_intro (LetT v b) = False"
| "is_intro (Induct s m cs) = False"
| "is_intro (App f x) = False"
| "is_intro (FstT p) = False"
| "is_intro (SndT p) = False"
| "is_intro (J m b s) = False"
| "is_intro (IdElim m b s) = False"
| "is_intro t = True"

inductive whr :: "(nat \<Rightarrow> tm option) \<Rightarrow> tm \<Rightarrow> nat \<Rightarrow> tm \<Rightarrow> bool" for \<delta> where
  whr_intro: "is_intro t \<Longrightarrow> whr \<delta> t (Suc 0) t"
| whr_var: "\<delta> i = None \<Longrightarrow> whr \<delta> (Var i) (Suc 0) (Var i)"
| whr_delta: "\<delta> i = Some v \<Longrightarrow> whr \<delta> v k w \<Longrightarrow> whr \<delta> (Var i) (Suc k) w"
| whr_let: "whr \<delta> (subst b 0 v) k w \<Longrightarrow> whr \<delta> (LetT v b) (Suc k) w"
| whr_beta: "whr \<delta> f k (Lam a b) \<Longrightarrow> whr \<delta> (subst b 0 x) l w \<Longrightarrow> whr \<delta> (App f x) (Suc (k + l)) w"
| whr_app: "whr \<delta> f k f' \<Longrightarrow> as_lam f' = None \<Longrightarrow> whr \<delta> (App f x) (Suc k) (App f' x)"
| whr_fst_pair: "whr \<delta> p k (PairT a b) \<Longrightarrow> whr \<delta> a l w \<Longrightarrow> whr \<delta> (FstT p) (Suc (k + l)) w"
| whr_fst: "whr \<delta> p k p' \<Longrightarrow> as_pair p' = None \<Longrightarrow> whr \<delta> (FstT p) (Suc k) (FstT p')"
| whr_snd_pair: "whr \<delta> p k (PairT a b) \<Longrightarrow> whr \<delta> b l w \<Longrightarrow> whr \<delta> (SndT p) (Suc (k + l)) w"
| whr_snd: "whr \<delta> p k p' \<Longrightarrow> as_pair p' = None \<Longrightarrow> whr \<delta> (SndT p) (Suc k) (SndT p')"
| whr_J_refl: "whr \<delta> s k (Refl a) \<Longrightarrow> whr \<delta> b l w \<Longrightarrow> whr \<delta> (J m b s) (Suc (k + l)) w"
| whr_J: "whr \<delta> s k s' \<Longrightarrow> as_refl s' = None \<Longrightarrow> whr \<delta> (J m b s) (Suc k) (J m b s')"
| whr_IdElim_refl: "whr \<delta> s k (Refl a) \<Longrightarrow> whr \<delta> b l w \<Longrightarrow> whr \<delta> (IdElim m b s) (Suc (k + l)) w"
| whr_IdElim: "whr \<delta> s k s' \<Longrightarrow> as_refl s' = None \<Longrightarrow> whr \<delta> (IdElim m b s) (Suc k) (IdElim m b s')"
| whr_iota: "whr \<delta> s k (Construct d c args) \<Longrightarrow> whr \<delta> d l decl \<Longrightarrow>
    iota_contract decl c args m cs = Some r \<Longrightarrow> whr \<delta> r j w \<Longrightarrow> whr \<delta> (Induct s m cs) (Suc (k + l + j)) w"
| whr_induct_decl: "whr \<delta> s k (Construct d c args) \<Longrightarrow> whr \<delta> d l decl \<Longrightarrow>
    iota_contract decl c args m cs = None \<Longrightarrow>
    whr \<delta> (Induct s m cs) (Suc (k + l)) (Induct (Construct d c args) m cs)"
| whr_induct: "whr \<delta> s k s' \<Longrightarrow> as_construct s' = None \<Longrightarrow> whr \<delta> (Induct s m cs) (Suc k) (Induct s' m cs)"

inductive_cases whr_elims:
  "whr \<delta> (Var i) k w" "whr \<delta> (LetT v b) k w" "whr \<delta> (App f x) k w" "whr \<delta> (FstT p) k w"
  "whr \<delta> (SndT p) k w" "whr \<delta> (J m b s) k w" "whr \<delta> (IdElim m b s) k w" "whr \<delta> (Induct s m cs) k w"

lemma whnf_fuel_0 [simp]: "whnf_fuel cv t 0 = Err FuelExhausted"
  by (simp add: whnf_fuel.simps)

lemma whnf_fuel_intro [simp]: "is_intro t \<Longrightarrow> whnf_fuel cv t (Suc n) = Ok (t, n)"
  by (cases t) (simp_all add: whnf_fuel.simps)

lemma whnf_fuel_Suc [simp]:
  "whnf_fuel cv (Var i) (Suc n) =
     (case conv_definition cv i of Some v \<Rightarrow> whnf_fuel cv v n | None \<Rightarrow> Ok (Var i, n))"
  "whnf_fuel cv (LetT v b) (Suc n) = whnf_fuel cv (subst b 0 v) n"
  "whnf_fuel cv (Induct s m cs) (Suc n) = run_bind (whnf_fuel cv s n) (\<lambda>(h, n).
     case as_construct h of
       Some (d, k, args) \<Rightarrow> run_bind (whnf_fuel cv d n) (\<lambda>(decl, n).
         case iota_contract decl k args m cs of
           Some r \<Rightarrow> whnf_fuel cv r n | None \<Rightarrow> Ok (Induct h m cs, n))
     | None \<Rightarrow> Ok (Induct h m cs, n))"
  "whnf_fuel cv (App f x) (Suc n) = run_bind (whnf_fuel cv f n) (\<lambda>(f, n).
     case as_lam f of Some (_, b) \<Rightarrow> whnf_fuel cv (subst b 0 x) n | None \<Rightarrow> Ok (App f x, n))"
  "whnf_fuel cv (FstT p) (Suc n) = run_bind (whnf_fuel cv p n) (\<lambda>(p, n).
     case as_pair p of Some (a, _) \<Rightarrow> whnf_fuel cv a n | None \<Rightarrow> Ok (FstT p, n))"
  "whnf_fuel cv (SndT p) (Suc n) = run_bind (whnf_fuel cv p n) (\<lambda>(p, n).
     case as_pair p of Some (_, b) \<Rightarrow> whnf_fuel cv b n | None \<Rightarrow> Ok (SndT p, n))"
  "whnf_fuel cv (J m b s) (Suc n) = run_bind (whnf_fuel cv s n) (\<lambda>(s, n).
     case as_refl s of Some _ \<Rightarrow> whnf_fuel cv b n | None \<Rightarrow> Ok (J m b s, n))"
  "whnf_fuel cv (IdElim m b s) (Suc n) = run_bind (whnf_fuel cv s n) (\<lambda>(s, n).
     case as_refl s of Some _ \<Rightarrow> whnf_fuel cv b n | None \<Rightarrow> Ok (IdElim m b s, n))"
  by (simp_all add: whnf_fuel.simps [of cv _ "Suc n"])

lemma whr_pos: "whr \<delta> t k w \<Longrightarrow> 0 < k"
  by (induction rule: whr.induct) auto

lemma whnf_fuel_complete:
  "whr (conv_definition cv) t k w \<Longrightarrow> whnf_fuel cv t (k + n) = Ok (w, n)"
  by (induction arbitrary: n rule: whr.induct) (simp_all add: add.assoc)

text \<open>Every successful run of at most \<open>n\<close> units is a reduction of that many units.\<close>

definition fuel_sound :: "conversion \<Rightarrow> nat \<Rightarrow> bool" where
  "fuel_sound cv n \<longleftrightarrow> (\<forall>m \<le> n. \<forall>t w m'. whnf_fuel cv t m = Ok (w, m') \<longrightarrow>
     (\<exists>k. whr (conv_definition cv) t k w \<and> m = k + m'))"

lemma fuel_soundD:
  "fuel_sound cv n \<Longrightarrow> whnf_fuel cv t m = Ok (w, m') \<Longrightarrow> m \<le> n \<Longrightarrow>
   \<exists>k. whr (conv_definition cv) t k w \<and> m = k + m'"
  by (simp add: fuel_sound_def)

lemma fuel_sound_head:
  assumes IH: "fuel_sound cv n" and run: "whnf_fuel cv t (Suc n) = Ok (w, n')"
    and t: "t = Var i \<or> t = LetT v b"
  shows "\<exists>k. whr (conv_definition cv) t k w \<and> Suc n = k + n'"
proof (cases "t = LetT v b \<or> conv_definition cv i \<noteq> None")
  case True
  then obtain u where "whnf_fuel cv u n = Ok (w, n')" and
    "u = subst b 0 v \<and> t = LetT v b \<or> conv_definition cv i = Some u \<and> t = Var i"
    using run t by auto
  with fuel_soundD [OF IH, of u n] show ?thesis by (auto intro: whr_delta whr_let)
next
  case False
  then show ?thesis using run t by (auto intro!: exI [of _ "Suc 0"] whr_var)
qed

lemma fuel_sound_elim:
  assumes IH: "fuel_sound cv n" and run: "whnf_fuel cv t (Suc n) = Ok (w, n')"
    and t: "t = App s x \<or> t = FstT s \<or> t = SndT s \<or> t = J x y s \<or> t = IdElim x y s"
  shows "\<exists>k. whr (conv_definition cv) t k w \<and> Suc n = k + n'"
proof -
  obtain s' m where s: "whnf_fuel cv s n = Ok (s', m)" using run t by auto
  from fuel_soundD [OF IH s] obtain k where k: "whr (conv_definition cv) s k s'" "n = k + m" by auto
  have "m \<le> n" using k by simp
  then have rest: "\<exists>l. whr (conv_definition cv) u l w \<and> m = l + n'" if "whnf_fuel cv u m = Ok (w, n')" for u
    using fuel_soundD [OF IH that] by simp
  show ?thesis
    using run t k s rest
    by (fastforce split: option.splits intro: whr_app whr_beta whr_fst whr_fst_pair whr_snd whr_snd_pair
        whr_J whr_J_refl whr_IdElim whr_IdElim_refl)
qed

lemma fuel_sound_induct:
  assumes IH: "fuel_sound cv n" and run: "whnf_fuel cv (Induct s mo cs) (Suc n) = Ok (w, n')"
  shows "\<exists>k. whr (conv_definition cv) (Induct s mo cs) k w \<and> Suc n = k + n'"
proof -
  obtain h m where s: "whnf_fuel cv s n = Ok (h, m)" using run by auto
  from fuel_soundD [OF IH s] obtain k where k: "whr (conv_definition cv) s k h" "n = k + m" by auto
  show ?thesis
  proof (cases "as_construct h")
    case None
    with k run s show ?thesis by (auto intro: whr_induct)
  next
    case (Some x)
    then obtain d c args where h: "h = Construct d c args" by (cases x) auto
    with run s obtain decl l where decl: "whnf_fuel cv d m = Ok (decl, l)" and
      rest: "(case iota_contract decl c args mo cs of
          Some r \<Rightarrow> whnf_fuel cv r l | None \<Rightarrow> Ok (Induct h mo cs, l)) = Ok (w, n')"
      by auto
    from fuel_soundD [OF IH decl] k obtain j where j: "whr (conv_definition cv) d j decl" "m = j + l" by auto
    show ?thesis
      using k j rest h fuel_soundD [OF IH, of _ l w n']
      by (fastforce split: option.splits intro: whr_iota whr_induct_decl)
  qed
qed

lemma fuel_sound_all: "fuel_sound cv n"
proof (induction n)
  case (Suc n)
  have "\<exists>k. whr (conv_definition cv) t k w \<and> Suc n = k + n'"
    if run: "whnf_fuel cv t (Suc n) = Ok (w, n')" for t w n'
  proof (cases "is_intro t")
    case True
    with run show ?thesis by (auto intro!: exI [of _ "Suc 0"] whr_intro)
  next
    case False
    then show ?thesis
      using fuel_sound_head [OF Suc run] fuel_sound_elim [OF Suc run] fuel_sound_induct [OF Suc] run
      by (cases t) auto
  qed
  then show ?case using Suc by (auto simp: fuel_sound_def le_Suc_eq)
qed (simp add: fuel_sound_def)

lemma whnf_fuel_iff_whr:
  "whnf_fuel cv t n = Ok (w, n') \<longleftrightarrow> (\<exists>k. whr (conv_definition cv) t k w \<and> n = k + n')"
  using fuel_soundD [OF fuel_sound_all] whnf_fuel_complete by blast

lemma whnf_fuel_less: "whnf_fuel cv t n = Ok (t', n') \<Longrightarrow> n' < n"
  using whr_pos by (auto simp: whnf_fuel_iff_whr)

lemma whnf_fuel_neq_NoFuel [simp]: "whnf_fuel cv t n \<noteq> NoFuel"
proof (induction n arbitrary: t rule: less_induct)
  case (less n)
  show ?case
  proof (cases n)
    case (Suc m)
    have "k < n" if "whnf_fuel cv u m = Ok (w, k)" for u w k
      using whnf_fuel_less [OF that] Suc by simp
    moreover have "k < n" if "whnf_fuel cv u m = Ok (w, l)" "whnf_fuel cv u' l = Ok (w', k)" for u w k l u' w'
      using whnf_fuel_less [OF that(1)] whnf_fuel_less [OF that(2)] Suc by simp
    ultimately show ?thesis
      using less.IH [of m] less.IH by (cases t) (auto simp: Suc split: option.splits)
  qed simp
qed


lemmas whnf_fuel_numeral [simp] =
  whnf_fuel_Suc [where n = "pred_numeral k", folded numeral_eq_Suc]
  whnf_fuel_intro [where n = "pred_numeral k", folded numeral_eq_Suc] for k

lemma whr_normal: "whr \<delta> t k w \<Longrightarrow> \<exists>j. whr \<delta> w j w"
  by (induction rule: whr.induct)
    (blast intro: whr.intros)+

definition whnf :: "conversion \<Rightarrow> tm \<Rightarrow> (check_error, tm) run" where
  "whnf cv t = run_bind (whnf_fuel cv t WHNF_FUEL_CEILING) (\<lambda>(w, _). Ok w)"

definition expect_universe :: "conversion \<Rightarrow> tm \<Rightarrow> (check_error, level option) run" where
  "expect_universe cv t =
     run_bind (whnf cv t) (\<lambda>w. Ok (case as_universe w of Some l \<Rightarrow> Some (level_normalize l) | None \<Rightarrow> None))"

subsection \<open>Definitional equality\<close>

text \<open>
  Each arm of \<open>def_eq_whnf\<close> takes the recursive call \<open>deq\<close> as an argument; \<open>def_eq\<close>
  ties the knot with its bound.
\<close>

type_synonym deq = "conversion \<Rightarrow> tm \<Rightarrow> tm \<Rightarrow> (check_error, bool) run"

definition terms_def_eq :: "deq \<Rightarrow> conversion \<Rightarrow> tm list \<Rightarrow> tm list \<Rightarrow> (check_error, bool) run" where
  "terms_def_eq deq cv a b =
     (if length a \<noteq> length b then Ok False
      else all_checked (zip a b) (\<lambda>(a, b). deq cv a b))"

definition field_def_eq ::
  "deq \<Rightarrow> conversion \<Rightarrow> nat \<Rightarrow> data_field \<Rightarrow> data_field \<Rightarrow> (check_error, bool) run" where
  "field_def_eq deq cv index a b =
     (case (recursive_indices a, recursive_indices b) of
        (Some a, Some b) \<Rightarrow> terms_def_eq deq (under cv index) a b
      | (None, None) \<Rightarrow>
          (case (field_value_type a index, field_value_type b index) of
             (Some a, Some b) \<Rightarrow> deq (under cv index) a b
           | _ \<Rightarrow> Ok False)
      | _ \<Rightarrow> Ok False)"

definition constructor_def_eq ::
  "deq \<Rightarrow> conversion \<Rightarrow> data_constructor \<Rightarrow> data_constructor \<Rightarrow> (check_error, bool) run" where
  "constructor_def_eq deq cv a b =
     (if length (con_fields a) \<noteq> length (con_fields b) then Ok False
      else and_then (terms_def_eq deq (under cv (length (con_fields a))) (con_indices a) (con_indices b))
        (all_checked (List.enumerate 0 (zip (con_fields a) (con_fields b)))
          (\<lambda>(index, a, b). field_def_eq deq cv index a b)))"

definition data_def_eq ::
  "deq \<Rightarrow> conversion \<Rightarrow> string \<times> level \<times> tm list \<times> data_constructor list \<Rightarrow>
   string \<times> level \<times> tm list \<times> data_constructor list \<Rightarrow> (check_error, bool) run" where
  "data_def_eq deq cv = (\<lambda>(an, al, ai, ac) (bn, bl, bi, bc).
     if \<not> (an = bn \<and> level_eq al bl \<and> length ai = length bi) then Ok False
     else and_then
       (all_checked (List.enumerate 0 (zip ai bi)) (\<lambda>(index, a, b). deq (under cv index) a b))
       (if length ac \<noteq> length bc then Ok False
        else all_checked (zip ac bc) (\<lambda>(a, b). constructor_def_eq deq cv a b)))"

text \<open>The arms for two terms with the same head constructor; \<open>None\<close>: no such arm applies.\<close>

definition same_head_def_eq ::
  "deq \<Rightarrow> conversion \<Rightarrow> tm \<Rightarrow> tm \<Rightarrow> (check_error, bool) run option" where
  "same_head_def_eq deq cv a b =
     (case a of
        Data an al ai ac \<Rightarrow> map_option (data_def_eq deq cv (an, al, ai, ac)) (as_data b)
      | Construct ad ai aa \<Rightarrow> (case b of
          Construct bd bi ba \<Rightarrow>
            Some (if ai \<noteq> bi then Ok False
              else and_then (deq cv ad bd)
                (if length aa \<noteq> length ba then Ok False else terms_def_eq deq cv aa ba))
        | _ \<Rightarrow> None)
      | Induct a am ac \<Rightarrow> (case b of
          Induct b bm bc \<Rightarrow>
            Some (and_then (deq cv a b) (and_then (deq cv am bm)
              (if length ac \<noteq> length bc then Ok False else terms_def_eq deq cv ac bc)))
        | _ \<Rightarrow> None)
      | Var i \<Rightarrow> (case b of Var j \<Rightarrow> Some (Ok (i = j)) | _ \<Rightarrow> None)
      | Universe l1 \<Rightarrow> (case b of Universe l2 \<Rightarrow> Some (Ok (level_eq l1 l2)) | _ \<Rightarrow> None)
      | PiT a1 b1 \<Rightarrow> (case b of PiT a2 b2 \<Rightarrow> Some (and_then (deq cv a1 a2) (deq (under cv 1) b1 b2)) | _ \<Rightarrow> None)
      | Lam a1 b1 \<Rightarrow> (case b of Lam a2 b2 \<Rightarrow> Some (and_then (deq cv a1 a2) (deq (under cv 1) b1 b2)) | _ \<Rightarrow> None)
      | App f1 x1 \<Rightarrow> (case b of App f2 x2 \<Rightarrow> Some (and_then (deq cv f1 f2) (deq cv x1 x2)) | _ \<Rightarrow> None)
      | SigmaT a1 b1 \<Rightarrow>
          (case b of SigmaT a2 b2 \<Rightarrow> Some (and_then (deq cv a1 a2) (deq (under cv 1) b1 b2)) | _ \<Rightarrow> None)
      | PairT a1 b1 \<Rightarrow> (case b of PairT a2 b2 \<Rightarrow> Some (and_then (deq cv a1 a2) (deq cv b1 b2)) | _ \<Rightarrow> None)
      | FstT p1 \<Rightarrow> (case b of FstT p2 \<Rightarrow> Some (deq cv p1 p2) | _ \<Rightarrow> None)
      | SndT p1 \<Rightarrow> (case b of SndT p2 \<Rightarrow> Some (deq cv p1 p2) | _ \<Rightarrow> None)
      | IdT t1 l1 r1 \<Rightarrow> (case b of
          IdT t2 l2 r2 \<Rightarrow> Some (and_then (deq cv t1 t2) (and_then (deq cv l1 l2) (deq cv r1 r2))) | _ \<Rightarrow> None)
      | Refl v1 \<Rightarrow> (case b of Refl v2 \<Rightarrow> Some (deq cv v1 v2) | _ \<Rightarrow> None)
      | J m1 b1 s1 \<Rightarrow> (case b of
          J m2 b2 s2 \<Rightarrow> Some (and_then (deq cv m1 m2) (and_then (deq cv b1 b2) (deq cv s1 s2))) | _ \<Rightarrow> None)
      | IdElim m1 b1 s1 \<Rightarrow> (case b of
          IdElim m2 b2 s2 \<Rightarrow> Some (and_then (deq cv m1 m2) (and_then (deq cv b1 b2) (deq cv s1 s2))) | _ \<Rightarrow> None)
      | FunExt a1 b1 c1 d1 \<Rightarrow> (case b of
          FunExt a2 b2 c2 d2 \<Rightarrow>
            Some (and_then (deq cv a1 a2) (and_then (deq cv b1 b2) (and_then (deq cv c1 c2) (deq cv d1 d2))))
        | _ \<Rightarrow> None)
      | LetT _ _ \<Rightarrow> None)"

definition eta_match :: "deq \<Rightarrow> conversion \<Rightarrow> tm \<Rightarrow> tm \<Rightarrow> (check_error, bool) run" where
  "eta_match deq cv lam_body other =
     run_bind (whnf (under cv 1) lam_body) (\<lambda>app_body.
       case as_app app_body of
         None \<Rightarrow> Ok False
       | Some (f, x) \<Rightarrow>
           run_bind (whnf (under cv 1) x) (\<lambda>x_whnf.
             if x_whnf \<noteq> Var 0 then Ok False
             else if is_free_in f 0 then Ok False
             else deq cv (shift_down f 1 0) other))"

definition pair_eta :: "deq \<Rightarrow> conversion \<Rightarrow> tm \<Rightarrow> tm \<Rightarrow> tm \<Rightarrow> (check_error, bool) run" where
  "pair_eta deq cv first second other =
     and_then (deq cv first (FstT other)) (deq cv second (SndT other))"

definition def_eq_whnf :: "deq \<Rightarrow> conversion \<Rightarrow> tm \<Rightarrow> tm \<Rightarrow> (check_error, bool) run" where
  "def_eq_whnf deq cv a b =
     (case same_head_def_eq deq cv a b of
        Some r \<Rightarrow> r
      | None \<Rightarrow>
          (case (as_pair a, as_pair b) of
             (Some (first, second), _) \<Rightarrow> pair_eta deq cv first second b
           | (None, Some (first, second)) \<Rightarrow> pair_eta deq cv first second a
           | (None, None) \<Rightarrow>
               (case (as_lam a, as_lam b) of
                  (Some (_, body), _) \<Rightarrow> eta_match deq cv body b
                | (None, Some (_, body)) \<Rightarrow> eta_match deq cv body a
                | (None, None) \<Rightarrow> Ok False)))"

definition def_eq_step :: "deq \<Rightarrow> deq" where
  "def_eq_step deq cv a b =
     (if a = b then Ok True
      else run_bind (whnf cv a) (\<lambda>a. run_bind (whnf cv b) (\<lambda>b. def_eq_whnf deq cv a b)))"

fun def_eq :: "nat \<Rightarrow> deq" where
  "def_eq 0 = (\<lambda>cv a b. NoFuel)"
| "def_eq (Suc n) = def_eq_step (def_eq n)"

subsection \<open>A larger bound never changes an answer\<close>

definition deq_le :: "deq \<Rightarrow> deq \<Rightarrow> bool" where
  "deq_le f g \<longleftrightarrow> (\<forall>cv a b. run_le (f cv a b) (g cv a b))"

lemma terms_def_eq_mono [run_mono]:
  "deq_le f g \<Longrightarrow> run_le (terms_def_eq f cv a b) (terms_def_eq g cv a b)"
  by (auto simp: terms_def_eq_def deq_le_def split_beta intro!: run_mono)

lemma field_def_eq_mono [run_mono]:
  "deq_le f g \<Longrightarrow> run_le (field_def_eq f cv i a b) (field_def_eq g cv i a b)"
  by (auto simp: field_def_eq_def deq_le_def split: option.split intro: run_mono)

lemma constructor_def_eq_mono [run_mono]:
  "deq_le f g \<Longrightarrow> run_le (constructor_def_eq f cv a b) (constructor_def_eq g cv a b)"
  by (auto simp: constructor_def_eq_def split_beta intro!: run_mono)

lemma data_def_eq_mono [run_mono]:
  "deq_le f g \<Longrightarrow> run_le (data_def_eq f cv a b) (data_def_eq g cv a b)"
  by (auto simp: data_def_eq_def deq_le_def split_beta intro!: run_mono)

lemma same_head_mono:
  assumes "deq_le f g"
  shows "rel_option run_le (same_head_def_eq f cv a b) (same_head_def_eq g cv a b)"
  using assms [unfolded deq_le_def]
  by (cases a; cases b) (auto simp: same_head_def_eq_def view_defs intro!: run_mono assms)

lemma eta_match_mono [run_mono]:
  "deq_le f g \<Longrightarrow> run_le (eta_match f cv a b) (eta_match g cv a b)"
  by (auto simp: eta_match_def deq_le_def intro!: run_mono split: option.split)

lemma pair_eta_mono [run_mono]:
  "deq_le f g \<Longrightarrow> run_le (pair_eta f cv a b c) (pair_eta g cv a b c)"
  by (auto simp: pair_eta_def deq_le_def intro!: run_mono)

lemma def_eq_whnf_mono [run_mono]:
  "deq_le f g \<Longrightarrow> run_le (def_eq_whnf f cv a b) (def_eq_whnf g cv a b)"
  using same_head_mono [of f g cv a b]
  by (cases "same_head_def_eq f cv a b"; cases "same_head_def_eq g cv a b")
    (auto simp: def_eq_whnf_def intro!: run_mono split: option.split)

lemma def_eq_step_mono: "deq_le f g \<Longrightarrow> deq_le (def_eq_step f) (def_eq_step g)"
  by (auto simp: deq_le_def [of "def_eq_step f"] def_eq_step_def intro!: run_mono)

lemma deq_le_trans: "deq_le f g \<Longrightarrow> deq_le g h \<Longrightarrow> deq_le f h"
  using run_le_trans by (fastforce simp: deq_le_def)

lemma def_eq_Suc_le: "deq_le (def_eq n) (def_eq (Suc n))"
  by (induction n) (auto intro: def_eq_step_mono, simp add: deq_le_def)

lemma def_eq_mono: "n \<le> m \<Longrightarrow> deq_le (def_eq n) (def_eq m)"
  by (induction rule: dec_induct)
    (auto simp: deq_le_def [of "def_eq n" "def_eq n"] intro: deq_le_trans def_eq_Suc_le [simplified])

subsection \<open>Acceptance is symmetric\<close>

definition sym_deq :: "deq \<Rightarrow> bool" where
  "sym_deq deq \<longleftrightarrow> (\<forall>cv a b. deq cv a b = Ok True \<longrightarrow> deq cv b a = Ok True)"

lemma terms_def_eq_commute:
  "sym_deq deq \<Longrightarrow> terms_def_eq deq cv a b = Ok True \<Longrightarrow> terms_def_eq deq cv b a = Ok True"
  by (auto simp: terms_def_eq_def sym_deq_def all_checked_zip split: if_splits)

lemma field_def_eq_commute:
  "sym_deq deq \<Longrightarrow> field_def_eq deq cv i a b = Ok True \<Longrightarrow> field_def_eq deq cv i b a = Ok True"
  by (auto simp: field_def_eq_def sym_deq_def intro: terms_def_eq_commute [unfolded sym_deq_def]
      split: option.splits)

lemma constructor_def_eq_commute:
  "sym_deq deq \<Longrightarrow> constructor_def_eq deq cv a b = Ok True \<Longrightarrow> constructor_def_eq deq cv b a = Ok True"
  by (auto simp: constructor_def_eq_def all_checked_enumerate_zip split: if_splits
     intro: terms_def_eq_commute field_def_eq_commute)

lemma data_def_eq_commute:
  assumes "sym_deq deq" and "data_def_eq deq cv (an, al, ai, ac) (bn, bl, bi, bc) = Ok True"
  shows "data_def_eq deq cv (bn, bl, bi, bc) (an, al, ai, ac) = Ok True"
proof -
  have eqs: "an = bn" "level_eq al bl" "length ai = length bi" "length ac = length bc"
    and idx: "\<forall>i < length bi. deq (under cv i) (ai ! i) (bi ! i) = Ok True"
    and cons: "\<forall>i < length bc. constructor_def_eq deq cv (ac ! i) (bc ! i) = Ok True"
    using assms(2) by (auto simp: data_def_eq_def all_checked_enumerate_zip all_checked_zip split: if_splits)
  have "\<forall>i < length bi. deq (under cv i) (bi ! i) (ai ! i) = Ok True"
    using idx assms(1) by (simp add: sym_deq_def)
  moreover have "\<forall>i < length bc. constructor_def_eq deq cv (bc ! i) (ac ! i) = Ok True"
    using cons constructor_def_eq_commute [OF assms(1)] by blast
  ultimately show ?thesis
    using eqs by (simp add: data_def_eq_def all_checked_enumerate_zip all_checked_zip level_eq_def)
qed

lemma same_head_commute:
  assumes "sym_deq deq" and "same_head_def_eq deq cv a b = Some (Ok True)"
  shows "same_head_def_eq deq cv b a = Some (Ok True)"
  using assms(2) assms(1) [unfolded sym_deq_def]
  by (cases a; cases b)
    (auto simp: same_head_def_eq_def view_defs level_eq_def
      intro: terms_def_eq_commute [OF assms(1)] data_def_eq_commute [OF assms(1)] split: if_splits)

lemma same_head_None_commute: "same_head_def_eq deq cv a b = None \<longleftrightarrow> same_head_def_eq deq cv b a = None"
  by (cases a; cases b) (auto simp: same_head_def_eq_def view_defs)

lemma same_head_both:
  "same_head_def_eq deq cv a b = None \<Longrightarrow> as_pair a = None \<or> as_pair b = None"
  "same_head_def_eq deq cv a b = None \<Longrightarrow> as_lam a = None \<or> as_lam b = None"
  by (cases a; cases b; simp add: same_head_def_eq_def view_defs)+

lemma def_eq_whnf_commute:
  assumes "sym_deq deq" and "def_eq_whnf deq cv a b = Ok True"
  shows "def_eq_whnf deq cv b a = Ok True"
proof (cases "same_head_def_eq deq cv a b")
  case (Some r)
  with assms show ?thesis using same_head_commute [OF assms(1)] by (auto simp: def_eq_whnf_def)
next
  case None
  with assms(2) same_head_both [OF None] show ?thesis
    unfolding def_eq_whnf_def None same_head_None_commute [THEN iffD1, OF None]
    by (auto split: option.splits)
qed

lemma def_eq_step_commute: "sym_deq deq \<Longrightarrow> sym_deq (def_eq_step deq)"
  unfolding sym_deq_def [of "def_eq_step deq"] def_eq_step_def
  by (auto split: if_splits dest: def_eq_whnf_commute)

lemma def_eq_commute: "sym_deq (def_eq n)"
  by (induction n) (auto intro: def_eq_step_commute, simp add: sym_deq_def)

subsection \<open>Normal forms are normal, and the only error is the budget\<close>

lemma bounded_ex_mono: "\<exists>j \<le> l. P j \<Longrightarrow> l \<le> (m :: nat) \<Longrightarrow> \<exists>j \<le> m. P j"
  by (meson order_trans)

lemma bounded_ex_Suc: "\<exists>j \<le> k. P j \<Longrightarrow> (\<And>j. P j \<Longrightarrow> Q (Suc j)) \<Longrightarrow> \<exists>j \<le> Suc k. Q j"
  by (meson Suc_le_mono)

lemma whr_renormal: "whr \<delta> t k w \<Longrightarrow> \<exists>j \<le> k. whr \<delta> w j w"
proof (induction rule: whr.induct)
  case (whr_app f k f' x)
  show ?case by (rule bounded_ex_Suc [OF whr_app.IH]) (rule whr.whr_app, simp_all add: whr_app.hyps)
next
  case (whr_fst p k p')
  show ?case by (rule bounded_ex_Suc [OF whr_fst.IH]) (rule whr.whr_fst, simp_all add: whr_fst.hyps)
next
  case (whr_snd p k p')
  show ?case by (rule bounded_ex_Suc [OF whr_snd.IH]) (rule whr.whr_snd, simp_all add: whr_snd.hyps)
next
  case (whr_J s k s' m b)
  show ?case by (rule bounded_ex_Suc [OF whr_J.IH]) (rule whr.whr_J, simp_all add: whr_J.hyps)
next
  case (whr_IdElim s k s' m b)
  show ?case by (rule bounded_ex_Suc [OF whr_IdElim.IH]) (rule whr.whr_IdElim, simp_all add: whr_IdElim.hyps)
next
  case (whr_induct s k s' m cs)
  show ?case by (rule bounded_ex_Suc [OF whr_induct.IH]) (rule whr.whr_induct, simp_all add: whr_induct.hyps)
next
  case (whr_induct_decl s k d c args l decl m cs)
  have "whr \<delta> (Construct d c args) (Suc 0) (Construct d c args)" by (rule whr_intro) simp
  then have "whr \<delta> (Induct (Construct d c args) m cs) (Suc (Suc 0 + l)) (Induct (Construct d c args) m cs)"
    using whr_induct_decl by (intro whr.whr_induct_decl)
  then show ?case using whr_pos [OF whr_induct_decl(1)] by (intro exI [of _ "Suc (Suc 0 + l)"]) auto
next
  case (whr_intro t)
  then show ?case by (auto intro: whr.whr_intro)
next
  case (whr_var i)
  then show ?case by (auto intro: whr.whr_var)
qed (erule bounded_ex_mono, simp)+

lemma whnf_renormal:
  assumes "whnf cv t = Ok w"
  shows "whnf cv w = Ok w"
proof -
  obtain k n' where k: "whr (conv_definition cv) t k w" "WHNF_FUEL_CEILING = k + n'"
    using assms by (auto simp: whnf_def whnf_fuel_iff_whr)
  obtain j where "j \<le> k" "whr (conv_definition cv) w j w" using whr_renormal [OF k(1)] by blast
  then have "whnf_fuel cv w WHNF_FUEL_CEILING = Ok (w, k - j + n')"
    using whnf_fuel_complete [of cv w j w "k - j + n'"] k by simp
  then show ?thesis by (simp add: whnf_def)
qed

lemma whnf_fuel_Err: "whnf_fuel cv t n = Err e \<Longrightarrow> e = FuelExhausted"
proof (induction n arbitrary: t rule: less_induct)
  case (less n)
  show ?case
  proof (cases n)
    case 0
    with less.prems show ?thesis by simp
  next
    case (Suc m)
    have "k < n" if "whnf_fuel cv u m = Ok (w, k)" for u w k
      using whnf_fuel_less [OF that] Suc by simp
    moreover have "k < n" if "whnf_fuel cv u m = Ok (w, l)" "whnf_fuel cv u' l = Ok (w', k)" for u w k l u' w'
      using whnf_fuel_less [OF that(1)] whnf_fuel_less [OF that(2)] Suc by simp
    ultimately show ?thesis
      using less.IH [of m] less.IH less.prems by (cases t; auto simp: Suc split: option.splits; blast)
  qed
qed

lemma whnf_Ok_iff: "whnf cv t = Ok w \<longleftrightarrow> (\<exists>k. k \<le> WHNF_FUEL_CEILING \<and> whr (conv_definition cv) t k w)"
  by (auto simp: whnf_def whnf_fuel_iff_whr le_iff_add)

lemma whnf_Err_iff:
  "whnf cv t = Err e \<longleftrightarrow>
   e = FuelExhausted \<and> (\<nexists>k w. k \<le> WHNF_FUEL_CEILING \<and> whr (conv_definition cv) t k w)"
proof -
  have "\<exists>w. whnf cv t = Ok w" if "whnf cv t \<noteq> Err FuelExhausted"
    using that whnf_fuel_Err [of cv t WHNF_FUEL_CEILING]
    by (cases "whnf_fuel cv t WHNF_FUEL_CEILING") (auto simp: whnf_def)
  moreover have "whnf cv t = Err e \<Longrightarrow> e = FuelExhausted" using whnf_fuel_Err by (auto simp: whnf_def)
  ultimately show ?thesis unfolding whnf_Ok_iff [symmetric] by (metis run.distinct(1) whnf_Ok_iff)
qed

lemma whnf_fuel_Err_iff:
  "whnf_fuel cv t n = Err e \<longleftrightarrow> e = FuelExhausted \<and> (\<nexists>k w. k \<le> n \<and> whr (conv_definition cv) t k w)"
proof -
  have "(\<exists>x. whnf_fuel cv t n = Ok x) \<longleftrightarrow> (\<exists>k w. k \<le> n \<and> whr (conv_definition cv) t k w)"
    by (auto simp: whnf_fuel_iff_whr le_iff_add)
  with whnf_fuel_Err [of cv t n] show ?thesis by (cases "whnf_fuel cv t n") auto
qed

text \<open>Reduction stays in scope, when the values of the definitions do.\<close>

definition defs_scoped :: "nat \<Rightarrow> (nat \<Rightarrow> tm option) \<Rightarrow> bool" where
  "defs_scoped n \<delta> \<longleftrightarrow> (\<forall>i v. \<delta> i = Some v \<longrightarrow> i < n \<and> scoped n v)"

lemma scoped_induct_apply:
  "scoped n m \<Longrightarrow> (\<And>c. c \<in> set cs \<Longrightarrow> scoped n c) \<Longrightarrow> scoped n r \<Longrightarrow>
   \<forall>p \<in> set ps. scoped n (snd p) \<Longrightarrow> scoped n (induct_apply m cs r ps)"
  unfolding induct_apply_def
  by (induction ps arbitrary: r) (auto simp: Let_def scoped_node split_beta)

lemma scoped_iota:
  "iota_contract d k args m cs = Some r \<Longrightarrow> scoped n m \<Longrightarrow> (\<And>c. c \<in> set cs \<Longrightarrow> scoped n c) \<Longrightarrow>
   (\<And>a. a \<in> set args \<Longrightarrow> scoped n a) \<Longrightarrow> scoped n r"
  by (auto simp: iota_contract_def split: option.splits if_splits
      intro!: scoped_induct_apply dest!: set_zip_rightD)

lemma whr_scoped: "whr \<delta> t k w \<Longrightarrow> defs_scoped n \<delta> \<Longrightarrow> scoped n t \<Longrightarrow> scoped n w"
proof (induction rule: whr.induct)
  case (whr_iota s k d c args l decl m cs r j w)
  then show ?case using scoped_iota [OF whr_iota.hyps(3), of n] by (simp add: scoped_node)
next
  case (whr_delta i v k w)
  then show ?case unfolding defs_scoped_def by blast
qed (simp_all add: scoped_node scoped_subst)

lemma whnf_intro [simp]: "is_intro t \<Longrightarrow> whnf cv t = Ok t"
  unfolding whnf_Ok_iff WHNF_FUEL_CEILING_def
  by (rule exI [of _ "Suc 0"]) (auto intro: whr_intro)

lemma expect_universe_intro [simp]: "expect_universe cv (Universe l) = Ok (Some (level_normalize l))"
  by (simp add: expect_universe_def)

subsection \<open>Properties\<close>

text \<open>C24: The normaliser always returns, and its budget is exact: \<open>whnf_fuel\<close> returns the weak head normal
  form of the reduction relation together with the budget minus the cost of the reduction (one unit
  for every head visited, contracted or normal, nested ones included) when the budget covers that
  cost, and \<open>FuelExhausted\<close>, its only error, exactly when no normal form is within the budget.\<close>

theorem whnf_fuel_exact:
  "whnf_fuel cv t n \<noteq> NoFuel \<and>
   (whnf_fuel cv t n = Ok (w, m) \<longleftrightarrow> (\<exists>k. whr (conv_definition cv) t k w \<and> n = k + m)) \<and>
   (whnf_fuel cv t n = Err e \<longleftrightarrow> e = FuelExhausted \<and> (\<nexists>k v. k \<le> n \<and> whr (conv_definition cv) t k v))"
  using whnf_fuel_iff_whr whnf_fuel_Err_iff by auto

text \<open>The ceiling of the code: the normal form if the term has one at a cost of at most 2 to the 20,
  and otherwise \<open>FuelExhausted\<close>.\<close>

theorem whnf_total:
  "whnf cv t \<noteq> NoFuel \<and>
   (whnf cv t = Ok w \<longleftrightarrow> (\<exists>k. k \<le> 2 ^ 20 \<and> whr (conv_definition cv) t k w)) \<and>
   (whnf cv t = Err e \<longleftrightarrow> e = FuelExhausted \<and> (\<nexists>k v. k \<le> 2 ^ 20 \<and> whr (conv_definition cv) t k v))"
proof -
  have "whnf cv t \<noteq> NoFuel" by (auto simp: whnf_def)
  with whnf_Ok_iff [of cv t w] whnf_Err_iff [of cv t e] show ?thesis
    unfolding WHNF_FUEL_CEILING_def by blast
qed

text \<open>A weak head normal form is its own normal form: normalising again returns it unchanged,
  within the same budget.\<close>

theorem whnf_idempotent:
  assumes "whnf cv t = Ok w"
  shows "whnf cv w = Ok w"
  using assms by (rule whnf_renormal)

lemma whnf_beta_example:
  "whnf (ctx_conversion new_ctx) (App (Lam (Universe (Concrete 0)) (Var 0)) (Universe (Concrete 1))) =
   Ok (Universe (Concrete 1))"
proof -
  have "whr (conv_definition (ctx_conversion new_ctx))
      (App (Lam (Universe (Concrete 0)) (Var 0)) (Universe (Concrete 1))) (Suc (Suc 0 + Suc 0)) (Universe (Concrete 1))"
    by (rule whr_beta [OF whr_intro]) (simp_all add: whr_intro sub.trav_node)
  then show ?thesis unfolding whnf_Ok_iff WHNF_FUEL_CEILING_def by (intro exI conjI) auto
qed

theorem whnf_idempotent_witness:
  "whnf (ctx_conversion new_ctx) (Universe (Concrete 1)) = Ok (Universe (Concrete 1))"
  by (rule whnf_idempotent [OF whnf_beta_example])

text \<open>Definitional equality is symmetric: a pair is accepted exactly when the swapped pair is,
  although the two sides are normalised in turn and the eta rules look at the left side first.\<close>

theorem def_eq_symmetric: "def_eq n cv a b = Ok True \<longleftrightarrow> def_eq n cv b a = Ok True"
  using def_eq_commute [of n] by (auto simp: sym_deq_def)

end
