(* ===== verification/ConvSpec.thy ===== *)
theory ConvSpec
  imports Conversion
begin

section \<open>Conversion as a congruence, and the soundness of the algorithm\<close>

text \<open>
  The specification the conversion engine is measured against: \<open>conv \<delta>\<close> is the least congruence
  that contains the computation rules the source documents (beta, let, unfolding of a definition,
  projections, identity elimination, induction on a constructor), eta for functions and pairs,
  equality of universes by the value of their levels, and the two spellings of a constructor
  field. Induction contracts on the declaration at the head of a constructor's owner, as the second
  checker does; the typing rules only form constructors of the declaration itself. Everything \<open>whnf\<close> returns and every pair \<open>def_eq\<close> accepts is in it.
\<close>

subsection \<open>Definitions under binders\<close>

type_synonym defs = "nat \<Rightarrow> tm option"

definition lift_defs :: "nat \<Rightarrow> defs \<Rightarrow> defs" where
  "lift_defs k \<delta> i = (if k \<le> i then map_option (\<lambda>t. shift_up t k 0) (\<delta> (i - k)) else None)"

lemma lift_defs_0 [simp]: "lift_defs 0 \<delta> = \<delta>"
  by (auto simp: lift_defs_def option.map_ident)

lemma conv_definition_under [simp]:
  "conv_definition (under cv k) = lift_defs k (conv_definition cv)"
  by (rule ext) (auto simp: conv_definition_def lift_defs_def under_def definition_under_eq
      option.map_comp o_def shift_up_add ac_simps)

lemma lift_defs_lift: "lift_defs k (lift_defs j \<delta>) = lift_defs (j + k) \<delta>"
  by (rule ext) (auto simp: lift_defs_def option.map_comp o_def shift_up_add ac_simps)

subsection \<open>The congruence\<close>

definition erase_children :: "tm \<Rightarrow> tm" where
  "erase_children t = map_children t (\<lambda>_ _. Var 0)"

definition canonical_field :: "nat \<Rightarrow> data_field \<Rightarrow> data_field" where
  "canonical_field i field =
     (case field of
        Value t \<Rightarrow> Dependent (shift_up t i 0)
      | Dependent t \<Rightarrow> Dependent t
      | Recursive \<Rightarrow> RecursiveAt []
      | RecursiveAt ts \<Rightarrow> RecursiveAt ts)"

definition canonical_con :: "data_constructor \<Rightarrow> data_constructor" where
  "canonical_con k = DataConstructor
     (map (\<lambda>(i, field). canonical_field i field) (List.enumerate 0 (con_fields k))) (con_indices k)"

inductive conv :: "defs \<Rightarrow> tm \<Rightarrow> tm \<Rightarrow> bool" where
  conv_refl [intro]: "conv \<delta> t t"
| conv_sym: "conv \<delta> t u \<Longrightarrow> conv \<delta> u t"
| conv_trans: "conv \<delta> t u \<Longrightarrow> conv \<delta> u v \<Longrightarrow> conv \<delta> t v"
| conv_beta: "conv \<delta> (App (Lam a b) x) (subst b 0 x)"
| conv_zeta: "conv \<delta> (LetT v b) (subst b 0 v)"
| conv_delta: "\<delta> i = Some v \<Longrightarrow> conv \<delta> (Var i) v"
| conv_fst: "conv \<delta> (FstT (PairT a b)) a"
| conv_snd: "conv \<delta> (SndT (PairT a b)) b"
| conv_J: "conv \<delta> (J m b (Refl a)) b"
| conv_IdElim: "conv \<delta> (IdElim m b (Refl a)) b"
| conv_iota: "iota_contract decl k args m cs = Some r \<Longrightarrow>
    conv \<delta> (Induct (Construct (apply_terms decl vs) k args) m cs) r"
| conv_eta: "conv \<delta> (Lam a (App (shift_up f 1 0) (Var 0))) f"
| conv_pair_eta: "conv \<delta> (PairT (FstT p) (SndT p)) p"
| conv_universe: "(\<And>\<rho>. level_val \<rho> l = level_val \<rho> m) \<Longrightarrow> conv \<delta> (Universe l) (Universe m)"
| conv_data_level: "(\<And>\<rho>. level_val \<rho> l = level_val \<rho> m) \<Longrightarrow> conv \<delta> (Data n l is cs) (Data n m is cs)"
| conv_data_fields: "conv \<delta> (Data n l is cs) (Data n l is (map canonical_con cs))"
| conv_cong: "erase_children a = erase_children b \<Longrightarrow>
    list_all2 (\<lambda>x y. conv (lift_defs (snd x) \<delta>) (fst x) (fst y)) (children a) (children b) \<Longrightarrow>
    conv \<delta> a b"

declare conv_trans [trans]

lemmas conv_rules = conv_beta conv_zeta conv_delta conv_fst conv_snd conv_J conv_IdElim conv_iota
  conv_eta conv_pair_eta

lemma conv_iota_data: "iota_contract decl k args m cs = Some r \<Longrightarrow> conv \<delta> (Induct (Construct decl k args) m cs) r"
  using conv_iota [of decl k args m cs r \<delta> "[]"] by (simp add: apply_terms_def)

lemma conv_congs:
  "conv \<delta> f f' \<Longrightarrow> conv \<delta> x x' \<Longrightarrow> conv \<delta> (App f x) (App f' x')"
  "conv \<delta> a a' \<Longrightarrow> conv (lift_defs 1 \<delta>) b b' \<Longrightarrow> conv \<delta> (PiT a b) (PiT a' b')"
  "conv \<delta> a a' \<Longrightarrow> conv (lift_defs 1 \<delta>) b b' \<Longrightarrow> conv \<delta> (Lam a b) (Lam a' b')"
  "conv \<delta> a a' \<Longrightarrow> conv (lift_defs 1 \<delta>) b b' \<Longrightarrow> conv \<delta> (SigmaT a b) (SigmaT a' b')"
  "conv \<delta> a a' \<Longrightarrow> conv \<delta> b b' \<Longrightarrow> conv \<delta> (PairT a b) (PairT a' b')"
  "conv \<delta> p p' \<Longrightarrow> conv \<delta> (FstT p) (FstT p')"
  "conv \<delta> p p' \<Longrightarrow> conv \<delta> (SndT p) (SndT p')"
  "conv \<delta> p p' \<Longrightarrow> conv \<delta> (Refl p) (Refl p')"
  "conv \<delta> a a' \<Longrightarrow> conv \<delta> b b' \<Longrightarrow> conv \<delta> c c' \<Longrightarrow> conv \<delta> (IdT a b c) (IdT a' b' c')"
  "conv \<delta> m m' \<Longrightarrow> conv \<delta> b b' \<Longrightarrow> conv \<delta> s s' \<Longrightarrow> conv \<delta> (J m b s) (J m' b' s')"
  "conv \<delta> m m' \<Longrightarrow> conv \<delta> b b' \<Longrightarrow> conv \<delta> s s' \<Longrightarrow> conv \<delta> (IdElim m b s) (IdElim m' b' s')"
  "conv \<delta> a a' \<Longrightarrow> conv \<delta> b b' \<Longrightarrow> conv \<delta> c c' \<Longrightarrow> conv \<delta> d d' \<Longrightarrow>
     conv \<delta> (FunExt a b c d) (FunExt a' b' c' d')"
  by (rule conv_cong; simp add: erase_children_def)+

lemma list_all2_conv_map:
  "list_all2 (conv \<delta>) xs ys \<Longrightarrow>
   list_all2 (\<lambda>x y. conv (lift_defs (snd x) \<delta>) (fst x) (fst y)) (map (\<lambda>t. (t, 0)) xs) (map (\<lambda>t. (t, 0)) ys)"
  by (simp add: list.rel_map)

lemma map_const_eq: "map (\<lambda>_. c) xs = map (\<lambda>_. c) ys \<longleftrightarrow> length xs = length ys"
  by (auto simp: map_replicate_const dest: arg_cong [of _ _ length])

lemma conv_construct:
  "conv \<delta> d d' \<Longrightarrow> list_all2 (conv \<delta>) as as' \<Longrightarrow> conv \<delta> (Construct d k as) (Construct d' k as')"
  by (rule conv_cong)
    (auto simp: erase_children_def map_const_eq list_all2_conv_map dest: list_all2_lengthD)

lemma conv_induct:
  "conv \<delta> s s' \<Longrightarrow> conv \<delta> m m' \<Longrightarrow> list_all2 (conv \<delta>) cs cs' \<Longrightarrow> conv \<delta> (Induct s m cs) (Induct s' m' cs')"
  by (rule conv_cong)
    (auto simp: erase_children_def map_const_eq list_all2_conv_map dest: list_all2_lengthD)

lemma list_all2_conv_refl [simp, intro]: "list_all2 (conv \<delta>) xs xs"
  by (simp add: list_all2_refl conv_refl)

lemma conv_apply_terms: "conv \<delta> h h' \<Longrightarrow> conv \<delta> (apply_terms h vs) (apply_terms h' vs)"
  unfolding apply_terms_def by (induction vs arbitrary: h h') (simp_all add: conv_congs(1) conv_refl)

subsection \<open>Reduction is conversion\<close>

lemma iota_contract_data: "iota_contract decl k args m cs = Some r \<Longrightarrow> \<exists>n l is ks. decl = Data n l is ks"
  by (auto simp: iota_contract_def split: option.splits)

lemma whr_conv: "whr \<delta> t k w \<Longrightarrow> conv \<delta> t w"
proof (induction rule: whr.induct)
  case (whr_iota s k d c args l decl m cs r j w)
  have "conv \<delta> (Induct s m cs) (Induct (Construct decl c args) m cs)"
    by (intro conv_induct conv_trans [OF whr_iota.IH(1)] conv_construct whr_iota.IH conv_refl list_all2_conv_refl)
  then show ?case using whr_iota.hyps whr_iota.IH(3) by (blast intro: conv_iota_data conv_trans)
next
  case (whr_induct_decl s k d c args l decl m cs)
  then show ?case by (blast intro: conv_induct)
next
  case (whr_induct s k s' m cs)
  then show ?case by (blast intro: conv_induct)
qed (blast intro: conv_congs conv_rules conv_trans)+

lemma whnf_conv: "whnf cv t = Ok w \<Longrightarrow> conv (conv_definition cv) t w"
  by (auto simp: whnf_def whnf_fuel_iff_whr dest: whr_conv)

lemma expect_universe_conv:
  assumes "expect_universe cv t = Ok (Some l)"
  shows "conv (conv_definition cv) t (Universe l)"
proof -
  obtain l' where "whnf cv t = Ok (Universe l')" and l: "l = level_normalize l'"
    using assms by (auto simp: expect_universe_def split: option.splits)
  moreover have "conv (conv_definition cv) (Universe l') (Universe l)"
    by (rule conv_universe) (simp add: l level_val_normalize)
  ultimately show ?thesis by (blast intro: conv_trans dest: whnf_conv)
qed

subsection \<open>Accepted equations are conversions\<close>

lemma canonical_field_simps:
  "recursive_indices f = Some ts \<Longrightarrow> canonical_field i f = RecursiveAt ts"
  "field_value_type f i = Some t \<Longrightarrow> canonical_field i f = Dependent t"
  by (auto simp: recursive_indices_def field_value_type_def canonical_field_def split: data_field.splits)

lemma length_canonical_con [simp]: "length (con_fields (canonical_con k)) = length (con_fields k)"
  by (simp add: canonical_con_def)

definition fields_conv :: "defs \<Rightarrow> nat \<Rightarrow> data_field \<Rightarrow> data_field \<Rightarrow> bool" where
  "fields_conv \<delta> i f g \<longleftrightarrow>
     map_field (\<lambda>_ _. Var 0) i f = map_field (\<lambda>_ _. Var 0) i g \<and>
     list_all2 (\<lambda>x y. conv (lift_defs (snd x) \<delta>) (fst x) (fst y)) (field_children i f) (field_children i g)"

definition cons_conv :: "defs \<Rightarrow> data_constructor \<Rightarrow> data_constructor \<Rightarrow> bool" where
  "cons_conv \<delta> k j \<longleftrightarrow>
     map_constructor (\<lambda>_ _. Var 0) k = map_constructor (\<lambda>_ _. Var 0) j \<and>
     list_all2 (\<lambda>x y. conv (lift_defs (snd x) \<delta>) (fst x) (fst y)) (con_children k) (con_children j)"

lemma list_all2_concat: "list_all2 (list_all2 P) xss yss \<Longrightarrow> list_all2 P (concat xss) (concat yss)"
  by (induction rule: list_all2_induct) (auto intro: list_all2_appendI)

lemma cons_convI:
  assumes fields: "list_all2 (\<lambda>(i, f) (j, g). i = j \<and> fields_conv \<delta> i f g) (List.enumerate 0 fs) (List.enumerate 0 gs)"
    and idx: "list_all2 (conv (lift_defs (length fs) \<delta>)) is js"
  shows "cons_conv \<delta> (DataConstructor fs is) (DataConstructor gs js)"
proof -
  have len: "length fs = length gs" using list_all2_lengthD [OF fields] by simp
  have "map (\<lambda>(i, f). map_field (\<lambda>_ _. Var 0) i f) (List.enumerate 0 fs) =
      map (\<lambda>(i, f). map_field (\<lambda>_ _. Var 0) i f) (List.enumerate 0 gs)"
    using fields by (induction rule: list_all2_induct) (auto simp: fields_conv_def)
  moreover have "list_all2 (list_all2 (\<lambda>x y. conv (lift_defs (snd x) \<delta>) (fst x) (fst y)))
      (map (\<lambda>(i, f). field_children i f) (List.enumerate 0 fs))
      (map (\<lambda>(i, f). field_children i f) (List.enumerate 0 gs))"
    using fields by (induction rule: list_all2_induct) (auto simp: fields_conv_def)
  ultimately show ?thesis
    using idx list_all2_lengthD [OF idx]
    by (simp add: cons_conv_def map_const_eq len list_all2_appendI list_all2_concat list.rel_map)
qed

lemma conv_data_cong:
  assumes idx: "list_all2 (\<lambda>(i, a) (j, b). i = j \<and> conv (lift_defs i \<delta>) a b)
      (List.enumerate 0 is) (List.enumerate 0 js)"
    and cons: "list_all2 (cons_conv \<delta>) ks hs"
  shows "conv \<delta> (Data n l is ks) (Data n l js hs)"
proof (rule conv_cong)
  have len: "length is = length js" using list_all2_lengthD [OF idx] by simp
  have "map (map_constructor (\<lambda>_ _. Var 0)) ks = map (map_constructor (\<lambda>_ _. Var 0)) hs"
    using cons by (induction rule: list_all2_induct) (auto simp: cons_conv_def)
  moreover have "map (\<lambda>(i, a). Var 0) (List.enumerate 0 is) = map (\<lambda>(i, a). Var 0) (List.enumerate 0 js)"
    using len by (simp add: case_prod_unfold map_const_eq)
  ultimately show "erase_children (Data n l is ks) = erase_children (Data n l js hs)"
    by (simp add: erase_children_def)
  have "list_all2 (\<lambda>x y. conv (lift_defs (snd x) \<delta>) (fst x) (fst y))
      (map (\<lambda>(i, ty). (ty, i)) (List.enumerate 0 is)) (map (\<lambda>(i, ty). (ty, i)) (List.enumerate 0 js))"
    using idx by (induction rule: list_all2_induct) auto
  moreover have "list_all2 (list_all2 (\<lambda>x y. conv (lift_defs (snd x) \<delta>) (fst x) (fst y)))
      (map con_children ks) (map con_children hs)"
    using cons by (induction rule: list_all2_induct) (auto simp: cons_conv_def)
  ultimately show "list_all2 (\<lambda>x y. conv (lift_defs (snd x) \<delta>) (fst x) (fst y))
      (children (Data n l is ks)) (children (Data n l js hs))"
    by (simp add: list_all2_appendI list_all2_concat)
qed

locale sound_deq =
  fixes deq :: deq
  assumes sound: "deq cv a b = Ok True \<Longrightarrow> conv (conv_definition cv) a b"
begin

lemma terms_sound: "terms_def_eq deq cv as bs = Ok True \<Longrightarrow> list_all2 (conv (conv_definition cv)) as bs"
  by (auto simp: terms_def_eq_def all_checked_eq_True list_all2_iff dest: sound split: if_splits)

lemma field_sound:
  assumes "field_def_eq deq cv i f g = Ok True"
  shows "fields_conv (conv_definition cv) i (canonical_field i f) (canonical_field i g)"
proof (cases "recursive_indices f")
  case None
  with assms obtain t u where tu: "field_value_type f i = Some t" "field_value_type g i = Some u"
      and "deq (under cv i) t u = Ok True"
    by (auto simp: field_def_eq_def split: option.splits)
  then show ?thesis
    using sound [of "under cv i" t u] by (simp add: fields_conv_def canonical_field_simps(2) [OF tu(1)] canonical_field_simps(2) [OF tu(2)])
next
  case (Some ts)
  with assms obtain us where us: "recursive_indices g = Some us"
      and eq: "terms_def_eq deq (under cv i) ts us = Ok True"
    by (auto simp: field_def_eq_def split: option.splits)
  from terms_sound [OF eq] list_all2_lengthD [OF terms_sound [OF eq]] show ?thesis
    by (simp add: fields_conv_def canonical_field_simps(1) [OF Some] canonical_field_simps(1) [OF us]
        map_const_eq list.rel_map)
qed

lemma constructor_sound:
  assumes "constructor_def_eq deq cv a b = Ok True"
  shows "cons_conv (conv_definition cv) (canonical_con a) (canonical_con b)"
proof -
  have len: "length (con_fields a) = length (con_fields b)"
    and idx: "terms_def_eq deq (under cv (length (con_fields a))) (con_indices a) (con_indices b) = Ok True"
    and fields: "\<And>i f g. (i, f, g) \<in> set (List.enumerate 0 (zip (con_fields a) (con_fields b))) \<Longrightarrow>
      field_def_eq deq cv i f g = Ok True"
    using assms by (auto simp: constructor_def_eq_def all_checked_eq_True split: if_splits)
  have "fields_conv (conv_definition cv) i (canonical_field i (con_fields a ! i))
      (canonical_field i (con_fields b ! i))" if "i < length (con_fields b)" for i
    by (rule field_sound, rule fields) (use that len in \<open>simp add: set_enumerate_iff\<close>)
  then show ?thesis
    unfolding canonical_con_def
    by (intro cons_convI) (use len terms_sound [OF idx] in \<open>auto simp: list_all2_conv_all_nth nth_enumerate_eq\<close>)
qed

lemma data_sound:
  assumes "data_def_eq deq cv (an, al, ai, ac) (bn, bl, bi, bc) = Ok True"
  shows "conv (conv_definition cv) (Data an al ai ac) (Data bn bl bi bc)"
proof -
  let ?c = "conv (conv_definition cv)"
  have [simp]: "an = bn" and lv: "level_eq al bl" and len: "length ai = length bi" "length ac = length bc"
    and idx: "\<And>i a b. (i, a, b) \<in> set (List.enumerate 0 (zip ai bi)) \<Longrightarrow> deq (under cv i) a b = Ok True"
    and cons: "\<And>a b. (a, b) \<in> set (zip ac bc) \<Longrightarrow> constructor_def_eq deq cv a b = Ok True"
    using assms by (auto simp: data_def_eq_def all_checked_eq_True split: if_splits)
  have "?c (Data an al ai ac) (Data an al ai (map canonical_con ac))" by (rule conv_data_fields)
  also have "?c \<dots> (Data an al bi (map canonical_con bc))"
  proof (rule conv_data_cong)
    show "list_all2 (\<lambda>(i, a) (j, b). i = j \<and> conv (lift_defs i (conv_definition cv)) a b)
        (List.enumerate 0 ai) (List.enumerate 0 bi)"
      using len idx sound [of "under cv _"]
      by (auto simp: list_all2_conv_all_nth nth_enumerate_eq set_enumerate_iff)
    show "list_all2 (cons_conv (conv_definition cv)) (map canonical_con ac) (map canonical_con bc)"
      unfolding list.rel_map using len cons constructor_sound by (auto simp: list_all2_iff)
  qed
  also have "?c \<dots> (Data bn bl bi (map canonical_con bc))"
    using level_eq_val [OF lv] by (auto intro: conv_data_level)
  also have "?c \<dots> (Data bn bl bi bc)" by (rule conv_sym) (rule conv_data_fields)
  finally show ?thesis .
qed

lemma same_head_sound:
  assumes "same_head_def_eq deq cv a b = Some (Ok True)"
  shows "conv (conv_definition cv) a b"
proof (cases a)
  case (Data n l idx cs)
  with assms show ?thesis
    using data_sound by (cases b) (auto simp: same_head_def_eq_def as_data_def)
next
  case (Construct d k args)
  with assms show ?thesis
    by (cases b) (auto simp: same_head_def_eq_def split: if_splits dest!: sound terms_sound intro!: conv_construct)
next
  case (Induct s m cs)
  with assms show ?thesis
    by (cases b) (auto simp: same_head_def_eq_def split: if_splits dest!: sound terms_sound intro!: conv_induct)
next
  case (Universe l)
  with assms show ?thesis
    by (cases b) (auto simp: same_head_def_eq_def intro!: conv_universe dest: level_eq_val)
qed (use assms in \<open>cases b; auto simp: same_head_def_eq_def dest!: sound intro!: conv_congs\<close>)+

lemma eta_match_sound:
  assumes "eta_match deq cv body u = Ok True"
  shows "conv (conv_definition cv) (Lam a body) u"
proof -
  let ?c = "conv (conv_definition cv)" and ?c1 = "conv (lift_defs 1 (conv_definition cv))"
  obtain f x where body: "whnf (under cv 1) body = Ok (App f x)"
    and x: "whnf (under cv 1) x = Ok (Var 0)" and nf: "\<not> is_free_in f 0"
    and eq: "deq cv (shift_down f 1 0) u = Ok True"
    using assms by (auto simp: eta_match_def split: option.splits if_splits)
  have "?c1 body (App f (Var 0))"
    using whnf_conv [OF body] whnf_conv [OF x] by (auto intro: conv_trans conv_congs)
  then have "?c (Lam a body) (Lam a (App (shift_up (shift_down f 1 0) 1 0) (Var 0)))"
    by (auto simp only: shift_up_shift_down [OF nf] intro: conv_congs)
  also have "?c \<dots> (shift_down f 1 0)" by (rule conv_eta)
  also have "?c \<dots> u" by (rule sound [OF eq])
  finally show ?thesis .
qed

lemma pair_eta_sound:
  assumes "pair_eta deq cv x y u = Ok True"
  shows "conv (conv_definition cv) (PairT x y) u"
proof -
  have "conv (conv_definition cv) (PairT x y) (PairT (FstT u) (SndT u))"
    using assms by (auto simp: pair_eta_def intro: conv_congs sound)
  then show ?thesis by (rule conv_trans) (rule conv_pair_eta)
qed

lemma whnf_sound: "def_eq_whnf deq cv a b = Ok True \<Longrightarrow> conv (conv_definition cv) a b"
  by (auto simp: def_eq_whnf_def split: option.splits
      intro: same_head_sound pair_eta_sound eta_match_sound conv_sym [OF pair_eta_sound] conv_sym [OF eta_match_sound])

lemma step_sound: "def_eq_step deq cv a b = Ok True \<Longrightarrow> conv (conv_definition cv) a b"
  by (auto simp: def_eq_step_def split: if_splits intro: conv_trans conv_sym dest!: whnf_conv whnf_sound)

end

interpretation de: sound_deq "def_eq n" for n
proof (unfold_locales, induction n)
  case (Suc n)
  then have "sound_deq (def_eq n)" by unfold_locales
  from sound_deq.step_sound [OF this] Suc.prems show ?case by simp
qed simp

subsection \<open>Properties\<close>

text \<open>C7: Soundness of conversion: two terms of a common scope that the algorithm accepts as
  definitionally equal, at any depth of recursion and under any local definitions of that scope, are
  related by the declarative congruence generated by the computation and eta rules; and the weak head
  normal form of a term of that scope is convertible to it and in scope again. Scopes matter because
  indices are machine integers: in scope no shift wraps (\<open>index_arithmetic_exact\<close>), while an index close
  to 2 to the 64 can wrap to a bound variable in the compiled code. Admission establishes them.\<close>

theorem def_eq_sound:
  assumes "defs_scoped s (conv_definition cv)" and "scoped s a" and "scoped s b"
  shows "(def_eq n cv a b = Ok True \<longrightarrow> conv (conv_definition cv) a b) \<and>
    (whnf cv a = Ok w \<longrightarrow> conv (conv_definition cv) a w \<and> scoped s w)"
  using de.sound whnf_conv whr_scoped [OF _ assms(1,2)] unfolding whnf_Ok_iff by metis

theorem def_eq_sound_witness:
  "conv (conv_definition (ctx_conversion new_ctx)) (PairT (Var 0) (Var 1)) (PairT (Var 0) (Var 1)) \<and>
   conv (conv_definition (ctx_conversion new_ctx))
     (App (Lam (Universe (Concrete 0)) (Var 0)) (Universe (Concrete 1))) (Universe (Concrete 1))"
proof -
  have eq: "def_eq 1 (ctx_conversion new_ctx) (PairT (Var 0) (Var 1)) (PairT (Var 0) (Var 1)) = Ok True"
    by (simp add: def_eq_step_def)
  have d: "defs_scoped 2 (conv_definition (ctx_conversion new_ctx))"
    by (auto simp: defs_scoped_def conv_definition_def ctx_conversion_def definition_under_eq new_ctx_def depth_def
        with_foundation_def)
  from def_eq_sound [OF d, of "PairT (Var 0) (Var 1)" "PairT (Var 0) (Var 1)" 1] eq
    def_eq_sound [OF d, of "App (Lam (Universe (Concrete 0)) (Var 0)) (Universe (Concrete 1))" "Var 0"]
    whnf_beta_example
  show ?thesis by (simp add: scoped_node)
qed

end
