(* ===== verification/Checker.thy ===== *)
theory Checker
  imports ConvSpec
begin

section \<open>The bidirectional checker\<close>

text \<open>
  Models \<open>infer\<close>, \<open>check\<close>, \<open>check_against\<close>, their helpers and \<open>Certificate\<close> of
  \<open>crates/verum_proof/src/proof_checker.rs\<close>. Each arm of \<open>infer_inner\<close> is a definition of its
  own that takes the recursive calls as arguments: \<open>infr\<close> for \<open>infer\<close>, \<open>chk\<close> for
  \<open>check_against\<close> and \<open>deq\<close> for \<open>def_eq\<close>. The last definitions tie the knot with a bound on
  the depth of the recursion, which the code does not have; a larger bound never changes an answer.
\<close>

type_synonym infr = "ctx \<Rightarrow> tm \<Rightarrow> (check_error, tm) run"
type_synonym chk = "ctx \<Rightarrow> tm \<Rightarrow> tm \<Rightarrow> (check_error, unit) run"

subsection \<open>Premises shared by the arms\<close>

definition infer_sort :: "infr \<Rightarrow> ctx \<Rightarrow> tm \<Rightarrow> (check_error, level) run" where
  "infer_sort infr c t =
     run_bind (infr c t) (\<lambda>kind.
       run_bind (expect_universe (ctx_conversion c) kind) (\<lambda>l. ok_or l (NotAType t)))"

definition as_domain_mismatch :: "check_error \<Rightarrow> check_error" where
  "as_domain_mismatch e =
     (case e of TypeMismatch expected actual \<Rightarrow> DomainMismatch expected actual | other \<Rightarrow> other)"

definition check_domain :: "chk \<Rightarrow> ctx \<Rightarrow> tm \<Rightarrow> tm \<Rightarrow> (check_error, unit) run" where
  "check_domain chk c t expected = map_err as_domain_mismatch (chk c t expected)"

definition check_indices ::
  "chk \<Rightarrow> ctx \<Rightarrow> tm list \<Rightarrow> tm list \<Rightarrow> nat \<Rightarrow> (check_error, unit) run" where
  "check_indices chk c telescope arguments ambient_shift =
     (if length telescope \<noteq> length arguments
      then Err (InvalidInductive ''family index arity mismatch'')
      else run_for () (List.enumerate 0 (zip telescope arguments)) (\<lambda>_ (index, ty, v).
        chk c v (instantiate_fields (shift_up ty ambient_shift index) (take index arguments))))"

subsection \<open>Splitting a saturated family\<close>

lemma whr_unique:
  assumes "whr (conv_definition cv) t k w" and "whr (conv_definition cv) t j v"
  shows "k = j" and "w = v"
proof -
  have "whnf_fuel cv t (k + j) = Ok (w, j)" "whnf_fuel cv t (k + j) = Ok (v, k)"
    using whnf_fuel_complete [OF assms(1), of j] whnf_fuel_complete [OF assms(2), of k]
    by (simp_all add: add.commute)
  then show "k = j" "w = v" by simp_all
qed

definition normal :: "conversion \<Rightarrow> tm \<Rightarrow> bool" where
  "normal cv t \<longleftrightarrow> (\<exists>k. whr (conv_definition cv) t k t)"

lemma whnf_normal: "whnf cv t = Ok w \<Longrightarrow> normal cv w"
  by (auto simp: whnf_def whnf_fuel_iff_whr normal_def dest: whr_normal)

lemma whnf_of_normal: "normal cv t \<Longrightarrow> whnf cv t = Ok w \<Longrightarrow> w = t"
  by (auto simp: whnf_def whnf_fuel_iff_whr normal_def dest: whr_unique(2))

lemma whr_App_head: "whr \<delta> t k (App f x) \<Longrightarrow> \<exists>j. whr \<delta> f j f"
  by (induction t k "App f x" rule: whr.induct) (auto dest: whr_normal)

lemma normal_App: "normal cv (App f x) \<Longrightarrow> normal cv f"
  by (auto simp: normal_def dest: whr_App_head)

function split_loop :: "ctx \<Rightarrow> tm \<Rightarrow> tm list \<Rightarrow> (check_error, tm \<times> tm list) run" where
  "split_loop c t values =
     (case as_app t of
        Some (head, arg) \<Rightarrow>
          run_bind (whnf (ctx_conversion c) head) (\<lambda>t. split_loop c t (values @ [arg]))
      | None \<Rightarrow> Ok (t, values))"
  by pat_completeness auto
termination split_loop
proof (relation "measures [\<lambda>(c, t, _). if normal (ctx_conversion c) t then 0 else 1, \<lambda>(c, t, _). size t]", goal_cases)
  case (2 c t vs x h a w)
  have "as_app t = Some (h, a)" using 2(1,2) by simp
  then have t: "t = App h a" by simp
  show ?case
    using whnf_normal [OF 2(3)] whnf_of_normal [OF _ 2(3)] normal_App [of "ctx_conversion c" h a]
    by (auto simp: t)
qed simp

declare split_loop.simps [simp del]

definition split_family :: "ctx \<Rightarrow> tm \<Rightarrow> (check_error, (tm \<times> tm list) option) run" where
  "split_family c t =
     run_bind (split_loop c t []) (\<lambda>(t, values).
       let values = rev values
       in Ok (case as_data t of
                Some (_, _, indices, _) \<Rightarrow> if length indices = length values then Some (t, values) else None
              | None \<Rightarrow> None))"

subsection \<open>The arms of inference\<close>

definition infer_fun_ext :: "infr \<Rightarrow> chk \<Rightarrow> ctx \<Rightarrow> tm \<Rightarrow> tm \<Rightarrow> tm \<Rightarrow> tm \<Rightarrow> (check_error, tm) run" where
  "infer_fun_ext infr chk c function_type lhs rhs pointwise =
     (if ctx_foundation c \<noteq> FunctionExtensionality
      then Err (FoundationRequired FunctionExtensionality)
      else run_bind (infer_sort infr c function_type) (\<lambda>_.
        run_bind (whnf (ctx_conversion c) function_type) (\<lambda>w.
          case as_pi w of
            None \<Rightarrow> Err (NotAFunction function_type)
          | Some (domain, codomain) \<Rightarrow>
              run_bind (chk c lhs function_type) (\<lambda>_.
              run_bind (chk c rhs function_type) (\<lambda>_.
              run_bind (chk c pointwise (PiT domain (IdT codomain
                  (App (shift_up lhs 1 0) (Var 0)) (App (shift_up rhs 1 0) (Var 0))))) (\<lambda>_.
              Ok (IdT function_type lhs rhs)))))))"

definition infer_let :: "infr \<Rightarrow> ctx \<Rightarrow> tm \<Rightarrow> tm \<Rightarrow> (check_error, tm) run" where
  "infer_let infr c v body =
     run_bind (infr c v) (\<lambda>ty.
       run_bind (infr (define_local c ty v) body) (\<lambda>result. Ok (subst result 0 v)))"

definition index_formation :: "infr \<Rightarrow> ctx \<Rightarrow> tm list \<Rightarrow> (check_error, ctx) run" where
  "index_formation infr c indices =
     run_for c indices (\<lambda>index_context ty.
       run_bind (infer_sort infr index_context ty) (\<lambda>_. Ok (ctx_extend index_context ty)))"

definition field_formation ::
  "infr \<Rightarrow> chk \<Rightarrow> tm \<Rightarrow> level \<Rightarrow> tm list \<Rightarrow> ctx \<Rightarrow> nat \<times> data_field \<Rightarrow> (check_error, ctx) run" where
  "field_formation infr chk data l indices local = (\<lambda>(index, field).
     let domain = field_domain data field index
     in run_bind
       (case recursive_indices field of
          Some values \<Rightarrow> check_indices chk local indices values index
        | None \<Rightarrow>
            run_bind (infer_sort infr local domain) (\<lambda>field_level.
              if \<not> level_eq (max_with field_level l) l
              then Err (InvalidInductive ''field exceeds declaration universe'')
              else Ok ()))
       (\<lambda>_. Ok (ctx_extend local domain)))"

definition constructor_formation ::
  "infr \<Rightarrow> chk \<Rightarrow> ctx \<Rightarrow> tm \<Rightarrow> level \<Rightarrow> tm list \<Rightarrow> data_constructor \<Rightarrow> (check_error, unit) run" where
  "constructor_formation infr chk c data l indices k =
     run_bind (run_for c (List.enumerate 0 (con_fields k)) (field_formation infr chk data l indices)) (\<lambda>local.
       check_indices chk local indices (con_indices k) (length (con_fields k)))"

definition infer_data ::
  "infr \<Rightarrow> chk \<Rightarrow> ctx \<Rightarrow> tm \<Rightarrow> level \<Rightarrow> tm list \<Rightarrow> data_constructor list \<Rightarrow> (check_error, tm) run" where
  "infer_data infr chk c data l indices constructors =
     run_bind (index_formation infr c indices) (\<lambda>_.
       run_bind (run_for () constructors (\<lambda>_ k. constructor_formation infr chk c data l indices k)) (\<lambda>_.
         Ok (foldr PiT indices (Universe (level_normalize l)))))"

definition infer_construct ::
  "infr \<Rightarrow> chk \<Rightarrow> ctx \<Rightarrow> tm \<Rightarrow> nat \<Rightarrow> tm list \<Rightarrow> (check_error, tm) run" where
  "infer_construct infr chk c data k args =
     run_bind (infr c data) (\<lambda>_.
     run_bind (whnf (ctx_conversion c) data) (\<lambda>declaration.
       case as_data declaration of
         None \<Rightarrow> Err (InvalidInductive ''constructor owner is not a data declaration'')
       | Some (_, _, _, constructors) \<Rightarrow>
           if \<not> k < length constructors then Err (InvalidInductive ''unknown constructor'')
           else let con = constructors ! k in
             if length (con_fields con) \<noteq> length args
             then Err (InvalidInductive ''constructor field arity mismatch'')
             else run_bind
               (run_for () (List.enumerate 0 (zip (con_fields con) args)) (\<lambda>_ (index, field, argument).
                 chk c argument (instantiate_fields (field_domain declaration field index) (take index args))))
               (\<lambda>_. Ok (apply_terms declaration (map (\<lambda>t. instantiate_fields t args) (con_indices con))))))"

definition induct_motive_kind ::
  "deq \<Rightarrow> ctx \<Rightarrow> tm list \<Rightarrow> tm \<Rightarrow> (check_error, tm) run" where
  "induct_motive_kind deq c indices motive_kind =
     run_for motive_kind (List.enumerate 0 indices) (\<lambda>motive_kind (index, ty).
       let scope = under (ctx_conversion c) index
       in run_bind (whnf scope motive_kind) (\<lambda>w.
            case as_pi w of
              None \<Rightarrow> Err (InvalidInductive ''induction motive omits a family index'')
            | Some (domain, result) \<Rightarrow>
                run_bind (deq scope domain ty) (\<lambda>eq.
                  if \<not> eq then Err (InvalidInductive ''induction motive index domain mismatch'')
                  else Ok result)))"

definition induct_motive_target ::
  "deq \<Rightarrow> ctx \<Rightarrow> tm \<Rightarrow> nat \<Rightarrow> tm \<Rightarrow> (check_error, unit) run" where
  "induct_motive_target deq c declaration n motive_kind =
     run_bind (whnf (under (ctx_conversion c) n) motive_kind) (\<lambda>w.
       case as_pi w of
         None \<Rightarrow> Err (InvalidInductive ''induction motive is not a family'')
       | Some (domain, result) \<Rightarrow>
           let references = map Var (rev [0..<n]);
               expected_domain = apply_terms (shift_up declaration n 0) references
           in run_bind (deq (under (ctx_conversion c) n) domain expected_domain) (\<lambda>eq.
                if \<not> eq then Err (InvalidInductive ''induction motive domain or universe mismatch'')
                else run_bind (expect_universe (under (ctx_conversion c) (n + 1)) result) (\<lambda>u.
                  if u = None then Err (InvalidInductive ''induction motive domain or universe mismatch'')
                  else Ok ())))"

definition infer_induct ::
  "infr \<Rightarrow> chk \<Rightarrow> deq \<Rightarrow> ctx \<Rightarrow> tm \<Rightarrow> tm \<Rightarrow> tm list \<Rightarrow> (check_error, tm) run" where
  "infer_induct infr chk deq c scrutinee motive cases =
     run_bind (infr c scrutinee) (\<lambda>s_ty.
     run_bind (whnf (ctx_conversion c) s_ty) (\<lambda>actual.
     run_bind (split_family c actual) (\<lambda>family.
     run_bind (ok_or family (InvalidInductive ''induction requires a fully applied data family''))
       (\<lambda>(declaration, values).
     case as_data declaration of
       None \<Rightarrow> Err (InvalidInductive ''unreachable'')
     | Some (_, _, indices, constructors) \<Rightarrow>
         run_bind (infr c motive) (\<lambda>motive_ty.
         run_bind (induct_motive_kind deq c indices motive_ty) (\<lambda>motive_kind.
         run_bind (induct_motive_target deq c declaration (length indices) motive_kind) (\<lambda>_.
         if length cases \<noteq> length constructors then Err (InvalidInductive ''induction case count mismatch'')
         else run_bind
           (run_for () (List.enumerate 0 (zip constructors cases)) (\<lambda>_ (index, k, branch).
             chk c branch (induction_case_type declaration motive index k)))
           (\<lambda>_. Ok (App (apply_terms motive values) scrutinee)))))))))"

definition infer_quantifier :: "infr \<Rightarrow> ctx \<Rightarrow> tm \<Rightarrow> tm \<Rightarrow> (check_error, tm) run" where
  "infer_quantifier infr c a b =
     run_bind (infer_sort infr c a) (\<lambda>n.
       run_bind (infer_sort infr (ctx_extend c a) b) (\<lambda>m. Ok (Universe (max_with n m))))"

definition infer_lam :: "infr \<Rightarrow> ctx \<Rightarrow> tm \<Rightarrow> tm \<Rightarrow> (check_error, tm) run" where
  "infer_lam infr c domain body =
     run_bind (infer_sort infr c domain) (\<lambda>_.
       run_bind (infr (ctx_extend c domain) body) (\<lambda>body_ty. Ok (PiT domain body_ty)))"

definition infer_app :: "infr \<Rightarrow> chk \<Rightarrow> ctx \<Rightarrow> tm \<Rightarrow> tm \<Rightarrow> (check_error, tm) run" where
  "infer_app infr chk c f x =
     run_bind (infr c f) (\<lambda>ty.
       run_bind (whnf (ctx_conversion c) ty) (\<lambda>f_ty.
         case as_pi f_ty of
           None \<Rightarrow> Err (NotAFunction f_ty)
         | Some (domain, codomain) \<Rightarrow>
             run_bind (check_domain chk c x domain) (\<lambda>_. Ok (subst codomain 0 x))))"

definition infer_pair :: "infr \<Rightarrow> ctx \<Rightarrow> tm \<Rightarrow> tm \<Rightarrow> (check_error, tm) run" where
  "infer_pair infr c a b =
     run_bind (infr c a) (\<lambda>a_ty. run_bind (infr c b) (\<lambda>b_ty. Ok (SigmaT a_ty (shift_up b_ty 1 0))))"

definition infer_fst :: "infr \<Rightarrow> ctx \<Rightarrow> tm \<Rightarrow> (check_error, tm) run" where
  "infer_fst infr c p =
     run_bind (infr c p) (\<lambda>ty.
       run_bind (whnf (ctx_conversion c) ty) (\<lambda>p_ty.
         case as_sigma p_ty of Some (a, _) \<Rightarrow> Ok a | None \<Rightarrow> Err (NotASigma p_ty)))"

definition infer_snd :: "infr \<Rightarrow> ctx \<Rightarrow> tm \<Rightarrow> (check_error, tm) run" where
  "infer_snd infr c p =
     run_bind (infr c p) (\<lambda>ty.
       run_bind (whnf (ctx_conversion c) ty) (\<lambda>p_ty.
         case as_sigma p_ty of Some (_, b) \<Rightarrow> Ok (subst b 0 (FstT p)) | None \<Rightarrow> Err (NotASigma p_ty)))"

definition infer_id :: "infr \<Rightarrow> chk \<Rightarrow> ctx \<Rightarrow> tm \<Rightarrow> tm \<Rightarrow> tm \<Rightarrow> (check_error, tm) run" where
  "infer_id infr chk c ty lhs rhs =
     run_bind (infer_sort infr c ty) (\<lambda>n.
       run_bind (check_domain chk c lhs ty) (\<lambda>_.
         run_bind (check_domain chk c rhs ty) (\<lambda>_. Ok (Universe n))))"

definition infer_refl :: "infr \<Rightarrow> ctx \<Rightarrow> tm \<Rightarrow> (check_error, tm) run" where
  "infer_refl infr c v = run_bind (infr c v) (\<lambda>ty. Ok (IdT ty v v))"

definition eliminator_codomain ::
  "deq \<Rightarrow> ctx \<Rightarrow> bool \<Rightarrow> tm \<Rightarrow> tm \<Rightarrow> tm \<Rightarrow> tm \<Rightarrow> (check_error, tm \<times> nat) run" where
  "eliminator_codomain deq c dependent motive a_ty a_lhs motive_codom =
     (if dependent then
        run_bind (whnf (under (ctx_conversion c) 1) motive_codom) (\<lambda>codomain.
          case as_pi codomain of
            None \<Rightarrow> Err (NotAValidJMotive motive)
          | Some (path_domain, result) \<Rightarrow>
              let expected_path = IdT (shift_up a_ty 1 0) (shift_up a_lhs 1 0) (Var 0)
              in run_bind (deq (under (ctx_conversion c) 1) path_domain expected_path) (\<lambda>eq.
                   if \<not> eq then Err (DomainMismatch expected_path path_domain) else Ok (result, 2)))
      else Ok (motive_codom, 1))"

definition infer_identity_elim ::
  "infr \<Rightarrow> chk \<Rightarrow> deq \<Rightarrow> ctx \<Rightarrow> bool \<Rightarrow> tm \<Rightarrow> tm \<Rightarrow> tm \<Rightarrow> (check_error, tm) run" where
  "infer_identity_elim infr chk deq c dependent motive base scrutinee =
     run_bind (infr c scrutinee) (\<lambda>ty.
     run_bind (whnf (ctx_conversion c) ty) (\<lambda>s_ty.
     case as_id s_ty of
       None \<Rightarrow> Err (NotAnIdentity s_ty)
     | Some (a_ty, a_lhs, a_rhs) \<Rightarrow>
         run_bind (infr c motive) (\<lambda>m_ty.
         run_bind (whnf (ctx_conversion c) m_ty) (\<lambda>motive_ty.
         case as_pi motive_ty of
           None \<Rightarrow> Err (NotAValidJMotive motive)
         | Some (motive_dom, motive_codom) \<Rightarrow>
             run_bind (deq (ctx_conversion c) motive_dom a_ty) (\<lambda>eq.
             if \<not> eq then Err (DomainMismatch a_ty motive_dom)
             else run_bind (eliminator_codomain deq c dependent motive a_ty a_lhs motive_codom)
               (\<lambda>(result_codom, binders).
             run_bind (expect_universe (under (ctx_conversion c) binders) result_codom) (\<lambda>u.
             if u = None then Err (NotAValidJMotive motive)
             else let base_ty = App motive a_lhs;
                      expected_base_ty = (if dependent then App base_ty (Refl a_lhs) else base_ty);
                      result = App motive a_rhs
               in run_bind (check_domain chk c base expected_base_ty) (\<lambda>_.
                    Ok (if dependent then App result scrutinee else result)))))))))"

definition infer_inner :: "infr \<Rightarrow> chk \<Rightarrow> deq \<Rightarrow> infr" where
  "infer_inner infr chk deq c t =
     (case t of
        FunExt function_type lhs rhs pointwise \<Rightarrow> infer_fun_ext infr chk c function_type lhs rhs pointwise
      | LetT v body \<Rightarrow> infer_let infr c v body
      | Data _ l indices constructors \<Rightarrow> infer_data infr chk c t l indices constructors
      | Construct data k args \<Rightarrow> infer_construct infr chk c data k args
      | Induct scrutinee motive cases \<Rightarrow> infer_induct infr chk deq c scrutinee motive cases
      | Var i \<Rightarrow> ok_or (lookup c i) (UnboundVariable i)
      | Universe l \<Rightarrow> Ok (Universe (level_successor (level_normalize l)))
      | PiT a b \<Rightarrow> infer_quantifier infr c a b
      | Lam domain body \<Rightarrow> infer_lam infr c domain body
      | App f x \<Rightarrow> infer_app infr chk c f x
      | SigmaT a b \<Rightarrow> infer_quantifier infr c a b
      | PairT a b \<Rightarrow> infer_pair infr c a b
      | FstT p \<Rightarrow> infer_fst infr c p
      | SndT p \<Rightarrow> infer_snd infr c p
      | IdT ty lhs rhs \<Rightarrow> infer_id infr chk c ty lhs rhs
      | Refl v \<Rightarrow> infer_refl infr c v
      | J motive base scrutinee \<Rightarrow> infer_identity_elim infr chk deq c False motive base scrutinee
      | IdElim motive base scrutinee \<Rightarrow> infer_identity_elim infr chk deq c True motive base scrutinee)"

definition infer_step :: "infr \<Rightarrow> chk \<Rightarrow> deq \<Rightarrow> infr" where
  "infer_step infr chk deq c t =
     (case t of
        Var i \<Rightarrow> ok_or (lookup c i) (UnboundVariable i)
      | _ \<Rightarrow> infer_inner infr chk deq c t)"

subsection \<open>Checking against a type\<close>

definition check_inferred :: "infr \<Rightarrow> deq \<Rightarrow> chk" where
  "check_inferred infr deq c t expected =
     run_bind (infr c t) (\<lambda>inferred.
       run_bind (deq (ctx_conversion c) inferred expected) (\<lambda>eq.
         if eq then Ok () else Err (TypeMismatch expected inferred)))"

definition check_lam :: "infr \<Rightarrow> chk \<Rightarrow> deq \<Rightarrow> ctx \<Rightarrow> tm \<Rightarrow> tm \<Rightarrow> tm \<Rightarrow> tm \<Rightarrow> (check_error, unit) run" where
  "check_lam infr chk deq c domain body expected_domain codomain =
     run_bind (infer_sort infr c domain) (\<lambda>_.
       run_bind (deq (ctx_conversion c) domain expected_domain) (\<lambda>eq.
         if \<not> eq then Err (TypeMismatch expected_domain domain)
         else chk (ctx_extend c domain) body codomain))"

definition check_refl ::
  "chk \<Rightarrow> deq \<Rightarrow> ctx \<Rightarrow> tm \<Rightarrow> tm \<Rightarrow> tm \<Rightarrow> tm \<Rightarrow> tm \<Rightarrow> (check_error, unit) run" where
  "check_refl chk deq c v expected ty lhs rhs =
     run_bind (check_domain chk c v ty) (\<lambda>_.
       run_bind (and_then (deq (ctx_conversion c) v lhs) (deq (ctx_conversion c) v rhs)) (\<lambda>eq.
         if eq then Ok () else Err (TypeMismatch expected (IdT ty v v))))"

definition check_intro :: "infr \<Rightarrow> chk \<Rightarrow> deq \<Rightarrow> chk" where
  "check_intro infr chk deq c t expected =
     run_bind (whnf (ctx_conversion c) expected) (\<lambda>w.
       case (as_lam t, as_pi w) of
         (Some (domain, body), Some (expected_domain, codomain)) \<Rightarrow>
           check_lam infr chk deq c domain body expected_domain codomain
       | _ \<Rightarrow> (case (as_pair t, as_sigma w) of
           (Some (first, second), Some (domain, family)) \<Rightarrow>
             run_bind (chk c first domain) (\<lambda>_. chk c second (subst family 0 first))
         | _ \<Rightarrow> (case (as_refl t, as_id w) of
             (Some v, Some (ty, lhs, rhs)) \<Rightarrow> check_refl chk deq c v expected ty lhs rhs
           | _ \<Rightarrow> check_inferred infr deq c t expected)))"

definition check_step :: "infr \<Rightarrow> chk \<Rightarrow> deq \<Rightarrow> chk" where
  "check_step infr chk deq c t expected =
     (case t of
        LetT v body \<Rightarrow>
          run_bind (infr c v) (\<lambda>ty. chk (define_local c ty v) body (shift_up expected 1 0))
      | Var i \<Rightarrow>
          run_bind (ok_or (lookup c i) (UnboundVariable i)) (\<lambda>actual.
          run_bind (deq (ctx_conversion c) actual expected) (\<lambda>eq.
            if eq then Ok ()
            else case ctx_definition c i of
                   Some source \<Rightarrow> chk c source expected
                 | None \<Rightarrow> check_intro infr chk deq c t expected))
      | _ \<Rightarrow> check_intro infr chk deq c t expected)"

fun infer :: "nat \<Rightarrow> infr"
and check_against :: "nat \<Rightarrow> chk" where
  "infer 0 = (\<lambda>c t. NoFuel)"
| "infer (Suc n) = infer_step (infer n) (check_against n) (def_eq n)"
| "check_against 0 = (\<lambda>c t expected. NoFuel)"
| "check_against (Suc n) = check_step (infer n) (check_against n) (def_eq n)"

definition check :: "nat \<Rightarrow> chk" where
  "check n c t expected = run_bind (infer_sort (infer n) c expected) (\<lambda>_. check_against n c t expected)"

subsection \<open>Certificates\<close>

record certificate =
  cert_term :: tm
  cert_claimed_type :: tm
  cert_metadata :: "(string \<times> string) list"

definition verify_with_foundation :: "nat \<Rightarrow> certificate \<Rightarrow> foundation \<Rightarrow> (check_error, unit) run" where
  "verify_with_foundation n cert f =
     (let c = with_foundation f
      in run_bind (infer n c (cert_claimed_type cert)) (\<lambda>claimed_kind.
         run_bind (expect_universe (ctx_conversion c) claimed_kind) (\<lambda>u.
           if u = None then Err (ClaimedTypeNotAType (cert_claimed_type cert) claimed_kind)
           else check_against n c (cert_term cert) (cert_claimed_type cert))))"

definition verify :: "nat \<Rightarrow> certificate \<Rightarrow> (check_error, unit) run" where
  "verify n cert = verify_with_foundation n cert Intensional"

subsection \<open>A larger bound never changes an answer\<close>

text \<open>
  The interface between the checker and its recursive calls: if every call answers at least as
  often, so does every arm.
\<close>

locale larger_calls =
  fixes i i' :: infr and k k' :: chk and d d' :: deq
  assumes i_le: "run_le (i c t) (i' c t)"
    and k_le: "run_le (k c t e) (k' c t e)"
    and d_le: "deq_le d d'"
begin

lemma d_le': "run_le (d cv a b) (d' cv a b)"
  using d_le by (simp add: deq_le_def)

lemmas calls_le = i_le k_le d_le'

lemma infer_sort_le: "run_le (infer_sort i c t) (infer_sort i' c t)"
  by (auto simp: infer_sort_def intro!: run_mono calls_le)

lemma check_domain_le: "run_le (check_domain k c t e) (check_domain k' c t e)"
  by (auto simp: check_domain_def intro!: run_mono calls_le)

lemma check_indices_le: "run_le (check_indices k c xs ys m) (check_indices k' c xs ys m)"
  by (auto simp: check_indices_def intro!: run_mono calls_le)

lemma field_formation_le:
  "run_le (field_formation i k data l ids c x) (field_formation i' k' data l ids c x)"
  by (auto simp: field_formation_def intro!: run_mono infer_sort_le check_indices_le)

lemma constructor_formation_le:
  "run_le (constructor_formation i k c data l ids con) (constructor_formation i' k' c data l ids con)"
  by (auto simp: constructor_formation_def intro!: run_mono field_formation_le check_indices_le)

lemma infer_data_le: "run_le (infer_data i k c data l ids cs) (infer_data i' k' c data l ids cs)"
  by (auto simp: infer_data_def index_formation_def intro!: run_mono infer_sort_le constructor_formation_le)

lemma infer_induct_le: "run_le (infer_induct i k d c s m cs) (infer_induct i' k' d' c s m cs)"
  by (auto simp: infer_induct_def induct_motive_kind_def induct_motive_target_def intro!: run_mono calls_le)

lemma infer_identity_elim_le:
  "run_le (infer_identity_elim i k d c dep m b s) (infer_identity_elim i' k' d' c dep m b s)"
  by (auto simp: infer_identity_elim_def eliminator_codomain_def intro!: run_mono calls_le check_domain_le)

lemma infer_inner_le: "run_le (infer_inner i k d c t) (infer_inner i' k' d' c t)"
  by (cases t)
    (auto simp: infer_inner_def infer_fun_ext_def infer_let_def infer_construct_def infer_quantifier_def
      infer_lam_def infer_app_def infer_pair_def infer_fst_def infer_snd_def infer_id_def infer_refl_def
      intro!: run_mono calls_le infer_sort_le check_domain_le infer_data_le infer_induct_le infer_identity_elim_le)

lemma infer_step_le: "run_le (infer_step i k d c t) (infer_step i' k' d' c t)"
  using infer_inner_le by (cases t) (auto simp: infer_step_def)

lemma check_intro_le: "run_le (check_intro i k d c t e) (check_intro i' k' d' c t e)"
  by (auto simp: check_intro_def check_lam_def check_refl_def check_inferred_def
      intro!: run_mono calls_le infer_sort_le check_domain_le split: option.split)

lemma check_step_le: "run_le (check_step i k d c t e) (check_step i' k' d' c t e)"
  by (cases t) (auto simp: check_step_def intro!: run_mono calls_le check_intro_le)

end

lemma larger_calls_trans:
  assumes "larger_calls i i' k k' d d'" and "larger_calls i' i'' k' k'' d' d''"
  shows "larger_calls i i'' k k'' d d''"
proof -
  note l1 = assms(1) [unfolded larger_calls_def] and l2 = assms(2) [unfolded larger_calls_def]
  show ?thesis
    unfolding larger_calls_def using l1 l2 by (blast intro: run_le_trans deq_le_trans)
qed

lemma larger_calls_Suc:
  "larger_calls (infer n) (infer (Suc n)) (check_against n) (check_against (Suc n)) (def_eq n) (def_eq (Suc n))"
proof (induction n)
  case (Suc n)
  show ?case
    using larger_calls.infer_step_le [OF Suc] larger_calls.check_step_le [OF Suc] def_eq_Suc_le [of "Suc n"]
    by unfold_locales simp_all
qed (unfold_locales, simp_all add: deq_le_def)

interpretation bound: larger_calls "infer n" "infer (n + k)" "check_against n" "check_against (n + k)"
    "def_eq n" "def_eq (n + k)" for n k
proof (induction k)
  case (Suc k)
  show ?case using larger_calls_trans [OF Suc larger_calls_Suc] by simp
qed (unfold_locales, simp_all add: deq_le_def)

lemma verify_le: "run_le (verify_with_foundation n cert f) (verify_with_foundation (n + k) cert f)"
  by (auto simp: verify_with_foundation_def Let_def intro!: run_mono bound.calls_le)

subsection \<open>An example certificate\<close>

text \<open>The polymorphic identity function, \<open>\<lambda>A. \<lambda>x. x\<close>, at \<open>\<Pi> (A : U0) (x : A). A\<close>.\<close>

definition identity_certificate :: certificate where
  "identity_certificate = \<lparr>cert_term = Lam (Universe (Concrete 0)) (Lam (Var 0) (Var 0)),
     cert_claimed_type = PiT (Universe (Concrete 0)) (PiT (Var 0) (Var 1)), cert_metadata = []\<rparr>"

lemmas checker_eval = infer_step_def infer_inner_def infer_quantifier_def infer_sort_def infer_lam_def
  check_step_def check_intro_def check_lam_def check_inferred_def def_eq_step_def
  lookup_def ctx_position_def ctx_extend_def with_foundation_def ok_or_def view_defs
  contains_free_def contains_free_by.simps up.trav_node sub.trav_node

lemma identity_verified: "verify_with_foundation (4 + n) identity_certificate f = Ok ()"
  by (simp add: verify_with_foundation_def identity_certificate_def Let_def checker_eval numeral_eq_Suc
      cong: run_bind_weak_cong)

subsection \<open>Properties\<close>

text \<open>The model's bound on the depth of recursion decides nothing: once verification of a
  certificate returned, acceptance or error, every larger bound returns the same.\<close>

theorem verify_stable:
  assumes "verify_with_foundation n cert f \<noteq> NoFuel" and "n \<le> m"
  shows "verify_with_foundation m cert f = verify_with_foundation n cert f"
  using verify_le [of n cert f "m - n"] assms by (auto simp: run_le_def)

theorem verify_stable_witness:
  "verify_with_foundation 9 identity_certificate Intensional = verify_with_foundation 4 identity_certificate Intensional"
  by (rule verify_stable) (use identity_verified [of 0 Intensional] in simp_all)

end
