(* ===== verification/Nbe.thy ===== *)
theory Nbe
  imports Checker
begin

section \<open>The second checker: normalisation by evaluation\<close>

text \<open>
  Models \<open>crates/verum_proof/src/proof_checker_nbe.rs\<close>: semantic values with closures,
  \<open>eval\<close> and \<open>quote\<close>, conversion on values, and a type checker that works on values. Values use
  de Bruijn levels (counted from the outermost binder), environments are outermost-first, and a
  closure captures only the environment slots its body mentions.

  The evaluator of the source has no budget. As in the first checker every recursive function
  takes a bound on its depth and answers \<open>NoFuel\<close> beyond it; a larger bound never changes an
  answer (the locale \<open>larger_evaluation\<close> below).
\<close>

subsection \<open>Semantic values\<close>

datatype val =
    VData string level "closure list" "con_value list" "val list"
  | VConstruct val nat "val list"
  | VUniverse level
  | VPi val closure
  | VLam val closure
  | VNeutral neutral
  | VSigma val closure
  | VPair val val
  | VId val val val
  | VRefl val
and closure = Closure (clo_env: "val list") (clo_body: tm)
and field_value =
    FValue closure
  | FDependent closure
  | FRecursive
  | FRecursiveAt "closure list"
and con_value = ConstructorValue (cv_fields: "field_value list") (cv_indices: "closure list")
and neutral =
    NFunExt val val val val
  | NInduct val val "val list"
  | NVar nat
  | NApp neutral val
  | NFst neutral
  | NSnd neutral
  | NJ val val neutral
  | NIdElim val val neutral
  | NStuck val

type_synonym venv = "val list"

text \<open>
  \<open>Closure::capture\<close> visits every free occurrence once to collect the environment positions the
  body mentions (in increasing order), and renumbers the free indices when some slot is dropped.
\<close>

definition captured_positions :: "tm \<Rightarrow> venv \<Rightarrow> nat \<Rightarrow> nat list" where
  "captured_positions body env local_binders =
     filter (\<lambda>p. contains_free_by body local_binders (\<lambda>index. index + 1 \<le> length env \<and> length env - (index + 1) = p))
       [0..<length env]"

definition position_of :: "nat list \<Rightarrow> nat \<Rightarrow> nat" where
  "position_of positions p = length (takeWhile (\<lambda>q. q < p) positions)"

definition capture :: "tm \<Rightarrow> venv \<Rightarrow> nat \<Rightarrow> closure" where
  "capture body env local_binders =
     (let positions = captured_positions body env local_binders;
          body' =
            (if length positions = length env then body
             else map_variables body local_binders (\<lambda>index level.
               if level \<le> index \<and> index - level + 1 \<le> length env
               then let retained = position_of positions (length env - (index - level + 1))
                    in Var (level + length positions - 1 - retained)
               else Var index))
      in Closure (map (\<lambda>p. env ! p) positions) body')"

type_synonym ev = "tm \<Rightarrow> venv \<Rightarrow> (check_error, val) run"

definition apply_fields :: "ev \<Rightarrow> closure \<Rightarrow> val list \<Rightarrow> (check_error, val) run" where
  "apply_fields ev c previous = ev (clo_body c) (clo_env c @ previous)"

definition closure_apply :: "ev \<Rightarrow> closure \<Rightarrow> val \<Rightarrow> (check_error, val) run" where
  "closure_apply ev c arg = ev (clo_body c) (clo_env c @ [arg])"

definition field_value_domain :: "ev \<Rightarrow> field_value \<Rightarrow> val list \<Rightarrow> (check_error, val option) run" where
  "field_value_domain ev f previous =
     (case f of
        FValue c \<Rightarrow> run_bind (ev (clo_body c) (clo_env c)) (\<lambda>v. Ok (Some v))
      | FDependent c \<Rightarrow> run_bind (apply_fields ev c previous) (\<lambda>v. Ok (Some v))
      | _ \<Rightarrow> Ok None)"

definition field_value_indices :: "ev \<Rightarrow> field_value \<Rightarrow> val list \<Rightarrow> (check_error, val list option) run" where
  "field_value_indices ev f previous =
     (case f of
        FRecursive \<Rightarrow> Ok (Some [])
      | FRecursiveAt indices \<Rightarrow>
          run_bind (run_map (\<lambda>c. apply_fields ev c previous) indices) (\<lambda>vs. Ok (Some vs))
      | _ \<Rightarrow> Ok None)"

subsection \<open>Evaluation\<close>

definition apply_value :: "ev \<Rightarrow> val \<Rightarrow> val \<Rightarrow> (check_error, val) run" where
  "apply_value ev f x =
     (case f of
        VLam _ body \<Rightarrow> closure_apply ev body x
      | VData name l indices constructors arguments \<Rightarrow>
          if length arguments < length indices
          then Ok (VData name l indices constructors (arguments @ [x]))
          else Ok (VNeutral (NApp (NStuck f) x))
      | VNeutral n \<Rightarrow> Ok (VNeutral (NApp n x))
      | other \<Rightarrow> Ok (VNeutral (NApp (NStuck other) x)))"

definition apply_values :: "ev \<Rightarrow> val \<Rightarrow> val list \<Rightarrow> (check_error, val) run" where
  "apply_values ev head arguments = run_for head arguments (apply_value ev)"

definition apply_fst :: "val \<Rightarrow> val" where
  "apply_fst p =
     (case p of
        VPair a _ \<Rightarrow> a
      | VNeutral n \<Rightarrow> VNeutral (NFst n)
      | other \<Rightarrow> VNeutral (NFst (NStuck other)))"

definition apply_snd :: "val \<Rightarrow> val" where
  "apply_snd p =
     (case p of
        VPair _ b \<Rightarrow> b
      | VNeutral n \<Rightarrow> VNeutral (NSnd n)
      | other \<Rightarrow> VNeutral (NSnd (NStuck other)))"

definition apply_identity_elim :: "val \<Rightarrow> val \<Rightarrow> val \<Rightarrow> bool \<Rightarrow> val" where
  "apply_identity_elim motive base scrutinee dependent =
     (let elim = (\<lambda>path. VNeutral (if dependent then NIdElim motive base path else NJ motive base path))
      in case scrutinee of
           VRefl _ \<Rightarrow> base
         | VNeutral n \<Rightarrow> elim n
         | other \<Rightarrow> elim (NStuck other))"

definition apply_j :: "val \<Rightarrow> val \<Rightarrow> val \<Rightarrow> val" where
  "apply_j motive base scrutinee = apply_identity_elim motive base scrutinee False"

definition is_recursive_value :: "field_value \<Rightarrow> bool" where
  "is_recursive_value f = (case f of FRecursive \<Rightarrow> True | FRecursiveAt _ \<Rightarrow> True | _ \<Rightarrow> False)"

type_synonym ind = "val \<Rightarrow> val \<Rightarrow> val list \<Rightarrow> (check_error, val) run"

text \<open>The constructor a scrutinee computes from, with its branch and arguments.\<close>

definition induct_redex :: "val \<Rightarrow> val list \<Rightarrow> (val \<times> (field_value \<times> val) list) option" where
  "induct_redex scrutinee cases =
     (case scrutinee of
        VConstruct (VData _ _ _ constructors _) k args \<Rightarrow>
          if k < length constructors \<and> k < length cases \<and> length (cv_fields (constructors ! k)) = length args
          then Some (cases ! k, zip (cv_fields (constructors ! k)) args)
          else None
      | _ \<Rightarrow> None)"

definition apply_induct_step :: "ev \<Rightarrow> ind \<Rightarrow> ind" where
  "apply_induct_step ev ind scrutinee motive cases =
     (case induct_redex scrutinee cases of
        Some (branch, pairs) \<Rightarrow>
          run_for branch pairs (\<lambda>result (field, argument).
            run_bind (apply_value ev result argument) (\<lambda>result.
              if is_recursive_value field
              then run_bind (ind argument motive cases) (\<lambda>hyp. apply_value ev result hyp)
              else Ok result))
      | None \<Rightarrow> Ok (VNeutral (NInduct scrutinee motive cases)))"

definition eval_field :: "venv \<Rightarrow> nat \<times> data_field \<Rightarrow> field_value" where
  "eval_field env = (\<lambda>(index, field).
     case field of
       Value ty \<Rightarrow> FValue (capture ty env 0)
     | Dependent ty \<Rightarrow> FDependent (capture ty env index)
     | Recursive \<Rightarrow> FRecursive
     | RecursiveAt indices \<Rightarrow> FRecursiveAt (map (\<lambda>ty. capture ty env index) indices))"

definition eval_constructor :: "venv \<Rightarrow> data_constructor \<Rightarrow> con_value" where
  "eval_constructor env k =
     ConstructorValue (map (eval_field env) (List.enumerate 0 (con_fields k)))
       (map (\<lambda>ty. capture ty env (length (con_fields k))) (con_indices k))"

definition eval_step :: "ev \<Rightarrow> ind \<Rightarrow> ev" where
  "eval_step ev ind t env =
     (case t of
        FunExt a b c d \<Rightarrow>
          run_bind (ev a env) (\<lambda>a. run_bind (ev b env) (\<lambda>b. run_bind (ev c env) (\<lambda>c. run_bind (ev d env) (\<lambda>d.
            Ok (VNeutral (NFunExt a b c d))))))
      | LetT v body \<Rightarrow> run_bind (ev v env) (\<lambda>v. ev body (env @ [v]))
      | Data name l indices constructors \<Rightarrow>
          Ok (VData name l (map (\<lambda>(index, ty). capture ty env index) (List.enumerate 0 indices))
            (map (eval_constructor env) constructors) [])
      | Construct data k args \<Rightarrow>
          run_bind (ev data env) (\<lambda>data. run_bind (run_map (\<lambda>t. ev t env) args) (\<lambda>args.
            Ok (VConstruct data k args)))
      | Induct scrutinee motive cases \<Rightarrow>
          run_bind (ev scrutinee env) (\<lambda>s. run_bind (ev motive env) (\<lambda>m.
            run_bind (run_map (\<lambda>t. ev t env) cases) (\<lambda>cs. ind s m cs)))
      | Universe l \<Rightarrow> Ok (VUniverse l)
      | Var i \<Rightarrow> Ok (if length env \<le> i then VNeutral (NVar i) else env ! (length env - 1 - i))
      | PiT a b \<Rightarrow> run_bind (ev a env) (\<lambda>a. Ok (VPi a (capture b env 1)))
      | Lam a b \<Rightarrow> run_bind (ev a env) (\<lambda>a. Ok (VLam a (capture b env 1)))
      | App f x \<Rightarrow> run_bind (ev f env) (\<lambda>f. run_bind (ev x env) (\<lambda>x. apply_value ev f x))
      | SigmaT a b \<Rightarrow> run_bind (ev a env) (\<lambda>a. Ok (VSigma a (capture b env 1)))
      | PairT a b \<Rightarrow> run_bind (ev a env) (\<lambda>a. run_bind (ev b env) (\<lambda>b. Ok (VPair a b)))
      | FstT p \<Rightarrow> run_bind (ev p env) (\<lambda>p. Ok (apply_fst p))
      | SndT p \<Rightarrow> run_bind (ev p env) (\<lambda>p. Ok (apply_snd p))
      | IdT a b c \<Rightarrow>
          run_bind (ev a env) (\<lambda>a. run_bind (ev b env) (\<lambda>b. run_bind (ev c env) (\<lambda>c. Ok (VId a b c))))
      | Refl a \<Rightarrow> run_bind (ev a env) (\<lambda>a. Ok (VRefl a))
      | J m b s \<Rightarrow>
          run_bind (ev m env) (\<lambda>m. run_bind (ev b env) (\<lambda>b. run_bind (ev s env) (\<lambda>s. Ok (apply_j m b s))))
      | IdElim m b s \<Rightarrow>
          run_bind (ev m env) (\<lambda>m. run_bind (ev b env) (\<lambda>b. run_bind (ev s env) (\<lambda>s.
            Ok (apply_identity_elim m b s True)))))"

fun nbe_eval :: "nat \<Rightarrow> ev"
and apply_induct :: "nat \<Rightarrow> ind" where
  "nbe_eval 0 = (\<lambda>t env. NoFuel)"
| "nbe_eval (Suc n) = eval_step (nbe_eval n) (apply_induct n)"
| "apply_induct 0 = (\<lambda>s m cs. NoFuel)"
| "apply_induct (Suc n) = apply_induct_step (nbe_eval n) (apply_induct n)"

subsection \<open>Readback\<close>

definition fresh :: "nat \<Rightarrow> val" where
  "fresh k = VNeutral (NVar k)"

definition fresh_values :: "nat \<Rightarrow> nat \<Rightarrow> val list" where
  "fresh_values k n = map (\<lambda>i. fresh (k + i)) [0..<n]"

type_synonym qt = "val \<Rightarrow> nat \<Rightarrow> (check_error, tm) run"
type_synonym qn = "neutral \<Rightarrow> nat \<Rightarrow> (check_error, tm) run"

definition quote_closure :: "ev \<Rightarrow> qt \<Rightarrow> closure \<Rightarrow> val list \<Rightarrow> nat \<Rightarrow> (check_error, tm) run" where
  "quote_closure ev qt c previous k = run_bind (apply_fields ev c previous) (\<lambda>v. qt v k)"

definition quote_field :: "ev \<Rightarrow> qt \<Rightarrow> nat \<Rightarrow> val list \<Rightarrow> nat \<times> field_value \<Rightarrow> (check_error, data_field) run" where
  "quote_field ev qt k previous = (\<lambda>(i, field).
     case field of
       FValue c \<Rightarrow> run_bind (quote_closure ev qt c [] k) (\<lambda>t. Ok (Value t))
     | FDependent c \<Rightarrow> run_bind (quote_closure ev qt c (take i previous) (k + i)) (\<lambda>t. Ok (Dependent t))
     | FRecursive \<Rightarrow> Ok Recursive
     | FRecursiveAt indices \<Rightarrow>
         run_bind (run_map (\<lambda>c. quote_closure ev qt c (take i previous) (k + i)) indices)
           (\<lambda>ts. Ok (RecursiveAt ts)))"

definition quote_constructor :: "ev \<Rightarrow> qt \<Rightarrow> nat \<Rightarrow> con_value \<Rightarrow> (check_error, data_constructor) run" where
  "quote_constructor ev qt k con =
     (let previous = fresh_values k (length (cv_fields con))
      in run_bind (run_map (quote_field ev qt k previous) (List.enumerate 0 (cv_fields con))) (\<lambda>fs.
         run_bind (run_map (\<lambda>c. quote_closure ev qt c previous (k + length previous)) (cv_indices con)) (\<lambda>ts.
           Ok (DataConstructor fs ts))))"

definition quote_data ::
  "ev \<Rightarrow> qt \<Rightarrow> nat \<Rightarrow> string \<Rightarrow> level \<Rightarrow> closure list \<Rightarrow> con_value list \<Rightarrow> val list \<Rightarrow> (check_error, tm) run" where
  "quote_data ev qt k name l indices constructors arguments =
     (let index_vars = fresh_values k (length indices)
      in run_bind (run_map (\<lambda>(i, c). quote_closure ev qt c (take i index_vars) (k + i)) (List.enumerate 0 indices)) (\<lambda>ts.
         run_bind (run_map (quote_constructor ev qt k) constructors) (\<lambda>cs.
         run_bind (run_map (\<lambda>v. qt v k) arguments) (\<lambda>args.
           Ok (foldl App (Data name l ts cs) args)))))"

definition quote_binder ::
  "ev \<Rightarrow> qt \<Rightarrow> nat \<Rightarrow> (tm \<Rightarrow> tm \<Rightarrow> tm) \<Rightarrow> val \<Rightarrow> closure \<Rightarrow> (check_error, tm) run" where
  "quote_binder ev qt k mk domain body =
     run_bind (qt domain k) (\<lambda>dom_term.
       run_bind (closure_apply ev body (fresh k)) (\<lambda>body_val.
         run_bind (qt body_val (k + 1)) (\<lambda>body_term. Ok (mk dom_term body_term))))"

definition quote_step :: "ev \<Rightarrow> qt \<Rightarrow> qn \<Rightarrow> qt" where
  "quote_step ev qt qn v k =
     (case v of
        VData name l indices constructors arguments \<Rightarrow> quote_data ev qt k name l indices constructors arguments
      | VConstruct data con args \<Rightarrow>
          run_bind (qt data k) (\<lambda>d. run_bind (run_map (\<lambda>v. qt v k) args) (\<lambda>ts. Ok (Construct d con ts)))
      | VUniverse l \<Rightarrow> Ok (Universe l)
      | VPi domain codomain \<Rightarrow> quote_binder ev qt k PiT domain codomain
      | VLam domain body \<Rightarrow> quote_binder ev qt k Lam domain body
      | VNeutral n \<Rightarrow> qn n k
      | VSigma domain codomain \<Rightarrow> quote_binder ev qt k SigmaT domain codomain
      | VPair a b \<Rightarrow> run_bind (qt a k) (\<lambda>a. run_bind (qt b k) (\<lambda>b. Ok (PairT a b)))
      | VId a b c \<Rightarrow>
          run_bind (qt a k) (\<lambda>a. run_bind (qt b k) (\<lambda>b. run_bind (qt c k) (\<lambda>c. Ok (IdT a b c))))
      | VRefl a \<Rightarrow> run_bind (qt a k) (\<lambda>a. Ok (Refl a)))"

definition quote_neutral_step :: "qt \<Rightarrow> qn \<Rightarrow> qn" where
  "quote_neutral_step qt qn n k =
     (case n of
        NFunExt a b c d \<Rightarrow>
          run_bind (qt a k) (\<lambda>a. run_bind (qt b k) (\<lambda>b. run_bind (qt c k) (\<lambda>c. run_bind (qt d k) (\<lambda>d.
            Ok (FunExt a b c d)))))
      | NInduct s m cs \<Rightarrow>
          run_bind (qt s k) (\<lambda>s. run_bind (qt m k) (\<lambda>m.
            run_bind (run_map (\<lambda>v. qt v k) cs) (\<lambda>cs. Ok (Induct s m cs))))
      | NVar i \<Rightarrow> Ok (if k \<le> i then Var i else Var (k - 1 - i))
      | NApp n x \<Rightarrow> run_bind (qn n k) (\<lambda>f. run_bind (qt x k) (\<lambda>x. Ok (App f x)))
      | NFst n \<Rightarrow> run_bind (qn n k) (\<lambda>p. Ok (FstT p))
      | NSnd n \<Rightarrow> run_bind (qn n k) (\<lambda>p. Ok (SndT p))
      | NJ m b s \<Rightarrow>
          run_bind (qt m k) (\<lambda>m. run_bind (qt b k) (\<lambda>b. run_bind (qn s k) (\<lambda>s. Ok (J m b s))))
      | NIdElim m b s \<Rightarrow>
          run_bind (qt m k) (\<lambda>m. run_bind (qt b k) (\<lambda>b. run_bind (qn s k) (\<lambda>s. Ok (IdElim m b s))))
      | NStuck v \<Rightarrow> qt v k)"

fun nbe_quote :: "nat \<Rightarrow> qt"
and quote_neutral :: "nat \<Rightarrow> qn" where
  "nbe_quote 0 = (\<lambda>v k. NoFuel)"
| "nbe_quote (Suc n) = quote_step (nbe_eval n) (nbe_quote n) (quote_neutral n)"
| "quote_neutral 0 = (\<lambda>v k. NoFuel)"
| "quote_neutral (Suc n) = quote_neutral_step (nbe_quote n) (quote_neutral n)"

subsection \<open>Conversion on values\<close>

type_synonym veq = "val \<Rightarrow> val \<Rightarrow> nat \<Rightarrow> (check_error, bool) run"
type_synonym neq = "neutral \<Rightarrow> neutral \<Rightarrow> nat \<Rightarrow> (check_error, bool) run"

definition values_def_eq :: "veq \<Rightarrow> val list \<Rightarrow> val list \<Rightarrow> nat \<Rightarrow> (check_error, bool) run" where
  "values_def_eq veq a b k =
     (if length a \<noteq> length b then Ok False else all_checked (zip a b) (\<lambda>(a, b). veq a b k))"

definition closures_def_eq ::
  "ev \<Rightarrow> veq \<Rightarrow> closure \<Rightarrow> closure \<Rightarrow> val list \<Rightarrow> nat \<Rightarrow> (check_error, bool) run" where
  "closures_def_eq ev veq a b previous k =
     run_bind (apply_fields ev a previous) (\<lambda>a. run_bind (apply_fields ev b previous) (\<lambda>b. veq a b k))"

definition field_values_def_eq ::
  "ev \<Rightarrow> veq \<Rightarrow> nat \<Rightarrow> val list \<Rightarrow> nat \<times> field_value \<times> field_value \<Rightarrow> (check_error, bool) run" where
  "field_values_def_eq ev veq k previous = (\<lambda>(i, a, b).
     let previous = take i previous
     in run_bind (field_value_indices ev a previous) (\<lambda>ra. run_bind (field_value_indices ev b previous) (\<lambda>rb.
          case (ra, rb) of
            (Some a, Some b) \<Rightarrow> values_def_eq veq a b (k + i)
          | (None, None) \<Rightarrow>
              run_bind (field_value_domain ev a previous) (\<lambda>da. run_bind (field_value_domain ev b previous) (\<lambda>db.
                case (da, db) of (Some a, Some b) \<Rightarrow> veq a b (k + i) | _ \<Rightarrow> Ok False))
          | _ \<Rightarrow> Ok False)))"

definition constructor_values_def_eq ::
  "ev \<Rightarrow> veq \<Rightarrow> nat \<Rightarrow> con_value \<Rightarrow> con_value \<Rightarrow> (check_error, bool) run" where
  "constructor_values_def_eq ev veq k a b =
     (let previous = fresh_values k (length (cv_fields a))
      in if length (cv_fields a) \<noteq> length (cv_fields b) \<or> length (cv_indices a) \<noteq> length (cv_indices b) then Ok False
         else and_then
           (all_checked (zip (cv_indices a) (cv_indices b))
             (\<lambda>(a, b). closures_def_eq ev veq a b previous (k + length previous)))
           (all_checked (List.enumerate 0 (zip (cv_fields a) (cv_fields b))) (field_values_def_eq ev veq k previous)))"

definition data_values_def_eq ::
  "ev \<Rightarrow> veq \<Rightarrow> nat \<Rightarrow> string \<times> level \<times> closure list \<times> con_value list \<times> val list \<Rightarrow>
   string \<times> level \<times> closure list \<times> con_value list \<times> val list \<Rightarrow> (check_error, bool) run" where
  "data_values_def_eq ev veq k = (\<lambda>(an, al, ai, ac, aa) (bn, bl, bi, bc, ba).
     let index_vars = fresh_values k (length ai)
     in if \<not> (an = bn \<and> level_eq al bl) then Ok False
        else and_then (values_def_eq veq aa ba k)
          (if length ai \<noteq> length bi then Ok False
           else and_then
             (all_checked (List.enumerate 0 (zip ai bi))
               (\<lambda>(i, a, b). closures_def_eq ev veq a b (take i index_vars) (k + i)))
             (if length ac \<noteq> length bc then Ok False
              else all_checked (zip ac bc) (\<lambda>(a, b). constructor_values_def_eq ev veq k a b))))"

definition binder_def_eq ::
  "ev \<Rightarrow> veq \<Rightarrow> nat \<Rightarrow> val \<Rightarrow> closure \<Rightarrow> val \<Rightarrow> closure \<Rightarrow> (check_error, bool) run" where
  "binder_def_eq ev veq k d1 c1 d2 c2 =
     run_bind (veq d1 d2 k) (\<lambda>eq. if \<not> eq then Ok False
       else run_bind (closure_apply ev c1 (fresh k)) (\<lambda>b1. run_bind (closure_apply ev c2 (fresh k)) (\<lambda>b2.
         veq b1 b2 (k + 1))))"

definition value_eta_match :: "ev \<Rightarrow> veq \<Rightarrow> closure \<Rightarrow> val \<Rightarrow> nat \<Rightarrow> (check_error, bool) run" where
  "value_eta_match ev veq body other k =
     run_bind (closure_apply ev body (fresh k)) (\<lambda>body_val.
       run_bind (apply_value ev other (fresh k)) (\<lambda>other_app. veq body_val other_app (k + 1)))"

definition value_pair_eta :: "veq \<Rightarrow> val \<Rightarrow> val \<Rightarrow> val \<Rightarrow> nat \<Rightarrow> (check_error, bool) run" where
  "value_pair_eta veq first second other k =
     and_then (veq first (apply_fst other) k) (veq second (apply_snd other) k)"

definition as_vlam :: "val \<Rightarrow> (val \<times> closure) option" where
  "as_vlam v = (case v of VLam d b \<Rightarrow> Some (d, b) | _ \<Rightarrow> None)"

definition as_vpair :: "val \<Rightarrow> (val \<times> val) option" where
  "as_vpair v = (case v of VPair a b \<Rightarrow> Some (a, b) | _ \<Rightarrow> None)"

text \<open>The arms for two values with the same head; the eta arms follow in the order of the source.\<close>

definition same_head_values_def_eq ::
  "ev \<Rightarrow> veq \<Rightarrow> neq \<Rightarrow> val \<Rightarrow> val \<Rightarrow> nat \<Rightarrow> (check_error, bool) run option" where
  "same_head_values_def_eq ev veq neq a b k =
     (case a of
        VData an al ai ac aa \<Rightarrow> (case b of
          VData bn bl bi bc ba \<Rightarrow> Some (data_values_def_eq ev veq k (an, al, ai, ac, aa) (bn, bl, bi, bc, ba)) | _ \<Rightarrow> None)
      | VConstruct ad ai aa \<Rightarrow> (case b of
          VConstruct bd bi ba \<Rightarrow> Some (if ai \<noteq> bi then Ok False else and_then (veq ad bd k) (values_def_eq veq aa ba k))
        | _ \<Rightarrow> None)
      | VUniverse n \<Rightarrow> (case b of VUniverse m \<Rightarrow> Some (Ok (level_eq n m)) | _ \<Rightarrow> None)
      | VPi d1 c1 \<Rightarrow> (case b of VPi d2 c2 \<Rightarrow> Some (binder_def_eq ev veq k d1 c1 d2 c2) | _ \<Rightarrow> None)
      | VLam d1 b1 \<Rightarrow> (case b of VLam d2 b2 \<Rightarrow> Some (binder_def_eq ev veq k d1 b1 d2 b2) | _ \<Rightarrow> None)
      | VNeutral n1 \<Rightarrow> (case b of VNeutral n2 \<Rightarrow> Some (neq n1 n2 k) | _ \<Rightarrow> None)
      | VSigma d1 c1 \<Rightarrow> (case b of VSigma d2 c2 \<Rightarrow> Some (binder_def_eq ev veq k d1 c1 d2 c2) | _ \<Rightarrow> None)
      | VPair a1 b1 \<Rightarrow> (case b of VPair a2 b2 \<Rightarrow> Some (and_then (veq a1 a2 k) (veq b1 b2 k)) | _ \<Rightarrow> None)
      | VId t1 l1 r1 \<Rightarrow> (case b of
          VId t2 l2 r2 \<Rightarrow> Some (and_then (veq t1 t2 k) (and_then (veq l1 l2 k) (veq r1 r2 k))) | _ \<Rightarrow> None)
      | VRefl v1 \<Rightarrow> (case b of VRefl v2 \<Rightarrow> Some (veq v1 v2 k) | _ \<Rightarrow> None))"

definition value_def_eq_step :: "ev \<Rightarrow> veq \<Rightarrow> neq \<Rightarrow> veq" where
  "value_def_eq_step ev veq neq a b k =
     (if a = b then Ok True
      else case same_head_values_def_eq ev veq neq a b k of
        Some r \<Rightarrow> r
      | None \<Rightarrow>
          (case (as_vlam a, as_vlam b) of
             (Some (_, body), _) \<Rightarrow> value_eta_match ev veq body b k
           | (None, Some (_, body)) \<Rightarrow> value_eta_match ev veq body a k
           | (None, None) \<Rightarrow>
               (case (as_vpair a, as_vpair b) of
                  (Some (first, second), _) \<Rightarrow> value_pair_eta veq first second b k
                | (None, Some (first, second)) \<Rightarrow> value_pair_eta veq first second a k
                | (None, None) \<Rightarrow> Ok False)))"

definition neutral_def_eq_step :: "veq \<Rightarrow> neq \<Rightarrow> neq" where
  "neutral_def_eq_step veq neq a b k =
     (case a of
        NFunExt a1 b1 c1 d1 \<Rightarrow> (case b of
          NFunExt a2 b2 c2 d2 \<Rightarrow>
            and_then (veq a1 a2 k) (and_then (veq b1 b2 k) (and_then (veq c1 c2 k) (veq d1 d2 k)))
        | _ \<Rightarrow> Ok False)
      | NInduct s1 m1 c1 \<Rightarrow> (case b of
          NInduct s2 m2 c2 \<Rightarrow> and_then (veq s1 s2 k) (and_then (veq m1 m2 k) (values_def_eq veq c1 c2 k))
        | _ \<Rightarrow> Ok False)
      | NVar i \<Rightarrow> (case b of NVar j \<Rightarrow> Ok (i = j) | _ \<Rightarrow> Ok False)
      | NApp f1 x1 \<Rightarrow> (case b of NApp f2 x2 \<Rightarrow> and_then (neq f1 f2 k) (veq x1 x2 k) | _ \<Rightarrow> Ok False)
      | NFst n1 \<Rightarrow> (case b of NFst n2 \<Rightarrow> neq n1 n2 k | _ \<Rightarrow> Ok False)
      | NSnd n1 \<Rightarrow> (case b of NSnd n2 \<Rightarrow> neq n1 n2 k | _ \<Rightarrow> Ok False)
      | NJ m1 b1 s1 \<Rightarrow> (case b of
          NJ m2 b2 s2 \<Rightarrow> and_then (veq m1 m2 k) (and_then (veq b1 b2 k) (neq s1 s2 k)) | _ \<Rightarrow> Ok False)
      | NIdElim m1 b1 s1 \<Rightarrow> (case b of
          NIdElim m2 b2 s2 \<Rightarrow> and_then (veq m1 m2 k) (and_then (veq b1 b2 k) (neq s1 s2 k)) | _ \<Rightarrow> Ok False)
      | NStuck v1 \<Rightarrow> (case b of NStuck v2 \<Rightarrow> veq v1 v2 k | _ \<Rightarrow> Ok False))"

fun value_def_eq :: "nat \<Rightarrow> veq"
and def_eq_neutral :: "nat \<Rightarrow> neq" where
  "value_def_eq 0 = (\<lambda>a b k. NoFuel)"
| "value_def_eq (Suc n) = value_def_eq_step (nbe_eval n) (value_def_eq n) (def_eq_neutral n)"
| "def_eq_neutral 0 = (\<lambda>a b k. NoFuel)"
| "def_eq_neutral (Suc n) = neutral_def_eq_step (value_def_eq n) (def_eq_neutral n)"

subsection \<open>A larger bound never changes an answer\<close>

text \<open>
  The contract between the evaluator's functions and their recursive calls: calls that answer at
  least as often make functions that answer at least as often.
\<close>

locale larger_evaluation =
  fixes ev ev' :: ev and ind ind' :: ind and qt qt' :: qt and qn qn' :: qn
    and veq veq' :: veq and neq neq' :: neq
  assumes ev_le: "run_le (ev t env) (ev' t env)"
    and ind_le: "run_le (ind s m cs) (ind' s m cs)"
    and qt_le: "run_le (qt v k) (qt' v k)"
    and qn_le: "run_le (qn x k) (qn' x k)"
    and veq_le: "run_le (veq v w k) (veq' v w k)"
    and neq_le: "run_le (neq x y k) (neq' x y k)"
begin

lemmas evaluation_le = ev_le ind_le qt_le qn_le veq_le neq_le

lemma closure_le:
  "run_le (apply_fields ev c vs) (apply_fields ev' c vs)"
  "run_le (closure_apply ev c v) (closure_apply ev' c v)"
  by (simp_all add: apply_fields_def closure_apply_def ev_le)

lemma apply_value_le: "run_le (apply_value ev f x) (apply_value ev' f x)"
  by (cases f) (simp_all add: apply_value_def closure_le)

lemma apply_values_le: "run_le (apply_values ev f xs) (apply_values ev' f xs)"
  by (auto simp: apply_values_def intro!: run_mono apply_value_le)

lemma field_value_le:
  "run_le (field_value_domain ev fd vs) (field_value_domain ev' fd vs)"
  "run_le (field_value_indices ev fd vs) (field_value_indices ev' fd vs)"
  by (cases fd; auto simp: field_value_domain_def field_value_indices_def intro!: run_mono ev_le closure_le)+

lemma apply_induct_step_le: "run_le (apply_induct_step ev ind s m cs) (apply_induct_step ev' ind' s m cs)"
  by (auto simp: apply_induct_step_def intro!: run_mono apply_value_le ind_le)

lemma eval_step_le: "run_le (eval_step ev ind t env) (eval_step ev' ind' t env)"
  by (cases t) (auto simp: eval_step_def intro!: run_mono evaluation_le apply_value_le)

lemma quote_closure_le: "run_le (quote_closure ev qt c vs k) (quote_closure ev' qt' c vs k)"
  by (auto simp: quote_closure_def intro!: run_mono closure_le qt_le)

lemma quote_field_le: "run_le (quote_field ev qt k vs x) (quote_field ev' qt' k vs x)"
  by (cases "snd x") (auto simp: quote_field_def split_beta intro!: run_mono quote_closure_le)

lemma quote_constructor_le: "run_le (quote_constructor ev qt k con) (quote_constructor ev' qt' k con)"
  by (auto simp: quote_constructor_def Let_def intro!: run_mono quote_field_le quote_closure_le)

lemma quote_binder_le: "run_le (quote_binder ev qt k mk d b) (quote_binder ev' qt' k mk d b)"
  by (auto simp: quote_binder_def intro!: run_mono closure_le qt_le)

lemma quote_step_le: "run_le (quote_step ev qt qn v k) (quote_step ev' qt' qn' v k)"
  by (cases v) (auto simp: quote_step_def quote_data_def Let_def
      intro!: run_mono evaluation_le quote_binder_le quote_constructor_le quote_closure_le)

lemma quote_neutral_step_le: "run_le (quote_neutral_step qt qn x k) (quote_neutral_step qt' qn' x k)"
  by (cases x) (auto simp: quote_neutral_step_def intro!: run_mono evaluation_le)

lemma values_def_eq_le: "run_le (values_def_eq veq vs ws k) (values_def_eq veq' vs ws k)"
  by (auto simp: values_def_eq_def intro!: run_mono veq_le)

lemma closures_def_eq_le: "run_le (closures_def_eq ev veq a b vs k) (closures_def_eq ev' veq' a b vs k)"
  by (auto simp: closures_def_eq_def intro!: run_mono closure_le veq_le)

lemma field_values_def_eq_le:
  "run_le (field_values_def_eq ev veq k vs x) (field_values_def_eq ev' veq' k vs x)"
  by (auto simp: field_values_def_eq_def Let_def split_beta split: option.split
      intro!: run_mono field_value_le values_def_eq_le veq_le)

lemma constructor_values_def_eq_le:
  "run_le (constructor_values_def_eq ev veq k a b) (constructor_values_def_eq ev' veq' k a b)"
  by (auto simp: constructor_values_def_eq_def Let_def intro!: run_mono closures_def_eq_le field_values_def_eq_le)

lemma data_values_def_eq_le:
  "run_le (data_values_def_eq ev veq k a b) (data_values_def_eq ev' veq' k a b)"
  by (auto simp: data_values_def_eq_def Let_def split_beta
      intro!: run_mono values_def_eq_le closures_def_eq_le constructor_values_def_eq_le)

lemma binder_def_eq_le: "run_le (binder_def_eq ev veq k a c b d) (binder_def_eq ev' veq' k a c b d)"
  by (auto simp: binder_def_eq_def intro!: run_mono closure_le veq_le)

lemma same_head_values_le:
  "rel_option run_le (same_head_values_def_eq ev veq neq a b k) (same_head_values_def_eq ev' veq' neq' a b k)"
  by (cases a; cases b)
    (auto simp: same_head_values_def_eq_def
      intro!: run_mono veq_le neq_le data_values_def_eq_le values_def_eq_le binder_def_eq_le)

lemma value_eta_match_le: "run_le (value_eta_match ev veq c v k) (value_eta_match ev' veq' c v k)"
  by (auto simp: value_eta_match_def intro!: run_mono closure_le apply_value_le veq_le)

lemma value_pair_eta_le: "run_le (value_pair_eta veq v w x k) (value_pair_eta veq' v w x k)"
  by (auto simp: value_pair_eta_def intro!: run_mono veq_le)

lemma value_def_eq_step_le: "run_le (value_def_eq_step ev veq neq a b k) (value_def_eq_step ev' veq' neq' a b k)"
  using same_head_values_le [of a b k]
  by (cases "same_head_values_def_eq ev veq neq a b k"; cases "same_head_values_def_eq ev' veq' neq' a b k")
    (auto simp: value_def_eq_step_def split: option.split intro!: value_eta_match_le value_pair_eta_le)

lemma neutral_def_eq_step_le: "run_le (neutral_def_eq_step veq neq a b k) (neutral_def_eq_step veq' neq' a b k)"
  by (cases a; cases b)
    (auto simp: neutral_def_eq_step_def intro!: run_mono veq_le neq_le values_def_eq_le)

end

lemma larger_evaluation_trans:
  assumes "larger_evaluation ev ev' ind ind' qt qt' qn qn' veq veq' neq neq'"
    and "larger_evaluation ev' ev'' ind' ind'' qt' qt'' qn' qn'' veq' veq'' neq' neq''"
  shows "larger_evaluation ev ev'' ind ind'' qt qt'' qn qn'' veq veq'' neq neq''"
proof -
  note l1 = larger_evaluation.evaluation_le [OF assms(1)] and l2 = larger_evaluation.evaluation_le [OF assms(2)]
  show ?thesis
    by unfold_locales
      (rule l1(1) [THEN run_le_trans, OF l2(1)] l1(2) [THEN run_le_trans, OF l2(2)]
        l1(3) [THEN run_le_trans, OF l2(3)] l1(4) [THEN run_le_trans, OF l2(4)]
        l1(5) [THEN run_le_trans, OF l2(5)] l1(6) [THEN run_le_trans, OF l2(6)])+
qed

lemma larger_evaluation_Suc:
  "larger_evaluation (nbe_eval n) (nbe_eval (Suc n)) (apply_induct n) (apply_induct (Suc n))
     (nbe_quote n) (nbe_quote (Suc n)) (quote_neutral n) (quote_neutral (Suc n))
     (value_def_eq n) (value_def_eq (Suc n)) (def_eq_neutral n) (def_eq_neutral (Suc n))"
proof (induction n)
  case (Suc n)
  show ?case
    using larger_evaluation.eval_step_le [OF Suc] larger_evaluation.apply_induct_step_le [OF Suc]
      larger_evaluation.quote_step_le [OF Suc] larger_evaluation.quote_neutral_step_le [OF Suc]
      larger_evaluation.value_def_eq_step_le [OF Suc] larger_evaluation.neutral_def_eq_step_le [OF Suc]
    by unfold_locales simp_all
qed (unfold_locales, simp_all)

interpretation evaluation: larger_evaluation "nbe_eval n" "nbe_eval (n + k)" "apply_induct n" "apply_induct (n + k)"
    "nbe_quote n" "nbe_quote (n + k)" "quote_neutral n" "quote_neutral (n + k)"
    "value_def_eq n" "value_def_eq (n + k)" "def_eq_neutral n" "def_eq_neutral (n + k)" for n k
proof (induction k)
  case (Suc k)
  show ?case using larger_evaluation_trans [OF Suc larger_evaluation_Suc] by simp
qed (unfold_locales, simp_all)

end
