(* ===== verification/Stability.thy ===== *)
theory Stability
  imports ConvSpec
begin

section \<open>Conversion is stable under weakening and instantiation\<close>

text \<open>
  Substitutivity of the declarative congruence: shifting both sides, and instantiating a telescope
  by convertible arguments. Shifting is by induction over the rules; instantiation then follows
  from the beta rule.
\<close>

subsection \<open>Shifting the derived syntax\<close>

lemma shift_up_apply_terms:
  "shift_up (apply_terms h vs) a c = apply_terms (shift_up h a c) (map (\<lambda>v. shift_up v a c) vs)"
  unfolding apply_terms_def by (induction vs arbitrary: h) (simp_all add: up.trav_node)

lemma is_recursive_map_field [simp]: "is_recursive (map_field f i fd) = is_recursive fd"
  by (cases fd) (simp_all add: is_recursive_def)

lemma con_fields_map_constructor:
  "con_fields (map_constructor f k) = map (\<lambda>(i, fd). map_field f i fd) (List.enumerate 0 (con_fields k))"
  "con_indices (map_constructor f k) = map (\<lambda>t. f t (length (con_fields k))) (con_indices k)"
  by (cases k; simp)+

lemma shift_up_induct_apply:
  assumes "list_all2 (\<lambda>(f, x) (g, y). is_recursive f = is_recursive g \<and> y = shift_up x a c) ps qs"
  shows "shift_up (induct_apply m cs r ps) a c =
    induct_apply (shift_up m a c) (map (\<lambda>t. shift_up t a c) cs) (shift_up r a c) qs"
  using assms unfolding induct_apply_def
  by (induction arbitrary: r rule: list_all2_induct) (auto simp: Let_def up.trav_node)

lemma iota_contract_shift_up:
  assumes "iota_contract d k args m cs = Some r"
  shows "iota_contract (shift_up d a c) k (map (\<lambda>t. shift_up t a c) args) (shift_up m a c)
    (map (\<lambda>t. shift_up t a c) cs) = Some (shift_up r a c)"
proof -
  obtain n l ts ks where d: "d = Data n l ts ks" using iota_contract_data [OF assms] by blast
  let ?sh = "\<lambda>t b. shift_up t a (c + b)"
  have k: "k < length ks" "k < length cs" "length (con_fields (ks ! k)) = length args"
    and r: "r = induct_apply m cs (cs ! k) (zip (con_fields (ks ! k)) args)"
    using assms by (auto simp: iota_contract_def d split: if_splits)
  have "list_all2 (\<lambda>(f, x) (g, y). is_recursive f = is_recursive g \<and> y = shift_up x a c)
      (zip (con_fields (ks ! k)) args)
      (zip (con_fields (map_constructor ?sh (ks ! k))) (map (\<lambda>t. shift_up t a c) args))"
    using k by (auto simp: list_all2_conv_all_nth con_fields_map_constructor nth_enumerate_eq)
  from shift_up_induct_apply [OF this] show ?thesis
    using k by (simp add: d r up.trav_node iota_contract_def con_fields_map_constructor)
qed

lemma map_field_canonical:
  "map_field (\<lambda>t b. shift_up t a (c + b)) i (canonical_field i fd) =
   canonical_field i (map_field (\<lambda>t b. shift_up t a (c + b)) i fd)"
  by (cases fd) (simp_all add: canonical_field_def shift_up_commute [of 0 c, simplified])

lemma map_constructor_canonical:
  "map_constructor (\<lambda>t b. shift_up t a (c + b)) (canonical_con k) =
   canonical_con (map_constructor (\<lambda>t b. shift_up t a (c + b)) k)"
  by (cases k) (auto simp: canonical_con_def enumerate_map_enumerate map_field_canonical)

subsection \<open>Shifting\<close>

definition defs_shift :: "nat \<Rightarrow> nat \<Rightarrow> defs \<Rightarrow> defs \<Rightarrow> bool" where
  "defs_shift a c \<delta> \<delta>' \<longleftrightarrow>
     (\<forall>i v. \<delta> i = Some v \<longrightarrow> \<delta>' (if c \<le> i then i + a else i) = Some (shift_up v a c))"

lemma defs_shift_lift: "defs_shift a c \<delta> \<delta>' \<Longrightarrow> defs_shift a (c + b) (lift_defs b \<delta>) (lift_defs b \<delta>')"
  unfolding defs_shift_def
proof (intro allI impI)
  fix i v
  assume ok: "\<forall>i v. \<delta> i = Some v \<longrightarrow> \<delta>' (if c \<le> i then i + a else i) = Some (shift_up v a c)"
    and "lift_defs b \<delta> i = Some v"
  then obtain w where w: "b \<le> i" "\<delta> (i - b) = Some w" "v = shift_up w b 0"
    by (auto simp: lift_defs_def split: if_splits)
  from ok [rule_format, OF w(2)] show "lift_defs b \<delta>' (if c + b \<le> i then i + a else i) = Some (shift_up v a (c + b))"
    using w(1) shift_up_commute [of 0 c w a b] by (auto simp: lift_defs_def w(3) le_diff_conv2 split: if_splits)
qed

lemma erase_children_var: "erase_children a = erase_children b \<Longrightarrow> is_var a \<longleftrightarrow> is_var b"
  unfolding erase_children_def by (metis is_var_map_children)

lemma erase_children_Var [simp]: "erase_children (Var i) = Var i"
  by (simp add: erase_children_def)

lemma erase_children_map: "erase_children (map_children t f) = erase_children t"
  by (simp add: erase_children_def map_children_comp)

lemma erase_children_binders:
  assumes "erase_children a = erase_children b"
  shows "map snd (children a) = map snd (children b)"
proof -
  have "map snd (children (erase_children t)) = map snd (children t)" for t
    by (simp add: erase_children_def children_map_children comp_def case_prod_unfold)
  with assms show ?thesis by metis
qed

lemma conv_shift_up:
  "conv \<delta> t u \<Longrightarrow> defs_shift a c \<delta> \<delta>' \<Longrightarrow> conv \<delta>' (shift_up t a c) (shift_up u a c)"
proof (induction arbitrary: c \<delta>' rule: conv.induct)
  case (conv_cong x y \<delta>)
  show ?case
  proof (cases "is_var x")
    case True
    with erase_children_var [OF conv_cong.hyps(1)] conv_cong.hyps(1) have "x = y"
      by (cases x; cases y; simp)
    then show ?thesis by blast
  next
    case False
    note nodes = False False [unfolded erase_children_var [OF conv_cong.hyps(1)]]
    have binders: "snd (children x ! i) = snd (children y ! i)" if "i < length (children y)" for i
      using arg_cong [OF erase_children_binders [OF conv_cong.hyps(1)], of "\<lambda>xs. xs ! i"]
        arg_cong [OF erase_children_binders [OF conv_cong.hyps(1)], of length] that by simp
    have "list_all2 (\<lambda>x y. conv (lift_defs (snd x) \<delta>') (fst x) (fst y))
        (map (\<lambda>(t, b). (shift_up t a (c + b), b)) (children x)) (map (\<lambda>(t, b). (shift_up t a (c + b), b)) (children y))"
      using conv_cong.IH defs_shift_lift [OF conv_cong.prems] binders
      by (simp add: list_all2_conv_all_nth split_beta)
    then show ?thesis
      unfolding up.trav_node [OF nodes(1)] up.trav_node [OF nodes(2)]
      by (intro conv.conv_cong) (simp_all add: erase_children_map conv_cong.hyps children_map_children)
  qed
next
  case (conv_sym \<delta> t u)
  then show ?case by (blast intro: conv.conv_sym)
next
  case (conv_trans \<delta> t u v)
  then show ?case by (blast intro: conv.conv_trans)
next
  case (conv_beta \<delta> x b y)
  show ?case using shift_up_subst [of b 0 y a c] by (simp add: up.trav_node conv.conv_beta)
next
  case (conv_zeta \<delta> y b)
  show ?case using shift_up_subst [of b 0 y a c] by (simp add: up.trav_node conv.conv_zeta)
next
  case (conv_delta \<delta> i v)
  then have "\<delta>' (if c \<le> i then i + a else i) = Some (shift_up v a c)" by (simp add: defs_shift_def)
  then show ?case unfolding up.trav_Var by (rule conv.conv_delta)
next
  case (conv_iota d k args m cs r \<delta> vs)
  from conv.conv_iota [OF iota_contract_shift_up [OF conv_iota.hyps]] show ?case
    by (simp add: up.trav_node shift_up_apply_terms)
next
  case (conv_eta \<delta> x f)
  show ?case
    using conv.conv_eta [of \<delta>' "shift_up x a c" "shift_up f a c"] shift_up_commute [of 0 c f a 1]
    by (simp add: up.trav_node)
next
  case (conv_data_fields \<delta> n l ts cs)
  show ?case
    using conv.conv_data_fields [of \<delta>' n l _ "map (map_constructor (\<lambda>t b. shift_up t a (c + b))) cs"]
    by (simp add: up.trav_node map_constructor_canonical comp_def)
next
  case (conv_data_level l m \<delta> n ts cs)
  then show ?case by (simp add: up.trav_node conv.conv_data_level)
next
  case (conv_universe l m \<delta>)
  then show ?case by (simp add: up.trav_node conv.conv_universe)
qed (auto simp: up.trav_node intro: conv.intros)


lemma defs_shift_lift_defs: "defs_shift k 0 \<delta> (lift_defs k \<delta>)"
  by (simp add: defs_shift_def lift_defs_def)

lemma conv_shift_up_0: "conv \<delta> t u \<Longrightarrow> conv (lift_defs k \<delta>) (shift_up t k 0) (shift_up u k 0)"
  by (rule conv_shift_up [OF _ defs_shift_lift_defs])

subsection \<open>Instantiation\<close>

lemma conv_subst:
  assumes "conv (lift_defs 1 \<delta>) t u" and "conv \<delta> x y"
  shows "conv \<delta> (subst t 0 x) (subst u 0 y)"
proof -
  have "conv \<delta> (subst t 0 x) (App (Lam (Var 0) t) x)" by (rule conv_sym, rule conv_beta)
  also have "conv \<delta> \<dots> (App (Lam (Var 0) u) y)" by (intro conv_congs assms conv_refl)
  also have "conv \<delta> \<dots> (subst u 0 y)" by (rule conv_beta)
  finally show ?thesis .
qed

lemma conv_instantiate:
  "list_all2 (conv \<delta>) xs ys \<Longrightarrow> conv (lift_defs (length xs) \<delta>) t u \<Longrightarrow>
   conv \<delta> (instantiate_fields t xs) (instantiate_fields u ys)"
proof (induction xs arbitrary: ys t u rule: rev_induct)
  case (snoc x xs)
  from snoc.prems(1) obtain zs y where ys: "ys = zs @ [y]" and zs: "list_all2 (conv \<delta>) xs zs" and xy: "conv \<delta> x y"
    by (auto simp: list_all2_append1 list_all2_Cons1)
  have len: "length zs = length xs" using list_all2_lengthD [OF zs] by simp
  have "conv (lift_defs (length xs) \<delta>) (subst t 0 (shift_up x (length xs) 0)) (subst u 0 (shift_up y (length xs) 0))"
    using snoc.prems(2) by (intro conv_subst conv_shift_up_0 xy) (simp add: lift_defs_lift)
  from snoc.IH [OF zs this] show ?case by (simp add: ys instantiate_fields_snoc len)
qed simp

text \<open>Instantiation under \<open>k\<close> binders, and its composition with the instantiation of those.\<close>

definition inst_under :: "nat \<Rightarrow> tm \<Rightarrow> tm list \<Rightarrow> tm" where
  "inst_under k t args = map_variables t k (inst_act args)"

lemma inst_under_0 [simp]: "inst_under 0 t args = instantiate_fields t args"
  by (simp add: inst_under_def instantiate_fields_eq)

lemma inst_under_Var:
  "inst_under k (Var i) args =
    (if i < k then Var i
     else if i - k < length args then shift_up (args ! (length args - 1 - (i - k))) k 0
     else Var (i - length args))"
  by (simp add: inst_under_def inst_act_def)

lemma inst_under_node:
  "\<not> is_var t \<Longrightarrow> inst_under k t args = map_children t (\<lambda>c b. inst_under (k + b) c args)"
  by (simp add: inst_under_def map_variables_node)

lemma inst_act_shift:
  "map_variables (shift_up x (length ys + k) 0) k (inst_act ys) = shift_up x k 0"
  unfolding up.trav_eq_map_variables by (rule map_variables_fuse) (auto simp: inst_act_def)

lemma instantiate_inst_under:
  assumes "length us = k"
  shows "instantiate_fields (inst_under k t args) us = instantiate_fields t (args @ us)"
  unfolding inst_under_def instantiate_fields_eq
proof (rule map_variables_fuse)
  fix i j
  show "map_variables (inst_act args i (k + j)) (0 + j) (inst_act us) = inst_act (args @ us) i (0 + j)"
    using inst_act_shift [of _ us j] assms
    by (auto simp: inst_act_def nth_append less_diff_conv2 not_less add.assoc)
qed

lemma shift_up_inst_under:
  assumes "scoped (length args + k) t"
  shows "shift_up (inst_under k t args) m k = inst_under k t (map (\<lambda>x. shift_up x m 0) args)"
proof -
  have "map_variables (map_variables t k (inst_act args)) k (shift_act m) =
      map_variables t k (\<lambda>i d. shift_up (inst_act args i d) m d)"
    by (rule map_variables_fuse) (simp add: up.trav_eq_map_variables)
  also have "\<dots> = map_variables t k (inst_act (map (\<lambda>x. shift_up x m 0) args))"
    by (rule map_variables_agree_on [OF assms [unfolded scoped_vars_ok]])
      (auto simp: inst_act_def shift_up_commute [of 0 0, simplified] less_diff_conv2)
  finally show ?thesis by (simp add: inst_under_def up.trav_eq_map_variables)
qed

lemma scoped_inst_under:
  assumes "scoped (length args + k) t" and "\<And>x. x \<in> set args \<Longrightarrow> scoped n x"
  shows "scoped (n + k) (inst_under k t args)"
proof -
  have "scoped (n + k + j) (inst_act args i (k + j))" if "i < length args + k + j" for i j
    using that assms(2) scoped_shift_up [of n _ "k + j" 0] by (auto simp: inst_act_def add.assoc less_diff_conv2)
  then show ?thesis
    unfolding inst_under_def scoped_vars_ok
    by (intro vars_ok_map_variables [OF assms(1) [unfolded scoped_vars_ok]]) (simp flip: scoped_vars_ok)
qed

text \<open>Instantiating \<open>k\<close> binders by the \<open>k\<close> innermost variables of the scope below them.\<close>

lemma instantiate_variables:
  "instantiate_fields (shift_up t k k) (map (\<lambda>i. Var (k - Suc i)) [0..<k]) = t"
proof -
  have "map_variables (map_variables t k (shift_act k)) 0 (inst_act (map (\<lambda>i. Var (k - Suc i)) [0..<k])) =
      map_variables t k (\<lambda>i _. Var i)"
    by (rule map_variables_fuse) (auto simp: inst_act_def)
  also have "\<dots> = t" by (rule map_variables_ident) simp
  finally show ?thesis by (simp add: instantiate_fields_eq up.trav_eq_map_variables)
qed

end
