(* ===== verification/Denotation.thy ===== *)
theory Denotation
  imports Nbe Stability
begin

section \<open>Values denote terms\<close>

text \<open>
  The abstraction the second checker is measured by: every value at level \<open>L\<close> denotes a term of a
  scope with \<open>L\<close> variables (\<open>emb\<close>), a closure with \<open>k\<close> local binders denotes its body under \<open>k\<close>
  binders with the captured environment instantiated, and \<open>vok\<close> says that a value mentions no
  level beyond \<open>L\<close>. The pruned environment of a captured closure denotes what the whole
  environment would.
\<close>

subsection \<open>Denotation\<close>

primrec emb :: "val \<Rightarrow> nat \<Rightarrow> tm"
and emb_closure :: "closure \<Rightarrow> nat \<Rightarrow> nat \<Rightarrow> tm"
and emb_field :: "field_value \<Rightarrow> nat \<Rightarrow> nat \<Rightarrow> data_field"
and emb_con :: "con_value \<Rightarrow> nat \<Rightarrow> data_constructor"
and emb_neutral :: "neutral \<Rightarrow> nat \<Rightarrow> tm" where
  "emb (VData n l is cs vs) L =
     apply_terms (Data n l (map (\<lambda>(i, g). g L i) (List.enumerate 0 (map emb_closure is))) (map (\<lambda>c. emb_con c L) cs))
       (map (\<lambda>v. emb v L) vs)"
| "emb (VConstruct d k vs) L = Construct (emb d L) k (map (\<lambda>v. emb v L) vs)"
| "emb (VUniverse l) L = Universe l"
| "emb (VPi d c) L = PiT (emb d L) (emb_closure c L 1)"
| "emb (VLam d c) L = Lam (emb d L) (emb_closure c L 1)"
| "emb (VNeutral x) L = emb_neutral x L"
| "emb (VSigma d c) L = SigmaT (emb d L) (emb_closure c L 1)"
| "emb (VPair v w) L = PairT (emb v L) (emb w L)"
| "emb (VId v w x) L = IdT (emb v L) (emb w L) (emb x L)"
| "emb (VRefl v) L = Refl (emb v L)"
| "emb_closure (Closure env body) L k = inst_under k body (map (\<lambda>v. emb v L) env)"
| "emb_field (FValue c) L i = Value (emb_closure c L 0)"
| "emb_field (FDependent c) L i = Dependent (emb_closure c L i)"
| "emb_field FRecursive L i = Recursive"
| "emb_field (FRecursiveAt cs) L i = RecursiveAt (map (\<lambda>c. emb_closure c L i) cs)"
| "emb_con (ConstructorValue fs is) L =
     DataConstructor (map (\<lambda>(i, g). g L i) (List.enumerate 0 (map emb_field fs)))
       (map (\<lambda>c. emb_closure c L (length fs)) is)"
| "emb_neutral (NFunExt v w x y) L = FunExt (emb v L) (emb w L) (emb x L) (emb y L)"
| "emb_neutral (NInduct s m cs) L = Induct (emb s L) (emb m L) (map (\<lambda>v. emb v L) cs)"
| "emb_neutral (NVar k) L = Var (L - 1 - k)"
| "emb_neutral (NApp x v) L = App (emb_neutral x L) (emb v L)"
| "emb_neutral (NFst x) L = FstT (emb_neutral x L)"
| "emb_neutral (NSnd x) L = SndT (emb_neutral x L)"
| "emb_neutral (NJ m b x) L = J (emb m L) (emb b L) (emb_neutral x L)"
| "emb_neutral (NIdElim m b x) L = IdElim (emb m L) (emb b L) (emb_neutral x L)"
| "emb_neutral (NStuck v) L = emb v L"

primrec vok :: "val \<Rightarrow> nat \<Rightarrow> bool"
and vok_closure :: "closure \<Rightarrow> nat \<Rightarrow> nat \<Rightarrow> bool"
and vok_field :: "field_value \<Rightarrow> nat \<Rightarrow> nat \<Rightarrow> bool"
and vok_con :: "con_value \<Rightarrow> nat \<Rightarrow> bool"
and vok_neutral :: "neutral \<Rightarrow> nat \<Rightarrow> bool" where
  "vok (VData n l is cs vs) L \<longleftrightarrow>
     list_all (\<lambda>(i, g). g L i) (List.enumerate 0 (map vok_closure is)) \<and>
     list_all (\<lambda>g. g L) (map vok_con cs) \<and> list_all (\<lambda>g. g L) (map vok vs)"
| "vok (VConstruct d k vs) L \<longleftrightarrow> vok d L \<and> list_all (\<lambda>g. g L) (map vok vs)"
| "vok (VUniverse l) L \<longleftrightarrow> True"
| "vok (VPi d c) L \<longleftrightarrow> vok d L \<and> vok_closure c L 1"
| "vok (VLam d c) L \<longleftrightarrow> vok d L \<and> vok_closure c L 1"
| "vok (VNeutral x) L \<longleftrightarrow> vok_neutral x L"
| "vok (VSigma d c) L \<longleftrightarrow> vok d L \<and> vok_closure c L 1"
| "vok (VPair v w) L \<longleftrightarrow> vok v L \<and> vok w L"
| "vok (VId v w x) L \<longleftrightarrow> vok v L \<and> vok w L \<and> vok x L"
| "vok (VRefl v) L \<longleftrightarrow> vok v L"
| "vok_closure (Closure env body) L k \<longleftrightarrow> list_all (\<lambda>g. g L) (map vok env) \<and> scoped (length env + k) body"
| "vok_field (FValue c) L i \<longleftrightarrow> vok_closure c L 0"
| "vok_field (FDependent c) L i \<longleftrightarrow> vok_closure c L i"
| "vok_field FRecursive L i \<longleftrightarrow> True"
| "vok_field (FRecursiveAt cs) L i \<longleftrightarrow> list_all (\<lambda>g. g L i) (map vok_closure cs)"
| "vok_con (ConstructorValue fs is) L \<longleftrightarrow>
     list_all (\<lambda>(i, g). g L i) (List.enumerate 0 (map vok_field fs)) \<and>
     list_all (\<lambda>g. g L (length fs)) (map vok_closure is)"
| "vok_neutral (NFunExt v w x y) L \<longleftrightarrow> vok v L \<and> vok w L \<and> vok x L \<and> vok y L"
| "vok_neutral (NInduct s m cs) L \<longleftrightarrow> vok s L \<and> vok m L \<and> list_all (\<lambda>g. g L) (map vok cs)"
| "vok_neutral (NVar k) L \<longleftrightarrow> k < L"
| "vok_neutral (NApp x v) L \<longleftrightarrow> vok_neutral x L \<and> vok v L"
| "vok_neutral (NFst x) L \<longleftrightarrow> vok_neutral x L"
| "vok_neutral (NSnd x) L \<longleftrightarrow> vok_neutral x L"
| "vok_neutral (NJ m b x) L \<longleftrightarrow> vok m L \<and> vok b L \<and> vok_neutral x L"
| "vok_neutral (NIdElim m b x) L \<longleftrightarrow> vok m L \<and> vok b L \<and> vok_neutral x L"
| "vok_neutral (NStuck v) L \<longleftrightarrow> vok v L"

lemma map_enumerate_map: "map (\<lambda>(i, g). h g i) (List.enumerate n (map f xs)) = map (\<lambda>(i, x). h (f x) i) (List.enumerate n xs)"
  by (induction xs arbitrary: n) auto

lemma list_all_enumerate_map:
  "list_all (\<lambda>(i, g). h g i) (List.enumerate 0 (map f xs)) \<longleftrightarrow> (\<forall>i < length xs. h (f (xs ! i)) i)"
  by (auto simp: list.pred_set set_enumerate_iff)

lemma map_map_enumerate:
  "map (\<lambda>(i, x). F i x) (List.enumerate n (map (\<lambda>(i, x). G i x) (List.enumerate n xs))) =
   map (\<lambda>(i, x). F i (G i x)) (List.enumerate n xs)"
  by (induction xs arbitrary: n) auto

lemma map_enumerate_eqI:
  "(\<And>i. i < length xs \<Longrightarrow> F i (xs ! i) = G i (xs ! i)) \<Longrightarrow>
   map (\<lambda>(i, x). F i x) (List.enumerate 0 xs) = map (\<lambda>(i, x). G i x) (List.enumerate 0 xs)"
  by (rule map_enumerate_cong) (simp add: set_enumerate_iff)

lemma emb_data [simp]:
  "emb (VData n l is cs vs) L =
     apply_terms (Data n l (map (\<lambda>(i, c). emb_closure c L i) (List.enumerate 0 is)) (map (\<lambda>c. emb_con c L) cs))
       (map (\<lambda>v. emb v L) vs)"
  "emb_con (ConstructorValue fs is) L =
     DataConstructor (map (\<lambda>(i, f). emb_field f L i) (List.enumerate 0 fs)) (map (\<lambda>c. emb_closure c L (length fs)) is)"
  by (simp_all add: map_enumerate_map [where h = "\<lambda>g i. g L i"])

lemma vok_data [simp]:
  "vok (VData n l is cs vs) L \<longleftrightarrow>
     (\<forall>i < length is. vok_closure (is ! i) L i) \<and> (\<forall>c \<in> set cs. vok_con c L) \<and> (\<forall>v \<in> set vs. vok v L)"
  "vok_con (ConstructorValue fs is) L \<longleftrightarrow>
     (\<forall>i < length fs. vok_field (fs ! i) L i) \<and> (\<forall>c \<in> set is. vok_closure c L (length fs))"
  "vok (VConstruct d k vs) L \<longleftrightarrow> vok d L \<and> (\<forall>v \<in> set vs. vok v L)"
  "vok_closure (Closure env body) L b \<longleftrightarrow> (\<forall>v \<in> set env. vok v L) \<and> scoped (length env + b) body"
  "vok_field (FRecursiveAt ds) L i \<longleftrightarrow> (\<forall>c \<in> set ds. vok_closure c L i)"
  "vok_neutral (NInduct s m bs) L \<longleftrightarrow> vok s L \<and> vok m L \<and> (\<forall>v \<in> set bs. vok v L)"
  by (simp_all add: list_all_enumerate_map [where h = "\<lambda>g i. g L i"] list.pred_map comp_def)
    (simp_all add: list.pred_set)

declare emb.simps(1) [simp del] emb_con.simps [simp del] vok.simps(1,2) [simp del] vok_con.simps [simp del]
  vok_closure.simps [simp del] vok_field.simps(4) [simp del] vok_neutral.simps(2) [simp del]

text \<open>The denotation further in is the shifted denotation, and values keep their levels.\<close>

lemma emb_shift:
  fixes v :: val and c :: closure and fd :: field_value and k :: con_value and x :: neutral
  shows "vok v L \<Longrightarrow> emb v (L + m) = shift_up (emb v L) m 0"
    and "vok_closure c L b \<Longrightarrow> emb_closure c (L + m) b = shift_up (emb_closure c L b) m b"
    and "vok_field fd L i \<Longrightarrow> emb_field fd (L + m) i = map_field (\<lambda>t b. shift_up t m b) i (emb_field fd L i)"
    and "vok_con k L \<Longrightarrow> emb_con k (L + m) = map_constructor (\<lambda>t b. shift_up t m b) (emb_con k L)"
    and "vok_neutral x L \<Longrightarrow> emb_neutral x (L + m) = shift_up (emb_neutral x L) m 0"
proof (induction v and c and fd and k and x arbitrary: and b and i)
  case (Closure env body)
  then show ?case by (simp add: shift_up_inst_under comp_def cong: map_cong)
next
  case (VData n l ids cs vs)
  have "map (\<lambda>(i, c). emb_closure c (L + m) i) (List.enumerate 0 ids) =
      map (\<lambda>(i, c). shift_up (emb_closure c L i) m i) (List.enumerate 0 ids)"
    using VData by (intro map_enumerate_eqI) auto
  with VData show ?case
    by (simp add: shift_up_apply_terms up.trav_node map_map_enumerate cong: map_cong)
next
  case (ConstructorValue fs ids)
  have "map (\<lambda>(i, f). emb_field f (L + m) i) (List.enumerate 0 fs) =
      map (\<lambda>(i, f). map_field (\<lambda>t b. shift_up t m b) i (emb_field f L i)) (List.enumerate 0 fs)"
    using ConstructorValue by (intro map_enumerate_eqI) auto
  with ConstructorValue show ?case
    by (simp add: map_map_enumerate cong: map_cong)
qed (simp_all add: up.trav_node cong: map_cong)

lemma vok_mono:
  fixes v :: val and c :: closure and fd :: field_value and k :: con_value and x :: neutral
  shows "vok v L \<Longrightarrow> L \<le> M \<Longrightarrow> vok v M"
    and "vok_closure c L b \<Longrightarrow> L \<le> M \<Longrightarrow> vok_closure c M b"
    and "vok_field fd L i \<Longrightarrow> L \<le> M \<Longrightarrow> vok_field fd M i"
    and "vok_con k L \<Longrightarrow> L \<le> M \<Longrightarrow> vok_con k M"
    and "vok_neutral x L \<Longrightarrow> L \<le> M \<Longrightarrow> vok_neutral x M"
  by (induction v and c and fd and k and x arbitrary: and b and i) auto

lemma emb_scoped:
  fixes v :: val and c :: closure and fd :: field_value and k :: con_value and x :: neutral
  shows "vok v L \<Longrightarrow> scoped L (emb v L)"
    and "vok_closure c L b \<Longrightarrow> scoped (L + b) (emb_closure c L b)"
    and "vok_field fd L i \<Longrightarrow> (t, b) \<in> set (field_children i (emb_field fd L i)) \<Longrightarrow> scoped (L + b) t"
    and "vok_con k L \<Longrightarrow> (t, b) \<in> set (con_children (emb_con k L)) \<Longrightarrow> scoped (L + b) t"
    and "vok_neutral x L \<Longrightarrow> scoped L (emb_neutral x L)"
proof (induction v and c and fd and k and x arbitrary: and b and t b i and t b)
  case (Closure env body)
  then show ?case by (auto intro!: scoped_inst_under)
next
  case (FValue c)
  from FValue.IH [of 0] FValue.prems show ?case by auto
next
  case (ConstructorValue fs ids)
  from ConstructorValue.prems(2) consider (index) c where "c \<in> set ids" "t = emb_closure c L (length fs)" "b = length fs"
    | (field) i where "i < length fs" "(t, b) \<in> set (field_children i (emb_field (fs ! i) L i))"
    by (auto simp: set_enumerate_iff nth_enumerate_eq)
  then show ?case
    by cases (use ConstructorValue.IH(2) ConstructorValue.IH(1) [OF nth_mem] ConstructorValue.prems(1) in auto)
next
  case (VData n l ids cs vs)
  have "scoped (L + b) t" if "(t, b) \<in> set (children (Data n l (map (\<lambda>(i, c). emb_closure c L i) (List.enumerate 0 ids))
      (map (\<lambda>c. emb_con c L) cs)))" for t b
  proof -
    from that consider (index) "b < length ids" "t = emb_closure (ids ! b) L b"
      | (con) k where "k \<in> set cs" "(t, b) \<in> set (con_children (emb_con k L))"
      by (auto simp: set_enumerate_iff nth_enumerate_eq simp del: con_children.simps)
    then show ?thesis using VData by cases auto
  qed
  with VData show ?case by (auto simp: scoped_apply_terms scoped_node simp del: children.simps)
qed (auto simp: scoped_node, (metis Suc_eq_plus1 One_nat_def)+)

subsection \<open>Captured closures denote what the whole environment would\<close>

lemma vars_ok_all:
  "(\<And>x. vars_ok (Q x) t d) \<Longrightarrow> vars_ok (\<lambda>i k. \<forall>x. Q x i k) t d"
proof (induction t arbitrary: d rule: tm_children_induct)
  case (node t)
  show ?case
  proof (cases "is_var t")
    case True
    then show ?thesis using node.prems by (cases t) auto
  next
    case False
    have "vars_ok (\<lambda>i k. \<forall>x. Q x i k) c (d + b)" if "(c, b) \<in> set (children t)" for c b
      by (rule node.IH [OF that]) (use node.prems that False in \<open>auto simp: vars_ok_node\<close>)
    then show ?thesis using False by (auto simp: vars_ok_node)
  qed
qed

lemma vars_ok_True: "vars_ok (\<lambda>i k. True) t d"
proof (induction t arbitrary: d rule: tm_children_induct)
  case (node t)
  then show ?case by (cases "is_var t"; cases t) (auto simp: vars_ok_node simp del: children.simps)
qed

lemma vars_ok_conj: "vars_ok P t d \<Longrightarrow> vars_ok Q t d \<Longrightarrow> vars_ok (\<lambda>i k. P i k \<and> Q i k) t d"
proof -
  assume "vars_ok P t d" "vars_ok Q t d"
  then have "vars_ok (\<lambda>i k. if b then P i k else Q i k) t d" for b by (cases b) simp_all
  from vars_ok_all [of "\<lambda>b i k. if b then P i k else Q i k", OF this] show ?thesis
    by (rule vars_ok_mono) (metis (full_types))
qed

text \<open>Every environment slot the body mentions is among the captured positions.\<close>

lemma captured_positions_mentioned:
  assumes "scoped (length env + k) body"
  shows "vars_ok (\<lambda>i d. i < d \<or> i - d < length env \<and> length env - 1 - (i - d) \<in> set (captured_positions body env k)) body k"
proof -
  have "vars_ok (\<lambda>i d. p \<in> set (captured_positions body env k) \<or>
      \<not> (d \<le> i \<and> i - d + 1 \<le> length env \<and> length env - (i - d + 1) = p)) body k" for p
  proof (cases "p \<in> set (captured_positions body env k) \<or> length env \<le> p")
    case True
    then show ?thesis by (intro vars_ok_mono [OF vars_ok_True [of body k]]) auto
  next
    case False
    then have "\<not> contains_free_by body k (\<lambda>index. index + 1 \<le> length env \<and> length env - (index + 1) = p)"
      by (auto simp: captured_positions_def)
    then show ?thesis unfolding contains_free_by_vars_ok by (auto elim!: vars_ok_mono)
  qed
  note mentioned = vars_ok_all [OF this]
  have "vars_ok (\<lambda>i d. i < length env + d) body k"
    by (rule vars_ok_mono [OF assms [unfolded scoped_vars_ok]]) simp
  from vars_ok_conj [OF this mentioned] show ?thesis
    by (rule vars_ok_mono) (auto simp: less_diff_conv2 not_less Suc_le_eq)
qed


lemma captured_positions_sorted: "sorted_wrt (<) (captured_positions body env k)"
  by (simp add: captured_positions_def sorted_wrt_filter)

lemma captured_positions_bound: "p \<in> set (captured_positions body env k) \<Longrightarrow> p < length env"
  by (simp add: captured_positions_def)

lemma captured_positions_full:
  assumes "length (captured_positions body env k) = length env"
  shows "captured_positions body env k = [0..<length env]"
  using assms length_filter_less [of _ "[0..<length env]"] unfolding captured_positions_def
  by (metis (no_types, lifting) filter_True length_upt minus_nat.diff_0 nat_less_le)

text \<open>In a strictly increasing list, the count of smaller entries is the position of an entry.\<close>

lemma position_of_nth: "sorted_wrt (<) ps \<Longrightarrow> p \<in> set ps \<Longrightarrow> position_of ps p < length ps \<and> ps ! position_of ps p = p"
proof (induction ps)
  case (Cons q ps)
  then show ?case by (cases "q < p") (auto simp: position_of_def)
qed simp

lemma inst_act_arg: "q < length args \<Longrightarrow> inst_act args (d + q) d = shift_up (args ! (length args - 1 - q)) d 0"
  by (simp add: inst_act_def)

lemma capture_emb:
  assumes "scoped (length env + k) body"
  shows "emb_closure (capture body env k) L k = inst_under k body (map (\<lambda>v. emb v L) env)"
proof (cases "length (captured_positions body env k) = length env")
  case True
  then show ?thesis
    using captured_positions_full [OF True]
    by (simp add: capture_def Let_def map_nth comp_def flip: map_map [of "\<lambda>v. emb v L" "\<lambda>p. env ! p", unfolded comp_def])
next
  case False
  let ?ps = "captured_positions body env k"
  let ?ren = "\<lambda>index level. if level \<le> index \<and> index - level + 1 \<le> length env
    then Var (level + length ?ps - 1 - position_of ?ps (length env - (index - level + 1))) else Var index"
  let ?args = "map (\<lambda>v. emb v L) env" and ?kept = "map (\<lambda>p. emb (env ! p) L) ?ps"
  have "map_variables (map_variables body k ?ren) k (inst_act ?kept) =
      map_variables body k (\<lambda>i d. map_variables (?ren i d) d (inst_act ?kept))"
    by (rule map_variables_fuse) simp
  also have "\<dots> = map_variables body k (inst_act ?args)"
  proof (rule map_variables_agree_on [OF captured_positions_mentioned [OF assms]])
    fix i j
    assume "i < k + j \<or> i - (k + j) < length env \<and> length env - 1 - (i - (k + j)) \<in> set ?ps"
    then consider "i < k + j"
      | p where "k + j \<le> i" "i - (k + j) < length env" "p = length env - 1 - (i - (k + j))" "p \<in> set ?ps"
      by fastforce
    then show "map_variables (?ren i (k + j)) (k + j) (inst_act ?kept) = inst_act ?args i (k + j)"
    proof cases
      case 2
      let ?r = "position_of ?ps p"
      have r: "?r < length ?ps" "?ps ! ?r = p"
        using position_of_nth [OF captured_positions_sorted 2(4)] by simp_all
      have p: "length env - (i - (k + j) + 1) = p" using 2 by simp
      have "?ren i (k + j) = Var (k + j + (length ?ps - 1 - ?r))" unfolding p using 2 r by simp
      moreover have "inst_act ?kept (k + j + (length ?ps - 1 - ?r)) (k + j) = shift_up (emb (env ! p) L) (k + j) 0"
        using r inst_act_arg [of "length ?ps - 1 - ?r" ?kept "k + j"] by simp
      moreover have "inst_act ?args i (k + j) = shift_up (emb (env ! p) L) (k + j) 0"
        using 2 captured_positions_bound [OF 2(4)] by (simp add: inst_act_def)
      ultimately show ?thesis by simp
    qed (simp add: inst_act_def)
  qed
  finally show ?thesis
    unfolding capture_def Let_def using False by (simp add: inst_under_def comp_def)
qed

lemma capture_ok:
  assumes body: "scoped (length env + k) body" and env: "\<And>v. v \<in> set env \<Longrightarrow> vok v L"
  shows "vok_closure (capture body env k) L k"
proof -
  let ?ps = "captured_positions body env k"
  have "scoped (length ?ps + k) (map_variables body k (\<lambda>index level.
      if level \<le> index \<and> index - level + 1 \<le> length env
      then Var (level + length ?ps - 1 - position_of ?ps (length env - (index - level + 1))) else Var index))"
    unfolding scoped_vars_ok
  proof (rule vars_ok_map_variables [OF captured_positions_mentioned [OF body]], goal_cases)
    case (1 i j)
    then show ?case
      using position_of_nth [OF captured_positions_sorted] by (fastforce simp: Suc_le_eq)
  qed
  then show ?thesis
    unfolding capture_def Let_def using assms captured_positions_bound by auto
qed

end
