(* ===== verification/NbeSpec.thy ===== *)
theory NbeSpec
  imports Denotation
begin

section \<open>Evaluation, readback and conversion on values are sound\<close>

text \<open>
  Evaluating a term gives a value that denotes a convertible term, reading a value back gives a
  term convertible to its denotation, and values accepted as equal denote convertible terms. Each
  part is a locale, the contract between the functions and their recursive calls, interpreted on
  the model at every bound.
\<close>

subsection \<open>Evaluation\<close>

abbreviation embs :: "val list \<Rightarrow> nat \<Rightarrow> tm list" where
  "embs vs L \<equiv> map (\<lambda>v. emb v L) vs"

abbreviation voks :: "val list \<Rightarrow> nat \<Rightarrow> bool" where
  "voks vs L \<equiv> \<forall>v \<in> set vs. vok v L"

text \<open>\<open>denotes \<delta> L v t\<close>: \<open>v\<close> is a value of level \<open>L\<close> whose denotation is convertible to \<open>t\<close>.\<close>

definition denotes :: "defs \<Rightarrow> nat \<Rightarrow> val \<Rightarrow> tm \<Rightarrow> bool" where
  "denotes \<delta> L v t \<longleftrightarrow> vok v L \<and> conv \<delta> t (emb v L)"

lemma denotes_self: "vok v L \<Longrightarrow> denotes \<delta> L v (emb v L)"
  by (simp add: denotes_def conv_refl)

lemma denotes_conv: "denotes \<delta> L v t \<Longrightarrow> conv \<delta> u t \<Longrightarrow> denotes \<delta> L v u"
  by (auto simp: denotes_def intro: conv_trans)

lemma denotesD: "denotes \<delta> L v t \<Longrightarrow> vok v L" "denotes \<delta> L v t \<Longrightarrow> conv \<delta> t (emb v L)"
  by (auto simp: denotes_def)

lemma instantiate_single [simp]: "instantiate_fields t [x] = subst t 0 x"
  using instantiate_fields_snoc [of t "[]" x] by simp

lemma length_fresh_values [simp]: "length (fresh_values L k) = k"
  by (simp add: fresh_values_def)

lemma take_fresh_values: "i \<le> k \<Longrightarrow> take i (fresh_values L k) = fresh_values L i"
  by (simp add: fresh_values_def take_map)

lemma fresh_values_ok: "voks (fresh_values L k) (L + k)"
  by (auto simp: fresh_values_def fresh_def)

lemma embs_fresh: "embs (fresh_values L k) (L + k) = map (\<lambda>i. Var (k - Suc i)) [0..<k]"
  by (simp add: fresh_values_def fresh_def)

locale sound_eval =
  fixes ev :: ev
  assumes ev_sound: "ev t env = Ok v \<Longrightarrow> voks env L \<Longrightarrow> scoped (length env) t \<Longrightarrow>
    denotes \<delta> L v (instantiate_fields t (embs env L))"
begin

lemma apply_fields_sound:
  assumes "apply_fields ev c us = Ok v" and "vok_closure c L (length us)" and "voks us L"
  shows "denotes \<delta> L v (instantiate_fields (emb_closure c L (length us)) (embs us L))"
proof (cases c)
  case (Closure env body)
  have "ev body (env @ us) = Ok v" using assms(1) by (simp add: apply_fields_def Closure)
  from ev_sound [OF this] assms(2,3) show ?thesis
    by (simp add: Closure instantiate_inst_under ball_Un)
qed

lemma closure_apply_sound:
  assumes "closure_apply ev c u = Ok v" and "vok_closure c L 1" and "vok u L"
  shows "denotes \<delta> L v (subst (emb_closure c L 1) 0 (emb u L))"
  using apply_fields_sound [of c "[u]" v L \<delta>] assms by (simp add: apply_fields_def closure_apply_def)

text \<open>Opening a closure with fresh variables gives its denotation.\<close>

lemma open_sound:
  assumes "apply_fields ev c (fresh_values L k) = Ok v" and "vok_closure c L k"
  shows "denotes \<delta> (L + k) v (emb_closure c L k)"
  using apply_fields_sound [OF assms(1), of "L + k" \<delta>] assms(2) fresh_values_ok
  by (simp add: vok_mono(2) embs_fresh emb_shift(2) instantiate_variables)

lemma open_one_sound:
  assumes "closure_apply ev c (VNeutral (NVar L)) = Ok v" and "vok_closure c L 1"
  shows "denotes \<delta> (Suc L) v (emb_closure c L 1)"
  using open_sound [of c L 1 v \<delta>] assms
  by (simp add: fresh_values_def fresh_def apply_fields_def closure_apply_def)

lemma apply_value_sound:
  assumes "apply_value ev f x = Ok v" and "vok f L" and "vok x L"
  shows "denotes \<delta> L v (App (emb f L) (emb x L))"
proof (cases f)
  case (VLam d b)
  with assms have "denotes \<delta> L v (subst (emb_closure b L 1) 0 (emb x L))"
    by (intro closure_apply_sound) (simp_all add: apply_value_def)
  then show ?thesis by (rule denotes_conv) (simp add: VLam conv_beta)
next
  case (VData n l ids cs vs)
  with assms show ?thesis
    by (auto simp: apply_value_def denotes_def apply_terms_def conv_refl split: if_splits)
qed (use assms in \<open>auto simp: apply_value_def denotes_def conv_refl\<close>)

lemma apply_value_conv:
  assumes "apply_value ev f x = Ok v" and "denotes \<delta> L f t" and "denotes \<delta> L x u"
  shows "denotes \<delta> L v (App t u)"
  using apply_value_sound [OF assms(1)] assms(2,3) by (auto simp: denotes_def intro: conv_trans conv_congs)

lemma apply_values_conv:
  "apply_values ev f xs = Ok v \<Longrightarrow> denotes \<delta> L f t \<Longrightarrow> list_all2 (denotes \<delta> L) xs us \<Longrightarrow>
   denotes \<delta> L v (apply_terms t us)"
  unfolding apply_values_def apply_terms_def
proof (induction xs arbitrary: f t us)
  case (Cons x xs)
  from Cons.prems(1) obtain g where g: "apply_value ev f x = Ok g" "run_for g xs (apply_value ev) = Ok v" by auto
  from Cons.prems(3) obtain u us' where us: "us = u # us'" "denotes \<delta> L x u" "list_all2 (denotes \<delta> L) xs us'"
    by (auto simp: list_all2_Cons1)
  from Cons.IH [OF g(2) apply_value_conv [OF g(1) Cons.prems(2) us(2)] us(3)] show ?case by (simp add: us(1))
qed auto

lemma voks_denotes: "voks vs L \<Longrightarrow> list_all2 (denotes \<delta> L) vs (embs vs L)"
  by (simp add: list.rel_map list_all2_same denotes_self)

end

lemma apply_fst_sound: "denotes \<delta> L p t \<Longrightarrow> denotes \<delta> L (apply_fst p) (FstT t)"
proof -
  assume p: "denotes \<delta> L p t"
  then have "conv \<delta> (FstT t) (FstT (emb p L))" by (simp add: denotes_def conv_congs)
  moreover have "denotes \<delta> L (apply_fst p) (FstT (emb p L))"
    using p by (cases p) (auto simp: denotes_def apply_fst_def conv_refl conv_fst)
  ultimately show ?thesis by (blast intro: denotes_conv)
qed

lemma apply_snd_sound: "denotes \<delta> L p t \<Longrightarrow> denotes \<delta> L (apply_snd p) (SndT t)"
proof -
  assume p: "denotes \<delta> L p t"
  then have "conv \<delta> (SndT t) (SndT (emb p L))" by (simp add: denotes_def conv_congs)
  moreover have "denotes \<delta> L (apply_snd p) (SndT (emb p L))"
    using p by (cases p) (auto simp: denotes_def apply_snd_def conv_refl conv_snd)
  ultimately show ?thesis by (blast intro: denotes_conv)
qed

lemma apply_identity_elim_sound:
  assumes m: "denotes \<delta> L m t" and b: "denotes \<delta> L b u" and s: "denotes \<delta> L s w"
  shows "denotes \<delta> L (apply_identity_elim m b s dep) (if dep then IdElim t u w else J t u w)"
proof -
  let ?E = "\<lambda>x y z. if dep then IdElim x y z else J x y z"
  have "conv \<delta> (?E t u w) (?E (emb m L) (emb b L) (emb s L))"
    using assms by (auto simp: denotes_def intro: conv_congs)
  moreover have "denotes \<delta> L (apply_identity_elim m b s dep) (?E (emb m L) (emb b L) (emb s L))"
    using assms by (cases s) (auto simp: denotes_def apply_identity_elim_def Let_def conv_refl conv_J conv_IdElim)
  ultimately show ?thesis by (rule denotes_conv [rotated])
qed

locale sound_evaluation = sound_eval ev for ev +
  fixes ind :: ind
  assumes ind_sound: "ind s m cs = Ok v \<Longrightarrow> vok s L \<Longrightarrow> vok m L \<Longrightarrow> voks cs L \<Longrightarrow>
    denotes \<delta> L v (Induct (emb s L) (emb m L) (embs cs L))"
begin

lemma branch_sound:
  assumes "list_all2 (\<lambda>(f, x) (g, u). is_recursive_value f = is_recursive g \<and> u = emb x L \<and> vok x L) ps qs"
    and "run_for r ps (\<lambda>result (field, argument).
      run_bind (apply_value ev result argument) (\<lambda>result.
        if is_recursive_value field
        then run_bind (ind argument m cs) (\<lambda>hyp. apply_value ev result hyp)
        else Ok result)) = Ok v"
    and "denotes \<delta> L r t" and "vok m L" and "voks cs L"
  shows "denotes \<delta> L v (induct_apply (emb m L) (embs cs L) t qs)"
  using assms
proof (induction arbitrary: r t rule: list_all2_induct)
  case (Cons p ps q qs)
  obtain f x g u where p: "p = (f, x)" and q: "q = (g, u)" by fastforce
  have x: "is_recursive_value f = is_recursive g" "u = emb x L" "denotes \<delta> L x u"
    using Cons.hyps by (auto simp: p q denotes_self)
  obtain r1 where r1: "apply_value ev r x = Ok r1" using Cons.prems(1) by (auto simp: p)
  note d1 = apply_value_conv [OF r1 Cons.prems(2) x(3)]
  show ?case
  proof (cases "is_recursive g")
    case True
    with Cons.prems(1) r1 x obtain h r2 where h: "ind x m cs = Ok h" and r2: "apply_value ev r1 h = Ok r2"
      and rest: "run_for r2 ps (\<lambda>result (field, argument).
        run_bind (apply_value ev result argument) (\<lambda>result.
          if is_recursive_value field
          then run_bind (ind argument m cs) (\<lambda>hyp. apply_value ev result hyp)
          else Ok result)) = Ok v"
      by (auto simp: p)
    have "denotes \<delta> L h (Induct u (emb m L) (embs cs L))"
      using ind_sound [OF h] x Cons.prems(3,4) by (simp add: denotes_def)
    from Cons.IH [OF rest apply_value_conv [OF r2 d1 this] Cons.prems(3,4)] True show ?thesis
      by (simp add: induct_apply_def q Let_def)
  next
    case False
    with Cons.prems(1) r1 x Cons.IH [OF _ d1 Cons.prems(3,4)] show ?thesis
      by (simp add: induct_apply_def p q Let_def)
  qed
qed (simp add: induct_apply_def)

lemma is_recursive_emb [simp]: "is_recursive (emb_field f L i) = is_recursive_value f"
  by (cases f) (simp_all add: is_recursive_def is_recursive_value_def)

lemma con_fields_emb: "con_fields (emb_con k L) = map (\<lambda>(i, f). emb_field f L i) (List.enumerate 0 (cv_fields k))"
  by (cases k) simp

lemma apply_induct_step_sound:
  assumes ok: "apply_induct_step ev ind s m cs = Ok v" and vok: "vok s L" "vok m L" "voks cs L"
  shows "denotes \<delta> L v (Induct (emb s L) (emb m L) (embs cs L))"
proof (cases "induct_redex s cs")
  case None
  with ok vok show ?thesis by (auto simp: apply_induct_step_def denotes_def conv_refl)
next
  case (Some redex)
  obtain n l ids ks vs k args where s: "s = VConstruct (VData n l ids ks vs) k args"
    and k: "k < length ks" "k < length cs" "length (cv_fields (ks ! k)) = length args"
    and redex: "redex = (cs ! k, zip (cv_fields (ks ! k)) args)"
    using Some by (auto simp: induct_redex_def split: val.splits if_splits)
  let ?decl = "Data n l (map (\<lambda>(i, c). emb_closure c L i) (List.enumerate 0 ids)) (map (\<lambda>c. emb_con c L) ks)"
  let ?qs = "zip (con_fields (emb_con (ks ! k) L)) (embs args L)"
  have "list_all2 (\<lambda>(f, x) (g, u). is_recursive_value f = is_recursive g \<and> u = emb x L \<and> vok x L)
      (zip (cv_fields (ks ! k)) args) ?qs"
    using vok(1) k(3) by (auto simp: s list_all2_conv_all_nth con_fields_emb nth_enumerate_eq)
  from branch_sound [OF this _ denotes_self vok(2,3)] ok Some vok k
  have v: "denotes \<delta> L v (induct_apply (emb m L) (embs cs L) (emb (cs ! k) L) ?qs)"
    by (auto simp: apply_induct_step_def redex)
  have "iota_contract ?decl k (embs args L) (emb m L) (embs cs L) =
      Some (induct_apply (emb m L) (embs cs L) (emb (cs ! k) L) ?qs)"
    using k by (simp add: iota_contract_def con_fields_emb)
  from denotes_conv [OF v conv_iota [OF this]] show ?thesis by (simp add: s)
qed

lemma run_map_sound:
  assumes "run_map (\<lambda>t. ev t env) ts = Ok vs" and "voks env L" and "\<And>t. t \<in> set ts \<Longrightarrow> scoped (length env) t"
  shows "list_all2 (denotes \<delta> L) vs (map (\<lambda>t. instantiate_fields t (embs env L)) ts)"
  using assms ev_sound [of _ env _ L \<delta>]
  by (auto simp: run_map_eq_Ok list_all2_conv_all_nth)

end

lemma list_denotes: "list_all2 (denotes \<delta> L) vs ts \<longleftrightarrow> voks vs L \<and> list_all2 (conv \<delta>) ts (embs vs L)"
  by (auto simp: list_all2_conv_all_nth denotes_def all_set_conv_all_nth)

lemma vok_field_eval:
  assumes "voks env L" and "\<And>t b. (t, b) \<in> set (field_children i f) \<Longrightarrow> scoped (length env + b) t"
  shows "vok_field (eval_field env (i, f)) L i \<and>
    emb_field (eval_field env (i, f)) L i = map_field (\<lambda>t b. inst_under b t (embs env L)) i f"
  using assms capture_ok [where env = env and L = L] capture_emb [where env = env and L = L]
  by (cases f) (auto simp: eval_field_def)

lemma cv_eval [simp]:
  "cv_fields (eval_constructor env k) = map (eval_field env) (List.enumerate 0 (con_fields k))"
  "cv_indices (eval_constructor env k) = map (\<lambda>ty. capture ty env (length (con_fields k))) (con_indices k)"
  by (simp_all add: eval_constructor_def)

lemma con_field_child:
  "i < length fs \<Longrightarrow> (t, b) \<in> set (field_children i (fs ! i)) \<Longrightarrow> (t, b) \<in> set (con_children (DataConstructor fs ts))"
  by (force simp: set_enumerate_iff)

lemma vok_con_eval:
  assumes "voks env L" and "\<And>t b. (t, b) \<in> set (con_children k) \<Longrightarrow> scoped (length env + b) t"
  shows "vok_con (eval_constructor env k) L \<and>
    emb_con (eval_constructor env k) L = map_constructor (\<lambda>t b. inst_under b t (embs env L)) k"
proof (cases k)
  case (DataConstructor fs ts)
  have field: "vok_field (eval_field env (i, fs ! i)) L i \<and> emb_field (eval_field env (i, fs ! i)) L i =
      map_field (\<lambda>t b. inst_under b t (embs env L)) i (fs ! i)" if "i < length fs" for i
    using assms that con_field_child [OF that] by (intro vok_field_eval) (auto simp: DataConstructor simp del: con_children.simps)
  have index: "scoped (length env + length fs) t" if "t \<in> set ts" for t
    using assms(2) that DataConstructor by auto
  have "map (\<lambda>(i, f). emb_field f L i) (List.enumerate 0 (map (eval_field env) (List.enumerate 0 fs))) =
      map (\<lambda>(i, f). map_field (\<lambda>t b. inst_under b t (embs env L)) i f) (List.enumerate 0 fs)"
    using field by (intro nth_equalityI) (simp_all add: nth_enumerate_eq)
  then show ?thesis
    using field index assms(1)
    by (auto simp: eval_constructor_def DataConstructor nth_enumerate_eq capture_ok capture_emb)
qed

context sound_evaluation
begin

lemma eval_data_sound:
  assumes env: "voks env L" and scoped: "scoped (length env) (Data n l ts ks)"
  shows "denotes \<delta> L (VData n l (map (\<lambda>(index, ty). capture ty env index) (List.enumerate 0 ts))
      (map (eval_constructor env) ks) []) (instantiate_fields (Data n l ts ks) (embs env L))"
proof -
  have index: "scoped (length env + i) (ts ! i)" if "i < length ts" for i
    using scoped that by (force simp: scoped_node set_enumerate_iff simp del: con_children.simps)
  have con: "vok_con (eval_constructor env k) L \<and>
      emb_con (eval_constructor env k) L = map_constructor (\<lambda>t b. inst_under b t (embs env L)) k" if "k \<in> set ks" for k
    by (rule vok_con_eval [OF env])
      (use scoped that in \<open>force simp: scoped_node simp del: con_children.simps\<close>)
  have "map (\<lambda>(i, c). emb_closure c L i) (List.enumerate 0 (map (\<lambda>(i, ty). capture ty env i) (List.enumerate 0 ts))) =
      map (\<lambda>(i, ty). inst_under i ty (embs env L)) (List.enumerate 0 ts)"
    unfolding map_map_enumerate by (rule map_enumerate_eqI) (use index in \<open>simp add: capture_emb\<close>)
  then have "emb (VData n l (map (\<lambda>(index, ty). capture ty env index) (List.enumerate 0 ts))
      (map (eval_constructor env) ks) []) L = instantiate_fields (Data n l ts ks) (embs env L)"
    using con unfolding inst_under_0 [symmetric]
    by (simp add: inst_under_node apply_terms_def del: inst_under_0)
  then show ?thesis
    using index con env by (simp add: denotes_def conv_refl nth_enumerate_eq capture_ok)
qed

lemma eval_step_sound:
  assumes ok: "eval_step ev ind t env = Ok v" and env: "voks env L" and scoped: "scoped (length env) t"
  shows "denotes \<delta> L v (instantiate_fields t (embs env L))"
proof -
  let ?s = "\<lambda>t. instantiate_fields t (embs env L)" and ?u = "\<lambda>t. inst_under (Suc 0) t (embs env L)"
  note inst = inst_under_node [of _ 0 "embs env L", unfolded inst_under_0]
  note sound = ev_sound [OF _ env, of _ _ \<delta>]
  have cap: "vok_closure (capture b env (Suc 0)) L (Suc 0)"
    "emb_closure (capture b env (Suc 0)) L (Suc 0) = ?u b" if "scoped (Suc (length env)) b" for b
    using capture_ok [of env "Suc 0" b L] capture_emb [of env "Suc 0" b L] env that by simp_all
  show ?thesis
  proof (cases t)
    case (Data n l ts ks)
    with ok eval_data_sound [OF env scoped [unfolded Data]] show ?thesis by (simp add: eval_step_def)
  next
    case (Var i)
    with ok env scoped show ?thesis
      by (auto simp: eval_step_def inst_under_Var [of 0, simplified] intro!: denotes_self)
  next
    case (LetT a b)
    with ok obtain w where w: "ev a env = Ok w" and v: "ev b (env @ [w]) = Ok v" by (auto simp: eval_step_def)
    from scoped LetT have sc: "scoped (length env) a" "scoped (Suc (length env)) b" by (simp_all add: scoped_node)
    have dw: "denotes \<delta> L w (?s a)" by (rule sound [OF w sc(1)])
    have "denotes \<delta> L v (instantiate_fields b (embs env L @ [emb w L]))"
      using ev_sound [OF v, of L \<delta>] env dw sc by (simp add: denotes_def)
    moreover have "conv \<delta> (?s t) (subst (?u b) 0 (?s a))" by (simp add: LetT inst conv_zeta)
    moreover have "conv \<delta> (subst (?u b) 0 (?s a)) (subst (?u b) 0 (emb w L))"
      by (intro conv_subst conv_refl denotesD(2) [OF dw])
    moreover have "subst (?u b) 0 (emb w L) = instantiate_fields b (embs env L @ [emb w L])"
      using instantiate_inst_under [of "[emb w L]" 1 b "embs env L"] by simp
    ultimately show ?thesis by (metis denotes_conv)
  next
    case (Construct d k as)
    with ok obtain d' vs where d': "ev d env = Ok d'" and vs: "run_map (\<lambda>t. ev t env) as = Ok vs"
      and v: "v = VConstruct d' k vs" by (auto simp: eval_step_def)
    from scoped Construct have sc: "scoped (length env) d" "\<And>t. t \<in> set as \<Longrightarrow> scoped (length env) t"
      by (auto simp: scoped_node)
    from sound [OF d' sc(1)] run_map_sound [OF vs env sc(2), of \<delta>] show ?thesis
      by (simp add: v Construct inst denotes_def list_denotes conv_construct)
  next
    case (Induct s m bs)
    with ok obtain s' m' vs where s': "ev s env = Ok s'" and m': "ev m env = Ok m'"
      and vs: "run_map (\<lambda>t. ev t env) bs = Ok vs" and v: "ind s' m' vs = Ok v" by (auto simp: eval_step_def)
    from scoped Induct have sc: "scoped (length env) s" "scoped (length env) m" "\<And>t. t \<in> set bs \<Longrightarrow> scoped (length env) t"
      by (auto simp: scoped_node)
    note ds = sound [OF s' sc(1)] and dm = sound [OF m' sc(2)] and dv = run_map_sound [OF vs env sc(3), of \<delta>]
    have "denotes \<delta> L v (Induct (emb s' L) (emb m' L) (embs vs L))"
      using ind_sound [OF v] ds dm dv by (simp add: denotes_def list_denotes)
    moreover have "conv \<delta> (?s t) (Induct (emb s' L) (emb m' L) (embs vs L))"
      using ds dm dv by (simp add: Induct inst denotes_def list_denotes conv_induct)
    ultimately show ?thesis by (rule denotes_conv)
  next
    case (App f x)
    with ok obtain f' x' where f': "ev f env = Ok f'" "ev x env = Ok x'" and v: "apply_value ev f' x' = Ok v"
      by (auto simp: eval_step_def)
    from scoped App have sc: "scoped (length env) f" "scoped (length env) x" by (simp_all add: scoped_node)
    from apply_value_conv [OF v sound [OF f'(1) sc(1)] sound [OF f'(2) sc(2)]] show ?thesis
      by (simp add: App inst)
  next
    case (FstT p)
    with ok scoped show ?thesis by (auto simp: eval_step_def inst scoped_node intro!: apply_fst_sound sound)
  next
    case (SndT p)
    with ok scoped show ?thesis by (auto simp: eval_step_def inst scoped_node intro!: apply_snd_sound sound)
  next
    case (J m b s)
    with ok obtain m' b' s' where e: "ev m env = Ok m'" "ev b env = Ok b'" "ev s env = Ok s'"
      and v: "v = apply_identity_elim m' b' s' False" by (auto simp: eval_step_def apply_j_def)
    have sc: "scoped (length env) m" "scoped (length env) b" "scoped (length env) s"
      using scoped J by (simp_all add: scoped_node)
    from apply_identity_elim_sound [OF sound [OF e(1) sc(1)] sound [OF e(2) sc(2)] sound [OF e(3) sc(3)], of False]
    show ?thesis by (simp add: J v inst)
  next
    case (IdElim m b s)
    with ok obtain m' b' s' where e: "ev m env = Ok m'" "ev b env = Ok b'" "ev s env = Ok s'"
      and v: "v = apply_identity_elim m' b' s' True" by (auto simp: eval_step_def)
    have sc: "scoped (length env) m" "scoped (length env) b" "scoped (length env) s"
      using scoped IdElim by (simp_all add: scoped_node)
    from apply_identity_elim_sound [OF sound [OF e(1) sc(1)] sound [OF e(2) sc(2)] sound [OF e(3) sc(3)], of True]
    show ?thesis by (simp add: IdElim v inst)
  next
    case (Universe l)
    with ok show ?thesis by (auto simp: eval_step_def inst denotes_def conv_refl)
  qed (use ok scoped in \<open>auto simp: eval_step_def scoped_node inst denotes_def cap conv_refl
      intro!: conv_congs dest!: sound\<close>)
qed

end

interpretation evals: sound_evaluation "nbe_eval n" "apply_induct n" for n
proof (induction n)
  case (Suc n)
  show ?case
    using sound_evaluation.eval_step_sound [OF Suc] sound_evaluation.apply_induct_step_sound [OF Suc]
    by unfold_locales simp_all
qed (unfold_locales, simp_all)

subsection \<open>Readback\<close>

text \<open>\<open>reads \<delta> L t u\<close>: \<open>t\<close> is a term of \<open>L\<close> variables convertible to \<open>u\<close>.\<close>

definition reads :: "defs \<Rightarrow> nat \<Rightarrow> tm \<Rightarrow> tm \<Rightarrow> bool" where
  "reads \<delta> L t u \<longleftrightarrow> scoped L t \<and> conv \<delta> u t"

lemma list_reads: "list_all2 (reads \<delta> L) ts us \<longleftrightarrow> (\<forall>t \<in> set ts. scoped L t) \<and> list_all2 (conv \<delta>) us ts"
  by (auto simp: list_all2_conv_all_nth reads_def all_set_conv_all_nth)

lemma conv_apply_terms_args:
  "conv \<delta> h h' \<Longrightarrow> list_all2 (conv \<delta>) vs ws \<Longrightarrow> conv \<delta> (apply_terms h vs) (apply_terms h' ws)"
  unfolding apply_terms_def
  by (induction vs arbitrary: h h' ws) (auto simp: list_all2_Cons1 conv_congs(1))

locale sound_quote = sound_eval ev for ev +
  fixes qt :: qt and qn :: qn
  assumes qt_sound: "qt v L = Ok t \<Longrightarrow> vok v L \<Longrightarrow> reads \<delta> L t (emb v L)"
    and qn_sound: "qn x L = Ok t \<Longrightarrow> vok_neutral x L \<Longrightarrow> reads \<delta> L t (emb_neutral x L)"
begin

lemma quote_closure_sound:
  assumes "quote_closure ev qt c (fresh_values L k) (L + k) = Ok t" and "vok_closure c L k"
  shows "reads \<delta> (L + k) t (emb_closure c L k)"
proof -
  obtain v where v: "apply_fields ev c (fresh_values L k) = Ok v" and t: "qt v (L + k) = Ok t"
    using assms(1) by (auto simp: quote_closure_def)
  from open_sound [OF v assms(2), of \<delta>] qt_sound [OF t, of \<delta>] show ?thesis
    by (auto simp: denotes_def reads_def intro: conv_trans)
qed

lemma quote_values_sound:
  "run_map (\<lambda>v. qt v L) vs = Ok ts \<Longrightarrow> voks vs L \<Longrightarrow> list_all2 (reads \<delta> L) ts (embs vs L)"
  using qt_sound by (auto simp: run_map_eq_Ok list_all2_conv_all_nth)

lemma quote_field_sound:
  assumes ok: "quote_field ev qt L (fresh_values L n) (i, f) = Ok fd" and i: "i < n" and f: "vok_field f L i"
  shows "fields_conv \<delta> i (emb_field f L i) fd \<and> (\<forall>(t, b) \<in> set (field_children i fd). scoped (L + b) t)"
proof -
  have fresh: "take i (fresh_values L n) = fresh_values L i" using i by (simp add: take_fresh_values)
  have none: "fresh_values L 0 = []" by (simp add: fresh_values_def)
  show ?thesis
  proof (cases f)
    case (FValue c)
    with ok obtain t where t: "quote_closure ev qt c [] L = Ok t" "fd = Value t" by (auto simp: quote_field_def)
    from quote_closure_sound [of c L 0 t \<delta>] t f FValue show ?thesis
      by (simp add: none fields_conv_def reads_def)
  next
    case (FDependent c)
    with ok obtain t where t: "quote_closure ev qt c (fresh_values L i) (L + i) = Ok t" "fd = Dependent t"
      by (auto simp: quote_field_def fresh)
    from quote_closure_sound [OF t(1), of "lift_defs i \<delta>"] t(2) f FDependent show ?thesis
      by (simp add: fields_conv_def reads_def)
  next
    case FRecursive
    with ok show ?thesis by (auto simp: quote_field_def fields_conv_def)
  next
    case (FRecursiveAt cs)
    with ok obtain ts where ts: "run_map (\<lambda>c. quote_closure ev qt c (fresh_values L i) (L + i)) cs = Ok ts"
      and fd: "fd = RecursiveAt ts" by (auto simp: quote_field_def fresh)
    have "list_all2 (reads (lift_defs i \<delta>) (L + i)) ts (map (\<lambda>c. emb_closure c L i) cs)"
      using ts quote_closure_sound f FRecursiveAt by (auto simp: run_map_eq_Ok list_all2_conv_all_nth)
    note ts = this [unfolded list_reads]
    from list_all2_lengthD [OF conjunct2 [OF ts]] ts show ?thesis
      by (auto simp: FRecursiveAt fd fields_conv_def list.rel_map map_const_eq comp_def)
  qed
qed

lemma quote_constructor_sound:
  assumes ok: "quote_constructor ev qt L k = Ok con" and k: "vok_con k L"
  shows "cons_conv \<delta> (emb_con k L) con \<and> (\<forall>(t, b) \<in> set (con_children con). scoped (L + b) t)"
proof (cases k)
  case (ConstructorValue fs ids)
  let ?n = "length fs"
  obtain gs ts where gs: "run_map (quote_field ev qt L (fresh_values L ?n)) (List.enumerate 0 fs) = Ok gs"
    and ts: "run_map (\<lambda>c. quote_closure ev qt c (fresh_values L ?n) (L + ?n)) ids = Ok ts"
    and con: "con = DataConstructor gs ts"
    using ok by (auto simp: quote_constructor_def ConstructorValue Let_def)
  have len: "length gs = ?n" using gs by (auto simp: run_map_eq_Ok dest: list_all2_lengthD)
  have field: "fields_conv \<delta> i (emb_field (fs ! i) L i) (gs ! i) \<and>
      (\<forall>(t, b) \<in> set (field_children i (gs ! i)). scoped (L + b) t)" if "i < ?n" for i
    by (rule quote_field_sound [of L ?n])
      (use gs k that in \<open>auto simp: run_map_eq_Ok ConstructorValue list_all2_conv_all_nth nth_enumerate_eq\<close>)
  have index: "list_all2 (reads (lift_defs ?n \<delta>) (L + ?n)) ts (map (\<lambda>c. emb_closure c L ?n) ids)"
    using ts k quote_closure_sound by (auto simp: run_map_eq_Ok ConstructorValue list_all2_conv_all_nth)
  have "cons_conv \<delta> (emb_con k L) con"
    unfolding ConstructorValue con emb_data
    by (rule cons_convI)
      (use field index len in \<open>auto simp: list_all2_conv_all_nth nth_enumerate_eq reads_def\<close>)
  moreover have "scoped (L + b) t" if "(t, b) \<in> set (con_children con)" for t b
    using that field index len by (fastforce simp: con set_enumerate_iff list_reads)
  ultimately show ?thesis by blast
qed

lemma quote_data_sound:
  assumes ok: "quote_data ev qt L n l ids ks vs = Ok t" and v: "vok (VData n l ids ks vs) L"
  shows "reads \<delta> L t (emb (VData n l ids ks vs) L)"
proof -
  obtain ts cs as where ts: "run_map (\<lambda>(i, c). quote_closure ev qt c (take i (fresh_values L (length ids))) (L + i))
      (List.enumerate 0 ids) = Ok ts" and cs: "run_map (quote_constructor ev qt L) ks = Ok cs"
    and as: "run_map (\<lambda>v. qt v L) vs = Ok as" and t: "t = apply_terms (Data n l ts cs) as"
    using ok by (auto simp: quote_data_def Let_def apply_terms_def)
  have index: "length ts = length ids \<and> (\<forall>i < length ids. reads (lift_defs i \<delta>) (L + i) (ts ! i) (emb_closure (ids ! i) L i))"
    using ts v quote_closure_sound
    by (auto simp: run_map_eq_Ok list_all2_conv_all_nth nth_enumerate_eq take_fresh_values)
  have con: "list_all2 (cons_conv \<delta>) (map (\<lambda>c. emb_con c L) ks) cs \<and>
      (\<forall>k \<in> set cs. \<forall>(t, b) \<in> set (con_children k). scoped (L + b) t)"
    using cs v quote_constructor_sound
    by (fastforce simp: run_map_eq_Ok list_all2_conv_all_nth in_set_conv_nth)
  have args: "list_all2 (reads \<delta> L) as (embs vs L)" by (rule quote_values_sound [OF as]) (use v in simp)
  have "conv \<delta> (Data n l (map (\<lambda>(i, c). emb_closure c L i) (List.enumerate 0 ids)) (map (\<lambda>c. emb_con c L) ks)) (Data n l ts cs)"
    by (rule conv_data_cong)
      (use index con in \<open>auto simp: list_all2_conv_all_nth nth_enumerate_eq reads_def\<close>)
  moreover have "scoped L (Data n l ts cs)"
    using index con by (fastforce simp: scoped_node set_enumerate_iff reads_def simp del: con_children.simps)
  ultimately show ?thesis
    using args unfolding t reads_def list_reads emb_data
    by (simp add: scoped_apply_terms conv_apply_terms_args)
qed

lemma quote_binder_sound:
  assumes ok: "quote_binder ev qt L mk d c = Ok t" and d: "vok d L" and c: "vok_closure c L 1"
    and cong: "\<And>a a' b b'. conv \<delta> a a' \<Longrightarrow> conv (lift_defs 1 \<delta>) b b' \<Longrightarrow> conv \<delta> (mk a b) (mk a' b')"
    and sc: "\<And>a b. scoped L a \<Longrightarrow> scoped (Suc L) b \<Longrightarrow> scoped L (mk a b)"
  shows "reads \<delta> L t (mk (emb d L) (emb_closure c L 1))"
proof -
  obtain a v b where a: "qt d L = Ok a" and v: "closure_apply ev c (fresh L) = Ok v" and b: "qt v (L + 1) = Ok b"
    and t: "t = mk a b" using ok by (auto simp: quote_binder_def)
  note dv = open_one_sound [OF v [unfolded fresh_def] c, of "lift_defs 1 \<delta>"]
  from qt_sound [OF b, of "lift_defs 1 \<delta>"] dv have "reads (lift_defs 1 \<delta>) (Suc L) b (emb_closure c L 1)"
    by (auto simp: reads_def denotes_def intro: conv_trans)
  with qt_sound [OF a d, of \<delta>] show ?thesis by (auto simp: t reads_def intro: cong sc)
qed

lemma quote_step_sound:
  assumes ok: "quote_step ev qt qn v L = Ok t" and v: "vok v L"
  shows "reads \<delta> L t (emb v L)"
proof (cases v)
  case (VData n l ids ks vs)
  with ok v quote_data_sound show ?thesis by (simp add: quote_step_def del: emb_data vok_data)
next
  case (VConstruct d k vs)
  with ok obtain d' ts where d': "qt d L = Ok d'" and ts: "run_map (\<lambda>v. qt v L) vs = Ok ts" and t: "t = Construct d' k ts"
    by (auto simp: quote_step_def)
  from qt_sound [OF d', of \<delta>] quote_values_sound [OF ts, of \<delta>] v show ?thesis
    by (auto simp: VConstruct t reads_def list_reads scoped_node intro: conv_construct)
next
  case (VPi d c)
  with ok v show ?thesis
    by (auto simp: quote_step_def scoped_node intro!: quote_binder_sound [where mk = PiT, simplified] conv_congs)
next
  case (VLam d c)
  with ok v show ?thesis
    by (auto simp: quote_step_def scoped_node intro!: quote_binder_sound [where mk = Lam, simplified] conv_congs)
next
  case (VSigma d c)
  with ok v show ?thesis
    by (auto simp: quote_step_def scoped_node intro!: quote_binder_sound [where mk = SigmaT, simplified] conv_congs)
next
  case (VNeutral x)
  with ok v qn_sound show ?thesis by (simp add: quote_step_def)
next
  case (VUniverse l)
  with ok show ?thesis by (auto simp: quote_step_def reads_def scoped_node conv_refl)
qed (use ok v qt_sound [where \<delta> = \<delta> and L = L] in
    \<open>fastforce simp: quote_step_def reads_def scoped_node intro: conv_congs\<close>)+

lemma quote_neutral_step_sound:
  assumes ok: "quote_neutral_step qt qn x L = Ok t" and x: "vok_neutral x L"
  shows "reads \<delta> L t (emb_neutral x L)"
proof (cases x)
  case (NInduct s m vs)
  with ok obtain s' m' ts where e: "qt s L = Ok s'" "qt m L = Ok m'" and ts: "run_map (\<lambda>v. qt v L) vs = Ok ts"
    and t: "t = Induct s' m' ts" by (auto simp: quote_neutral_step_def)
  from qt_sound [OF e(1), of \<delta>] qt_sound [OF e(2), of \<delta>] quote_values_sound [OF ts, of \<delta>] x show ?thesis
    by (auto simp: NInduct t reads_def list_reads scoped_node intro: conv_induct)
next
  case (NVar k)
  with ok x show ?thesis by (auto simp: quote_neutral_step_def reads_def conv_refl)
next
  case (NStuck v)
  with ok x qt_sound show ?thesis by (simp add: quote_neutral_step_def)
next
  case (NFunExt a b c d)
  with ok x qt_sound [where \<delta> = \<delta> and L = L] show ?thesis
    by (fastforce simp: quote_neutral_step_def reads_def scoped_node intro: conv_congs)
qed (use ok x qt_sound [where \<delta> = \<delta> and L = L] qn_sound [where \<delta> = \<delta> and L = L] in
    \<open>fastforce simp: quote_neutral_step_def reads_def scoped_node intro: conv_congs\<close>)+

end

interpretation quotes: sound_quote "nbe_eval n" "nbe_quote n" "quote_neutral n" for n
proof (induction n)
  case (Suc n)
  show ?case
    using sound_quote.quote_step_sound [OF Suc] sound_quote.quote_neutral_step_sound [OF Suc]
    by unfold_locales simp_all
qed (unfold_locales, simp_all)

subsection \<open>Conversion on values\<close>

locale sound_veq = sound_eval ev for ev +
  fixes veq :: veq and neq :: neq
  assumes veq_sound: "veq v w L = Ok True \<Longrightarrow> vok v L \<Longrightarrow> vok w L \<Longrightarrow> conv \<delta> (emb v L) (emb w L)"
    and neq_sound: "neq x y L = Ok True \<Longrightarrow> vok_neutral x L \<Longrightarrow> vok_neutral y L \<Longrightarrow>
      conv \<delta> (emb_neutral x L) (emb_neutral y L)"
begin

lemma veq_denotes:
  "veq v w L = Ok True \<Longrightarrow> denotes \<delta> L v t \<Longrightarrow> denotes \<delta> L w u \<Longrightarrow> conv \<delta> t u"
  using veq_sound by (meson conv_sym conv_trans denotesD)

lemma values_sound:
  "values_def_eq veq vs ws L = Ok True \<Longrightarrow> voks vs L \<Longrightarrow> voks ws L \<Longrightarrow> list_all2 (conv \<delta>) (embs vs L) (embs ws L)"
  using veq_sound by (auto simp: values_def_eq_def all_checked_zip list_all2_conv_all_nth split: if_splits)

lemma values_denotes:
  assumes "values_def_eq veq vs ws L = Ok True" and "list_all2 (denotes \<delta> L) vs ts" and "list_all2 (denotes \<delta> L) ws us"
  shows "list_all2 (conv \<delta>) ts us"
  using assms veq_denotes
  by (fastforce simp: values_def_eq_def all_checked_zip list_all2_conv_all_nth split: if_splits)

lemma closures_sound:
  assumes "closures_def_eq ev veq c d (fresh_values L k) (L + k) = Ok True"
    and "vok_closure c L k" and "vok_closure d L k"
  shows "conv \<delta> (emb_closure c L k) (emb_closure d L k)"
  using assms open_sound [where \<delta> = \<delta>] veq_denotes [where \<delta> = \<delta>] by (fastforce simp: closures_def_eq_def)

lemma field_value_domain_sound:
  assumes "field_value_domain ev f (fresh_values L i) = Ok (Some v)" and "vok_field f L i"
  shows "\<exists>t. canonical_field i (emb_field f L i) = Dependent t \<and> denotes \<delta> (L + i) v t"
proof (cases f)
  case (FValue c)
  have "denotes \<delta> (L + i) v (emb_closure c (L + i) 0)"
    using apply_fields_sound [of c "[]" v "L + i" \<delta>] assms FValue vok_mono(2) [of c L 0 "L + i"]
    by (auto simp: field_value_domain_def apply_fields_def)
  then show ?thesis using assms FValue by (simp add: canonical_field_def emb_shift(2))
next
  case (FDependent c)
  with assms open_sound show ?thesis by (auto simp: field_value_domain_def canonical_field_def)
qed (use assms in \<open>simp_all add: field_value_domain_def\<close>)

lemma field_value_indices_sound:
  assumes "field_value_indices ev f (fresh_values L i) = Ok (Some vs)" and "vok_field f L i"
  shows "\<exists>ts. canonical_field i (emb_field f L i) = RecursiveAt ts \<and> list_all2 (denotes \<delta> (L + i)) vs ts"
proof (cases f)
  case (FRecursiveAt cs)
  with assms open_sound [where \<delta> = \<delta>] show ?thesis
    by (auto simp: field_value_indices_def canonical_field_def run_map_eq_Ok list_all2_conv_all_nth)
qed (use assms in \<open>auto simp: field_value_indices_def canonical_field_def\<close>)

lemma field_values_sound:
  assumes ok: "field_values_def_eq ev veq L (fresh_values L n) (i, f, g) = Ok True" and i: "i < n"
    and f: "vok_field f L i" and g: "vok_field g L i"
  shows "fields_conv \<delta> i (canonical_field i (emb_field f L i)) (canonical_field i (emb_field g L i))"
proof -
  have fresh: "take i (fresh_values L n) = fresh_values L i" using i by (simp add: take_fresh_values)
  let ?\<delta> = "lift_defs i \<delta>"
  obtain ra rb where ra: "field_value_indices ev f (fresh_values L i) = Ok ra"
    and rb: "field_value_indices ev g (fresh_values L i) = Ok rb"
    and rest: "(case (ra, rb) of
            (Some a, Some b) \<Rightarrow> values_def_eq veq a b (L + i)
          | (None, None) \<Rightarrow>
              run_bind (field_value_domain ev f (fresh_values L i)) (\<lambda>da.
              run_bind (field_value_domain ev g (fresh_values L i)) (\<lambda>db.
                case (da, db) of (Some a, Some b) \<Rightarrow> veq a b (L + i) | _ \<Rightarrow> Ok False))
          | _ \<Rightarrow> Ok False) = Ok True"
    using ok unfolding field_values_def_eq_def Let_def prod.case fresh by auto
  show ?thesis
  proof (cases ra)
    case None
    with rest obtain a b where "field_value_domain ev f (fresh_values L i) = Ok (Some a)"
        "field_value_domain ev g (fresh_values L i) = Ok (Some b)" and eq: "veq a b (L + i) = Ok True"
      by (auto split: option.splits)
    from field_value_domain_sound [OF this(1) f, of ?\<delta>] field_value_domain_sound [OF this(2) g, of ?\<delta>]
    show ?thesis using veq_denotes [OF eq, of ?\<delta>] by (auto simp: fields_conv_def)
  next
    case (Some a)
    with rest obtain b where b: "rb = Some b" and eq: "values_def_eq veq a b (L + i) = Ok True"
      by (auto split: option.splits)
    obtain ts us where ts: "canonical_field i (emb_field f L i) = RecursiveAt ts" "list_all2 (denotes ?\<delta> (L + i)) a ts"
      and us: "canonical_field i (emb_field g L i) = RecursiveAt us" "list_all2 (denotes ?\<delta> (L + i)) b us"
      using field_value_indices_sound [OF ra [unfolded Some] f] field_value_indices_sound [OF rb [unfolded b] g] by blast
    from values_denotes [OF eq ts(2) us(2)] have "list_all2 (conv ?\<delta>) ts us" .
    from this list_all2_lengthD [OF this] show ?thesis
      by (simp add: ts(1) us(1) fields_conv_def map_const_eq list.rel_map)
  qed
qed

lemma constructor_values_sound:
  assumes ok: "constructor_values_def_eq ev veq L a b = Ok True" and a: "vok_con a L" and b: "vok_con b L"
  shows "cons_conv \<delta> (canonical_con (emb_con a L)) (canonical_con (emb_con b L))"
proof -
  obtain fs ids where a': "a = ConstructorValue fs ids" by (cases a)
  obtain gs jds where b': "b = ConstructorValue gs jds" by (cases b)
  have len: "length fs = length gs" "length ids = length jds"
    and idx: "\<And>i. i < length jds \<Longrightarrow>
      closures_def_eq ev veq (ids ! i) (jds ! i) (fresh_values L (length fs)) (L + length fs) = Ok True"
    and flds: "\<And>i. i < length gs \<Longrightarrow>
      field_values_def_eq ev veq L (fresh_values L (length fs)) (i, fs ! i, gs ! i) = Ok True"
    using ok by (auto simp: constructor_values_def_eq_def Let_def a' b' all_checked_zip all_checked_enumerate_zip
        split: if_splits)
  have "fields_conv \<delta> i (canonical_field i (emb_field (fs ! i) L i)) (canonical_field i (emb_field (gs ! i) L i))"
    if "i < length gs" for i
    by (rule field_values_sound [OF flds [OF that]]) (use that len a b in \<open>simp_all add: a' b'\<close>)
  moreover have "conv (lift_defs (length fs) \<delta>) (emb_closure (ids ! i) L (length fs)) (emb_closure (jds ! i) L (length gs))"
    if "i < length jds" for i
    unfolding len(1) [symmetric]
    by (rule closures_sound [OF idx [OF that]]) (use that len a b in \<open>simp_all add: a' b'\<close>)
  ultimately show ?thesis
    using len unfolding canonical_con_def a' b' emb_data
    by (intro cons_convI) (auto simp: list_all2_conv_all_nth nth_enumerate_eq)
qed

lemma data_values_sound:
  assumes ok: "data_values_def_eq ev veq L (an, al, ai, ac, aa) (bn, bl, bi, bc, ba) = Ok True"
    and a: "vok (VData an al ai ac aa) L" and b: "vok (VData bn bl bi bc ba) L"
  shows "conv \<delta> (emb (VData an al ai ac aa) L) (emb (VData bn bl bi bc ba) L)"
proof -
  have [simp]: "an = bn" and lv: "level_eq al bl" and len: "length ai = length bi" "length ac = length bc"
    and args: "values_def_eq veq aa ba L = Ok True"
    and idx: "\<And>i. i < length bi \<Longrightarrow>
      closures_def_eq ev veq (ai ! i) (bi ! i) (take i (fresh_values L (length bi))) (L + i) = Ok True"
    and cons: "\<And>i. i < length bc \<Longrightarrow> constructor_values_def_eq ev veq L (ac ! i) (bc ! i) = Ok True"
    using ok by (auto simp: data_values_def_eq_def Let_def all_checked_zip all_checked_enumerate_zip split: if_splits)
  let ?is = "\<lambda>cs. map (\<lambda>(i, c). emb_closure c L i) (List.enumerate 0 cs)" and ?ks = "\<lambda>ks. map (\<lambda>c. emb_con c L) ks"
  have "conv \<delta> (Data an al (?is ai) (?ks ac)) (Data an al (?is ai) (map canonical_con (?ks ac)))"
    by (rule conv_data_fields)
  also have "conv \<delta> \<dots> (Data an al (?is bi) (map canonical_con (?ks bc)))"
  proof (rule conv_data_cong)
    have "conv (lift_defs i \<delta>) (emb_closure (ai ! i) L i) (emb_closure (bi ! i) L i)" if "i < length bi" for i
      using closures_sound [of "ai ! i" "bi ! i" L i] idx [OF that] that len a b by (simp add: take_fresh_values)
    then show "list_all2 (\<lambda>(i, a) (j, b). i = j \<and> conv (lift_defs i \<delta>) a b)
        (List.enumerate 0 (?is ai)) (List.enumerate 0 (?is bi))"
      using len by (auto simp: list_all2_conv_all_nth nth_enumerate_eq)
    show "list_all2 (cons_conv \<delta>) (map canonical_con (?ks ac)) (map canonical_con (?ks bc))"
      using len cons constructor_values_sound a b by (auto simp: list_all2_conv_all_nth)
  qed
  also have "conv \<delta> \<dots> (Data bn bl (?is bi) (map canonical_con (?ks bc)))"
    using level_eq_val [OF lv] by (auto intro: conv_data_level)
  also have "conv \<delta> \<dots> (Data bn bl (?is bi) (?ks bc))" by (rule conv_sym) (rule conv_data_fields)
  finally show ?thesis
    unfolding emb_data using values_sound [OF args, of \<delta>] a b by (auto intro: conv_apply_terms_args)
qed

lemma binder_sound:
  assumes "binder_def_eq ev veq L d c d' c' = Ok True"
    and "vok d L" "vok d' L" "vok_closure c L 1" "vok_closure c' L 1"
  shows "conv \<delta> (emb d L) (emb d' L)" and "conv (lift_defs 1 \<delta>) (emb_closure c L 1) (emb_closure c' L 1)"
proof -
  obtain v w where eq: "veq d d' L = Ok True" and v: "closure_apply ev c (fresh L) = Ok v"
    and w: "closure_apply ev c' (fresh L) = Ok w" and vw: "veq v w (L + 1) = Ok True"
    using assms(1) by (auto simp: binder_def_eq_def split: if_splits)
  show "conv \<delta> (emb d L) (emb d' L)" by (rule veq_sound [OF eq assms(2,3)])
  show "conv (lift_defs 1 \<delta>) (emb_closure c L 1) (emb_closure c' L 1)"
    using veq_denotes [OF vw] open_one_sound [OF v [unfolded fresh_def] assms(4)]
      open_one_sound [OF w [unfolded fresh_def] assms(5)] by simp
qed

lemma value_eta_sound:
  assumes ok: "value_eta_match ev veq c v L = Ok True" and c: "vok_closure c L 1" and v: "vok v L"
  shows "conv \<delta> (Lam a (emb_closure c L 1)) (emb v L)"
proof -
  obtain b w where b: "closure_apply ev c (fresh L) = Ok b" and w: "apply_value ev v (fresh L) = Ok w"
    and eq: "veq b w (L + 1) = Ok True" using ok by (auto simp: value_eta_match_def)
  have "denotes (lift_defs 1 \<delta>) (Suc L) w (App (shift_up (emb v L) 1 0) (Var 0))"
    using apply_value_sound [OF w, of "Suc L" "lift_defs 1 \<delta>"] v emb_shift(1) [OF v, of 1] vok_mono(1) [OF v, of "Suc L"]
    by (simp add: fresh_def)
  with veq_denotes [OF eq] open_one_sound [OF b [unfolded fresh_def] c]
  have "conv (lift_defs 1 \<delta>) (emb_closure c L 1) (App (shift_up (emb v L) 1 0) (Var 0))" by simp
  then have "conv \<delta> (Lam a (emb_closure c L 1)) (Lam a (App (shift_up (emb v L) 1 0) (Var 0)))"
    by (intro conv_congs conv_refl)
  also have "conv \<delta> \<dots> (emb v L)" by (rule conv_eta)
  finally show ?thesis .
qed

lemma value_pair_eta_sound:
  assumes ok: "value_pair_eta veq a b v L = Ok True" and "vok a L" "vok b L" and v: "vok v L"
  shows "conv \<delta> (PairT (emb a L) (emb b L)) (emb v L)"
proof -
  have "conv \<delta> (emb a L) (FstT (emb v L))" "conv \<delta> (emb b L) (SndT (emb v L))"
    using ok veq_denotes [where \<delta> = \<delta>] apply_fst_sound [OF denotes_self [OF v]] apply_snd_sound [OF denotes_self [OF v]]
      denotes_self [OF assms(2)] denotes_self [OF assms(3)]
    by (auto simp: value_pair_eta_def)
  then have "conv \<delta> (PairT (emb a L) (emb b L)) (PairT (FstT (emb v L)) (SndT (emb v L)))" by (rule conv_congs)
  then show ?thesis by (rule conv_trans) (rule conv_pair_eta)
qed

lemma same_head_values_sound:
  assumes ok: "same_head_values_def_eq ev veq neq a b L = Some (Ok True)" and a: "vok a L" and b: "vok b L"
  shows "conv \<delta> (emb a L) (emb b L)"
proof (cases a)
  case (VData n l ids cs vs)
  with ok a b data_values_sound show ?thesis
    by (cases b) (simp_all add: same_head_values_def_eq_def del: emb_data vok_data)
next
  case (VConstruct d k vs)
  with ok a b veq_sound [where \<delta> = \<delta>] values_sound [where \<delta> = \<delta>] show ?thesis
    by (cases b) (auto simp: same_head_values_def_eq_def split: if_splits intro!: conv_construct)
next
  case (VPi d c)
  with ok a b binder_sound [where \<delta> = \<delta>] show ?thesis
    by (cases b) (auto simp: same_head_values_def_eq_def intro!: conv_congs)
next
  case (VLam d c)
  with ok a b binder_sound [where \<delta> = \<delta>] show ?thesis
    by (cases b) (auto simp: same_head_values_def_eq_def intro!: conv_congs)
next
  case (VSigma d c)
  with ok a b binder_sound [where \<delta> = \<delta>] show ?thesis
    by (cases b) (auto simp: same_head_values_def_eq_def intro!: conv_congs)
next
  case (VUniverse l)
  with ok show ?thesis
    by (cases b) (auto simp: same_head_values_def_eq_def intro!: conv_universe dest: level_eq_val)
qed (use ok a b veq_sound [where \<delta> = \<delta>] neq_sound [where \<delta> = \<delta>] in
    \<open>cases b; auto simp: same_head_values_def_eq_def intro!: conv_congs\<close>)+

lemma as_v_Some [simp]:
  "as_vlam v = Some (d, c) \<longleftrightarrow> v = VLam d c" "as_vpair v = Some (w, x) \<longleftrightarrow> v = VPair w x"
  by (cases v; auto simp: as_vlam_def as_vpair_def)+

lemma value_def_eq_step_sound:
  assumes ok: "value_def_eq_step ev veq neq a b L = Ok True" and a: "vok a L" and b: "vok b L"
  shows "conv \<delta> (emb a L) (emb b L)"
  using ok a b value_eta_sound value_pair_eta_sound conv_sym [OF value_eta_sound] conv_sym [OF value_pair_eta_sound]
  by (auto simp: value_def_eq_step_def conv_refl split: if_splits option.splits intro: same_head_values_sound)

lemma neutral_def_eq_step_sound:
  assumes "neutral_def_eq_step veq neq x y L = Ok True" and "vok_neutral x L" and "vok_neutral y L"
  shows "conv \<delta> (emb_neutral x L) (emb_neutral y L)"
  using assms veq_sound [where \<delta> = \<delta>] neq_sound [where \<delta> = \<delta>] values_sound [where \<delta> = \<delta>]
  by (cases x; cases y) (auto simp: neutral_def_eq_step_def conv_refl intro!: conv_congs conv_induct)

end

interpretation veqs: sound_veq "nbe_eval n" "value_def_eq n" "def_eq_neutral n" for n
proof (induction n)
  case (Suc n)
  show ?case
    using sound_veq.value_def_eq_step_sound [OF Suc] sound_veq.neutral_def_eq_step_sound [OF Suc]
    by unfold_locales simp_all
qed (unfold_locales, simp_all)

subsection \<open>Properties\<close>

text \<open>A closure that captures only the variables its body mentions is the closure over the whole
  environment: it denotes the same term, with the same values for its free variables, and stays
  well formed.\<close>

theorem capture_transparent:
  assumes "scoped (length env + k) body" and "\<And>v. v \<in> set env \<Longrightarrow> vok v L"
  shows "emb_closure (capture body env k) L k = emb_closure (Closure env body) L k \<and>
    vok_closure (capture body env k) L k"
  using capture_emb [OF assms(1)] capture_ok [OF assms] by simp

theorem capture_transparent_witness:
  "emb_closure (capture (App (Var 2) (Var 0)) [VUniverse (Concrete 7), VNeutral (NVar 0)] 1) 1 1 =
   emb_closure (Closure [VUniverse (Concrete 7), VNeutral (NVar 0)] (App (Var 2) (Var 0))) 1 1 \<and>
   vok_closure (capture (App (Var 2) (Var 0)) [VUniverse (Concrete 7), VNeutral (NVar 0)] 1) 1 1"
  by (rule capture_transparent) (auto simp: scoped_node)

text \<open>Evaluation is sound: the value of a term in an environment is well formed and denotes a
  term convertible to the term with the environment substituted for its variables, by the rules of
  computation alone and whatever the definitions in scope are.\<close>

theorem eval_sound:
  assumes "nbe_eval n t env = Ok v" and "\<And>w. w \<in> set env \<Longrightarrow> vok w L" and "scoped (length env) t"
  shows "vok v L \<and> conv \<delta> (instantiate_fields t (map (\<lambda>w. emb w L) env)) (emb v L)"
  using evals.ev_sound [OF assms(1) _ assms(3), of L \<delta>] assms(2) by (simp add: denotes_def)

lemma redex_evaluated:
  "nbe_eval 3 (App (Lam (Universe (Concrete 0)) (Var 0)) (Var 0)) [fresh 0] = Ok (fresh 0)"
  by (simp add: numeral_eq_Suc eval_step_def apply_value_def closure_apply_def capture_def captured_positions_def
      contains_free_by.simps)

theorem eval_sound_witness:
  "conv (\<lambda>_. None) (instantiate_fields (App (Lam (Universe (Concrete 0)) (Var 0)) (Var 0)) [Var 0]) (Var 0)"
  using eval_sound [OF redex_evaluated, of 1 "\<lambda>_. None"] by (simp add: scoped_node fresh_def)

text \<open>C34: Normalisation by evaluation is sound: evaluating an open term in the environment of its
  variables and reading the value back gives a term over the same variables convertible to it.\<close>

theorem normalise_sound:
  assumes "nbe_eval n t (fresh_values 0 L) = Ok v" and "nbe_quote m v L = Ok u" and "scoped L t"
  shows "scoped L u \<and> conv \<delta> t u"
proof -
  have "denotes \<delta> L v t"
    using evals.ev_sound [OF assms(1), of L \<delta>] assms(3) fresh_values_ok [of 0 L]
      embs_fresh [of 0 L] instantiate_variables [of t L] shift_up_scoped [OF assms(3)] by simp
  then show ?thesis
    using quotes.qt_sound [OF assms(2), of \<delta>] by (auto simp: denotes_def reads_def intro: conv_trans)
qed

theorem normalise_sound_witness:
  "scoped 1 (Var 0) \<and> conv (\<lambda>_. None) (App (Lam (Universe (Concrete 0)) (Var 0)) (Var 0)) (Var 0)"
  using normalise_sound [of 3 "App (Lam (Universe (Concrete 0)) (Var 0)) (Var 0)" 1 "fresh 0" 2 "Var 0" "\<lambda>_. None"] redex_evaluated
  by (simp add: scoped_node fresh_values_def numeral_eq_Suc quote_step_def quote_neutral_step_def fresh_def)

text \<open>Conversion on values is sound: when the second checker finds the values of two terms equal,
  the terms are convertible in the declarative sense, eta and the computation rules included.\<close>

theorem value_def_eq_sound:
  assumes "nbe_eval n t env = Ok v" and "nbe_eval n u env = Ok w" and "value_def_eq m v w L = Ok True"
    and "\<And>x. x \<in> set env \<Longrightarrow> vok x L" and "scoped (length env) t" and "scoped (length env) u"
  shows "conv \<delta> (instantiate_fields t (map (\<lambda>x. emb x L) env)) (instantiate_fields u (map (\<lambda>x. emb x L) env))"
  using veqs.veq_denotes [OF assms(3)] evals.ev_sound [OF assms(1)] evals.ev_sound [OF assms(2)] assms(4-6) by blast

theorem value_def_eq_sound_witness:
  "conv (\<lambda>_. None) (instantiate_fields (App (Lam (Universe (Concrete 0)) (Var 0)) (Var 0)) [Var 0]) (instantiate_fields (Var 0) [Var 0])"
  using value_def_eq_sound [OF redex_evaluated, of "Var 0" "fresh 0" 1 1 "\<lambda>_. None"]
  by (simp add: scoped_node numeral_eq_Suc eval_step_def value_def_eq_step_def fresh_def)

end
