(* ===== verification/NbeVars.thy ===== *)
theory NbeVars
  imports NbeSpec
begin

section \<open>The variables of a value\<close>

text \<open>
  Evaluation introduces no variables: a value mentions only levels its environment mentions. The
  value of a local definition stands in the environment instead of a variable, so the types found
  under a definition never mention it and can leave its scope as they are.
\<close>

primrec vin :: "val \<Rightarrow> nat set \<Rightarrow> bool"
and cin :: "closure \<Rightarrow> nat set \<Rightarrow> bool"
and fin :: "field_value \<Rightarrow> nat set \<Rightarrow> bool"
and kin :: "con_value \<Rightarrow> nat set \<Rightarrow> bool"
and nin :: "neutral \<Rightarrow> nat set \<Rightarrow> bool" where
  "vin (VData n l is cs vs) X \<longleftrightarrow>
     list_all (\<lambda>g. g X) (map cin is) \<and> list_all (\<lambda>g. g X) (map kin cs) \<and> list_all (\<lambda>g. g X) (map vin vs)"
| "vin (VConstruct d k vs) X \<longleftrightarrow> vin d X \<and> list_all (\<lambda>g. g X) (map vin vs)"
| "vin (VUniverse l) X \<longleftrightarrow> True"
| "vin (VPi d c) X \<longleftrightarrow> vin d X \<and> cin c X"
| "vin (VLam d c) X \<longleftrightarrow> vin d X \<and> cin c X"
| "vin (VNeutral x) X \<longleftrightarrow> nin x X"
| "vin (VSigma d c) X \<longleftrightarrow> vin d X \<and> cin c X"
| "vin (VPair v w) X \<longleftrightarrow> vin v X \<and> vin w X"
| "vin (VId v w x) X \<longleftrightarrow> vin v X \<and> vin w X \<and> vin x X"
| "vin (VRefl v) X \<longleftrightarrow> vin v X"
| "cin (Closure env body) X \<longleftrightarrow> list_all (\<lambda>g. g X) (map vin env)"
| "fin (FValue c) X \<longleftrightarrow> cin c X"
| "fin (FDependent c) X \<longleftrightarrow> cin c X"
| "fin FRecursive X \<longleftrightarrow> True"
| "fin (FRecursiveAt cs) X \<longleftrightarrow> list_all (\<lambda>g. g X) (map cin cs)"
| "kin (ConstructorValue fs is) X \<longleftrightarrow> list_all (\<lambda>g. g X) (map fin fs) \<and> list_all (\<lambda>g. g X) (map cin is)"
| "nin (NFunExt v w x y) X \<longleftrightarrow> vin v X \<and> vin w X \<and> vin x X \<and> vin y X"
| "nin (NInduct s m cs) X \<longleftrightarrow> vin s X \<and> vin m X \<and> list_all (\<lambda>g. g X) (map vin cs)"
| "nin (NVar k) X \<longleftrightarrow> k \<in> X"
| "nin (NApp x v) X \<longleftrightarrow> nin x X \<and> vin v X"
| "nin (NFst x) X \<longleftrightarrow> nin x X"
| "nin (NSnd x) X \<longleftrightarrow> nin x X"
| "nin (NJ m b x) X \<longleftrightarrow> vin m X \<and> vin b X \<and> nin x X"
| "nin (NIdElim m b x) X \<longleftrightarrow> vin m X \<and> vin b X \<and> nin x X"
| "nin (NStuck v) X \<longleftrightarrow> vin v X"

lemma vin_lists [simp]:
  "vin (VData n l is cs vs) X \<longleftrightarrow> (\<forall>c \<in> set is. cin c X) \<and> (\<forall>c \<in> set cs. kin c X) \<and> (\<forall>v \<in> set vs. vin v X)"
  "vin (VConstruct d k vs) X \<longleftrightarrow> vin d X \<and> (\<forall>v \<in> set vs. vin v X)"
  "cin (Closure env body) X \<longleftrightarrow> (\<forall>v \<in> set env. vin v X)"
  "fin (FRecursiveAt ds) X \<longleftrightarrow> (\<forall>c \<in> set ds. cin c X)"
  "kin (ConstructorValue fs is) X \<longleftrightarrow> (\<forall>f \<in> set fs. fin f X) \<and> (\<forall>c \<in> set is. cin c X)"
  "nin (NInduct s m bs) X \<longleftrightarrow> vin s X \<and> vin m X \<and> (\<forall>v \<in> set bs. vin v X)"
  by (simp_all add: list.pred_map comp_def) (simp_all add: list.pred_set)

declare vin.simps(1,2) [simp del] cin.simps [simp del] fin.simps(4) [simp del] kin.simps [simp del] nin.simps(2) [simp del]

abbreviation inside :: "val list \<Rightarrow> nat set \<Rightarrow> bool" where
  "inside vs X \<equiv> \<forall>v \<in> set vs. vin v X"

text \<open>A value that mentions no level beyond \<open>L\<close> is a value of level \<open>L\<close>.\<close>

lemma vok_lower:
  fixes v :: val and c :: closure and fd :: field_value and k :: con_value and x :: neutral
  shows "vok v M \<Longrightarrow> vin v {..<L} \<Longrightarrow> vok v L"
    and "vok_closure c M b \<Longrightarrow> cin c {..<L} \<Longrightarrow> vok_closure c L b"
    and "vok_field fd M i \<Longrightarrow> fin fd {..<L} \<Longrightarrow> vok_field fd L i"
    and "vok_con k M \<Longrightarrow> kin k {..<L} \<Longrightarrow> vok_con k L"
    and "vok_neutral x M \<Longrightarrow> nin x {..<L} \<Longrightarrow> vok_neutral x L"
  by (induction v and c and fd and k and x arbitrary: and b and i) auto

lemma vin_mono:
  fixes v :: val and c :: closure and fd :: field_value and k :: con_value and x :: neutral
  shows "vin v X \<Longrightarrow> X \<subseteq> Y \<Longrightarrow> vin v Y" and "cin c X \<Longrightarrow> X \<subseteq> Y \<Longrightarrow> cin c Y"
    and "fin fd X \<Longrightarrow> X \<subseteq> Y \<Longrightarrow> fin fd Y" and "kin k X \<Longrightarrow> X \<subseteq> Y \<Longrightarrow> kin k Y"
    and "nin x X \<Longrightarrow> X \<subseteq> Y \<Longrightarrow> nin x Y"
  by (induction v and c and fd and k and x) auto

lemma cvars_capture: "inside env X \<Longrightarrow> cin (capture body env k) X"
  using captured_positions_bound [of _ body env k] nth_mem [of _ env] by (fastforce simp: capture_def Let_def)

lemma apply_fst_vars: "vin p X \<Longrightarrow> vin (apply_fst p) X"
  and apply_snd_vars: "vin p X \<Longrightarrow> vin (apply_snd p) X"
  by (cases p; auto simp: apply_fst_def apply_snd_def)+

lemma apply_identity_elim_vars:
  "vin m X \<Longrightarrow> vin b X \<Longrightarrow> vin s X \<Longrightarrow> vin (apply_identity_elim m b s dep) X"
  by (cases s; auto simp: apply_identity_elim_def Let_def)

locale confined_eval = sound_eval ev for ev +
  assumes ev_vars: "ev t env = Ok v \<Longrightarrow> voks env L \<Longrightarrow> scoped (length env) t \<Longrightarrow> inside env X \<Longrightarrow> vin v X"
begin

lemma apply_fields_vars:
  assumes "apply_fields ev c us = Ok v" and "vok_closure c L (length us)" and "voks us L"
    and "cin c X" and "inside us X"
  shows "vin v X"
proof (cases c)
  case (Closure env body)
  from assms(1) have "ev body (env @ us) = Ok v" by (simp add: apply_fields_def Closure)
  then show ?thesis by (rule ev_vars [of _ _ _ L]) (use assms in \<open>auto simp: Closure\<close>)
qed

lemma closure_apply_vars:
  assumes "closure_apply ev c u = Ok v" and "vok_closure c L 1" and "vok u L" and "cin c X" and "vin u X"
  shows "vin v X"
  using apply_fields_vars [of c "[u]" v L X] assms by (simp add: apply_fields_def closure_apply_def)

lemma apply_value_vars:
  assumes "apply_value ev f x = Ok v" and "vok f L" and "vok x L" and "vin f X" and "vin x X"
  shows "vin v X"
proof (cases f)
  case (VLam d b)
  with assms closure_apply_vars [of b x v L X] show ?thesis by (auto simp: apply_value_def)
qed (use assms in \<open>auto simp: apply_value_def split: if_splits\<close>)

lemma apply_values_vars:
  "apply_values ev f xs = Ok v \<Longrightarrow> vok f L \<Longrightarrow> voks xs L \<Longrightarrow> vin f X \<Longrightarrow> inside xs X \<Longrightarrow> vin v X"
  unfolding apply_values_def
proof (induction xs arbitrary: f)
  case (Cons x xs)
  then obtain g where g: "apply_value ev f x = Ok g" and rest: "run_for g xs (apply_value ev) = Ok v" by auto
  have "vok g L" using apply_value_sound [OF g] Cons.prems by (simp add: denotes_def)
  moreover have "vin g X" by (rule apply_value_vars [OF g, of L]) (use Cons.prems in simp_all)
  ultimately show ?case using Cons.IH [OF rest] Cons.prems by simp
qed simp

end

locale confined_evaluation = confined_eval ev + sound_evaluation ev ind for ev ind +
  assumes ind_vars: "ind s m cs = Ok v \<Longrightarrow> vok s L \<Longrightarrow> vok m L \<Longrightarrow> voks cs L \<Longrightarrow>
    vin s X \<Longrightarrow> vin m X \<Longrightarrow> inside cs X \<Longrightarrow> vin v X"
begin

lemma branch_vars:
  assumes "run_for r ps (\<lambda>result (field, argument).
      run_bind (apply_value ev result argument) (\<lambda>result.
        if is_recursive_value field
        then run_bind (ind argument m cs) (\<lambda>hyp. apply_value ev result hyp)
        else Ok result)) = Ok v"
    and "vok r L" and "vin r X" and "\<And>f x. (f, x) \<in> set ps \<Longrightarrow> vok x L \<and> vin x X"
    and "vok m L" and "voks cs L" and "vin m X" and "inside cs X"
  shows "vin v X"
  using assms(1-4)
proof (induction ps arbitrary: r)
  case (Cons p ps)
  obtain f x where p: "p = (f, x)" by fastforce
  obtain r1 where r1: "apply_value ev r x = Ok r1" using Cons.prems(1) by (auto simp: p)
  have x: "vok x L" "vin x X" using Cons.prems(4) [of f x] by (simp_all add: p)
  have ok1: "vok r1 L" "vin r1 X"
    using apply_value_sound [OF r1] apply_value_vars [OF r1] Cons.prems(2,3) x by (auto simp: denotes_def)
  show ?case
  proof (cases "is_recursive_value f")
    case True
    with Cons.prems(1) r1 obtain h r2 where h: "ind x m cs = Ok h" and r2: "apply_value ev r1 h = Ok r2"
      and rest: "run_for r2 ps (\<lambda>result (field, argument).
        run_bind (apply_value ev result argument) (\<lambda>result.
          if is_recursive_value field
          then run_bind (ind argument m cs) (\<lambda>hyp. apply_value ev result hyp)
          else Ok result)) = Ok v"
      by (auto simp: p)
    have hok: "vok h L" using ind_sound [OF h x(1)] assms(5,6) by (simp add: denotes_def)
    have hv: "vin h X" by (rule ind_vars [OF h x(1) _ _ x(2)]) (use assms in simp_all)
    have "vok r2 L" using apply_value_sound [OF r2 ok1(1) hok] by (simp add: denotes_def)
    from Cons.IH [OF rest this apply_value_vars [OF r2 ok1(1) hok ok1(2) hv]] Cons.prems(4) show ?thesis by auto
  next
    case False
    with Cons.IH [of r1] Cons.prems r1 ok1 show ?thesis by (auto simp: p)
  qed
qed simp

lemma apply_induct_step_vars:
  assumes ok: "apply_induct_step ev ind s m cs = Ok v" and vok: "vok s L" "vok m L" "voks cs L"
    and vars: "vin s X" "vin m X" "inside cs X"
  shows "vin v X"
proof (cases "induct_redex s cs")
  case None
  with ok vars show ?thesis by (auto simp: apply_induct_step_def)
next
  case (Some redex)
  obtain n l ids ks vs k args where s: "s = VConstruct (VData n l ids ks vs) k args"
    and k: "k < length cs" and redex: "redex = (cs ! k, zip (cv_fields (ks ! k)) args)"
    using Some by (auto simp: induct_redex_def split: val.splits if_splits)
  have args: "vok x L \<and> vin x X" if "(f, x) \<in> set (zip (cv_fields (ks ! k)) args)" for f x
    using set_zip_rightD [OF that] vok(1) vars(1) by (auto simp: s)
  show ?thesis
    by (rule branch_vars [of "cs ! k" _ _ _ _ L, OF _ _ _ args vok(2,3) vars(2,3)])
      (use ok Some vok vars k in \<open>simp_all add: apply_induct_step_def redex\<close>)
qed

lemma eval_map_vars:
  assumes "run_map (\<lambda>t. ev t env) ts = Ok vs" and "voks env L" and "\<And>t. t \<in> set ts \<Longrightarrow> scoped (length env) t"
    and "inside env X"
  shows "inside vs X"
proof
  fix v
  assume "v \<in> set vs"
  then obtain i where "i < length vs" "v = vs ! i" by (auto simp: in_set_conv_nth)
  with assms(1) have "ts ! i \<in> set ts" "ev (ts ! i) env = Ok v" by (auto simp: run_map_eq_Ok list_all2_conv_all_nth)
  with ev_vars [OF _ assms(2) _ assms(4)] assms(3) show "vin v X" by simp
qed

lemma eval_con_vars: "inside env X \<Longrightarrow> kin (eval_constructor env k) X"
proof -
  assume env: "inside env X"
  have "fin (eval_field env (i, f)) X" for i f
    using cvars_capture [OF env] by (cases f) (simp_all add: eval_field_def list.pred_set)
  then show ?thesis using cvars_capture [OF env] by (auto simp: eval_constructor_def)
qed

lemma eval_step_vars:
  assumes ok: "eval_step ev ind t env = Ok v" and env: "voks env L" and scoped: "scoped (length env) t"
    and X: "inside env X"
  shows "vin v X"
proof -
  note vars = ev_vars [OF _ env _ X] and sound = ev_sound [OF _ env, THEN denotesD(1)]
  show ?thesis
  proof (cases t)
    case (Var i)
    with ok scoped X nth_mem [of "length env - Suc i" env] show ?thesis by (auto simp: eval_step_def)
  next
    case (Data n l ts ks)
    then show ?thesis
      using ok eval_con_vars [OF X] cvars_capture [OF X] by (auto simp: eval_step_def)
  next
    case (LetT a b)
    with ok obtain w where w: "ev a env = Ok w" and v: "ev b (env @ [w]) = Ok v" by (auto simp: eval_step_def)
    from scoped LetT have sc: "scoped (length env) a" "scoped (Suc (length env)) b" by (simp_all add: scoped_node)
    from ev_vars [OF v, of L X] env sound [OF w sc(1)] sc(2) vars [OF w sc(1)] X show ?thesis by simp
  next
    case (Construct d k as)
    with ok obtain d' vs where d': "ev d env = Ok d'" and vs: "run_map (\<lambda>t. ev t env) as = Ok vs"
      and v: "v = VConstruct d' k vs" by (auto simp: eval_step_def)
    from scoped Construct have sc: "scoped (length env) d" "\<And>t. t \<in> set as \<Longrightarrow> scoped (length env) t"
      by (auto simp: scoped_node)
    from vars [OF d' sc(1)] eval_map_vars [OF vs env sc(2) X] show ?thesis by (simp add: v)
  next
    case (Induct s m bs)
    with ok obtain s' m' vs where s': "ev s env = Ok s'" and m': "ev m env = Ok m'"
      and vs: "run_map (\<lambda>t. ev t env) bs = Ok vs" and v: "ind s' m' vs = Ok v" by (auto simp: eval_step_def)
    from scoped Induct have sc: "scoped (length env) s" "scoped (length env) m" "\<And>t. t \<in> set bs \<Longrightarrow> scoped (length env) t"
      by (auto simp: scoped_node)
    from run_map_sound [OF vs env sc(3)] have "voks vs L" by (simp add: list_denotes)
    from ind_vars [OF v sound [OF s' sc(1)] sound [OF m' sc(2)] this vars [OF s' sc(1)] vars [OF m' sc(2)]]
      eval_map_vars [OF vs env sc(3) X] show ?thesis by simp
  next
    case (App f x)
    with ok obtain f' x' where f': "ev f env = Ok f'" "ev x env = Ok x'" and v: "apply_value ev f' x' = Ok v"
      by (auto simp: eval_step_def)
    from scoped App have sc: "scoped (length env) f" "scoped (length env) x" by (simp_all add: scoped_node)
    from apply_value_vars [OF v sound [OF f'(1) sc(1)] sound [OF f'(2) sc(2)]]
      vars [OF f'(1) sc(1)] vars [OF f'(2) sc(2)] show ?thesis by simp
  qed (use ok scoped in \<open>auto simp: eval_step_def scoped_node apply_j_def dest!: vars intro: cvars_capture [OF X]
      intro!: apply_fst_vars apply_snd_vars apply_identity_elim_vars\<close>)
qed

end

interpretation confined: confined_evaluation "nbe_eval n" "apply_induct n" for n
proof (induction n)
  case (Suc n)
  show ?case
    using confined_evaluation.eval_step_vars [OF Suc] confined_evaluation.apply_induct_step_vars [OF Suc]
    by unfold_locales (unfold nbe_eval.simps apply_induct.simps, blast+)
qed (unfold_locales, simp_all)

end
