(* ===== verification/NbeChecker.thy ===== *)
theory NbeChecker
  imports Nbe
begin

section \<open>The second checker: contexts, inference and certificates\<close>

text \<open>
  Models the type checker of \<open>crates/verum_proof/src/proof_checker_nbe.rs\<close>: \<open>NbeContext\<close>,
  \<open>infer_value\<close> with one definition per arm, \<open>check_value\<close>, and \<open>verify_certificate\<close>. Types
  are semantic values: a dependent family is instantiated by applying its closure. Each arm takes
  the recursive calls as one record of arguments, the last definitions tie the knot with the bound
  on the depth of the recursion.
\<close>

subsection \<open>Contexts\<close>

record nbe_binding =
  nb_ty :: val
  nb_definition :: "tm option"

record nbe_ctx =
  nc_foundation :: foundation
  nc_bindings :: "nbe_binding list"
  nc_env :: venv

definition nbe_with_foundation :: "foundation \<Rightarrow> nbe_ctx" where
  "nbe_with_foundation f = \<lparr>nc_foundation = f, nc_bindings = [], nc_env = []\<rparr>"

definition nbe_new_ctx :: nbe_ctx where
  "nbe_new_ctx = nbe_with_foundation Intensional"

definition nbe_level :: "nbe_ctx \<Rightarrow> nat" where
  "nbe_level c = length (nc_env c)"

definition nbe_extend :: "nbe_ctx \<Rightarrow> val \<Rightarrow> nbe_ctx" where
  "nbe_extend c domain_value =
     c\<lparr>nc_bindings := nc_bindings c @ [\<lparr>nb_ty = domain_value, nb_definition = None\<rparr>],
       nc_env := nc_env c @ [VNeutral (NVar (length (nc_env c)))]\<rparr>"

definition nbe_define :: "nbe_ctx \<Rightarrow> val \<Rightarrow> val \<Rightarrow> tm \<Rightarrow> nbe_ctx" where
  "nbe_define c ty v source =
     c\<lparr>nc_bindings := nc_bindings c @ [\<lparr>nb_ty = ty, nb_definition = Some source\<rparr>],
       nc_env := nc_env c @ [v]\<rparr>"

definition nbe_lookup :: "nbe_ctx \<Rightarrow> nat \<Rightarrow> val option" where
  "nbe_lookup c i =
     (let len = length (nc_bindings c)
      in if len \<le> i then None else Some (nb_ty (nc_bindings c ! (len - 1 - i))))"

definition nbe_definition :: "nbe_ctx \<Rightarrow> nat \<Rightarrow> tm option" where
  "nbe_definition c i =
     (if i + 1 \<le> length (nc_bindings c)
      then map_option (\<lambda>source. shift_up source (i + 1) 0)
        (nb_definition (nc_bindings c ! (length (nc_bindings c) - (i + 1))))
      else None)"

subsection \<open>Recursive calls\<close>

record nbe_calls =
  c_eval :: ev
  c_quote :: qt
  c_eq :: veq
  c_infer :: "nbe_ctx \<Rightarrow> tm \<Rightarrow> (check_error, val) run"
  c_check :: "nbe_ctx \<Rightarrow> tm \<Rightarrow> val \<Rightarrow> (check_error, unit) run"

text \<open>Errors carry terms, so the code reads a value back before it refuses.\<close>

definition refuse_value :: "nbe_calls \<Rightarrow> (tm \<Rightarrow> check_error) \<Rightarrow> val \<Rightarrow> nat \<Rightarrow> (check_error, 'a) run" where
  "refuse_value r e v k = run_bind (c_quote r v k) (\<lambda>t. Err (e t))"

definition refuse_pair ::
  "nbe_calls \<Rightarrow> (tm \<Rightarrow> tm \<Rightarrow> check_error) \<Rightarrow> val \<Rightarrow> val \<Rightarrow> nat \<Rightarrow> (check_error, 'a) run" where
  "refuse_pair r e expected actual k =
     run_bind (c_quote r expected k) (\<lambda>expected. run_bind (c_quote r actual k) (\<lambda>actual. Err (e expected actual)))"

definition expect_universe_value :: "val \<Rightarrow> level option" where
  "expect_universe_value v = (case v of VUniverse l \<Rightarrow> Some (level_normalize l) | _ \<Rightarrow> None)"

definition as_vpi :: "val \<Rightarrow> (val \<times> closure) option" where
  "as_vpi v = (case v of VPi d c \<Rightarrow> Some (d, c) | _ \<Rightarrow> None)"

definition as_vsigma :: "val \<Rightarrow> (val \<times> closure) option" where
  "as_vsigma v = (case v of VSigma d c \<Rightarrow> Some (d, c) | _ \<Rightarrow> None)"

definition as_vid :: "val \<Rightarrow> (val \<times> val \<times> val) option" where
  "as_vid v = (case v of VId a b c \<Rightarrow> Some (a, b, c) | _ \<Rightarrow> None)"

definition as_vdata :: "val \<Rightarrow> (string \<times> level \<times> closure list \<times> con_value list \<times> val list) option" where
  "as_vdata v = (case v of VData n l is cs args \<Rightarrow> Some (n, l, is, cs, args) | _ \<Rightarrow> None)"

definition infer_sort_value :: "nbe_calls \<Rightarrow> nbe_ctx \<Rightarrow> tm \<Rightarrow> (check_error, level) run" where
  "infer_sort_value r c t =
     run_bind (c_infer r c t) (\<lambda>kind. ok_or (expect_universe_value kind) (NotAType t))"

definition check_domain_value :: "nbe_calls \<Rightarrow> nbe_ctx \<Rightarrow> tm \<Rightarrow> val \<Rightarrow> (check_error, unit) run" where
  "check_domain_value r c t expected = map_err as_domain_mismatch (c_check r c t expected)"

definition check_index_arguments ::
  "nbe_calls \<Rightarrow> nbe_ctx \<Rightarrow> closure list \<Rightarrow> tm list \<Rightarrow> (check_error, val list) run" where
  "check_index_arguments r c telescope arguments =
     (if length telescope \<noteq> length arguments then Err (InvalidInductive ''family index arity mismatch'')
      else run_for [] (zip telescope arguments) (\<lambda>values (domain, argument).
        run_bind (apply_fields (c_eval r) domain values) (\<lambda>ty.
        run_bind (c_check r c argument ty) (\<lambda>_.
        run_bind (c_eval r argument (nc_env c)) (\<lambda>v. Ok (values @ [v]))))))"

subsection \<open>The arms of inference\<close>

definition infer_fun_ext_value :: "nbe_calls \<Rightarrow> nbe_ctx \<Rightarrow> tm \<Rightarrow> tm \<Rightarrow> tm \<Rightarrow> tm \<Rightarrow> (check_error, val) run" where
  "infer_fun_ext_value r c function_type lhs rhs pointwise =
     (if nc_foundation c \<noteq> FunctionExtensionality then Err (FoundationRequired FunctionExtensionality)
      else run_bind (infer_sort_value r c function_type) (\<lambda>_.
        run_bind (c_eval r function_type (nc_env c)) (\<lambda>function.
          case as_vpi function of
            None \<Rightarrow> refuse_value r NotAFunction function (nbe_level c)
          | Some (domain, codomain) \<Rightarrow>
              run_bind (c_check r c lhs function) (\<lambda>_.
              run_bind (c_check r c rhs function) (\<lambda>_.
              run_bind (c_eval r lhs (nc_env c)) (\<lambda>left.
              run_bind (c_eval r rhs (nc_env c)) (\<lambda>right.
              let probe = VNeutral (NVar (nbe_level c)) in
              run_bind (closure_apply (c_eval r) codomain probe) (\<lambda>ty.
              run_bind (apply_value (c_eval r) left probe) (\<lambda>l.
              run_bind (apply_value (c_eval r) right probe) (\<lambda>r'.
              run_bind (c_quote r domain (nbe_level c)) (\<lambda>dom_term.
              run_bind (c_quote r (VId ty l r') (nbe_level c + 1)) (\<lambda>body_term.
              run_bind (c_eval r (PiT dom_term body_term) (nc_env c)) (\<lambda>premise.
              run_bind (c_check r c pointwise premise) (\<lambda>_.
              Ok (VId function left right)))))))))))))))"

definition infer_let_value :: "nbe_calls \<Rightarrow> nbe_ctx \<Rightarrow> tm \<Rightarrow> tm \<Rightarrow> (check_error, val) run" where
  "infer_let_value r c v body =
     run_bind (c_infer r c v) (\<lambda>ty. run_bind (c_eval r v (nc_env c)) (\<lambda>value.
       c_infer r (nbe_define c ty value v) body))"

definition index_formation_value :: "nbe_calls \<Rightarrow> nbe_ctx \<Rightarrow> tm list \<Rightarrow> (check_error, nbe_ctx) run" where
  "index_formation_value r c indices =
     run_for c indices (\<lambda>index_context ty.
       run_bind (infer_sort_value r index_context ty) (\<lambda>_.
       run_bind (c_eval r ty (nc_env index_context)) (\<lambda>v. Ok (nbe_extend index_context v))))"

text \<open>A plain field is formed outside the constructor, a dependent one after the fields before it.\<close>

definition field_sort_value ::
  "nbe_calls \<Rightarrow> level \<Rightarrow> nbe_ctx \<Rightarrow> tm \<Rightarrow> (check_error, val) run" where
  "field_sort_value r l field_ctx ty =
     run_bind (infer_sort_value r field_ctx ty) (\<lambda>field_level.
       if \<not> level_eq (max_with field_level l) l
       then Err (InvalidInductive ''field exceeds declaration universe'')
       else c_eval r ty (nc_env field_ctx))"

definition field_recursive_value ::
  "nbe_calls \<Rightarrow> val \<Rightarrow> closure list \<Rightarrow> nbe_ctx \<Rightarrow> tm list \<Rightarrow> (check_error, val) run" where
  "field_recursive_value r declaration index_domains local arguments =
     run_bind (check_index_arguments r local index_domains arguments) (\<lambda>vs.
       apply_values (c_eval r) declaration vs)"

definition field_formation_value ::
  "nbe_calls \<Rightarrow> nbe_ctx \<Rightarrow> val \<Rightarrow> level \<Rightarrow> closure list \<Rightarrow> nbe_ctx \<Rightarrow> data_field \<Rightarrow> (check_error, nbe_ctx) run" where
  "field_formation_value r c declaration l index_domains local field =
     run_bind
       (case field of
          Value ty \<Rightarrow> field_sort_value r l c ty
        | Dependent ty \<Rightarrow> field_sort_value r l local ty
        | Recursive \<Rightarrow> field_recursive_value r declaration index_domains local []
        | RecursiveAt arguments \<Rightarrow> field_recursive_value r declaration index_domains local arguments)
       (\<lambda>domain. Ok (nbe_extend local domain))"

definition constructor_formation_value ::
  "nbe_calls \<Rightarrow> nbe_ctx \<Rightarrow> val \<Rightarrow> level \<Rightarrow> closure list \<Rightarrow> data_constructor \<Rightarrow> (check_error, unit) run" where
  "constructor_formation_value r c declaration l index_domains k =
     run_bind (run_for c (con_fields k) (field_formation_value r c declaration l index_domains)) (\<lambda>local.
       run_bind (check_index_arguments r local index_domains (con_indices k)) (\<lambda>_. Ok ()))"

definition infer_data_value ::
  "nbe_calls \<Rightarrow> nbe_ctx \<Rightarrow> tm \<Rightarrow> level \<Rightarrow> tm list \<Rightarrow> data_constructor list \<Rightarrow> (check_error, val) run" where
  "infer_data_value r c data l indices constructors =
     run_bind (index_formation_value r c indices) (\<lambda>_.
     run_bind (c_eval r data (nc_env c)) (\<lambda>declaration.
     case as_vdata declaration of
       None \<Rightarrow> Err (InvalidInductive ''unreachable'')
     | Some (_, _, index_domains, _, _) \<Rightarrow>
         run_bind (run_for () constructors (\<lambda>_. constructor_formation_value r c declaration l index_domains)) (\<lambda>_.
           c_eval r (foldr PiT indices (Universe (level_normalize l))) (nc_env c))))"

definition construct_argument_value ::
  "nbe_calls \<Rightarrow> nbe_ctx \<Rightarrow> val \<Rightarrow> val list \<Rightarrow> field_value \<times> tm \<Rightarrow> (check_error, val list) run" where
  "construct_argument_value r c declaration previous = (\<lambda>(field, argument).
     run_bind (field_value_domain (c_eval r) field previous) (\<lambda>domain.
     run_bind
       (case domain of
          Some ty \<Rightarrow> Ok ty
        | None \<Rightarrow>
            run_bind (field_value_indices (c_eval r) field previous) (\<lambda>vs.
              apply_values (c_eval r) declaration (the vs)))
       (\<lambda>expected.
     run_bind (c_check r c argument expected) (\<lambda>_.
     run_bind (c_eval r argument (nc_env c)) (\<lambda>v. Ok (previous @ [v]))))))"

definition infer_construct_value ::
  "nbe_calls \<Rightarrow> nbe_ctx \<Rightarrow> tm \<Rightarrow> nat \<Rightarrow> tm list \<Rightarrow> (check_error, val) run" where
  "infer_construct_value r c data k args =
     run_bind (c_infer r c data) (\<lambda>_.
     run_bind (c_eval r data (nc_env c)) (\<lambda>declaration.
     case as_vdata declaration of
       None \<Rightarrow> Err (InvalidInductive ''constructor owner is not a data declaration'')
     | Some (_, _, _, constructors, arguments) \<Rightarrow>
         if arguments \<noteq> [] then Err (InvalidInductive ''constructor owner is an applied family'')
         else if \<not> k < length constructors then Err (InvalidInductive ''unknown constructor'')
         else let con = constructors ! k in
           if length (cv_fields con) \<noteq> length args
           then Err (InvalidInductive ''constructor field arity mismatch'')
           else run_bind (run_for [] (zip (cv_fields con) args) (construct_argument_value r c declaration)) (\<lambda>previous.
             run_bind (run_map (\<lambda>c. apply_fields (c_eval r) c previous) (cv_indices con)) (\<lambda>result.
               apply_values (c_eval r) declaration result))))"

definition motive_index_value ::
  "nbe_calls \<Rightarrow> nbe_ctx \<Rightarrow> val \<times> val list \<Rightarrow> closure \<Rightarrow> (check_error, val \<times> val list) run" where
  "motive_index_value r c = (\<lambda>(motive_kind, references) index_domain.
     case as_vpi motive_kind of
       None \<Rightarrow> Err (InvalidInductive ''induction motive omits a family index'')
     | Some (domain, codomain) \<Rightarrow>
         run_bind (apply_fields (c_eval r) index_domain references) (\<lambda>expected.
         run_bind (c_eq r domain expected (nbe_level c + length references)) (\<lambda>eq.
         if \<not> eq then Err (InvalidInductive ''induction motive index domain mismatch'')
         else let reference = VNeutral (NVar (nbe_level c + length references))
           in run_bind (closure_apply (c_eval r) codomain reference) (\<lambda>motive_kind.
                Ok (motive_kind, references @ [reference])))))"

definition motive_target_value ::
  "nbe_calls \<Rightarrow> nbe_ctx \<Rightarrow> val \<Rightarrow> val \<Rightarrow> val list \<Rightarrow> (check_error, unit) run" where
  "motive_target_value r c declaration motive_kind references =
     (case as_vpi motive_kind of
        None \<Rightarrow> Err (InvalidInductive ''induction motive is not a family'')
      | Some (domain, codomain) \<Rightarrow>
          let depth = nbe_level c + length references in
          run_bind (apply_values (c_eval r) declaration references) (\<lambda>expected.
          run_bind (c_eq r domain expected depth) (\<lambda>eq.
          if \<not> eq then Err (InvalidInductive ''induction motive domain or universe mismatch'')
          else run_bind (closure_apply (c_eval r) codomain (VNeutral (NVar depth))) (\<lambda>kind.
            if expect_universe_value kind = None
            then Err (InvalidInductive ''induction motive domain or universe mismatch'')
            else Ok ()))))"

definition infer_induct_value ::
  "nbe_calls \<Rightarrow> nbe_ctx \<Rightarrow> tm \<Rightarrow> tm \<Rightarrow> tm list \<Rightarrow> (check_error, val) run" where
  "infer_induct_value r c scrutinee motive cases =
     run_bind (c_infer r c scrutinee) (\<lambda>family.
     case as_vdata family of
       None \<Rightarrow> Err (InvalidInductive ''induction requires a fully applied data family'')
     | Some (name, l, indices, constructor_values, values) \<Rightarrow>
         if length indices \<noteq> length values
         then Err (InvalidInductive ''induction requires a fully applied data family'')
         else let declaration = VData name l indices constructor_values [] in
           run_bind (c_quote r declaration (nbe_level c)) (\<lambda>raw_declaration.
           case as_data raw_declaration of
             None \<Rightarrow> Err (InvalidInductive ''unreachable'')
           | Some (_, _, _, constructors) \<Rightarrow>
               run_bind (c_infer r c raw_declaration) (\<lambda>_.
               run_bind (c_infer r c motive) (\<lambda>motive_ty.
               run_bind (run_for (motive_ty, []) indices (motive_index_value r c)) (\<lambda>(motive_kind, references).
               run_bind (motive_target_value r c declaration motive_kind references) (\<lambda>_.
               if length cases \<noteq> length constructors
               then Err (InvalidInductive ''induction case count mismatch'')
               else run_bind
                 (run_for () (List.enumerate 0 (zip constructors cases)) (\<lambda>_ (index, k, branch).
                   run_bind (c_eval r (induction_case_type raw_declaration motive index k) (nc_env c)) (\<lambda>expected.
                     c_check r c branch expected)))
                 (\<lambda>_. run_bind (c_eval r motive (nc_env c)) (\<lambda>m.
                   run_bind (apply_values (c_eval r) m values) (\<lambda>head.
                   run_bind (c_eval r scrutinee (nc_env c)) (\<lambda>s. apply_value (c_eval r) head s))))))))))"

definition infer_quantifier_value :: "nbe_calls \<Rightarrow> nbe_ctx \<Rightarrow> tm \<Rightarrow> tm \<Rightarrow> (check_error, val) run" where
  "infer_quantifier_value r c a b =
     run_bind (infer_sort_value r c a) (\<lambda>n.
     run_bind (c_eval r a (nc_env c)) (\<lambda>a_value.
     run_bind (infer_sort_value r (nbe_extend c a_value) b) (\<lambda>m. Ok (VUniverse (max_with n m)))))"

text \<open>The \<open>while let\<close> over a telescope of lambdas: the extended context, its domains, the body.\<close>

fun lam_telescope :: "nbe_calls \<Rightarrow> nbe_ctx \<Rightarrow> tm list \<Rightarrow> tm \<Rightarrow> (check_error, nbe_ctx \<times> tm list \<times> tm) run" where
  "lam_telescope r extended domains (Lam domain inner) =
     run_bind (infer_sort_value r extended domain) (\<lambda>_.
     run_bind (c_eval r domain (nc_env extended)) (\<lambda>v.
       lam_telescope r (nbe_extend extended v) (domains @ [domain]) inner))"
| "lam_telescope r extended domains body = Ok (extended, domains, body)"

definition infer_lam_value :: "nbe_calls \<Rightarrow> nbe_ctx \<Rightarrow> tm \<Rightarrow> (check_error, val) run" where
  "infer_lam_value r c t =
     run_bind (lam_telescope r c [] t) (\<lambda>(extended, domains, body).
     run_bind (c_infer r extended body) (\<lambda>body_type.
     run_bind (c_quote r body_type (nbe_level extended)) (\<lambda>codomain.
       c_eval r (foldr PiT domains codomain) (nc_env c))))"

definition infer_app_value :: "nbe_calls \<Rightarrow> nbe_ctx \<Rightarrow> tm \<Rightarrow> tm \<Rightarrow> (check_error, val) run" where
  "infer_app_value r c f x =
     run_bind (c_infer r c f) (\<lambda>f_ty.
       case as_vpi f_ty of
         None \<Rightarrow> refuse_value r NotAFunction f_ty (nbe_level c)
       | Some (domain, codom) \<Rightarrow>
           run_bind (check_domain_value r c x domain) (\<lambda>_.
           run_bind (c_eval r x (nc_env c)) (\<lambda>x_value. closure_apply (c_eval r) codom x_value)))"

definition infer_pair_value :: "nbe_calls \<Rightarrow> nbe_ctx \<Rightarrow> tm \<Rightarrow> tm \<Rightarrow> (check_error, val) run" where
  "infer_pair_value r c a b =
     run_bind (c_infer r c a) (\<lambda>a_ty.
     run_bind (c_infer r c b) (\<lambda>b_ty.
     run_bind (c_quote r b_ty (nbe_level c)) (\<lambda>b_ty_term.
     run_bind (c_quote r a_ty (nbe_level c)) (\<lambda>a_ty_term.
       c_eval r (SigmaT a_ty_term (lift_term_one_binder b_ty_term)) (nc_env c)))))"

definition infer_fst_value :: "nbe_calls \<Rightarrow> nbe_ctx \<Rightarrow> tm \<Rightarrow> (check_error, val) run" where
  "infer_fst_value r c p =
     run_bind (c_infer r c p) (\<lambda>p_ty.
       case as_vsigma p_ty of
         Some (domain, _) \<Rightarrow> Ok domain
       | None \<Rightarrow> refuse_value r NotASigma p_ty (nbe_level c))"

definition infer_snd_value :: "nbe_calls \<Rightarrow> nbe_ctx \<Rightarrow> tm \<Rightarrow> (check_error, val) run" where
  "infer_snd_value r c p =
     run_bind (c_infer r c p) (\<lambda>p_ty.
       case as_vsigma p_ty of
         Some (_, codomain) \<Rightarrow>
           run_bind (c_eval r p (nc_env c)) (\<lambda>p_value. closure_apply (c_eval r) codomain (apply_fst p_value))
       | None \<Rightarrow> refuse_value r NotASigma p_ty (nbe_level c))"

definition infer_id_value :: "nbe_calls \<Rightarrow> nbe_ctx \<Rightarrow> tm \<Rightarrow> tm \<Rightarrow> tm \<Rightarrow> (check_error, val) run" where
  "infer_id_value r c ty lhs rhs =
     run_bind (infer_sort_value r c ty) (\<lambda>n.
     run_bind (c_eval r ty (nc_env c)) (\<lambda>ty_value.
     run_bind (check_domain_value r c lhs ty_value) (\<lambda>_.
     run_bind (check_domain_value r c rhs ty_value) (\<lambda>_. Ok (VUniverse n)))))"

definition infer_refl_value :: "nbe_calls \<Rightarrow> nbe_ctx \<Rightarrow> tm \<Rightarrow> (check_error, val) run" where
  "infer_refl_value r c v =
     run_bind (c_infer r c v) (\<lambda>ty. run_bind (c_eval r v (nc_env c)) (\<lambda>x. Ok (VId ty x x)))"

definition eliminator_kind_value ::
  "nbe_calls \<Rightarrow> nbe_ctx \<Rightarrow> bool \<Rightarrow> tm \<Rightarrow> val \<Rightarrow> val \<Rightarrow> closure \<Rightarrow> (check_error, val) run" where
  "eliminator_kind_value r c dependent motive a_ty a_lhs motive_codom =
     (let probe = VNeutral (NVar (nbe_level c)) in
      run_bind (closure_apply (c_eval r) motive_codom probe) (\<lambda>codom_at_probe.
        if dependent then
          (case as_vpi codom_at_probe of
             None \<Rightarrow> Err (NotAValidJMotive motive)
           | Some (domain, codomain) \<Rightarrow>
               let expected = VId a_ty a_lhs probe in
               run_bind (c_eq r domain expected (nbe_level c + 1)) (\<lambda>eq.
               if \<not> eq then refuse_pair r DomainMismatch expected domain (nbe_level c + 1)
               else closure_apply (c_eval r) codomain (VNeutral (NVar (nbe_level c + 1)))))
        else Ok codom_at_probe))"

definition infer_identity_elim_value ::
  "nbe_calls \<Rightarrow> nbe_ctx \<Rightarrow> bool \<Rightarrow> tm \<Rightarrow> tm \<Rightarrow> tm \<Rightarrow> (check_error, val) run" where
  "infer_identity_elim_value r c dependent motive base scrutinee =
     run_bind (c_infer r c scrutinee) (\<lambda>s_ty.
     case as_vid s_ty of
       None \<Rightarrow> refuse_value r NotAnIdentity s_ty (nbe_level c)
     | Some (a_ty, a_lhs, a_rhs) \<Rightarrow>
         run_bind (c_infer r c motive) (\<lambda>motive_ty.
         case as_vpi motive_ty of
           None \<Rightarrow> Err (NotAValidJMotive motive)
         | Some (motive_dom, motive_codom) \<Rightarrow>
             run_bind (c_eq r motive_dom a_ty (nbe_level c)) (\<lambda>eq.
             if \<not> eq then refuse_pair r DomainMismatch a_ty motive_dom (nbe_level c)
             else run_bind (eliminator_kind_value r c dependent motive a_ty a_lhs motive_codom) (\<lambda>result_kind.
             if expect_universe_value result_kind = None then Err (NotAValidJMotive motive)
             else
               run_bind (c_eval r motive (nc_env c)) (\<lambda>motive_value.
               run_bind (apply_value (c_eval r) motive_value a_lhs) (\<lambda>base_ty.
               run_bind (if dependent then apply_value (c_eval r) base_ty (VRefl a_lhs) else Ok base_ty)
                 (\<lambda>expected_base_ty.
               run_bind (check_domain_value r c base expected_base_ty) (\<lambda>_.
               run_bind (apply_value (c_eval r) motive_value a_rhs) (\<lambda>result.
               if dependent
               then run_bind (c_eval r scrutinee (nc_env c)) (\<lambda>s. apply_value (c_eval r) result s)
               else Ok result)))))))))"

definition infer_value_step :: "nbe_calls \<Rightarrow> nbe_ctx \<Rightarrow> tm \<Rightarrow> (check_error, val) run" where
  "infer_value_step r c t =
     (case t of
        FunExt function_type lhs rhs pointwise \<Rightarrow> infer_fun_ext_value r c function_type lhs rhs pointwise
      | LetT v body \<Rightarrow> infer_let_value r c v body
      | Data _ l indices constructors \<Rightarrow> infer_data_value r c t l indices constructors
      | Construct data k args \<Rightarrow> infer_construct_value r c data k args
      | Induct scrutinee motive cases \<Rightarrow> infer_induct_value r c scrutinee motive cases
      | Var i \<Rightarrow> ok_or (nbe_lookup c i) (UnboundVariable i)
      | Universe l \<Rightarrow> Ok (VUniverse (level_successor (level_normalize l)))
      | PiT a b \<Rightarrow> infer_quantifier_value r c a b
      | Lam _ _ \<Rightarrow> infer_lam_value r c t
      | App f x \<Rightarrow> infer_app_value r c f x
      | SigmaT a b \<Rightarrow> infer_quantifier_value r c a b
      | PairT a b \<Rightarrow> infer_pair_value r c a b
      | FstT p \<Rightarrow> infer_fst_value r c p
      | SndT p \<Rightarrow> infer_snd_value r c p
      | IdT ty lhs rhs \<Rightarrow> infer_id_value r c ty lhs rhs
      | Refl v \<Rightarrow> infer_refl_value r c v
      | J motive base scrutinee \<Rightarrow> infer_identity_elim_value r c False motive base scrutinee
      | IdElim motive base scrutinee \<Rightarrow> infer_identity_elim_value r c True motive base scrutinee)"

subsection \<open>Checking against a value\<close>

definition check_inferred_value :: "nbe_calls \<Rightarrow> nbe_ctx \<Rightarrow> tm \<Rightarrow> val \<Rightarrow> (check_error, unit) run" where
  "check_inferred_value r c t expected =
     run_bind (c_infer r c t) (\<lambda>inferred.
     run_bind (c_eq r inferred expected (nbe_level c)) (\<lambda>eq.
       if eq then Ok () else refuse_pair r TypeMismatch expected inferred (nbe_level c)))"

definition check_lam_value ::
  "nbe_calls \<Rightarrow> nbe_ctx \<Rightarrow> tm \<Rightarrow> tm \<Rightarrow> val \<Rightarrow> closure \<Rightarrow> (check_error, unit) run" where
  "check_lam_value r c domain body expected_domain codomain =
     run_bind (infer_sort_value r c domain) (\<lambda>_.
     run_bind (c_eval r domain (nc_env c)) (\<lambda>actual_domain.
     run_bind (c_eq r actual_domain expected_domain (nbe_level c)) (\<lambda>eq.
     if \<not> eq then refuse_value r (\<lambda>e. TypeMismatch e domain) expected_domain (nbe_level c)
     else run_bind (closure_apply (c_eval r) codomain (VNeutral (NVar (nbe_level c)))) (\<lambda>ty.
       c_check r (nbe_extend c actual_domain) body ty))))"

definition check_pair_value ::
  "nbe_calls \<Rightarrow> nbe_ctx \<Rightarrow> tm \<Rightarrow> tm \<Rightarrow> val \<Rightarrow> closure \<Rightarrow> (check_error, unit) run" where
  "check_pair_value r c first second domain codomain =
     run_bind (c_check r c first domain) (\<lambda>_.
     run_bind (c_eval r first (nc_env c)) (\<lambda>v.
     run_bind (closure_apply (c_eval r) codomain v) (\<lambda>ty. c_check r c second ty)))"

definition check_refl_value ::
  "nbe_calls \<Rightarrow> nbe_ctx \<Rightarrow> tm \<Rightarrow> val \<Rightarrow> val \<Rightarrow> val \<Rightarrow> val \<Rightarrow> (check_error, unit) run" where
  "check_refl_value r c v expected ty lhs rhs =
     run_bind (check_domain_value r c v ty) (\<lambda>_.
     run_bind (c_eval r v (nc_env c)) (\<lambda>actual.
     run_bind (and_then (c_eq r actual lhs (nbe_level c)) (c_eq r actual rhs (nbe_level c))) (\<lambda>eq.
       if eq then Ok () else refuse_pair r TypeMismatch expected (VId ty actual actual) (nbe_level c))))"

definition check_intro_value :: "nbe_calls \<Rightarrow> nbe_ctx \<Rightarrow> tm \<Rightarrow> val \<Rightarrow> (check_error, unit) run" where
  "check_intro_value r c t expected =
     (case (as_lam t, as_vpi expected) of
        (Some (domain, body), Some (expected_domain, codomain)) \<Rightarrow>
          check_lam_value r c domain body expected_domain codomain
      | _ \<Rightarrow> (case (as_pair t, as_vsigma expected) of
          (Some (first, second), Some (domain, codomain)) \<Rightarrow> check_pair_value r c first second domain codomain
        | _ \<Rightarrow> (case (as_refl t, as_vid expected) of
            (Some v, Some (ty, lhs, rhs)) \<Rightarrow> check_refl_value r c v expected ty lhs rhs
          | _ \<Rightarrow> check_inferred_value r c t expected)))"

definition check_value_step :: "nbe_calls \<Rightarrow> nbe_ctx \<Rightarrow> tm \<Rightarrow> val \<Rightarrow> (check_error, unit) run" where
  "check_value_step r c t expected =
     (case t of
        Var index \<Rightarrow>
          run_bind (ok_or (nbe_lookup c index) (UnboundVariable index)) (\<lambda>actual.
          run_bind (c_eq r actual expected (nbe_level c)) (\<lambda>eq.
            if eq then Ok ()
            else case nbe_definition c index of
                   Some source \<Rightarrow> c_check r c source expected
                 | None \<Rightarrow> check_intro_value r c t expected))
      | LetT v body \<Rightarrow>
          run_bind (c_infer r c v) (\<lambda>ty. run_bind (c_eval r v (nc_env c)) (\<lambda>value.
            c_check r (nbe_define c ty value v) body expected))
      | _ \<Rightarrow> check_intro_value r c t expected)"

fun nbe_rec :: "nat \<Rightarrow> nbe_calls" where
  "nbe_rec 0 = \<lparr>c_eval = nbe_eval 0, c_quote = nbe_quote 0, c_eq = value_def_eq 0,
     c_infer = (\<lambda>c t. NoFuel), c_check = (\<lambda>c t v. NoFuel)\<rparr>"
| "nbe_rec (Suc n) = \<lparr>c_eval = nbe_eval (Suc n), c_quote = nbe_quote (Suc n), c_eq = value_def_eq (Suc n),
     c_infer = infer_value_step (nbe_rec n), c_check = check_value_step (nbe_rec n)\<rparr>"

definition infer_value :: "nat \<Rightarrow> nbe_ctx \<Rightarrow> tm \<Rightarrow> (check_error, val) run" where
  "infer_value n = c_infer (nbe_rec n)"

definition check_value :: "nat \<Rightarrow> nbe_ctx \<Rightarrow> tm \<Rightarrow> val \<Rightarrow> (check_error, unit) run" where
  "check_value n = c_check (nbe_rec n)"

definition nbe_infer :: "nat \<Rightarrow> nbe_ctx \<Rightarrow> tm \<Rightarrow> (check_error, tm) run" where
  "nbe_infer n c t = run_bind (infer_value n c t) (\<lambda>v. nbe_quote n v (nbe_level c))"

definition nbe_check :: "nat \<Rightarrow> nbe_ctx \<Rightarrow> tm \<Rightarrow> tm \<Rightarrow> (check_error, unit) run" where
  "nbe_check n c t expected =
     run_bind (infer_sort_value (nbe_rec n) c expected) (\<lambda>_.
     run_bind (nbe_eval n expected (nc_env c)) (\<lambda>v. check_value n c t v))"

definition verify_certificate_with_foundation :: "nat \<Rightarrow> certificate \<Rightarrow> foundation \<Rightarrow> (check_error, unit) run" where
  "verify_certificate_with_foundation n cert f =
     (let c = nbe_with_foundation f
      in run_bind (nbe_infer n c (cert_claimed_type cert)) (\<lambda>claimed_kind.
         run_bind (nbe_eval n claimed_kind (nc_env c)) (\<lambda>claimed_kind_value.
           if expect_universe_value claimed_kind_value = None
           then Err (ClaimedTypeNotAType (cert_claimed_type cert) claimed_kind)
           else run_bind (nbe_eval n (cert_claimed_type cert) (nc_env c)) (\<lambda>ty.
             check_value n c (cert_term cert) ty))))"

definition verify_certificate :: "nat \<Rightarrow> certificate \<Rightarrow> (check_error, unit) run" where
  "verify_certificate n cert = verify_certificate_with_foundation n cert Intensional"

subsection \<open>A larger bound never changes an answer\<close>

locale larger_nbe =
  fixes r r' :: nbe_calls
  assumes eval_le: "run_le (c_eval r t env) (c_eval r' t env)"
    and quote_le: "run_le (c_quote r v k) (c_quote r' v k)"
    and eq_le: "run_le (c_eq r v w k) (c_eq r' v w k)"
    and infer_le: "run_le (c_infer r c t) (c_infer r' c t)"
    and check_le: "run_le (c_check r c t v) (c_check r' c t v)"
begin

text \<open>Its evaluation part is a larger evaluation, whose lemmas on closures and values carry over.\<close>

sublocale larger_evaluation "c_eval r" "c_eval r'" "\<lambda>_ _ _. NoFuel" "\<lambda>_ _ _. NoFuel"
    "c_quote r" "c_quote r'" "\<lambda>_ _. NoFuel" "\<lambda>_ _. NoFuel" "c_eq r" "c_eq r'" "\<lambda>_ _ _. NoFuel" "\<lambda>_ _ _. NoFuel"
  by unfold_locales (simp_all add: eval_le quote_le eq_le)

lemmas nbe_le = eval_le quote_le eq_le infer_le check_le closure_le apply_value_le apply_values_le field_value_le

lemma refuse_value_le: "run_le (refuse_value r e v k) (refuse_value r' e v k)"
  by (auto simp: refuse_value_def intro!: run_mono nbe_le)

lemma refuse_pair_le: "run_le (refuse_pair r e v w k) (refuse_pair r' e v w k)"
  by (auto simp: refuse_pair_def intro!: run_mono nbe_le)

lemma infer_sort_value_le: "run_le (infer_sort_value r c t) (infer_sort_value r' c t)"
  by (auto simp: infer_sort_value_def intro!: run_mono nbe_le)

lemma check_domain_value_le: "run_le (check_domain_value r c t v) (check_domain_value r' c t v)"
  by (auto simp: check_domain_value_def intro!: run_mono nbe_le)

lemma check_index_arguments_le: "run_le (check_index_arguments r c ts vs) (check_index_arguments r' c ts vs)"
  by (auto simp: check_index_arguments_def intro!: run_mono nbe_le)

lemmas premise_le = nbe_le refuse_value_le refuse_pair_le infer_sort_value_le check_domain_value_le
  check_index_arguments_le

lemma infer_fun_ext_value_le: "run_le (infer_fun_ext_value r c T f g p) (infer_fun_ext_value r' c T f g p)"
  by (auto simp: infer_fun_ext_value_def Let_def intro!: run_mono premise_le)

lemma field_formation_value_le:
  "run_le (field_formation_value r c d l ts c' f) (field_formation_value r' c d l ts c' f)"
  by (cases f) (auto simp: field_formation_value_def field_sort_value_def field_recursive_value_def
      intro!: run_mono premise_le)

lemma infer_data_value_le: "run_le (infer_data_value r c d l ts cs) (infer_data_value r' c d l ts cs)"
  by (auto simp: infer_data_value_def index_formation_value_def constructor_formation_value_def
      intro!: run_mono premise_le field_formation_value_le)

lemma infer_construct_value_le: "run_le (infer_construct_value r c d k vs) (infer_construct_value r' c d k vs)"
  by (auto simp: infer_construct_value_def construct_argument_value_def Let_def intro!: run_mono premise_le)

lemma infer_induct_value_le: "run_le (infer_induct_value r c s m cs) (infer_induct_value r' c s m cs)"
  by (auto simp: infer_induct_value_def motive_index_value_def motive_target_value_def Let_def
      intro!: run_mono premise_le)

lemma lam_telescope_le: "run_le (lam_telescope r c ds t) (lam_telescope r' c ds t)"
  by (induction t arbitrary: c ds) (auto intro!: run_mono premise_le)

lemma infer_identity_elim_value_le:
  "run_le (infer_identity_elim_value r c dep m b s) (infer_identity_elim_value r' c dep m b s)"
  by (auto simp: infer_identity_elim_value_def eliminator_kind_value_def Let_def intro!: run_mono premise_le)

lemma infer_value_step_le: "run_le (infer_value_step r c t) (infer_value_step r' c t)"
  by (cases t)
    (auto simp: infer_value_step_def infer_let_value_def infer_quantifier_value_def infer_lam_value_def
      infer_app_value_def infer_pair_value_def infer_fst_value_def infer_snd_value_def infer_id_value_def
      infer_refl_value_def
      intro!: run_mono premise_le infer_fun_ext_value_le infer_data_value_le infer_construct_value_le
      infer_induct_value_le lam_telescope_le infer_identity_elim_value_le)

lemma check_intro_value_le: "run_le (check_intro_value r c t v) (check_intro_value r' c t v)"
  by (auto simp: check_intro_value_def check_lam_value_def check_pair_value_def check_refl_value_def
      check_inferred_value_def intro!: run_mono premise_le split: option.split)

lemma check_value_step_le: "run_le (check_value_step r c t v) (check_value_step r' c t v)"
  by (cases t) (auto simp: check_value_step_def intro!: run_mono premise_le check_intro_value_le)

end

lemma larger_nbe_trans:
  assumes "larger_nbe r r'" and "larger_nbe r' r''"
  shows "larger_nbe r r''"
  using assms unfolding larger_nbe_def by (meson run_le_trans)

lemma nbe_rec_fields [simp]:
  "c_eval (nbe_rec n) = nbe_eval n" "c_quote (nbe_rec n) = nbe_quote n" "c_eq (nbe_rec n) = value_def_eq n"
  by (cases n; simp)+

lemma larger_nbe_Suc: "larger_nbe (nbe_rec n) (nbe_rec (Suc n))"
proof (induction n)
  case (Suc n)
  show ?case
    using larger_nbe.infer_value_step_le [OF Suc] larger_nbe.check_value_step_le [OF Suc]
      larger_evaluation.evaluation_le [OF larger_evaluation_Suc, of "Suc n"]
    by unfold_locales simp_all
next
  case 0
  show ?case using larger_evaluation.evaluation_le [OF larger_evaluation_Suc, of 0] by unfold_locales simp_all
qed

interpretation nbe_bound: larger_nbe "nbe_rec n" "nbe_rec (n + k)" for n k
proof (induction k)
  case (Suc k)
  show ?case using larger_nbe_trans [OF Suc larger_nbe_Suc] by simp
qed (unfold_locales, simp_all)

lemma verify_certificate_le:
  "run_le (verify_certificate_with_foundation n cert f) (verify_certificate_with_foundation (n + k) cert f)"
  by (auto simp: verify_certificate_with_foundation_def Let_def nbe_infer_def infer_value_def check_value_def
      intro!: run_mono nbe_bound.premise_le [unfolded nbe_rec_fields])

subsection \<open>Properties\<close>

lemmas nbe_checker_eval = infer_value_step_def infer_quantifier_value_def infer_sort_value_def
  check_value_step_def check_intro_value_def check_lam_value_def nbe_lookup_def nbe_with_foundation_def
  nbe_extend_def ok_or_def view_defs as_vpi_def expect_universe_value_def contains_free_def
  contains_free_by.simps eval_step_def closure_apply_def capture_def captured_positions_def
  value_def_eq_step_def quote_step_def nbe_level_def map_variables.simps position_of_def numeral_eq_Suc

lemma identity_verified_nbe: "verify_certificate_with_foundation 5 identity_certificate f = Ok ()"
  by (simp add: verify_certificate_with_foundation_def identity_certificate_def nbe_infer_def infer_value_def
      check_value_def Let_def nbe_checker_eval cong: run_bind_weak_cong)

text \<open>The bound on the depth of recursion of the second checker, evaluation, readback and
  conversion included, decides nothing: once it returned, every larger bound returns the same.\<close>

theorem verify_certificate_stable:
  assumes "verify_certificate_with_foundation n cert f \<noteq> NoFuel" and "n \<le> m"
  shows "verify_certificate_with_foundation m cert f = verify_certificate_with_foundation n cert f"
  using verify_certificate_le [of n cert f "m - n"] assms by (auto simp: run_le_def)

theorem verify_certificate_stable_witness:
  "verify_certificate_with_foundation 9 identity_certificate Intensional =
   verify_certificate_with_foundation 5 identity_certificate Intensional"
  by (rule verify_certificate_stable) (use identity_verified_nbe [of Intensional] in simp_all)

end
