(* ===== verification/Typing.thy ===== *)
theory Typing
  imports Checker
begin

section \<open>The typing rules, and the soundness of the checker\<close>

text \<open>
  The specification of the checker: the typing rules its documentation lists (T-Var, T-Univ,
  T-Pi-Form, T-Lam-Intro, T-App-Elim, T-Conv, Sigma, identity types, local definitions, data
  declarations, induction, function extensionality), as an inductive judgement over abstract
  contexts. Universe levels are compared by value and types by the congruence \<open>conv\<close>, so nothing
  of the algorithm (normal forms, budgets, closed flags, checking modes) appears in the rules.

  The locale \<open>sound_calls\<close> is the contract between the arms of the checker and its recursive
  calls: calls that only accept derivable judgements make arms that only accept derivable
  judgements. It is interpreted on \<open>infer\<close>, \<open>check_against\<close> and \<open>def_eq\<close>.
\<close>

type_synonym env = "(tm \<times> tm option) list"

definition env_defs :: "env \<Rightarrow> defs" where
  "env_defs \<Gamma> i = (if i < length \<Gamma> then map_option (\<lambda>t. shift_up t (Suc i) 0) (snd (\<Gamma> ! i)) else None)"

definition binders :: "tm list \<Rightarrow> env \<Rightarrow> env" where
  "binders ts \<Gamma> = rev (map (\<lambda>t. (t, None)) ts) @ \<Gamma>"

subsection \<open>Telescopes\<close>

type_synonym judgement = "env \<Rightarrow> tm \<Rightarrow> tm \<Rightarrow> bool"

text \<open>The arguments \<open>vs\<close> inhabit the telescope \<open>ts\<close>, declared \<open>k\<close> binders further out.\<close>

definition args_typed :: "judgement \<Rightarrow> env \<Rightarrow> tm list \<Rightarrow> tm list \<Rightarrow> nat \<Rightarrow> bool" where
  "args_typed P \<Gamma> ts vs k \<longleftrightarrow> length ts = length vs \<and>
     (\<forall>j < length vs. P \<Gamma> (vs ! j) (instantiate_fields (shift_up (ts ! j) k j) (take j vs)))"

definition telescope_formed :: "judgement \<Rightarrow> env \<Rightarrow> tm list \<Rightarrow> bool" where
  "telescope_formed P \<Gamma> ts \<longleftrightarrow>
     (\<forall>j < length ts. \<exists>l. P (binders (take j ts) \<Gamma>) (ts ! j) (Universe l))"

definition field_domains :: "tm \<Rightarrow> data_field list \<Rightarrow> tm list" where
  "field_domains data fs = map (\<lambda>(i, f). field_domain data f i) (List.enumerate 0 fs)"

definition field_formed :: "judgement \<Rightarrow> env \<Rightarrow> tm \<Rightarrow> level \<Rightarrow> tm list \<Rightarrow> nat \<Rightarrow> data_field \<Rightarrow> bool" where
  "field_formed P \<Gamma> data l ts i f \<longleftrightarrow>
     (case recursive_indices f of
        Some vs \<Rightarrow> args_typed P \<Gamma> ts vs i
      | None \<Rightarrow> \<exists>m. P \<Gamma> (field_domain data f i) (Universe m) \<and> (\<forall>\<rho>. level_val \<rho> m \<le> level_val \<rho> l))"

definition constructor_formed :: "judgement \<Rightarrow> env \<Rightarrow> tm \<Rightarrow> level \<Rightarrow> tm list \<Rightarrow> data_constructor \<Rightarrow> bool" where
  "constructor_formed P \<Gamma> data l ts k \<longleftrightarrow>
     (\<forall>i < length (con_fields k).
        field_formed P (binders (take i (field_domains data (con_fields k))) \<Gamma>) data l ts i (con_fields k ! i)) \<and>
     args_typed P (binders (field_domains data (con_fields k)) \<Gamma>) ts (con_indices k) (length (con_fields k))"

lemma args_typed_mono: "P \<le> Q \<Longrightarrow> args_typed P \<Gamma> ts vs k \<Longrightarrow> args_typed Q \<Gamma> ts vs k"
  by (auto simp: args_typed_def le_fun_def)

lemma field_formed_mono: "P \<le> Q \<Longrightarrow> field_formed P \<Gamma> data l ts i f \<Longrightarrow> field_formed Q \<Gamma> data l ts i f"
  using args_typed_mono [of P Q] by (fastforce simp: field_formed_def le_fun_def split: option.splits)

lemma telescope_mono [mono]:
  "P \<le> Q \<Longrightarrow> telescope_formed P \<Gamma> ts \<longrightarrow> telescope_formed Q \<Gamma> ts"
  by (fastforce simp: telescope_formed_def le_fun_def)

lemma constructor_mono [mono]:
  "P \<le> Q \<Longrightarrow> constructor_formed P \<Gamma> data l ts k \<longrightarrow> constructor_formed Q \<Gamma> data l ts k"
  using args_typed_mono [of P Q] field_formed_mono [of P Q] by (fastforce simp: constructor_formed_def)

subsection \<open>The rules\<close>

inductive has_type :: "foundation \<Rightarrow> env \<Rightarrow> tm \<Rightarrow> tm \<Rightarrow> bool" for F where
  T_Var: "i < length \<Gamma> \<Longrightarrow> has_type F \<Gamma> (Var i) (shift_up (fst (\<Gamma> ! i)) (Suc i) 0)"
| T_Def: "env_defs \<Gamma> i = Some v \<Longrightarrow> has_type F \<Gamma> v T \<Longrightarrow> has_type F \<Gamma> (Var i) T"
| T_Univ: "(\<And>\<rho>. level_val \<rho> m = level_val \<rho> l + 1) \<Longrightarrow> has_type F \<Gamma> (Universe l) (Universe m)"
| T_Pi: "has_type F \<Gamma> A (Universe n) \<Longrightarrow> has_type F ((A, None) # \<Gamma>) B (Universe m) \<Longrightarrow>
    (\<And>\<rho>. level_val \<rho> k = max (level_val \<rho> n) (level_val \<rho> m)) \<Longrightarrow> has_type F \<Gamma> (PiT A B) (Universe k)"
| T_Lam: "has_type F \<Gamma> A (Universe n) \<Longrightarrow> has_type F ((A, None) # \<Gamma>) b B \<Longrightarrow> has_type F \<Gamma> (Lam A b) (PiT A B)"
| T_App: "has_type F \<Gamma> f (PiT A B) \<Longrightarrow> has_type F \<Gamma> x A \<Longrightarrow> has_type F \<Gamma> (App f x) (subst B 0 x)"
| T_Sigma: "has_type F \<Gamma> A (Universe n) \<Longrightarrow> has_type F ((A, None) # \<Gamma>) B (Universe m) \<Longrightarrow>
    (\<And>\<rho>. level_val \<rho> k = max (level_val \<rho> n) (level_val \<rho> m)) \<Longrightarrow> has_type F \<Gamma> (SigmaT A B) (Universe k)"
| T_Pair: "has_type F \<Gamma> a A \<Longrightarrow> has_type F \<Gamma> b (subst B 0 a) \<Longrightarrow> has_type F \<Gamma> (PairT a b) (SigmaT A B)"
| T_Fst: "has_type F \<Gamma> p (SigmaT A B) \<Longrightarrow> has_type F \<Gamma> (FstT p) A"
| T_Snd: "has_type F \<Gamma> p (SigmaT A B) \<Longrightarrow> has_type F \<Gamma> (SndT p) (subst B 0 (FstT p))"
| T_Id: "has_type F \<Gamma> A (Universe n) \<Longrightarrow> has_type F \<Gamma> a A \<Longrightarrow> has_type F \<Gamma> b A \<Longrightarrow>
    has_type F \<Gamma> (IdT A a b) (Universe n)"
| T_Refl: "has_type F \<Gamma> a A \<Longrightarrow> has_type F \<Gamma> (Refl a) (IdT A a a)"
| T_J: "has_type F \<Gamma> m (PiT A (Universe l)) \<Longrightarrow> has_type F \<Gamma> base (App m a) \<Longrightarrow>
    has_type F \<Gamma> s (IdT A a b) \<Longrightarrow> has_type F \<Gamma> (J m base s) (App m b)"
| T_IdElim: "has_type F \<Gamma> m (PiT A (PiT (IdT (shift_up A 1 0) (shift_up a 1 0) (Var 0)) (Universe l))) \<Longrightarrow>
    has_type F \<Gamma> base (App (App m a) (Refl a)) \<Longrightarrow> has_type F \<Gamma> s (IdT A a b) \<Longrightarrow>
    has_type F \<Gamma> (IdElim m base s) (App (App m b) s)"
| T_Let: "has_type F \<Gamma> v A \<Longrightarrow> has_type F ((A, Some v) # \<Gamma>) b B \<Longrightarrow> has_type F \<Gamma> (LetT v b) (subst B 0 v)"
| T_FunExt: "F = FunctionExtensionality \<Longrightarrow> has_type F \<Gamma> T (Universe n) \<Longrightarrow> conv (env_defs \<Gamma>) T (PiT A B) \<Longrightarrow>
    has_type F \<Gamma> f T \<Longrightarrow> has_type F \<Gamma> g T \<Longrightarrow>
    has_type F \<Gamma> p (PiT A (IdT B (App (shift_up f 1 0) (Var 0)) (App (shift_up g 1 0) (Var 0)))) \<Longrightarrow>
    has_type F \<Gamma> (FunExt T f g p) (IdT T f g)"
| T_Data: "telescope_formed (has_type F) \<Gamma> ts \<Longrightarrow>
    (\<And>k. k \<in> set cs \<Longrightarrow> constructor_formed (has_type F) \<Gamma> (Data n l ts cs) l ts k) \<Longrightarrow>
    (\<And>\<rho>. level_val \<rho> m = level_val \<rho> l) \<Longrightarrow>
    has_type F \<Gamma> (Data n l ts cs) (foldr PiT ts (Universe m))"
| T_Construct: "has_type F \<Gamma> d D \<Longrightarrow> conv (env_defs \<Gamma>) d (Data n l ts cs) \<Longrightarrow> i < length cs \<Longrightarrow>
    length (con_fields (cs ! i)) = length args \<Longrightarrow>
    (\<And>j. j < length args \<Longrightarrow> has_type F \<Gamma> (args ! j)
      (instantiate_fields (field_domain (Data n l ts cs) (con_fields (cs ! i) ! j) j) (take j args))) \<Longrightarrow>
    has_type F \<Gamma> (Construct d i args)
      (apply_terms (Data n l ts cs) (map (\<lambda>t. instantiate_fields t args) (con_indices (cs ! i))))"
| T_Induct: "has_type F \<Gamma> s (apply_terms (Data n l ts cs) vs) \<Longrightarrow> length vs = length ts \<Longrightarrow>
    has_type F \<Gamma> m (foldr PiT ts (PiT (apply_terms (shift_up (Data n l ts cs) (length ts) 0)
      (map Var (rev [0..<length ts]))) (Universe u))) \<Longrightarrow>
    length bs = length cs \<Longrightarrow>
    (\<And>i. i < length cs \<Longrightarrow> has_type F \<Gamma> (bs ! i) (induction_case_type (Data n l ts cs) m i (cs ! i))) \<Longrightarrow>
    has_type F \<Gamma> (Induct s m bs) (App (apply_terms m vs) s)"
| T_Conv: "has_type F \<Gamma> t A \<Longrightarrow> conv (env_defs \<Gamma>) A B \<Longrightarrow> has_type F \<Gamma> t B"

subsection \<open>The abstract context of a checker context\<close>

definition abs_ctx :: "ctx \<Rightarrow> env" where
  "abs_ctx c = map (\<lambda>b. (bind_ty b, bind_def b)) (rev (bindings c))"

lemma abs_ctx_simps [simp]:
  "abs_ctx (with_foundation f) = []"
  "abs_ctx (ctx_extend c t) = (t, None) # abs_ctx c"
  "abs_ctx (define_local c t v) = (t, Some v) # abs_ctx c"
  "length (abs_ctx c) = depth c"
  by (simp_all add: abs_ctx_def with_foundation_def depth_def)

lemma conv_definition_abs [simp]: "conv_definition (ctx_conversion c) = env_defs (abs_ctx c)"
  by (rule ext) (auto simp: conv_definition_def ctx_conversion_def definition_under_eq env_defs_def
      abs_ctx_def depth_def)

lemma ctx_definition_abs: "ctx_definition c i = env_defs (abs_ctx c) i"
  by (auto simp: ctx_definition_def definition_under_eq env_defs_def abs_ctx_def depth_def)

lemma lookup_typed:
  assumes "wf_ctx c" and "lookup c i = Some T"
  shows "has_type F (abs_ctx c) (Var i) T"
proof -
  have i: "i < depth c" and "T = shift_up (fst (abs_ctx c ! i)) (Suc i) 0"
    using assms by (auto simp: lookup_eq abs_ctx_def depth_def split: if_splits)
  with T_Var [of i "abs_ctx c" F] show ?thesis by simp
qed

lemma binders_Nil [simp]: "binders [] \<Gamma> = \<Gamma>"
  by (simp add: binders_def)

lemma binders_snoc: "binders (ts @ [t]) \<Gamma> = (t, None) # binders ts \<Gamma>"
  by (simp add: binders_def)

lemma whnf_conv_ctx: "whnf (ctx_conversion c) t = Ok w \<Longrightarrow> conv (env_defs (abs_ctx c)) t w"
  using whnf_conv by fastforce

lemma split_loop_conv:
  "split_loop c t vs = Ok (t', vs') \<Longrightarrow>
   \<exists>ws. vs' = vs @ ws \<and> conv (env_defs (abs_ctx c)) t (apply_terms t' (rev ws))"
proof (induction c t vs rule: split_loop.induct)
  case (1 c t vs)
  show ?case
  proof (cases "as_app t")
    case None
    with "1.prems" show ?thesis by (auto simp: split_loop.simps [of c t] apply_terms_def)
  next
    case (Some x)
    then obtain h a where t: "t = App h a" by (cases x) auto
    with "1.prems" obtain w where w: "whnf (ctx_conversion c) h = Ok w"
      and rest: "split_loop c w (vs @ [a]) = Ok (t', vs')"
      by (auto simp: split_loop.simps [of c "App h a"])
    from "1.IH" [of "(h, a)" h a w] t w rest obtain ws
      where vs': "vs' = (vs @ [a]) @ ws" and ws: "conv (env_defs (abs_ctx c)) w (apply_terms t' (rev ws))"
      by auto
    have "conv (env_defs (abs_ctx c)) t (App (apply_terms t' (rev ws)) a)"
      unfolding t by (intro conv_congs conv_trans [OF whnf_conv_ctx [OF w] ws] conv_refl)
    then show ?thesis using vs' by (auto simp: apply_terms_def)
  qed
qed

lemma split_family_conv:
  assumes "split_family c t = Ok (Some (d, vs))"
  shows "\<exists>n l ts cs. d = Data n l ts cs \<and> length vs = length ts \<and>
    conv (env_defs (abs_ctx c)) t (apply_terms d vs)"
proof -
  obtain vs' x where loop: "split_loop c t [] = Ok (d, vs')" and "vs = rev vs'"
    and x: "as_data d = Some x" "length (fst (snd (snd x))) = length vs"
    using assms by (fastforce simp: split_family_def Let_def split: option.splits if_splits)
  moreover obtain n l ts cs where "x = (n, l, ts, cs)" by (cases x) auto
  ultimately have "d = Data n l ts cs" "length vs = length ts" "vs = rev vs'" by auto
  with split_loop_conv [OF loop] show ?thesis by auto
qed

lemma case_as_data_Ok [simp]:
  "(case as_data d of None \<Rightarrow> Err e | Some (n, l, ts, cs) \<Rightarrow> f n l ts cs) = Ok x \<longleftrightarrow>
   (\<exists>n l ts cs. d = Data n l ts cs \<and> f n l ts cs = Ok x)"
  by (cases d) (simp_all add: as_data_def)

lemma binders_Cons [simp]: "binders (t # ts) \<Gamma> = binders ts ((t, None) # \<Gamma>)"
  by (simp add: binders_def)

lemma conv_foldr_PiT:
  "conv (lift_defs (length ts) \<delta>) a b \<Longrightarrow> conv \<delta> (foldr PiT ts a) (foldr PiT ts b)"
  by (induction ts arbitrary: \<delta>) (auto simp: lift_defs_lift intro!: conv_congs)

lemma level_bound: "level_eq (max_with m l) l \<Longrightarrow> level_val \<rho> m \<le> level_val \<rho> l"
  using level_eq_val [of "max_with m l" l \<rho>] by (simp add: level_val_max_with max_def split: if_splits)

subsection \<open>Every arm derives its judgement\<close>

locale sound_calls = sound_deq deq for deq :: deq +
  fixes infr :: infr and chk :: chk
  assumes infr_sound: "wf_ctx c \<Longrightarrow> infr c t = Ok T \<Longrightarrow> has_type (ctx_foundation c) (abs_ctx c) t T"
    and chk_sound: "wf_ctx c \<Longrightarrow> chk c t T = Ok () \<Longrightarrow> has_type (ctx_foundation c) (abs_ctx c) t T"
begin

lemma deq_sound: "deq (ctx_conversion c) a b = Ok True \<Longrightarrow> conv (env_defs (abs_ctx c)) a b"
  using sound by fastforce

lemma infr_whnf:
  assumes "wf_ctx c" and "infr c t = Ok T" and "whnf (ctx_conversion c) T = Ok w"
  shows "has_type (ctx_foundation c) (abs_ctx c) t w"
  using T_Conv [OF infr_sound [OF assms(1,2)] whnf_conv_ctx [OF assms(3)]] .

lemma sort_sound:
  assumes "wf_ctx c" and "infer_sort infr c t = Ok l"
  shows "has_type (ctx_foundation c) (abs_ctx c) t (Universe l)"
proof -
  obtain kind where "infr c t = Ok kind" and "expect_universe (ctx_conversion c) kind = Ok (Some l)"
    using assms(2) by (auto simp: infer_sort_def)
  then show ?thesis
    using T_Conv [OF infr_sound [OF assms(1)]] expect_universe_conv by fastforce
qed

lemma domain_sound:
  "wf_ctx c \<Longrightarrow> check_domain chk c t T = Ok () \<Longrightarrow> has_type (ctx_foundation c) (abs_ctx c) t T"
  by (simp add: check_domain_def chk_sound)

lemma indices_sound:
  "wf_ctx c \<Longrightarrow> check_indices chk c ts vs k = Ok () \<Longrightarrow>
   args_typed (has_type (ctx_foundation c)) (abs_ctx c) ts vs k"
  by (auto simp: check_indices_def args_typed_def run_for_unit_zip intro: chk_sound split: if_splits)

lemma index_formation_sound:
  "wf_ctx c \<Longrightarrow> index_formation infr c ts = Ok c' \<Longrightarrow>
   telescope_formed (has_type (ctx_foundation c)) (abs_ctx c) ts"
proof (induction ts arbitrary: c)
  case (Cons t ts)
  then obtain l where t: "infer_sort infr c t = Ok l"
    and rest: "index_formation infr (ctx_extend c t) ts = Ok c'"
    by (auto simp: index_formation_def)
  show ?case
    using Cons.IH [OF _ rest] Cons.prems(1) sort_sound [OF _ t]
    by (auto simp: telescope_formed_def less_Suc_eq_0_disj)
qed (simp add: telescope_formed_def)

lemma field_sound':
  assumes "wf_ctx c" and "field_formation infr chk data l ts c (i, f) = Ok c'"
  shows "field_formed (has_type (ctx_foundation c)) (abs_ctx c) data l ts i f"
    and "c' = ctx_extend c (field_domain data f i)"
proof -
  show "field_formed (has_type (ctx_foundation c)) (abs_ctx c) data l ts i f"
    using assms sort_sound [OF assms(1)] indices_sound [OF assms(1)] level_bound
    by (fastforce simp: field_formation_def field_formed_def Let_def split: option.splits if_splits)
  show "c' = ctx_extend c (field_domain data f i)"
    using assms(2) by (auto simp: field_formation_def Let_def)
qed

lemma fields_sound:
  "wf_ctx c \<Longrightarrow> run_for c (List.enumerate n fs) (field_formation infr chk data l ts) = Ok c' \<Longrightarrow>
   wf_ctx c' \<and> ctx_foundation c' = ctx_foundation c \<and>
   abs_ctx c' = binders (map (\<lambda>(i, f). field_domain data f i) (List.enumerate n fs)) (abs_ctx c) \<and>
   (\<forall>i < length fs. field_formed (has_type (ctx_foundation c))
     (binders (take i (map (\<lambda>(i, f). field_domain data f i) (List.enumerate n fs))) (abs_ctx c)) data l ts (n + i) (fs ! i))"
proof (induction fs arbitrary: c n)
  case (Cons f fs)
  then obtain c1 where f: "field_formation infr chk data l ts c (n, f) = Ok c1"
    and rest: "run_for c1 (List.enumerate (Suc n) fs) (field_formation infr chk data l ts) = Ok c'"
    by auto
  note f' = field_sound' [OF Cons.prems(1) f]
  from Cons.IH [OF _ rest] f' Cons.prems(1) show ?case
    by (auto simp: less_Suc_eq_0_disj)
qed simp

lemma constructor_sound':
  assumes c: "wf_ctx c" and ok: "constructor_formation infr chk c data l ts k = Ok ()"
  shows "constructor_formed (has_type (ctx_foundation c)) (abs_ctx c) data l ts k"
proof -
  obtain c' where loop: "run_for c (List.enumerate 0 (con_fields k)) (field_formation infr chk data l ts) = Ok c'"
    and idx: "check_indices chk c' ts (con_indices k) (length (con_fields k)) = Ok ()"
    using ok by (auto simp: constructor_formation_def)
  from fields_sound [OF c loop] indices_sound [OF _ idx] show ?thesis
    by (auto simp: constructor_formed_def field_domains_def)
qed

lemma data_sound':
  assumes c: "wf_ctx c" and ok: "infer_data infr chk c (Data n l ts cs) l ts cs = Ok T"
  shows "has_type (ctx_foundation c) (abs_ctx c) (Data n l ts cs) T"
proof -
  obtain c' where idx: "index_formation infr c ts = Ok c'"
    and cons: "\<And>k. k \<in> set cs \<Longrightarrow> constructor_formation infr chk c (Data n l ts cs) l ts k = Ok ()"
    and T: "T = foldr PiT ts (Universe (level_normalize l))"
    using ok by (auto simp: infer_data_def run_for_unit)
  show ?thesis
    unfolding T
    by (rule T_Data [OF index_formation_sound [OF c idx] constructor_sound' [OF c cons]])
      (simp_all add: level_val_normalize)
qed

lemma construct_sound:
  assumes c: "wf_ctx c" and ok: "infer_construct infr chk c d i args = Ok T"
  shows "has_type (ctx_foundation c) (abs_ctx c) (Construct d i args) T"
proof -
  obtain D decl n l ts cs where d: "infr c d = Ok D" and w: "whnf (ctx_conversion c) d = Ok decl"
    and decl: "decl = Data n l ts cs" and i: "i < length cs" "length (con_fields (cs ! i)) = length args"
    and args: "\<And>j. j < length args \<Longrightarrow> chk c (args ! j)
      (instantiate_fields (field_domain decl (con_fields (cs ! i) ! j) j) (take j args)) = Ok ()"
    and T: "T = apply_terms decl (map (\<lambda>t. instantiate_fields t args) (con_indices (cs ! i)))"
    using ok by (auto simp: infer_construct_def run_for_unit_zip Let_def split: if_splits)
  show ?thesis
    unfolding T decl
    by (rule T_Construct [OF infr_sound [OF c d] whnf_conv_ctx [OF w, unfolded decl] i])
      (use chk_sound [OF c args] decl in simp)
qed

lemma motive_kind_sound:
  assumes "run_for mk (List.enumerate n ts) (\<lambda>mk (i, ty).
      let scope = under (ctx_conversion c) i
      in run_bind (whnf scope mk) (\<lambda>w. case as_pi w of
           None \<Rightarrow> Err (InvalidInductive ''induction motive omits a family index'')
         | Some (domain, result) \<Rightarrow> run_bind (deq scope domain ty) (\<lambda>eq.
             if \<not> eq then Err (InvalidInductive ''induction motive index domain mismatch'') else Ok result))) = Ok mk'"
  shows "conv (lift_defs n (env_defs (abs_ctx c))) mk (foldr PiT ts mk')"
  using assms
proof (induction ts arbitrary: n mk)
  case (Cons t ts)
  let ?\<delta> = "lift_defs n (env_defs (abs_ctx c))"
  from Cons.prems obtain a b where w: "whnf (under (ctx_conversion c) n) mk = Ok (PiT a b)"
    and eq: "deq (under (ctx_conversion c) n) a t = Ok True"
    and rest: "run_for b (List.enumerate (Suc n) ts) (\<lambda>mk (i, ty).
      let scope = under (ctx_conversion c) i
      in run_bind (whnf scope mk) (\<lambda>w. case as_pi w of
           None \<Rightarrow> Err (InvalidInductive ''induction motive omits a family index'')
         | Some (domain, result) \<Rightarrow> run_bind (deq scope domain ty) (\<lambda>eq.
             if \<not> eq then Err (InvalidInductive ''induction motive index domain mismatch'') else Ok result))) = Ok mk'"
    by (auto simp: Let_def split: option.splits if_splits)
  have "conv ?\<delta> mk (PiT a b)" using whnf_conv [OF w] by simp
  also have "conv ?\<delta> (PiT a b) (PiT t (foldr PiT ts mk'))"
    using sound [OF eq] Cons.IH [OF rest] by (auto simp: lift_defs_lift intro: conv_congs)
  finally show ?case by simp
qed auto

lemma motive_target_sound:
  assumes "induct_motive_target deq c decl n mk = Ok ()"
  shows "\<exists>u. conv (lift_defs n (env_defs (abs_ctx c))) mk
    (PiT (apply_terms (shift_up decl n 0) (map Var (rev [0..<n]))) (Universe u))"
proof -
  let ?\<delta> = "lift_defs n (env_defs (abs_ctx c))"
  obtain a b u where w: "whnf (under (ctx_conversion c) n) mk = Ok (PiT a b)"
    and eq: "deq (under (ctx_conversion c) n) a (apply_terms (shift_up decl n 0) (map Var (rev [0..<n]))) = Ok True"
    and u: "expect_universe (under (ctx_conversion c) (n + 1)) b = Ok (Some u)"
    using assms by (auto simp: induct_motive_target_def Let_def split: option.splits if_splits)
  have "conv ?\<delta> mk (PiT a b)" using whnf_conv [OF w] by simp
  also have "conv ?\<delta> (PiT a b) (PiT (apply_terms (shift_up decl n 0) (map Var (rev [0..<n]))) (Universe u))"
    using sound [OF eq] expect_universe_conv [OF u] by (intro conv_congs) (simp_all add: lift_defs_lift)
  finally show ?thesis by blast
qed

lemma induct_sound:
  assumes c: "wf_ctx c" and ok: "infer_induct infr chk deq c s m bs = Ok T"
  shows "has_type (ctx_foundation c) (abs_ctx c) (Induct s m bs) T"
proof -
  obtain S w decl vs n l ts cs M mk where s: "infr c s = Ok S" "whnf (ctx_conversion c) S = Ok w"
    and fam: "split_family c w = Ok (Some (decl, vs))" and decl: "decl = Data n l ts cs"
    and m: "infr c m = Ok M" and mk: "induct_motive_kind deq c ts M = Ok mk"
    and tgt: "induct_motive_target deq c decl (length ts) mk = Ok ()"
    and len: "length bs = length cs"
    and bs: "\<And>i. i < length cs \<Longrightarrow> chk c (bs ! i) (induction_case_type decl m i (cs ! i)) = Ok ()"
    and T: "T = App (apply_terms m vs) s"
    using ok by (auto simp: infer_induct_def run_for_unit_zip split: if_splits)
  let ?\<delta> = "env_defs (abs_ctx c)"
  from split_family_conv [OF fam] decl have vs: "length vs = length ts"
    and "conv ?\<delta> w (apply_terms (Data n l ts cs) vs)" by auto
  then have s': "has_type (ctx_foundation c) (abs_ctx c) s (apply_terms (Data n l ts cs) vs)"
    using T_Conv [OF infr_whnf [OF c s]] by blast
  from motive_target_sound [OF tgt] obtain u where
    "conv (lift_defs (length ts) ?\<delta>) mk (PiT (apply_terms (shift_up decl (length ts) 0)
      (map Var (rev [0..<length ts]))) (Universe u))" by blast
  with motive_kind_sound [OF mk [unfolded induct_motive_kind_def]]
  have "conv ?\<delta> M (foldr PiT ts (PiT (apply_terms (shift_up decl (length ts) 0)
      (map Var (rev [0..<length ts]))) (Universe u)))"
    by (auto intro: conv_trans conv_foldr_PiT)
  then have m': "has_type (ctx_foundation c) (abs_ctx c) m
      (foldr PiT ts (PiT (apply_terms (shift_up decl (length ts) 0) (map Var (rev [0..<length ts]))) (Universe u)))"
    by (rule T_Conv [OF infr_sound [OF c m]])
  show ?thesis
    unfolding T
    by (rule T_Induct [OF s' vs m' [unfolded decl] len]) (use chk_sound [OF c bs] decl in simp)
qed

lemma quantifier_sound:
  assumes c: "wf_ctx c" and ok: "infer_quantifier infr c a b = Ok T"
  shows "has_type (ctx_foundation c) (abs_ctx c) (PiT a b) T"
    and "has_type (ctx_foundation c) (abs_ctx c) (SigmaT a b) T"
proof -
  obtain n m where a: "infer_sort infr c a = Ok n" and b: "infer_sort infr (ctx_extend c a) b = Ok m"
    and T: "T = Universe (max_with n m)"
    using ok by (auto simp: infer_quantifier_def)
  note ab = sort_sound [OF c a] sort_sound [OF _ b, simplified, OF c]
  show "has_type (ctx_foundation c) (abs_ctx c) (PiT a b) T"
    and "has_type (ctx_foundation c) (abs_ctx c) (SigmaT a b) T"
    unfolding T by (rule T_Pi [OF ab] T_Sigma [OF ab], simp add: level_val_max_with)+
qed

lemma lam_sound:
  "wf_ctx c \<Longrightarrow> infer_lam infr c a b = Ok T \<Longrightarrow> has_type (ctx_foundation c) (abs_ctx c) (Lam a b) T"
  using infr_sound [of "ctx_extend c a" b] by (auto simp: infer_lam_def intro: T_Lam sort_sound)

lemma app_sound:
  "wf_ctx c \<Longrightarrow> infer_app infr chk c f x = Ok T \<Longrightarrow> has_type (ctx_foundation c) (abs_ctx c) (App f x) T"
  by (auto simp: infer_app_def split: option.splits intro: T_App [OF infr_whnf domain_sound])

lemma pair_sound:
  "wf_ctx c \<Longrightarrow> infer_pair infr c a b = Ok T \<Longrightarrow> has_type (ctx_foundation c) (abs_ctx c) (PairT a b) T"
  using T_Pair [where B = "shift_up B 1 0" for B] infr_sound by (fastforce simp: infer_pair_def)

lemma projections_sound:
  "wf_ctx c \<Longrightarrow> infer_fst infr c p = Ok T \<Longrightarrow> has_type (ctx_foundation c) (abs_ctx c) (FstT p) T"
  "wf_ctx c \<Longrightarrow> infer_snd infr c p = Ok T \<Longrightarrow> has_type (ctx_foundation c) (abs_ctx c) (SndT p) T"
  by (auto simp: infer_fst_def infer_snd_def split: option.splits
      intro: T_Fst [OF infr_whnf] T_Snd [OF infr_whnf])

lemma id_sound:
  "wf_ctx c \<Longrightarrow> infer_id infr chk c A a b = Ok T \<Longrightarrow> has_type (ctx_foundation c) (abs_ctx c) (IdT A a b) T"
  by (auto simp: infer_id_def intro: T_Id sort_sound domain_sound)

lemma refl_sound:
  "wf_ctx c \<Longrightarrow> infer_refl infr c v = Ok T \<Longrightarrow> has_type (ctx_foundation c) (abs_ctx c) (Refl v) T"
  by (auto simp: infer_refl_def intro: T_Refl infr_sound)

lemma let_sound:
  "wf_ctx c \<Longrightarrow> infer_let infr c v b = Ok T \<Longrightarrow> has_type (ctx_foundation c) (abs_ctx c) (LetT v b) T"
  using infr_sound [of "define_local c _ v" b] by (auto simp: infer_let_def intro: T_Let infr_sound)

lemma fun_ext_sound:
  assumes c: "wf_ctx c" and ok: "infer_fun_ext infr chk c ft f g p = Ok T"
  shows "has_type (ctx_foundation c) (abs_ctx c) (FunExt ft f g p) T"
proof -
  obtain l a b where F: "ctx_foundation c = FunctionExtensionality" and l: "infer_sort infr c ft = Ok l"
    and w: "whnf (ctx_conversion c) ft = Ok (PiT a b)" and fg: "chk c f ft = Ok ()" "chk c g ft = Ok ()"
    and p: "chk c p (PiT a (IdT b (App (shift_up f 1 0) (Var 0)) (App (shift_up g 1 0) (Var 0)))) = Ok ()"
    and T: "T = IdT ft f g"
    using ok by (auto simp: infer_fun_ext_def split: if_splits option.splits)
  show ?thesis
    unfolding T by (rule T_FunExt [OF F sort_sound [OF c l] whnf_conv_ctx [OF w] chk_sound [OF c fg(1)]
      chk_sound [OF c fg(2)] chk_sound [OF c p]])
qed

lemma eliminator_sound:
  assumes "wf_ctx c" and m: "infr c m = Ok M" "whnf (ctx_conversion c) M = Ok (PiT md mc)"
    and dom: "deq (ctx_conversion c) md A = Ok True"
    and cod: "eliminator_codomain deq c dep m A a mc = Ok (r, n)"
    and u: "expect_universe (under (ctx_conversion c) n) r = Ok (Some l)"
  shows "has_type (ctx_foundation c) (abs_ctx c) m
    (PiT A (if dep then PiT (IdT (shift_up A 1 0) (shift_up a 1 0) (Var 0)) (Universe l) else Universe l))"
proof -
  let ?\<delta> = "env_defs (abs_ctx c)"
  have u': "conv (lift_defs n ?\<delta>) r (Universe l)" using expect_universe_conv [OF u] by simp
  have "conv (lift_defs 1 ?\<delta>) mc
      (if dep then PiT (IdT (shift_up A 1 0) (shift_up a 1 0) (Var 0)) (Universe l) else Universe l)"
  proof (cases dep)
    case True
    obtain pd where w: "whnf (under (ctx_conversion c) 1) mc = Ok (PiT pd r)" and n: "n = 2"
      and eq: "deq (under (ctx_conversion c) 1) pd (IdT (shift_up A 1 0) (shift_up a 1 0) (Var 0)) = Ok True"
      using cod True by (auto simp: eliminator_codomain_def Let_def split: option.splits if_splits)
    have "conv (lift_defs 1 ?\<delta>) mc (PiT pd r)" using whnf_conv [OF w] by simp
    also have "conv (lift_defs 1 ?\<delta>) (PiT pd r) (PiT (IdT (shift_up A 1 0) (shift_up a 1 0) (Var 0)) (Universe l))"
      using sound [OF eq] u' n by (intro conv_congs) (simp_all add: lift_defs_lift numeral_2_eq_2)
    finally show ?thesis using True by simp
  qed (use cod u' in \<open>auto simp: eliminator_codomain_def\<close>)
  with deq_sound [OF dom] show ?thesis
    by (intro T_Conv [OF infr_whnf [OF assms(1) m]] conv_congs)
qed

lemma identity_elim_sound:
  assumes c: "wf_ctx c" and ok: "infer_identity_elim infr chk deq c dep m b s = Ok T"
  shows "has_type (ctx_foundation c) (abs_ctx c) (if dep then IdElim m b s else J m b s) T"
proof -
  obtain S A x y M md mc r n l where s: "infr c s = Ok S" "whnf (ctx_conversion c) S = Ok (IdT A x y)"
    and m: "infr c m = Ok M" "whnf (ctx_conversion c) M = Ok (PiT md mc)"
    and dom: "deq (ctx_conversion c) md A = Ok True"
    and cod: "eliminator_codomain deq c dep m A x mc = Ok (r, n)"
    and u: "expect_universe (under (ctx_conversion c) n) r = Ok (Some l)"
    and b: "check_domain chk c b (if dep then App (App m x) (Refl x) else App m x) = Ok ()"
    and T: "T = (if dep then App (App m y) s else App m y)"
    using ok by (auto simp: infer_identity_elim_def Let_def split: option.splits if_splits)
  note m' = eliminator_sound [OF c m dom cod u] and b' = domain_sound [OF c b] and s' = infr_whnf [OF c s]
  show ?thesis
    using m' b' s' unfolding T by (cases dep) (auto intro: T_J T_IdElim)
qed

lemma infer_inner_sound:
  assumes c: "wf_ctx c" and ok: "infer_inner infr chk deq c t = Ok T"
  shows "has_type (ctx_foundation c) (abs_ctx c) t T"
proof (cases t)
  case (J m b s)
  with ok identity_elim_sound [OF c, of False m b s T] show ?thesis by (simp add: infer_inner_def)
next
  case (IdElim m b s)
  with ok identity_elim_sound [OF c, of True m b s T] show ?thesis by (simp add: infer_inner_def)
next
  case (Universe l)
  with ok show ?thesis
    by (auto simp: infer_inner_def level_val_successor level_val_normalize intro!: T_Univ)
qed (use c ok in \<open>auto simp: infer_inner_def intro: data_sound' construct_sound induct_sound let_sound
    quantifier_sound lam_sound app_sound pair_sound projections_sound id_sound refl_sound fun_ext_sound
    lookup_typed\<close>)

lemma infer_step_sound:
  "wf_ctx c \<Longrightarrow> infer_step infr chk deq c t = Ok T \<Longrightarrow> has_type (ctx_foundation c) (abs_ctx c) t T"
  by (cases t) (auto simp: infer_step_def intro: infer_inner_sound lookup_typed)

lemma check_inferred_sound:
  "wf_ctx c \<Longrightarrow> check_inferred infr deq c t T = Ok () \<Longrightarrow> has_type (ctx_foundation c) (abs_ctx c) t T"
  by (auto simp: check_inferred_def split: if_splits intro: T_Conv [OF infr_sound deq_sound])

lemma check_lam_sound:
  assumes c: "wf_ctx c" and ok: "check_lam infr chk deq c a b A B = Ok ()"
  shows "has_type (ctx_foundation c) (abs_ctx c) (Lam a b) (PiT A B)"
proof -
  obtain l where l: "infer_sort infr c a = Ok l" and eq: "deq (ctx_conversion c) a A = Ok True"
    and b: "chk (ctx_extend c a) b B = Ok ()"
    using ok by (auto simp: check_lam_def split: if_splits)
  have "has_type (ctx_foundation c) (abs_ctx c) (Lam a b) (PiT a B)"
    using chk_sound [OF _ b] c by (intro T_Lam [OF sort_sound [OF c l]]) simp
  then show ?thesis by (rule T_Conv) (intro conv_congs deq_sound [OF eq] conv_refl)
qed

lemma check_refl_sound:
  assumes c: "wf_ctx c" and ok: "check_refl chk deq c v E A a b = Ok ()"
  shows "has_type (ctx_foundation c) (abs_ctx c) (Refl v) (IdT A a b)"
proof -
  have v: "check_domain chk c v A = Ok ()" and eq: "deq (ctx_conversion c) v a = Ok True"
      "deq (ctx_conversion c) v b = Ok True"
    using ok by (auto simp: check_refl_def split: if_splits)
  show ?thesis
    by (rule T_Conv [OF T_Refl [OF domain_sound [OF c v]]])
      (intro conv_congs deq_sound [OF eq(1)] deq_sound [OF eq(2)] conv_refl)
qed

lemma check_intro_sound:
  assumes c: "wf_ctx c" and ok: "check_intro infr chk deq c t T = Ok ()"
  shows "has_type (ctx_foundation c) (abs_ctx c) t T"
proof -
  obtain w where w: "whnf (ctx_conversion c) T = Ok w"
    using ok by (auto simp: check_intro_def)
  consider (lam) a b A B where "t = Lam a b" "w = PiT A B" "check_lam infr chk deq c a b A B = Ok ()"
    | (pair) a b A B where "t = PairT a b" "w = SigmaT A B" "chk c a A = Ok ()" "chk c b (subst B 0 a) = Ok ()"
    | (refl) v A a b where "t = Refl v" "w = IdT A a b" "check_refl chk deq c v T A a b = Ok ()"
    | (inferred) "check_inferred infr deq c t T = Ok ()"
    using ok w by (auto simp: check_intro_def split: option.splits)
  then have "check_inferred infr deq c t T = Ok () \<or> has_type (ctx_foundation c) (abs_ctx c) t w"
    by cases (simp_all add: c check_lam_sound check_refl_sound T_Pair chk_sound)
  then show ?thesis
    using check_inferred_sound [OF c] T_Conv [OF _ conv_sym [OF whnf_conv_ctx [OF w]]] by blast
qed

lemma check_step_sound:
  assumes c: "wf_ctx c" and ok: "check_step infr chk deq c t T = Ok ()"
  shows "has_type (ctx_foundation c) (abs_ctx c) t T"
proof (cases t)
  case (LetT v b)
  with ok obtain A where v: "infr c v = Ok A" and b: "chk (define_local c A v) b (shift_up T 1 0) = Ok ()"
    by (auto simp: check_step_def)
  from T_Let [OF infr_sound [OF c v], of b "shift_up T 1 0"] chk_sound [OF _ b] c show ?thesis
    by (simp add: LetT)
next
  case (Var i)
  with ok c show ?thesis
    by (auto simp: check_step_def ctx_definition_abs split: if_splits option.splits
        intro: check_intro_sound T_Def [OF _ chk_sound] T_Conv [OF lookup_typed deq_sound])
qed (use c ok in \<open>auto simp: check_step_def intro: check_intro_sound\<close>)

end

interpretation kernel: sound_calls "def_eq n" "infer n" "check_against n" for n
proof (induction n)
  case (Suc n)
  show ?case
    using sound_calls.infer_step_sound [OF Suc] sound_calls.check_step_sound [OF Suc]
    by unfold_locales simp_all
qed (unfold_locales, simp_all)

lemma verify_sound:
  assumes "verify_with_foundation n cert f = Ok ()"
  shows "has_type f [] (cert_term cert) (cert_claimed_type cert)"
    and "\<exists>l. has_type f [] (cert_claimed_type cert) (Universe l)"
proof -
  let ?c = "with_foundation f"
  obtain K l where K: "infer n ?c (cert_claimed_type cert) = Ok K"
    and l: "expect_universe (ctx_conversion ?c) K = Ok (Some l)"
    and ok: "check_against n ?c (cert_term cert) (cert_claimed_type cert) = Ok ()"
    using assms by (auto simp: verify_with_foundation_def Let_def split: if_splits)
  show "has_type f [] (cert_term cert) (cert_claimed_type cert)"
    using kernel.chk_sound [OF _ ok] by simp
  show "\<exists>l. has_type f [] (cert_claimed_type cert) (Universe l)"
    using T_Conv [OF kernel.infr_sound [OF _ K]] expect_universe_conv [OF l] by fastforce
qed

subsection \<open>Accepted terms are well scoped and use only the selected foundation\<close>

function uses_fun_ext :: "tm \<Rightarrow> bool" where
  "uses_fun_ext t =
     (case t of
        FunExt _ _ _ _ \<Rightarrow> True
      | _ \<Rightarrow> list_ex (\<lambda>(c, b). uses_fun_ext c) (children t))"
  by pat_completeness auto
termination
  by (relation "measure size") (auto simp del: children.simps dest: children_size)

declare uses_fun_ext.simps [simp del]

fun is_fun_ext :: "tm \<Rightarrow> bool" where
  "is_fun_ext (FunExt _ _ _ _) = True"
| "is_fun_ext _ = False"

lemma uses_fun_ext_iff:
  "uses_fun_ext t \<longleftrightarrow> is_fun_ext t \<or> (\<exists>(c, b) \<in> set (children t). uses_fun_ext c)"
  by (subst uses_fun_ext.simps) (cases t; simp add: list_ex_iff del: children.simps)

lemma uses_fun_ext_simps [simp]:
  "uses_fun_ext (Var i) \<longleftrightarrow> False"
  "uses_fun_ext (Universe l) \<longleftrightarrow> False"
  "uses_fun_ext (LetT a b) \<longleftrightarrow> uses_fun_ext a \<or> uses_fun_ext b"
  "uses_fun_ext (PiT a b) \<longleftrightarrow> uses_fun_ext a \<or> uses_fun_ext b"
  "uses_fun_ext (Lam a b) \<longleftrightarrow> uses_fun_ext a \<or> uses_fun_ext b"
  "uses_fun_ext (App a b) \<longleftrightarrow> uses_fun_ext a \<or> uses_fun_ext b"
  "uses_fun_ext (SigmaT a b) \<longleftrightarrow> uses_fun_ext a \<or> uses_fun_ext b"
  "uses_fun_ext (PairT a b) \<longleftrightarrow> uses_fun_ext a \<or> uses_fun_ext b"
  "uses_fun_ext (FstT a) \<longleftrightarrow> uses_fun_ext a"
  "uses_fun_ext (SndT a) \<longleftrightarrow> uses_fun_ext a"
  "uses_fun_ext (Refl a) \<longleftrightarrow> uses_fun_ext a"
  "uses_fun_ext (IdT a b c) \<longleftrightarrow> uses_fun_ext a \<or> uses_fun_ext b \<or> uses_fun_ext c"
  "uses_fun_ext (J a b c) \<longleftrightarrow> uses_fun_ext a \<or> uses_fun_ext b \<or> uses_fun_ext c"
  "uses_fun_ext (IdElim a b c) \<longleftrightarrow> uses_fun_ext a \<or> uses_fun_ext b \<or> uses_fun_ext c"
  "uses_fun_ext (FunExt a b c d) \<longleftrightarrow> True"
  "uses_fun_ext (Construct a k as) \<longleftrightarrow> uses_fun_ext a \<or> (\<exists>x \<in> set as. uses_fun_ext x)"
  "uses_fun_ext (Induct a b as) \<longleftrightarrow> uses_fun_ext a \<or> uses_fun_ext b \<or> (\<exists>x \<in> set as. uses_fun_ext x)"
  by (rule trans [OF uses_fun_ext_iff], simp)+

lemma uses_fun_ext_shift_up [simp]: "uses_fun_ext (shift_up t a c) \<longleftrightarrow> uses_fun_ext t"
proof (induction t arbitrary: c rule: tm_children_induct)
  case (node t)
  show ?case
  proof (cases "is_var t")
    case True
    then show ?thesis by (cases t) auto
  next
    case False
    have "is_fun_ext (shift_up t a c) \<longleftrightarrow> is_fun_ext t"
      using False by (cases t) (simp_all add: up.trav_node)
    moreover have "uses_fun_ext (shift_up (fst x) a (c + snd x)) \<longleftrightarrow> uses_fun_ext (fst x)"
      if "x \<in> set (children t)" for x
      using node.IH [of "fst x" "snd x"] that by simp
    ultimately show ?thesis
      unfolding uses_fun_ext_iff [of t] uses_fun_ext_iff [of "shift_up t a c"]
      using False by (auto simp: up.trav_node children_map_children split_beta)
  qed
qed

text \<open>Every child of a formed declaration is itself judged, some binders further in.\<close>

lemma length_binders [simp]: "length (binders ts \<Gamma>) = length ts + length \<Gamma>"
  by (simp add: binders_def)

lemma length_field_domains [simp]: "length (field_domains d fs) = length fs"
  by (simp add: field_domains_def)

lemma args_typed_child:
  "args_typed P \<Gamma> ts vs k \<Longrightarrow> v \<in> set vs \<Longrightarrow> \<exists>T. P \<Gamma> v T"
  by (auto simp: args_typed_def in_set_conv_nth)

lemma field_child:
  assumes "field_formed P \<Gamma>' data l ts i f" and "(u, b) \<in> set (field_children i f)"
  shows "\<exists>k T. P \<Gamma>' (shift_up u k 0) T \<and> b + k = i"
proof (cases f)
  case (Value t)
  with assms show ?thesis
    by (auto simp: field_formed_def recursive_indices_def field_domain_def field_value_type_def)
next
  case (Dependent t)
  with assms show ?thesis
    by (auto simp: field_formed_def recursive_indices_def field_domain_def field_value_type_def
        intro!: exI [of _ 0])
qed (use assms in \<open>auto simp: field_formed_def recursive_indices_def intro!: exI [of _ 0] dest: args_typed_child\<close>)

lemma constructor_child:
  assumes ok: "constructor_formed P \<Gamma> data l ts k" and u: "(u, b) \<in> set (con_children k)"
  shows "\<exists>\<Gamma>' j T. P \<Gamma>' (shift_up u j 0) T \<and> length \<Gamma>' = length \<Gamma> + b + j"
proof (cases k)
  case (DataConstructor fs vs)
  note ok' = ok [unfolded constructor_formed_def DataConstructor data_constructor.sel]
  from u DataConstructor consider (index) "u \<in> set vs" "b = length fs"
    | (field) i where "i < length fs" "(u, b) \<in> set (field_children i (fs ! i))"
    by (auto simp: set_enumerate_iff)
  then show ?thesis
  proof cases
    case index
    then show ?thesis
      using args_typed_child [OF conjunct2 [OF ok']] by (fastforce intro: exI [of _ 0])
  next
    case field
    then show ?thesis
      using field_child [OF conjunct1 [OF ok', rule_format] field(2)] by fastforce
  qed
qed

lemma data_child:
  assumes tele: "telescope_formed P \<Gamma> ts"
    and cons: "\<And>k. k \<in> set cs \<Longrightarrow> constructor_formed P \<Gamma> (Data n l ts cs) l ts k"
    and u: "(u, b) \<in> set (children (Data n l ts cs))"
  shows "\<exists>\<Gamma>' j T. P \<Gamma>' (shift_up u j 0) T \<and> length \<Gamma>' = length \<Gamma> + b + j"
proof -
  from u consider (index) "b < length ts" "u = ts ! b" | (con) k where "k \<in> set cs" "(u, b) \<in> set (con_children k)"
    by (auto simp: set_enumerate_iff simp del: con_children.simps)
  then show ?thesis
  proof cases
    case index
    with tele obtain m where "P (binders (take b ts) \<Gamma>) u (Universe m)" by (auto simp: telescope_formed_def)
    then show ?thesis using index by (intro exI [of _ "binders (take b ts) \<Gamma>"] exI [of _ 0]) auto
  next
    case con
    then show ?thesis using constructor_child [OF cons] by blast
  qed
qed

lemma has_type_scoped: "has_type F \<Gamma> t T \<Longrightarrow> scoped (length \<Gamma>) t"
proof (induction rule: has_type.induct)
  case (T_Def \<Gamma> i v T)
  then show ?case by (simp add: env_defs_def split: if_splits)
next
  case (T_Data \<Gamma> ts cs n l m)
  have "scoped (length \<Gamma> + b) u" if "(u, b) \<in> set (children (Data n l ts cs))" for u b
    using data_child [OF T_Data.IH(1) T_Data.IH(2) that] scoped_shift_up_iff [of 0 "length \<Gamma> + b"]
    by fastforce
  then show ?case by (auto simp: scoped_node simp del: children.simps)
next
  case (T_Construct \<Gamma> d D n l ts cs i args)
  then show ?case by (auto simp: scoped_node in_set_conv_nth)
next
  case (T_Induct \<Gamma> s n l ts cs vs m u bs)
  then show ?case by (auto simp: scoped_node in_set_conv_nth)
qed (auto simp: scoped_node)

lemma intensional_no_fun_ext: "has_type F \<Gamma> t T \<Longrightarrow> F = Intensional \<Longrightarrow> \<not> uses_fun_ext t"
proof (induction rule: has_type.induct)
  case (T_Data \<Gamma> ts cs n l m)
  have "\<not> uses_fun_ext u" if "(u, b) \<in> set (children (Data n l ts cs))" for u b
    using data_child [OF T_Data.IH(1) T_Data.IH(2) that] T_Data.prems by fastforce
  then show ?case by (subst uses_fun_ext_iff) (auto simp del: children.simps)
next
  case (T_Construct \<Gamma> d D n l ts cs i args)
  then show ?case by (auto simp: in_set_conv_nth)
next
  case (T_Induct \<Gamma> s n l ts cs vs m u bs)
  then show ?case by (auto simp: in_set_conv_nth)
qed simp_all

subsection \<open>Properties\<close>

lemma abs_build_ctx: "abs_ctx (build_ctx f es) = rev es"
  using build_ctx_bindings [of f es] by (simp add: abs_ctx_def flip: rev_map)

lemma build_ctx_simps [simp]:
  "wf_ctx (build_ctx f es)" "ctx_foundation (build_ctx f es) = f"
  using build_ctx_bindings [of f es] by auto

lemma check_sound_wf:
  assumes "wf_ctx c" and "check n c t T = Ok ()"
  shows "has_type (ctx_foundation c) (abs_ctx c) t T" and "\<exists>l. has_type (ctx_foundation c) (abs_ctx c) T (Universe l)"
  using assms by (auto simp: check_def intro: kernel.chk_sound dest!: kernel.sort_sound [OF assms(1)])

text \<open>A context is in scope when each entry, type and value, is in the scope of the entries before it.\<close>

definition entries_scoped :: "(tm \<times> tm option) list \<Rightarrow> bool" where
  "entries_scoped es \<longleftrightarrow> (\<forall>k < length es. scoped k (fst (es ! k)) \<and> (\<forall>v. snd (es ! k) = Some v \<longrightarrow> scoped k v))"

text \<open>C5: Soundness of the checker in any context of assumptions and definitions: for a term in the
  scope of the context, an inferred type is derivable in the declarative type system, and so is a type
  in scope a term was checked against, which then is a type itself. Scopes are where the natural
  numbers of the model are the machine integers of the code (\<open>index_arithmetic_exact\<close>): the checker
  shifts the fields of a declaration before it infers them, and out of scope that can wrap.\<close>

theorem checker_sound:
  assumes "entries_scoped es" and "scoped (length es) t"
  shows "(infer n (build_ctx f es) t = Ok T \<longrightarrow> has_type f (rev es) t T) \<and>
    (scoped (length es) T \<and> check n (build_ctx f es) t T = Ok () \<longrightarrow>
       has_type f (rev es) t T \<and> (\<exists>l. has_type f (rev es) T (Universe l)))"
  using kernel.infr_sound [of "build_ctx f es" n t T] check_sound_wf [of "build_ctx f es" n t T]
  by (auto simp: abs_build_ctx)

theorem checker_sound_witness:
  "has_type Intensional (rev [(Universe (Concrete 0), None), (Var 0, None)]) (Var 0) (Var 1)"
proof -
  have "infer 1 (build_ctx Intensional [(Universe (Concrete 0), None), (Var 0, None)]) (Var 0) = Ok (Var 1)"
    by (simp add: build_ctx_def checker_eval)
  moreover have "entries_scoped [(Universe (Concrete 0), None), (Var 0, None)]"
    by (auto simp: entries_scoped_def less_Suc_eq scoped_node)
  ultimately show ?thesis using checker_sound [of _ "Var 0"] by fastforce
qed

text \<open>C3: Soundness of certificates: a certificate whose proof and claim are closed, as admission
  establishes, and which the checker accepts, has a derivation of its claim in the declarative type
  system, from no assumptions, and the claim is a type of some universe. Without closedness the
  compiled code is not sound: an index of 2 to the 64 minus 1 wraps to a bound variable when the field
  it stands in is shifted (\<open>index_arithmetic_exact\<close>).\<close>

theorem certificate_sound:
  assumes "scoped 0 (cert_term cert)" and "scoped 0 (cert_claimed_type cert)"
    and "verify_with_foundation n cert f = Ok ()"
  shows "has_type f [] (cert_term cert) (cert_claimed_type cert) \<and>
    (\<exists>l. has_type f [] (cert_claimed_type cert) (Universe l))"
  using verify_sound [OF assms(3)] by blast

theorem certificate_sound_witness:
  "has_type Intensional [] (Lam (Universe (Concrete 0)) (Lam (Var 0) (Var 0)))
     (PiT (Universe (Concrete 0)) (PiT (Var 0) (Var 1)))"
  using certificate_sound [OF _ _ identity_verified [of 0 Intensional]]
  by (simp add: identity_certificate_def scoped_node)

text \<open>As long as no index wraps, an accepted certificate is closed: no variable of the proof or of the
  claim is unbound, whatever else the checker was given. Admission checks the same beforehand, and so
  keeps the indices small that this rests on.\<close>

theorem certificate_closed:
  assumes "verify_with_foundation n cert f = Ok ()"
  shows "scoped 0 (cert_term cert) \<and> scoped 0 (cert_claimed_type cert)"
  using verify_sound [OF assms] has_type_scoped by fastforce

theorem certificate_closed_witness: "scoped 0 (cert_term identity_certificate) \<and> scoped 0 (cert_claimed_type identity_certificate)"
  by (rule certificate_closed [OF identity_verified [of 0 Intensional]])

text \<open>C26: The foundation gate: under the default, intensional foundation no accepted certificate
  contains function extensionality anywhere, neither in its proof nor in its claim.\<close>

theorem intensional_gate:
  assumes "verify n cert = Ok ()"
  shows "\<not> uses_fun_ext (cert_term cert) \<and> \<not> uses_fun_ext (cert_claimed_type cert)"
  using verify_sound [of n cert Intensional] assms intensional_no_fun_ext by (auto simp: verify_def)

theorem intensional_gate_witness: "\<not> uses_fun_ext (cert_term identity_certificate) \<and> \<not> uses_fun_ext (cert_claimed_type identity_certificate)"
  by (rule intensional_gate [of 4]) (use identity_verified [of 0] in \<open>simp add: verify_def\<close>)

end
