(* ===== verification/NbeScope.thy ===== *)
theory NbeScope
  imports NbeChecker Typing
begin

section \<open>The second checker accepts only well-scoped terms\<close>

text \<open>
  Whatever the second checker infers a type for, or checks against a type, has no variable outside
  its context: every part of the term is visited under the right number of binders. The locale
  \<open>scoped_calls\<close> states this of the recursive calls, and is interpreted on the checker.
\<close>

abbreviation width :: "nbe_ctx \<Rightarrow> nat" where
  "width c \<equiv> length (nc_bindings c)"

lemma width_simps [simp]:
  "width (nbe_extend c v) = Suc (width c)" "width (nbe_define c ty v s) = Suc (width c)"
  by (simp_all add: nbe_extend_def nbe_define_def)

lemma as_v_views [simp]:
  "as_vpi v = Some (d, cl) \<longleftrightarrow> v = VPi d cl" "as_vsigma v = Some (d, cl) \<longleftrightarrow> v = VSigma d cl"
  "as_vid v = Some (d, w, x) \<longleftrightarrow> v = VId d w x" "as_vdata v = Some (n, l, ts, cs, vs) \<longleftrightarrow> v = VData n l ts cs vs"
  by (cases v; auto simp: as_vpi_def as_vsigma_def as_vid_def as_vdata_def)+

lemma refuse_not_Ok [simp]: "refuse_value r e v k \<noteq> Ok x" "refuse_pair r e' v w k \<noteq> Ok x"
  by (auto simp: refuse_value_def refuse_pair_def)

lemma case_views_Ok [simp]:
  "(case as_vdata v of None \<Rightarrow> Err e | Some (n, l, ts, cs, vs) \<Rightarrow> f n l ts cs vs) = Ok x \<longleftrightarrow>
     (\<exists>n l ts cs vs. v = VData n l ts cs vs \<and> f n l ts cs vs = Ok x)"
  "(case as_vpi v of None \<Rightarrow> Err e | Some (d, cl) \<Rightarrow> g d cl) = Ok x \<longleftrightarrow> (\<exists>d cl. v = VPi d cl \<and> g d cl = Ok x)"
  "(case as_vpi v of None \<Rightarrow> refuse_value r e' w k | Some (d, cl) \<Rightarrow> g d cl) = Ok x \<longleftrightarrow>
     (\<exists>d cl. v = VPi d cl \<and> g d cl = Ok x)"
  "(case as_vsigma v of None \<Rightarrow> refuse_value r e' w k | Some (d, cl) \<Rightarrow> g d cl) = Ok x \<longleftrightarrow>
     (\<exists>d cl. v = VSigma d cl \<and> g d cl = Ok x)"
  "(case as_vid v of None \<Rightarrow> refuse_value r e' w k | Some (a, b, c) \<Rightarrow> h a b c) = Ok x \<longleftrightarrow>
     (\<exists>a b c. v = VId a b c \<and> h a b c = Ok x)"
  by (cases v; simp add: as_vpi_def as_vsigma_def as_vid_def as_vdata_def)+

lemma nbe_lookup_width: "nbe_lookup c i = Some v \<Longrightarrow> i < width c"
  by (simp add: nbe_lookup_def Let_def split: if_splits)

locale scoped_calls =
  fixes r :: nbe_calls
  assumes infer_scoped: "c_infer r c t = Ok v \<Longrightarrow> scoped (width c) t"
    and check_scoped: "c_check r c t v = Ok () \<Longrightarrow> scoped (width c) t"
begin

lemma sort_scoped: "infer_sort_value r c t = Ok l \<Longrightarrow> scoped (width c) t"
  by (auto simp: infer_sort_value_def intro: infer_scoped)

lemma domain_scoped: "check_domain_value r c t v = Ok () \<Longrightarrow> scoped (width c) t"
  by (auto simp: check_domain_value_def intro: check_scoped)

lemma index_arguments_scoped:
  assumes "check_index_arguments r c ds vs = Ok ws" and "v \<in> set vs"
  shows "scoped (width c) v"
proof -
  have "\<forall>(d, a) \<in> set ps. scoped (width c) a"
    if "run_for acc ps (\<lambda>values (domain, argument).
        run_bind (apply_fields (c_eval r) domain values) (\<lambda>ty.
        run_bind (c_check r c argument ty) (\<lambda>_.
        run_bind (c_eval r argument (nc_env c)) (\<lambda>v. Ok (values @ [v]))))) = Ok ws" for acc ps
    using that by (induction ps arbitrary: acc) (auto dest: check_scoped)
  with assms show ?thesis
    by (fastforce simp: check_index_arguments_def in_set_conv_nth in_set_zip split: if_splits)
qed

lemma index_formation_scoped:
  "index_formation_value r c ts = Ok c' \<Longrightarrow> i < length ts \<Longrightarrow> scoped (width c + i) (ts ! i)"
  unfolding index_formation_value_def
proof (induction ts arbitrary: c i)
  case (Cons t ts)
  then show ?case using sort_scoped [of c t] by (cases i) fastforce+
qed simp

lemma field_scoped:
  assumes "field_formation_value r c d l ds local f = Ok c'" and "width local = width c + i"
  shows "width c' = Suc (width local)" and "(t, b) \<in> set (field_children i f) \<Longrightarrow> scoped (width c + b) t"
  using assms sort_scoped [of c] sort_scoped [of local] index_arguments_scoped [of local]
  by (cases f; auto simp: field_formation_value_def field_sort_value_def field_recursive_value_def)+

lemma fields_scoped:
  "run_for local fs (field_formation_value r c d l ds) = Ok c' \<Longrightarrow> width local = width c + n \<Longrightarrow>
   width c' = width c + n + length fs \<and>
   (\<forall>i < length fs. \<forall>(t, b) \<in> set (field_children (n + i) (fs ! i)). scoped (width c + b) t)"
proof (induction fs arbitrary: local n)
  case (Cons f fs)
  then obtain local' where f: "field_formation_value r c d l ds local f = Ok local'"
    and rest: "run_for local' fs (field_formation_value r c d l ds) = Ok c'" by auto
  note s = field_scoped [OF f Cons.prems(2)]
  from Cons.IH [OF rest, of "Suc n"] s(1) Cons.prems(2) have IH: "width c' = width c + n + length (f # fs)"
    "\<And>i. i < length fs \<Longrightarrow> \<forall>(t, b) \<in> set (field_children (Suc n + i) (fs ! i)). scoped (width c + b) t" by auto
  have "\<forall>(t, b) \<in> set (field_children (n + i) ((f # fs) ! i)). scoped (width c + b) t" if "i < length (f # fs)" for i
    using that s(2) IH(2) by (cases i) auto
  with IH(1) show ?case by blast
qed simp

lemma data_scoped:
  assumes ok: "infer_data_value r c (Data n l ts cs) l ts cs = Ok v"
  shows "scoped (width c) (Data n l ts cs)"
proof -
  obtain c' d where idx: "index_formation_value r c ts = Ok c'"
    and cons: "\<And>k. k \<in> set cs \<Longrightarrow> \<exists>ds. constructor_formation_value r c d l ds k = Ok ()"
    using ok by (fastforce simp: infer_data_value_def run_for_unit)
  have "scoped (width c + b) t" if "k \<in> set cs" "(t, b) \<in> set (con_children k)" for k t b
  proof (cases k)
    case (DataConstructor fs vs)
    from cons [OF that(1)] obtain ds local ws
      where loop: "run_for c fs (field_formation_value r c d l ds) = Ok local"
        and vs: "check_index_arguments r local ds vs = Ok ws"
      by (auto simp: constructor_formation_value_def DataConstructor)
    from fields_scoped [OF loop, of 0] index_arguments_scoped [OF vs] that(2) show ?thesis
      by (fastforce simp: DataConstructor set_enumerate_iff)
  qed
  moreover have "scoped (width c + i) (ts ! i)" if "i < length ts" for i
    by (rule index_formation_scoped [OF idx that])
  ultimately show ?thesis by (auto simp: scoped_node set_enumerate_iff simp del: con_children.simps)
qed

lemma construct_scoped:
  assumes ok: "infer_construct_value r c d k args = Ok v"
  shows "scoped (width c) (Construct d k args)"
proof -
  obtain w D con previous where d: "c_infer r c d = Ok w" and len: "length (cv_fields con) = length args"
    and loop: "run_for [] (zip (cv_fields con) args) (construct_argument_value r c D) = Ok previous"
    using ok by (auto simp: infer_construct_value_def Let_def split: if_splits)
  have "\<forall>(f, a) \<in> set ps. scoped (width c) a"
    if "run_for acc ps (construct_argument_value r c D) = Ok previous" for acc ps
    using that by (induction ps arbitrary: acc) (auto simp: construct_argument_value_def dest: check_scoped)
  with loop len have "\<forall>a \<in> set args. scoped (width c) a" by (fastforce simp: in_set_conv_nth in_set_zip)
  with infer_scoped [OF d] show ?thesis by (auto simp: scoped_node)
qed

lemma induct_scoped:
  assumes ok: "infer_induct_value r c s m bs = Ok v"
  shows "scoped (width c) (Induct s m bs)"
proof -
  obtain family kind raw cs where s: "c_infer r c s = Ok family" and m: "c_infer r c m = Ok kind"
    and len: "length bs = length (cs :: data_constructor list)"
    and loop: "run_for () (List.enumerate 0 (zip cs bs)) (\<lambda>_ (index, k, branch).
        run_bind (c_eval r (induction_case_type raw m index k) (nc_env c)) (\<lambda>expected. c_check r c branch expected)) = Ok ()"
    using ok by (auto simp: infer_induct_value_def Let_def split: if_splits)
  have "scoped (width c) (bs ! i)" if "i < length bs" for i
    using loop [unfolded run_for_unit_zip [OF len [symmetric]]] that check_scoped by fastforce
  then show ?thesis using infer_scoped [OF s] infer_scoped [OF m] by (auto simp: scoped_node in_set_conv_nth)
qed

lemma lam_scoped:
  "lam_telescope r c ds t = Ok (c', ds', b) \<Longrightarrow> scoped (width c') b \<Longrightarrow> scoped (width c) t"
  by (induction t arbitrary: c ds) (fastforce simp: scoped_node dest: sort_scoped)+

lemma infer_step_scoped:
  assumes ok: "infer_value_step r c t = Ok v"
  shows "scoped (width c) t"
proof (cases t)
  case (Lam A b)
  with ok lam_scoped [of c "[]" t] show ?thesis
    by (auto simp: infer_value_step_def infer_lam_value_def dest!: infer_scoped)
next
  case (Data n l ts cs)
  with ok data_scoped show ?thesis by (simp add: infer_value_step_def)
next
  case (Construct d k args)
  with ok construct_scoped show ?thesis by (simp add: infer_value_step_def)
next
  case (Induct s m bs)
  with ok induct_scoped show ?thesis by (simp add: infer_value_step_def)
qed (use ok in \<open>auto simp: infer_value_step_def scoped_node infer_fun_ext_value_def infer_let_value_def
    infer_quantifier_value_def infer_app_value_def infer_pair_value_def infer_fst_value_def infer_snd_value_def
    infer_id_value_def infer_refl_value_def infer_identity_elim_value_def Let_def
    split: if_splits
    dest: infer_scoped check_scoped sort_scoped domain_scoped nbe_lookup_width\<close>)

lemma scoped_intros:
  "scoped n a \<Longrightarrow> scoped (Suc n) b \<Longrightarrow> scoped n (Lam a b)" "scoped n a \<Longrightarrow> scoped n b \<Longrightarrow> scoped n (PairT a b)"
  "scoped n a \<Longrightarrow> scoped n (Refl a)" "scoped n a \<Longrightarrow> scoped (Suc n) b \<Longrightarrow> scoped n (LetT a b)"
  by (simp_all add: scoped_node)

lemma check_intros_scoped:
  "check_lam_value r c A b d cl = Ok () \<Longrightarrow> scoped (width c) (Lam A b)"
  "check_pair_value r c x y d cl = Ok () \<Longrightarrow> scoped (width c) (PairT x y)"
  "check_refl_value r c x e d v w = Ok () \<Longrightarrow> scoped (width c) (Refl x)"
  "check_inferred_value r c t e = Ok () \<Longrightarrow> scoped (width c) t"
  by (auto simp: check_lam_value_def check_pair_value_def check_refl_value_def check_inferred_value_def
      dest!: infer_scoped check_scoped sort_scoped domain_scoped intro!: scoped_intros split: if_splits)

lemma check_intro_scoped: "check_intro_value r c t v = Ok () \<Longrightarrow> scoped (width c) t"
  by (auto simp: check_intro_value_def split: option.splits dest: check_intros_scoped)

lemma check_step_scoped: "check_value_step r c t v = Ok () \<Longrightarrow> scoped (width c) t"
  by (cases t) (auto simp: check_value_step_def dest!: infer_scoped check_scoped nbe_lookup_width check_intro_scoped
      intro!: scoped_intros(4))

end

interpretation nbe_scope: scoped_calls "nbe_rec n" for n
proof (induction n)
  case (Suc n)
  show ?case
    using scoped_calls.infer_step_scoped [OF Suc] scoped_calls.check_step_scoped [OF Suc]
    by unfold_locales simp_all
qed (unfold_locales, simp_all)

end
