(* ===== verification/Weakening.thy ===== *)
theory Weakening
  imports Typing Stability
begin

section \<open>Weakening of the type system\<close>

text \<open>
  A derivable judgement stays derivable when the context grows by entries anywhere in it: the
  term and its type are shifted past them. The helpers that read a declaration commute with
  shifting, so every typing rule does.
\<close>

subsection \<open>Shifting the types a declaration yields\<close>

definition shift_telescope :: "nat \<Rightarrow> nat \<Rightarrow> tm list \<Rightarrow> tm list" where
  "shift_telescope a c ts = map (\<lambda>(i, t). shift_up t a (c + i)) (List.enumerate 0 ts)"

lemma shift_telescope_Nil [simp]: "shift_telescope a c [] = []"
  by (simp add: shift_telescope_def)

lemma length_shift_telescope [simp]: "length (shift_telescope a c ts) = length ts"
  by (simp add: shift_telescope_def)

lemma nth_shift_telescope [simp]: "i < length ts \<Longrightarrow> shift_telescope a c ts ! i = shift_up (ts ! i) a (c + i)"
  by (simp add: shift_telescope_def nth_enumerate_eq)

lemma shift_telescope_Cons: "shift_telescope a c (t # ts) = shift_up t a c # shift_telescope a (Suc c) ts"
  by (rule nth_equalityI) (auto simp: less_Suc_eq_0_disj)

lemma shift_telescope_append:
  "shift_telescope a c (ts @ us) = shift_telescope a c ts @ shift_telescope a (c + length ts) us"
  by (induction ts arbitrary: c) (simp_all add: shift_telescope_Cons)

lemma take_shift_telescope: "take i (shift_telescope a c ts) = shift_telescope a c (take i ts)"
  by (rule nth_equalityI) auto

lemma shift_up_foldr_PiT:
  "shift_up (foldr PiT ts r) a c = foldr PiT (shift_telescope a c ts) (shift_up r a (c + length ts))"
  by (induction ts arbitrary: c) (simp_all add: shift_telescope_Cons up.trav_node)

lemma shift_up_instantiate_fields:
  "shift_up (instantiate_fields t args) a c =
   instantiate_fields (shift_up t a (c + length args)) (map (\<lambda>x. shift_up x a c) args)"
proof (induction args arbitrary: t rule: rev_induct)
  case (snoc x args)
  show ?case
    using shift_up_subst [of t 0 "shift_up x (length args) 0" a "c + length args"]
      shift_up_commute [of 0 c x a "length args"]
    by (simp add: instantiate_fields_snoc snoc.IH)
qed simp

abbreviation shift_field :: "nat \<Rightarrow> nat \<Rightarrow> nat \<Rightarrow> data_field \<Rightarrow> data_field" where
  "shift_field a c \<equiv> map_field (\<lambda>t b. shift_up t a (c + b))"

abbreviation shift_con :: "nat \<Rightarrow> nat \<Rightarrow> data_constructor \<Rightarrow> data_constructor" where
  "shift_con a c \<equiv> map_constructor (\<lambda>t b. shift_up t a (c + b))"

lemma recursive_indices_shift:
  "recursive_indices (shift_field a c i f) = map_option (map (\<lambda>t. shift_up t a (c + i))) (recursive_indices f)"
  by (cases f) (simp_all add: recursive_indices_def)

lemma shift_up_field_domain:
  "shift_up (field_domain d f i) a (c + i) = field_domain (shift_up d a c) (shift_field a c i f) i"
  using shift_up_commute [of 0 c _ a i]
  by (cases f) (simp_all add: field_domain_def field_value_type_def recursive_indices_def shift_up_apply_terms)

lemma field_domains_shift:
  "field_domains (shift_up d a c) (con_fields (shift_con a c k)) = shift_telescope a c (field_domains d (con_fields k))"
  by (rule nth_equalityI)
    (simp_all add: field_domains_def con_fields_map_constructor nth_enumerate_eq shift_up_field_domain)

lemma shift_up_rebind_fields:
  assumes "\<And>p. p \<in> set ps \<Longrightarrow> p < d"
  shows "shift_up (rebind_fields t ps d) a (c + d) = rebind_fields (shift_up t a (c + length ps)) ps d"
proof -
  have "map (\<lambda>x. shift_up x a (c + d)) (map (\<lambda>p. Var (d - 1 - p)) ps) = map (\<lambda>p. Var (d - 1 - p)) ps"
    using assms by fastforce
  moreover have "shift_up (shift_up t d (length ps)) a (c + d + length ps) =
      shift_up (shift_up t a (c + length ps)) d (length ps)"
    using shift_up_commute [of "length ps" "c + length ps" t a d] by (simp add: ac_simps)
  ultimately show ?thesis
    unfolding rebind_fields_def shift_up_instantiate_fields length_map by (simp only:)
qed

lemma case_domains_shift:
  "\<forall>p \<in> set ps. p < length ds \<Longrightarrow> case_domains d m ds ps fs = (ds', ps') \<Longrightarrow>
   case_domains (shift_up d a c) (shift_up m a c) (shift_telescope a c ds) ps
     (map (\<lambda>(i, f). shift_field a c i f) (List.enumerate (length ps) fs)) = (shift_telescope a c ds', ps') \<and>
   (\<forall>p \<in> set ps'. p < length ds') \<and> length ps' = length ps + length fs"
proof (induction d m ds ps fs rule: case_domains.induct)
  case (2 d m ds ps f fs)
  let ?dom = "rebind_fields (field_domain d f (length ps)) ps (length ds)"
  let ?hyp = "case recursive_indices f of None \<Rightarrow> [] | Some ts \<Rightarrow>
    [App (apply_terms (shift_up m (length ds + 1) 0) (map (\<lambda>t. rebind_fields t ps (length ds + 1)) ts)) (Var 0)]"
  have dom: "shift_up ?dom a (c + length ds) =
      rebind_fields (field_domain (shift_up d a c) (shift_field a c (length ps) f) (length ps)) ps (length ds)"
    using "2.prems"(1) by (subst shift_up_rebind_fields) (simp_all add: shift_up_field_domain)
  have hyp: "shift_telescope a (c + length ds + 1) ?hyp = (case recursive_indices (shift_field a c (length ps) f) of
      None \<Rightarrow> [] | Some ts \<Rightarrow> [App (apply_terms (shift_up (shift_up m a c) (length ds + 1) 0)
        (map (\<lambda>t. rebind_fields t ps (length ds + 1)) ts)) (Var 0)])"
  proof (cases "recursive_indices f")
    case (Some ts)
    have "shift_up (rebind_fields t ps (length ds + 1)) a (c + (length ds + 1)) =
        rebind_fields (shift_up t a (c + length ps)) ps (length ds + 1)" for t
      using "2.prems"(1) by (intro shift_up_rebind_fields) (auto simp: less_Suc_eq)
    with Some show ?thesis
      using shift_up_commute [of 0 c m a "length ds + 1"]
      by (simp add: recursive_indices_shift shift_telescope_Cons up.trav_node shift_up_apply_terms comp_def)
  qed (simp add: recursive_indices_shift)
  have app: "shift_telescope a c (ds @ [?dom] @ ?hyp) =
      shift_telescope a c ds @ [shift_up ?dom a (c + length ds)] @ shift_telescope a (c + length ds + 1) ?hyp"
    by (simp add: shift_telescope_append shift_telescope_Cons)
  have "\<forall>p \<in> set (ps @ [length ds]). p < length (ds @ [?dom] @ ?hyp)" using "2.prems"(1) by auto
  moreover have "case_domains d m (ds @ [?dom] @ ?hyp) (ps @ [length ds]) fs = (ds', ps')"
    using "2.prems"(2) by (simp add: Let_def)
  ultimately have "case_domains (shift_up d a c) (shift_up m a c) (shift_telescope a c (ds @ [?dom] @ ?hyp)) (ps @ [length ds])
      (map (\<lambda>(i, f). shift_field a c i f) (List.enumerate (length (ps @ [length ds])) fs)) = (shift_telescope a c ds', ps') \<and>
      (\<forall>p \<in> set ps'. p < length ds') \<and> length ps' = length (ps @ [length ds]) + length fs"
    by (rule "2.IH" [OF refl refl refl])
  then show ?case unfolding app dom hyp by (simp add: Let_def)
qed simp

lemma shift_up_induction_case_type:
  "shift_up (induction_case_type d m i k) a c = induction_case_type (shift_up d a c) (shift_up m a c) i (shift_con a c k)"
proof -
  obtain ds ps where cd: "case_domains d m [] [] (con_fields k) = (ds, ps)" by fastforce
  from case_domains_shift [OF _ cd, of a c]
  have cd': "case_domains (shift_up d a c) (shift_up m a c) [] [] (con_fields (shift_con a c k)) = (shift_telescope a c ds, ps)"
    and ps: "\<And>p. p \<in> set ps \<Longrightarrow> p < length ds" and len: "length ps = length (con_fields k)"
    by (auto simp: con_fields_map_constructor)
  have "shift_up (rebind_fields t ps (length ds)) a (c + length ds) =
      rebind_fields (shift_up t a (c + length (con_fields k))) ps (length ds)" for t
    using shift_up_rebind_fields [OF ps, where a = a and c = c] by (simp add: len)
  moreover have "shift_act a (length ds - Suc p) (c + length ds) = Var (length ds - Suc p)" if "p \<in> set ps" for p
    using ps [OF that] by auto
  ultimately show ?thesis
    using shift_up_commute [of 0 c _ a "length ds"] unfolding induction_case_type_def cd cd' Let_def prod.case shift_up_foldr_PiT
    by (simp add: up.trav_node shift_up_apply_terms con_fields_map_constructor comp_def cong: map_cong)
qed

subsection \<open>Shifted contexts\<close>

text \<open>\<open>env_shift a c \<Gamma> \<Delta>\<close>: every entry of \<open>\<Gamma>\<close> is found in \<open>\<Delta>\<close> with its type and its definition shifted,
  past \<open>a\<close> entries that come after the innermost \<open>c\<close> ones.\<close>

definition env_shift :: "nat \<Rightarrow> nat \<Rightarrow> env \<Rightarrow> env \<Rightarrow> bool" where
  "env_shift a c \<Gamma> \<Delta> \<longleftrightarrow> defs_shift a c (env_defs \<Gamma>) (env_defs \<Delta>) \<and>
     (\<forall>i < length \<Gamma>. let j = if c \<le> i then i + a else i in
        j < length \<Delta> \<and> shift_up (fst (\<Delta> ! j)) (Suc j) 0 = shift_up (shift_up (fst (\<Gamma> ! i)) (Suc i) 0) a c)"

lemma env_shift_append: "env_shift (length \<Delta>) 0 \<Gamma> (\<Delta> @ \<Gamma>)"
  by (auto simp: env_shift_def defs_shift_def env_defs_def nth_append shift_up_add Let_def ac_simps)

lemma env_defs_Cons:
  "env_defs ((A, v) # \<Gamma>) i = (if i = 0 then map_option (\<lambda>t. shift_up t 1 0) v else lift_defs 1 (env_defs \<Gamma>) i)"
  by (cases i) (auto simp: env_defs_def lift_defs_def option.map_comp comp_def shift_up_add)

lemma env_shift_Cons:
  assumes "env_shift a c \<Gamma> \<Delta>"
  shows "env_shift a (Suc c) ((A, v) # \<Gamma>) ((shift_up A a c, map_option (\<lambda>t. shift_up t a c) v) # \<Delta>)"
proof -
  have lift: "defs_shift a (c + 1) (lift_defs 1 (env_defs \<Gamma>)) (lift_defs 1 (env_defs \<Delta>))"
    using assms by (intro defs_shift_lift) (simp add: env_shift_def)
  have "defs_shift a (Suc c) (env_defs ((A, v) # \<Gamma>)) (env_defs ((shift_up A a c, map_option (\<lambda>t. shift_up t a c) v) # \<Delta>))"
    unfolding defs_shift_def
  proof (intro allI impI)
    fix i w
    assume w: "env_defs ((A, v) # \<Gamma>) i = Some w"
    show "env_defs ((shift_up A a c, map_option (\<lambda>t. shift_up t a c) v) # \<Delta>) (if Suc c \<le> i then i + a else i) =
        Some (shift_up w a (Suc c))"
      using lift [unfolded defs_shift_def, rule_format, of i w] w shift_up_commute [of 0 c _ a 1]
      by (cases i) (auto simp: env_defs_Cons)
  qed
  moreover have "let j = if Suc c \<le> i then i + a else i in j < Suc (length \<Delta>) \<and>
      shift_up (fst (((shift_up A a c, map_option (\<lambda>t. shift_up t a c) v) # \<Delta>) ! j)) (Suc j) 0 =
      shift_up (shift_up (fst (((A, v) # \<Gamma>) ! i)) (Suc i) 0) a (Suc c)" if "i < Suc (length \<Gamma>)" for i
  proof (cases i)
    case 0
    then show ?thesis using shift_up_commute [of 0 c A a 1] by simp
  next
    case (Suc k)
    let ?j = "if c \<le> k then k + a else k"
    have j: "?j < length \<Delta>" "shift_up (fst (\<Delta> ! ?j)) (Suc ?j) 0 = shift_up (shift_up (fst (\<Gamma> ! k)) (Suc k) 0) a c"
      using assms that Suc by (auto simp: env_shift_def Let_def)
    have "shift_up (fst (\<Delta> ! ?j)) (Suc (Suc ?j)) 0 = shift_up (shift_up (fst (\<Delta> ! ?j)) (Suc ?j) 0) 1 0"
      by (simp add: shift_up_add)
    also have "\<dots> = shift_up (shift_up (shift_up (fst (\<Gamma> ! k)) (Suc k) 0) 1 0) a (Suc c)"
      unfolding j(2) using shift_up_commute [of 0 c _ a 1] by simp
    also have "\<dots> = shift_up (shift_up (fst (\<Gamma> ! k)) (Suc (Suc k)) 0) a (Suc c)" by (simp add: shift_up_add)
    finally show ?thesis using Suc j(1) by (auto simp: Let_def split: if_splits)
  qed
  ultimately show ?thesis by (simp add: env_shift_def)
qed

lemma env_shift_binders: "env_shift a c \<Gamma> \<Delta> \<Longrightarrow> env_shift a (c + length ts) (binders ts \<Gamma>) (binders (shift_telescope a c ts) \<Delta>)"
proof (induction ts arbitrary: c \<Gamma> \<Delta>)
  case (Cons t ts)
  from Cons.IH [OF env_shift_Cons [OF Cons.prems, of t None]] show ?case by (simp add: shift_telescope_Cons)
qed simp

lemma env_shift_conv:
  "env_shift a c \<Gamma> \<Delta> \<Longrightarrow> conv (env_defs \<Gamma>) t u \<Longrightarrow> conv (env_defs \<Delta>) (shift_up t a c) (shift_up u a c)"
  unfolding env_shift_def by (blast intro: conv_shift_up)

subsection \<open>Weakening\<close>

definition shifted :: "nat \<Rightarrow> judgement \<Rightarrow> judgement" where
  "shifted a P \<Gamma> t T \<longleftrightarrow> (\<forall>c \<Delta>. env_shift a c \<Gamma> \<Delta> \<longrightarrow> P \<Delta> (shift_up t a c) (shift_up T a c))"

lemma args_typed_shift:
  assumes "args_typed (shifted a P) \<Gamma> ts vs k" and \<Delta>: "env_shift a (c + k) \<Gamma> \<Delta>"
  shows "args_typed P \<Delta> (shift_telescope a c ts) (map (\<lambda>t. shift_up t a (c + k)) vs) k"
  unfolding args_typed_def
proof (intro conjI allI impI)
  fix j
  assume j: "j < length (map (\<lambda>t. shift_up t a (c + k)) vs)"
  with assms have "P \<Delta> (shift_up (vs ! j) a (c + k)) (shift_up (instantiate_fields (shift_up (ts ! j) k j) (take j vs)) a (c + k))"
    by (simp add: args_typed_def shifted_def)
  moreover have "shift_up (shift_up (ts ! j) k j) a (c + k + j) = shift_up (shift_up (ts ! j) a (c + j)) k j"
    using shift_up_commute [of j "c + j" "ts ! j" a k] by (simp add: ac_simps)
  ultimately show "P \<Delta> (map (\<lambda>t. shift_up t a (c + k)) vs ! j)
      (instantiate_fields (shift_up (shift_telescope a c ts ! j) k j) (take j (map (\<lambda>t. shift_up t a (c + k)) vs)))"
    using j assms(1) by (simp add: args_typed_def shift_up_instantiate_fields take_map)
qed (use assms in \<open>simp add: args_typed_def\<close>)

lemma telescope_formed_shift:
  assumes "telescope_formed (shifted a P) \<Gamma> ts" and "env_shift a c \<Gamma> \<Delta>"
  shows "telescope_formed P \<Delta> (shift_telescope a c ts)"
  using assms env_shift_binders [OF assms(2), of "take _ ts"]
  by (fastforce simp: telescope_formed_def shifted_def take_shift_telescope min_def up.trav_node)

lemma field_formed_shift:
  assumes "field_formed (shifted a P) \<Gamma> d l ts i f" and "env_shift a (c + i) \<Gamma> \<Delta>"
  shows "field_formed P \<Delta> (shift_up d a c) l (shift_telescope a c ts) i (shift_field a c i f)"
proof (cases "recursive_indices f")
  case None
  with assms obtain m where "shifted a P \<Gamma> (field_domain d f i) (Universe m)" "\<And>\<rho>. level_val \<rho> m \<le> level_val \<rho> l"
    by (auto simp: field_formed_def)
  with None assms(2) show ?thesis
    by (auto simp: field_formed_def recursive_indices_shift shifted_def shift_up_field_domain [symmetric] up.trav_node)
next
  case (Some vs)
  with assms args_typed_shift show ?thesis by (simp add: field_formed_def recursive_indices_shift)
qed

lemma constructor_formed_shift:
  assumes "constructor_formed (shifted a P) \<Gamma> d l ts k" and "env_shift a c \<Gamma> \<Delta>"
  shows "constructor_formed P \<Delta> (shift_up d a c) l (shift_telescope a c ts) (shift_con a c k)"
proof -
  let ?n = "length (con_fields k)" and ?ds = "field_domains d (con_fields k)"
  have "field_formed P (binders (take i (shift_telescope a c ?ds)) \<Delta>) (shift_up d a c) l (shift_telescope a c ts) i
      (shift_field a c i (con_fields k ! i))" if "i < ?n" for i
    using assms(1) that env_shift_binders [OF assms(2), of "take i ?ds"]
    by (intro field_formed_shift) (simp_all add: constructor_formed_def take_shift_telescope)
  moreover have "args_typed P (binders (shift_telescope a c ?ds) \<Delta>) (shift_telescope a c ts)
      (map (\<lambda>t. shift_up t a (c + ?n)) (con_indices k)) ?n"
    using assms(1) env_shift_binders [OF assms(2), of ?ds]
    by (intro args_typed_shift) (simp_all add: constructor_formed_def)
  ultimately show ?thesis
    by (simp add: constructor_formed_def field_domains_shift) (simp add: con_fields_map_constructor nth_enumerate_eq)
qed

lemma shiftedI:
  "(\<And>c \<Delta>. env_shift a c \<Gamma> \<Delta> \<Longrightarrow> P \<Delta> (shift_up t a c) (shift_up T a c)) \<Longrightarrow> shifted a P \<Gamma> t T"
  by (simp add: shifted_def)

lemma shiftedD: "shifted a P \<Gamma> t T \<Longrightarrow> env_shift a c \<Gamma> \<Delta> \<Longrightarrow> P \<Delta> (shift_up t a c) (shift_up T a c)"
  by (simp add: shifted_def)

lemma shifted_Cons:
  "shifted a P ((A, v) # \<Gamma>) t T \<Longrightarrow> env_shift a c \<Gamma> \<Delta> \<Longrightarrow>
   P ((shift_up A a c, map_option (\<lambda>t. shift_up t a c) v) # \<Delta>) (shift_up t a (Suc c)) (shift_up T a (Suc c))"
  by (erule shiftedD) (rule env_shift_Cons)

lemma shift_up_subst_0: "shift_up (subst t 0 u) a c = subst (shift_up t a (Suc c)) 0 (shift_up u a c)"
  using shift_up_subst [of t 0 u a c] by simp

lemma shift_up_shift_one: "shift_up (shift_up t 1 0) a (Suc c) = shift_up (shift_up t a c) 1 0"
  using shift_up_commute [of 0 c t a 1] by simp

lemma shift_up_variables:
  "map ((\<lambda>t. shift_up t a (c + n)) \<circ> Var) (rev [0..<n]) = map Var (rev [0..<n])"
  by auto

lemma shifted_data:
  assumes tele: "telescope_formed (shifted a (has_type F)) \<Gamma> ts"
    and cons: "\<And>k. k \<in> set cs \<Longrightarrow> constructor_formed (shifted a (has_type F)) \<Gamma> (Data n l ts cs) l ts k"
    and level: "\<And>\<rho>. level_val \<rho> m = level_val \<rho> l"
  shows "shifted a (has_type F) \<Gamma> (Data n l ts cs) (foldr PiT ts (Universe m))"
proof (rule shiftedI)
  fix c \<Delta>
  assume \<Delta>: "env_shift a c \<Gamma> \<Delta>"
  have "shift_up (Data n l ts cs) a c = Data n l (shift_telescope a c ts) (map (shift_con a c) cs)"
    by (simp add: up.trav_node shift_telescope_def)
  moreover have "has_type F \<Delta> (Data n l (shift_telescope a c ts) (map (shift_con a c) cs))
      (foldr PiT (shift_telescope a c ts) (Universe m))"
  proof (rule has_type.T_Data)
    show "telescope_formed (has_type F) \<Delta> (shift_telescope a c ts)"
      by (rule telescope_formed_shift [OF tele \<Delta>])
    show "constructor_formed (has_type F) \<Delta> (Data n l (shift_telescope a c ts) (map (shift_con a c) cs)) l
        (shift_telescope a c ts) k" if "k \<in> set (map (shift_con a c) cs)" for k
      using that constructor_formed_shift [OF cons \<Delta>]
      by (fastforce simp flip: calculation)
  qed (rule level)
  ultimately show "has_type F \<Delta> (shift_up (Data n l ts cs) a c) (shift_up (foldr PiT ts (Universe m)) a c)"
    by (simp add: shift_up_foldr_PiT up.trav_node)
qed

lemma shifted_construct:
  assumes d: "shifted a (has_type F) \<Gamma> d D" and decl: "conv (env_defs \<Gamma>) d (Data n l ts cs)"
    and i: "i < length cs" "length (con_fields (cs ! i)) = length args"
    and args: "\<And>j. j < length args \<Longrightarrow> shifted a (has_type F) \<Gamma> (args ! j)
      (instantiate_fields (field_domain (Data n l ts cs) (con_fields (cs ! i) ! j) j) (take j args))"
  shows "shifted a (has_type F) \<Gamma> (Construct d i args)
    (apply_terms (Data n l ts cs) (map (\<lambda>t. instantiate_fields t args) (con_indices (cs ! i))))"
proof (rule shiftedI)
  fix c \<Delta>
  assume \<Delta>: "env_shift a c \<Gamma> \<Delta>"
  let ?ts = "shift_telescope a c ts" and ?cs = "map (shift_con a c) cs" and ?args = "map (\<lambda>t. shift_up t a c) args"
  have data: "shift_up (Data n l ts cs) a c = Data n l ?ts ?cs" by (simp add: up.trav_node shift_telescope_def)
  have "has_type F \<Delta> (Construct (shift_up d a c) i ?args)
      (apply_terms (Data n l ?ts ?cs) (map (\<lambda>t. instantiate_fields t ?args) (con_indices (?cs ! i))))"
  proof (rule has_type.T_Construct)
    show "has_type F \<Delta> (shift_up d a c) (shift_up D a c)" by (rule shiftedD [OF d \<Delta>])
    show "conv (env_defs \<Delta>) (shift_up d a c) (Data n l ?ts ?cs)"
      using env_shift_conv [OF \<Delta> decl] by (simp add: data)
    show "has_type F \<Delta> (?args ! j) (instantiate_fields
        (field_domain (Data n l ?ts ?cs) (con_fields (?cs ! i) ! j) j) (take j ?args))" if "j < length ?args" for j
      using shiftedD [OF args \<Delta>, of j] that i
      by (simp add: shift_up_instantiate_fields shift_up_field_domain data con_fields_map_constructor
          nth_enumerate_eq take_map min_def)
  qed (use i in \<open>simp_all add: con_fields_map_constructor\<close>)
  then show "has_type F \<Delta> (shift_up (Construct d i args) a c)
      (shift_up (apply_terms (Data n l ts cs) (map (\<lambda>t. instantiate_fields t args) (con_indices (cs ! i)))) a c)"
    using i
    by (simp add: shift_up_apply_terms data shift_up_instantiate_fields con_fields_map_constructor comp_def)
      (simp add: up.trav_node)
qed

lemma shifted_induct:
  assumes s: "shifted a (has_type F) \<Gamma> s (apply_terms (Data n l ts cs) vs)" and vs: "length vs = length ts"
    and m: "shifted a (has_type F) \<Gamma> m (foldr PiT ts (PiT (apply_terms (shift_up (Data n l ts cs) (length ts) 0)
      (map Var (rev [0..<length ts]))) (Universe u)))"
    and bs: "length bs = length cs"
    and branches: "\<And>i. i < length cs \<Longrightarrow>
      shifted a (has_type F) \<Gamma> (bs ! i) (induction_case_type (Data n l ts cs) m i (cs ! i))"
  shows "shifted a (has_type F) \<Gamma> (Induct s m bs) (App (apply_terms m vs) s)"
proof (rule shiftedI)
  fix c \<Delta>
  assume \<Delta>: "env_shift a c \<Gamma> \<Delta>"
  let ?ts = "shift_telescope a c ts" and ?cs = "map (shift_con a c) cs" and ?sh = "\<lambda>t. shift_up t a c"
  have data: "shift_up (Data n l ts cs) a c = Data n l ?ts ?cs" by (simp add: up.trav_node shift_telescope_def)
  have far: "shift_up (shift_up (Data n l ts cs) (length ts) 0) a (c + length ts) = shift_up (Data n l ?ts ?cs) (length ts) 0"
    using shift_up_commute [of 0 c "Data n l ts cs" a "length ts"] by (simp add: data)
  have "has_type F \<Delta> (Induct (?sh s) (?sh m) (map ?sh bs)) (App (apply_terms (?sh m) (map ?sh vs)) (?sh s))"
  proof (rule has_type.T_Induct)
    show "has_type F \<Delta> (?sh s) (apply_terms (Data n l ?ts ?cs) (map ?sh vs))"
      using shiftedD [OF s \<Delta>] by (simp add: shift_up_apply_terms data)
    show "has_type F \<Delta> (?sh m) (foldr PiT ?ts (PiT (apply_terms (shift_up (Data n l ?ts ?cs) (length ?ts) 0)
        (map Var (rev [0..<length ?ts]))) (Universe u)))"
      using shiftedD [OF m \<Delta>]
      unfolding shift_up_foldr_PiT
      by (simp add: up.trav_node [of "PiT _ _"] up.trav_node [of "Universe _"] shift_up_apply_terms far
          shift_up_variables)
    show "has_type F \<Delta> (map ?sh bs ! i) (induction_case_type (Data n l ?ts ?cs) (?sh m) i (?cs ! i))" if "i < length ?cs" for i
      using shiftedD [OF branches \<Delta>, of i] that bs
      by (simp add: shift_up_induction_case_type data)
  qed (use vs bs in simp_all)
  then show "has_type F \<Delta> (shift_up (Induct s m bs) a c) (shift_up (App (apply_terms m vs) s) a c)"
    by (simp add: up.trav_node shift_up_apply_terms)
qed

lemma shifted_has_type: "has_type F \<Gamma> t T \<Longrightarrow> shifted a (has_type F) \<Gamma> t T"
proof (induction rule: has_type.induct)
  case (T_Var i \<Gamma>)
  show ?case
  proof (rule shiftedI)
    fix c \<Delta>
    let ?j = "if c \<le> i then i + a else i"
    assume "env_shift a c \<Gamma> \<Delta>"
    with T_Var have "?j < length \<Delta>" "shift_up (fst (\<Delta> ! ?j)) (Suc ?j) 0 = shift_up (shift_up (fst (\<Gamma> ! i)) (Suc i) 0) a c"
      by (simp_all only: env_shift_def Let_def)
    with has_type.T_Var [of ?j \<Delta> F] show "has_type F \<Delta> (shift_up (Var i) a c) (shift_up (shift_up (fst (\<Gamma> ! i)) (Suc i) 0) a c)"
      by simp
  qed
next
  case (T_Def \<Gamma> i v T)
  then show ?case using has_type.T_Def unfolding shifted_def env_shift_def defs_shift_def up.trav_Var by blast
next
  case (T_Conv \<Gamma> t A B)
  then show ?case unfolding shifted_def by (blast intro: has_type.T_Conv env_shift_conv)
next
  case (T_FunExt \<Gamma> T n A B f g p)
  show ?case
  proof (rule shiftedI)
    fix c \<Delta>
    assume \<Delta>: "env_shift a c \<Gamma> \<Delta>"
    from T_FunExt.IH [THEN shiftedD, OF \<Delta>] env_shift_conv [OF \<Delta> T_FunExt.hyps(3)] T_FunExt.hyps(1)
    show "has_type F \<Delta> (shift_up (FunExt T f g p) a c) (shift_up (IdT T f g) a c)"
      by (auto simp: up.trav_node shift_up_shift_one [simplified] intro: has_type.T_FunExt)
  qed
next
  case (T_IdElim \<Gamma> m A a' l base s b)
  show ?case
  proof (rule shiftedI)
    fix c \<Delta>
    assume \<Delta>: "env_shift a c \<Gamma> \<Delta>"
    from T_IdElim.IH [THEN shiftedD, OF \<Delta>]
    show "has_type F \<Delta> (shift_up (IdElim m base s) a c) (shift_up (App (App m b) s) a c)"
      by (auto simp: up.trav_node shift_up_shift_one [simplified] intro: has_type.T_IdElim)
  qed
next
  case (T_Data \<Gamma> ts cs n l m)
  have mono: "(\<lambda>\<Gamma> t T. has_type F \<Gamma> t T \<and> shifted a (has_type F) \<Gamma> t T) \<le> shifted a (has_type F)"
    by (simp add: le_fun_def)
  show ?case
    using telescope_mono [OF mono] constructor_mono [OF mono] T_Data.IH T_Data.hyps by (intro shifted_data) blast+
next
  case (T_Construct \<Gamma> d D n l ts cs i args)
  then show ?case by (blast intro: shifted_construct)
next
  case (T_Induct \<Gamma> s n l ts cs vs m u bs)
  then show ?case by (blast intro: shifted_induct)
next
  case (T_Univ m l \<Gamma>)
  then show ?case by (auto simp: up.trav_node intro!: shiftedI has_type.T_Univ)
next
  case (T_Pi \<Gamma> A n B m k)
  show ?case
    by (rule shiftedI) (use T_Pi.hyps T_Pi.IH [THEN shiftedD] shifted_Cons [OF T_Pi.IH(2)] in
        \<open>auto simp: up.trav_node intro!: has_type.T_Pi\<close>)
next
  case (T_Sigma \<Gamma> A n B m k)
  show ?case
    by (rule shiftedI) (use T_Sigma.hyps T_Sigma.IH [THEN shiftedD] shifted_Cons [OF T_Sigma.IH(2)] in
        \<open>auto simp: up.trav_node intro!: has_type.T_Sigma\<close>)
next
  case (T_Lam \<Gamma> A n b B)
  show ?case
    by (rule shiftedI) (use T_Lam.IH [THEN shiftedD] shifted_Cons [OF T_Lam.IH(2)] in
        \<open>auto simp: up.trav_node intro!: has_type.T_Lam\<close>)
next
  case (T_Let \<Gamma> v A b B)
  show ?case
    by (rule shiftedI) (use T_Let.IH [THEN shiftedD] shifted_Cons [OF T_Let.IH(2)] in
        \<open>auto simp: up.trav_node shift_up_subst_0 intro!: has_type.T_Let\<close>)
next
  case (T_App \<Gamma> f A B x)
  show ?case
    by (rule shiftedI) (use T_App.IH [THEN shiftedD] in
        \<open>auto simp: up.trav_node shift_up_subst_0 intro!: has_type.T_App\<close>)
next
  case (T_Pair \<Gamma> a' A b B)
  show ?case
    by (rule shiftedI) (use T_Pair.IH [THEN shiftedD] in
        \<open>auto simp: up.trav_node shift_up_subst_0 intro!: has_type.T_Pair\<close>)
next
  case (T_Fst \<Gamma> p A B)
  show ?case
    by (rule shiftedI) (use T_Fst.IH [THEN shiftedD] in \<open>auto simp: up.trav_node intro: has_type.T_Fst\<close>)
next
  case (T_Snd \<Gamma> p A B)
  show ?case
    by (rule shiftedI) (use T_Snd.IH [THEN shiftedD] has_type.T_Snd in \<open>fastforce simp: up.trav_node shift_up_subst_0\<close>)
next
  case (T_Id \<Gamma> A n a' b)
  show ?case
    by (rule shiftedI) (use T_Id.IH [THEN shiftedD] in \<open>auto simp: up.trav_node intro!: has_type.T_Id\<close>)
next
  case (T_Refl \<Gamma> a' A)
  show ?case
    by (rule shiftedI) (use T_Refl.IH [THEN shiftedD] in \<open>auto simp: up.trav_node intro!: has_type.T_Refl\<close>)
next
  case (T_J \<Gamma> m A l base a' s b)
  show ?case
    by (rule shiftedI) (use T_J.IH [THEN shiftedD] in \<open>simp add: up.trav_node, blast intro: has_type.T_J\<close>)
qed

text \<open>Entering a context further in.\<close>

lemma weakening: "has_type F \<Gamma> t T \<Longrightarrow> has_type F (\<Delta> @ \<Gamma>) (shift_up t (length \<Delta>) 0) (shift_up T (length \<Delta>) 0)"
  by (rule shiftedD [OF shifted_has_type env_shift_append])

end
