(* ===== verification/NbeTyping.thy ===== *)
theory NbeTyping
  imports NbeVars NbeScope Weakening
begin

section \<open>The second checker is sound for the typing rules\<close>

text \<open>
  The semantic context of the second checker represents an abstract context: the types it stores
  are values of the types there, an assumption stands for its variable and a definition for its
  value. Under this relation every arm of \<open>infer_value\<close> and \<open>check_value\<close> derives its judgement in
  the same declarative type system as the arms of the first checker.
\<close>

subsection \<open>Contexts\<close>

definition assumed :: "nbe_ctx \<Rightarrow> nat set" where
  "assumed c = {p. p < width c \<and> nb_definition (nc_bindings c ! p) = None}"

text \<open>One entry: its stored type is a value of its type, its definition is the source of the
  definition, and its value denotes the variable.\<close>

definition entry_ok :: "nat set \<Rightarrow> env \<Rightarrow> nbe_binding \<Rightarrow> val \<Rightarrow> nat \<Rightarrow> bool" where
  "entry_ok X \<Gamma> b w i \<longleftrightarrow>
     denotes (env_defs \<Gamma>) (length \<Gamma>) (nb_ty b) (shift_up (fst (\<Gamma> ! i)) (Suc i) 0) \<and> vin (nb_ty b) X \<and>
     snd (\<Gamma> ! i) = nb_definition b \<and> denotes (env_defs \<Gamma>) (length \<Gamma>) w (Var i) \<and> vin w X"

definition represents :: "nbe_ctx \<Rightarrow> env \<Rightarrow> bool" where
  "represents c \<Gamma> \<longleftrightarrow> length (nc_env c) = length \<Gamma> \<and> width c = length \<Gamma> \<and>
     (\<forall>i < length \<Gamma>. entry_ok (assumed c) \<Gamma> (nc_bindings c ! (length \<Gamma> - 1 - i)) (nc_env c ! (length \<Gamma> - 1 - i)) i)"

lemma represents_Nil: "represents (nbe_with_foundation f) []"
  by (simp add: represents_def nbe_with_foundation_def)

lemma denotes_shift:
  assumes "env_shift m 0 \<Gamma> \<Delta>" and "denotes (env_defs \<Gamma>) L v t"
  shows "denotes (env_defs \<Delta>) (L + m) v (shift_up t m 0)"
  using env_shift_conv [OF assms(1)] assms(2) vok_mono(1) [of v L "L + m"]
  by (auto simp: denotes_def emb_shift(1))

lemma entry_ok_push:
  assumes "entry_ok X \<Gamma> b w i" and "X \<subseteq> Y"
  shows "entry_ok Y (e # \<Gamma>) b w (Suc i)"
proof -
  have \<Delta>: "env_shift 1 0 \<Gamma> (e # \<Gamma>)" using env_shift_append [of "[e]" \<Gamma>] by simp
  from assms denotes_shift [OF \<Delta>, of "length \<Gamma>"] show ?thesis
    by (auto simp: entry_ok_def shift_up_add vin_mono dest!: denotes_shift [OF \<Delta>, of "length \<Gamma>"])
qed

lemma represents_push:
  assumes rep: "represents c \<Gamma>"
    and c': "nc_bindings c' = nc_bindings c @ [b]" "nc_env c' = nc_env c @ [w]"
    and entry: "entry_ok (assumed c') (e # \<Gamma>) b w 0"
  shows "represents c' (e # \<Gamma>)"
proof -
  have sub: "assumed c \<subseteq> assumed c'" by (auto simp: assumed_def c' nth_append)
  have "entry_ok (assumed c') (e # \<Gamma>) (nc_bindings c' ! (length \<Gamma> - i)) (nc_env c' ! (length \<Gamma> - i)) i"
    if "i < Suc (length \<Gamma>)" for i
  proof (cases i)
    case 0
    with entry rep show ?thesis by (simp add: c' represents_def nth_append)
  next
    case (Suc k)
    with rep that entry_ok_push [OF _ sub] show ?thesis by (simp add: c' represents_def nth_append)
  qed
  then show ?thesis using rep by (simp add: represents_def c')
qed

lemma represents_extend:
  assumes rep: "represents c \<Gamma>" and v: "denotes (env_defs \<Gamma>) (length \<Gamma>) v A" "vin v (assumed c)"
  shows "represents (nbe_extend c v) ((A, None) # \<Gamma>)"
proof (rule represents_push [OF rep])
  let ?c = "nbe_extend c v"
  have \<Delta>: "env_shift 1 0 \<Gamma> ((A, None) # \<Gamma>)" using env_shift_append [of "[(A, None)]" \<Gamma>] by simp
  have "assumed c \<subseteq> assumed ?c" "length \<Gamma> \<in> assumed ?c"
    using rep by (auto simp: assumed_def nbe_extend_def nth_append represents_def)
  then show "entry_ok (assumed ?c) ((A, None) # \<Gamma>) \<lparr>nb_ty = v, nb_definition = None\<rparr> (VNeutral (NVar (length (nc_env c)))) 0"
    using denotes_shift [OF \<Delta> v(1)] v(2) vin_mono(1) [OF v(2)] rep
    by (simp add: entry_ok_def represents_def) (simp add: denotes_def conv_refl)
qed (simp_all add: nbe_extend_def)

lemma assumed_define [simp]: "assumed (nbe_define c ty v s) = assumed c"
  by (auto simp: assumed_def nbe_define_def nth_append less_Suc_eq)

lemma represents_define:
  assumes rep: "represents c \<Gamma>" and ty: "denotes (env_defs \<Gamma>) (length \<Gamma>) ty A" "vin ty (assumed c)"
    and v: "denotes (env_defs \<Gamma>) (length \<Gamma>) v s" "vin v (assumed c)"
  shows "represents (nbe_define c ty v s) ((A, Some s) # \<Gamma>)"
proof -
  let ?c = "nbe_define c ty v s" and ?\<Gamma> = "(A, Some s) # \<Gamma>"
  have \<Delta>: "env_shift 1 0 \<Gamma> ?\<Gamma>" using env_shift_append [of "[(A, Some s)]" \<Gamma>] by simp
  have "conv (env_defs ?\<Gamma>) (Var 0) (shift_up s 1 0)" by (rule conv_delta) (simp add: env_defs_Cons)
  then have "denotes (env_defs ?\<Gamma>) (length ?\<Gamma>) v (Var 0)"
    using denotes_conv [OF denotes_shift [OF \<Delta> v(1)]] by simp
  then have "entry_ok (assumed ?c) ?\<Gamma> \<lparr>nb_ty = ty, nb_definition = Some s\<rparr> v 0"
    using denotes_shift [OF \<Delta> ty(1)] ty(2) v(2) by (simp add: entry_ok_def)
  then show "represents ?c ?\<Gamma>" by (rule represents_push [OF rep, rotated 2]) (simp_all add: nbe_define_def)
qed

lemma foundation_push [simp]:
  "nc_foundation (nbe_extend c v) = nc_foundation c" "nc_foundation (nbe_define c ty v s) = nc_foundation c"
  by (simp_all add: nbe_extend_def nbe_define_def)

lemma representsD:
  assumes "represents c \<Gamma>"
  shows "length (nc_env c) = length \<Gamma>" and "width c = length \<Gamma>" and "nbe_level c = length \<Gamma>"
    and "voks (nc_env c) (length \<Gamma>)" and "inside (nc_env c) (assumed c)" and "assumed c \<subseteq> {..<length \<Gamma>}"
proof -
  show len: "length (nc_env c) = length \<Gamma>" and "width c = length \<Gamma>" and "nbe_level c = length \<Gamma>"
    and "assumed c \<subseteq> {..<length \<Gamma>}"
    using assms by (auto simp: represents_def nbe_level_def assumed_def)
  have "vok (nc_env c ! p) (length \<Gamma>) \<and> vin (nc_env c ! p) (assumed c)" if "p < length \<Gamma>" for p
    using assms that
    by (auto simp: represents_def entry_ok_def denotes_def dest!: spec [of _ "length \<Gamma> - 1 - p"])
  then show "voks (nc_env c) (length \<Gamma>)" and "inside (nc_env c) (assumed c)"
    by (auto simp: in_set_conv_nth len)
qed

lemma represents_conv:
  assumes "represents c \<Gamma>"
  shows "list_all2 (conv (env_defs \<Gamma>)) (map (\<lambda>i. Var (length \<Gamma> - Suc i)) [0..<length \<Gamma>]) (embs (nc_env c) (length \<Gamma>))"
proof -
  have "conv (env_defs \<Gamma>) (Var (length \<Gamma> - Suc p)) (emb (nc_env c ! p) (length \<Gamma>))" if "p < length \<Gamma>" for p
    using assms that
    by (auto simp: represents_def entry_ok_def denotes_def dest!: spec [of _ "length \<Gamma> - Suc p"])
  then show ?thesis using representsD(1) [OF assms] by (simp add: list_all2_conv_all_nth)
qed

lemma nbe_lookup_typed:
  assumes rep: "represents c \<Gamma>" and v: "nbe_lookup c i = Some v"
  shows "has_type F \<Gamma> (Var i) (emb v (length \<Gamma>)) \<and> vok v (length \<Gamma>) \<and> vin v (assumed c)"
proof -
  have i: "i < length \<Gamma>" and ty: "v = nb_ty (nc_bindings c ! (length \<Gamma> - 1 - i))"
    using v representsD(2) [OF rep] by (auto simp: nbe_lookup_def Let_def split: if_splits)
  then have "denotes (env_defs \<Gamma>) (length \<Gamma>) v (shift_up (fst (\<Gamma> ! i)) (Suc i) 0) \<and> vin v (assumed c)"
    using rep by (auto simp: represents_def entry_ok_def)
  with T_Conv [OF T_Var [OF i]] show ?thesis by (auto simp: denotes_def)
qed

lemma nbe_definition_abs: "represents c \<Gamma> \<Longrightarrow> nbe_definition c i = env_defs \<Gamma> i"
  using representsD(2) [of c \<Gamma>]
  by (auto simp: nbe_definition_def env_defs_def represents_def entry_ok_def)

subsection \<open>Instantiating by the environment\<close>

lemma inst_under_instantiate:
  assumes "scoped (length xs + k) t"
  shows "inst_under k t xs = instantiate_fields t (map (\<lambda>x. shift_up x k 0) xs @ map (\<lambda>i. Var (k - Suc i)) [0..<k])"
  using instantiate_variables [of "inst_under k t xs" k] shift_up_inst_under [OF assms, of k]
    instantiate_inst_under [of "map (\<lambda>i. Var (k - Suc i)) [0..<k]" k t "map (\<lambda>x. shift_up x k 0) xs"] by simp

lemma conv_inst_under:
  assumes "list_all2 (conv \<delta>) xs ys" and "scoped (length xs + k) t"
  shows "conv (lift_defs k \<delta>) (inst_under k t xs) (inst_under k t ys)"
proof -
  have "length ys = length xs" using list_all2_lengthD [OF assms(1)] by simp
  then show ?thesis
    using assms conv_shift_up_0 [of \<delta> _ _ k]
    by (auto simp: inst_under_instantiate list.rel_map
        intro!: conv_instantiate list_all2_appendI list_all2_conv_refl conv_refl elim!: list_all2_mono)
qed

lemma inst_under_variables:
  assumes "scoped (n + k) t"
  shows "inst_under k t (map (\<lambda>i. Var (n - Suc i)) [0..<n]) = t"
proof -
  have "map_variables t k (inst_act (map (\<lambda>i. Var (n - Suc i)) [0..<n])) = map_variables t k (\<lambda>i _. Var i)"
    by (rule map_variables_agree_on [OF assms [unfolded scoped_vars_ok]]) (auto simp: inst_act_def)
  then show ?thesis by (simp add: inst_under_def map_variables_ident)
qed

lemma represents_inst_under:
  assumes "represents c \<Gamma>" and "scoped (length \<Gamma> + k) t"
  shows "conv (lift_defs k (env_defs \<Gamma>)) t (inst_under k t (embs (nc_env c) (length \<Gamma>)))"
  using conv_inst_under [OF represents_conv [OF assms(1)], of k t] assms(2) by (simp add: inst_under_variables)

subsection \<open>Every arm derives its judgement\<close>

abbreviation types_value :: "nbe_ctx \<Rightarrow> env \<Rightarrow> tm \<Rightarrow> val \<Rightarrow> bool" where
  "types_value c \<Gamma> t v \<equiv> has_type (nc_foundation c) \<Gamma> t (emb v (length \<Gamma>)) \<and> vok v (length \<Gamma>)"

locale sound_nbe = scoped_calls r + confined_eval "c_eval r" for r +
  assumes quote_sound: "c_quote r v L = Ok t \<Longrightarrow> vok v L \<Longrightarrow> reads \<delta> L t (emb v L)"
    and eq_sound: "c_eq r v w L = Ok True \<Longrightarrow> vok v L \<Longrightarrow> vok w L \<Longrightarrow> conv \<delta> (emb v L) (emb w L)"
    and eval_declaration: "c_eval r (Data n l ts ks) env = Ok v \<Longrightarrow>
      v = VData n l (map (\<lambda>(i, ty). capture ty env i) (List.enumerate 0 ts)) (map (eval_constructor env) ks) []"
    and quote_declaration: "c_quote r (VData n l ids cs []) L = Ok t \<Longrightarrow> vok (VData n l ids cs []) L \<Longrightarrow>
      \<exists>ts ks. t = Data n l ts ks \<and> length ts = length ids \<and>
        (\<forall>i < length ids. conv (lift_defs i \<delta>) (emb_closure (ids ! i) L i) (ts ! i))"
    and infer_sound: "represents c \<Gamma> \<Longrightarrow> c_infer r c t = Ok v \<Longrightarrow> types_value c \<Gamma> t v \<and> vin v (assumed c)"
    and check_sound: "represents c \<Gamma> \<Longrightarrow> c_check r c t v = Ok () \<Longrightarrow> vok v (length \<Gamma>) \<Longrightarrow>
      has_type (nc_foundation c) \<Gamma> t (emb v (length \<Gamma>))"
begin

lemma expect_universe_value_Some [simp]:
  "expect_universe_value v = Some l \<longleftrightarrow> (\<exists>k. v = VUniverse k \<and> l = level_normalize k)"
  by (cases v) (auto simp: expect_universe_value_def)

text \<open>Evaluating in a represented context.\<close>

lemma eval_denotes:
  assumes rep: "represents c \<Gamma>" and v: "c_eval r t (nc_env c) = Ok v" and t: "scoped (length \<Gamma>) t"
  shows "denotes (env_defs \<Gamma>) (length \<Gamma>) v t" and "vin v (assumed c)"
proof -
  note env = representsD [OF rep]
  from ev_sound [OF v env(4), of "env_defs \<Gamma>"] represents_inst_under [OF rep, of 0 t] t env(1)
  show "denotes (env_defs \<Gamma>) (length \<Gamma>) v t" by (auto intro: denotes_conv)
  show "vin v (assumed c)" by (rule ev_vars [OF v env(4) _ env(5)]) (use t env(1) in simp)
qed

lemma sort_sound:
  assumes rep: "represents c \<Gamma>" and "infer_sort_value r c t = Ok l"
  shows "has_type (nc_foundation c) \<Gamma> t (Universe l)"
proof -
  obtain k where k: "c_infer r c t = Ok (VUniverse k)" and l: "l = level_normalize k"
    using assms(2) by (auto simp: infer_sort_value_def)
  have "conv (env_defs \<Gamma>) (Universe k) (Universe l)" by (rule conv_universe) (simp add: l level_val_normalize)
  with infer_sound [OF rep k] show ?thesis by (auto intro: T_Conv)
qed

lemma domain_sound:
  "represents c \<Gamma> \<Longrightarrow> check_domain_value r c t v = Ok () \<Longrightarrow> vok v (length \<Gamma>) \<Longrightarrow>
   has_type (nc_foundation c) \<Gamma> t (emb v (length \<Gamma>))"
  by (simp add: check_domain_value_def check_sound)

text \<open>A type of a term and its value: the evaluated type replaces the type.\<close>

lemma types_valueI:
  "has_type (nc_foundation c) \<Gamma> t T \<Longrightarrow> denotes (env_defs \<Gamma>) (length \<Gamma>) v T \<Longrightarrow> vin v (assumed c) \<Longrightarrow>
   types_value c \<Gamma> t v \<and> vin v (assumed c)"
  by (auto simp: denotes_def intro: T_Conv)

lemma type_represented:
  assumes rep: "represents c \<Gamma>" and A: "infer_sort_value r c A = Ok n" and v: "c_eval r A (nc_env c) = Ok v"
  shows "represents (nbe_extend c v) ((A, None) # \<Gamma>)" and "denotes (env_defs \<Gamma>) (length \<Gamma>) v A" and "vin v (assumed c)"
proof -
  from has_type_scoped [OF sort_sound [OF rep A]] show "denotes (env_defs \<Gamma>) (length \<Gamma>) v A" and "vin v (assumed c)"
    by (rule eval_denotes [OF rep v])+
  then show "represents (nbe_extend c v) ((A, None) # \<Gamma>)" by (rule represents_extend [OF rep])
qed

lemma inferred_denotes:
  assumes rep: "represents c \<Gamma>" and "c_infer r c t = Ok T" and v: "c_eval r t (nc_env c) = Ok v"
  shows "denotes (env_defs \<Gamma>) (length \<Gamma>) v t" and "vin v (assumed c)"
  using eval_denotes [OF rep v] infer_scoped [OF assms(2)] representsD(2) [OF rep] by simp_all

lemma checked_denotes:
  assumes rep: "represents c \<Gamma>" and "c_check r c t T = Ok ()" and v: "c_eval r t (nc_env c) = Ok v"
  shows "denotes (env_defs \<Gamma>) (length \<Gamma>) v t" and "vin v (assumed c)"
  using eval_denotes [OF rep v] check_scoped [OF assms(2)] representsD(2) [OF rep] by simp_all

lemma let_represented:
  assumes rep: "represents c \<Gamma>" and ty: "c_infer r c a = Ok ty" and v: "c_eval r a (nc_env c) = Ok v"
  shows "represents (nbe_define c ty v a) ((emb ty (length \<Gamma>), Some a) # \<Gamma>)"
  using represents_define [OF rep _ _ inferred_denotes [OF rep ty v]] infer_sound [OF rep ty] by (simp add: denotes_self)

lemma let_sound:
  assumes rep: "represents c \<Gamma>" and ok: "infer_let_value r c a b = Ok T"
  shows "types_value c \<Gamma> (LetT a b) T \<and> vin T (assumed c)"
proof -
  obtain ty v where ty: "c_infer r c a = Ok ty" and v: "c_eval r a (nc_env c) = Ok v"
    and b: "c_infer r (nbe_define c ty v a) b = Ok T" using ok by (auto simp: infer_let_value_def)
  let ?L = "length \<Gamma>" and ?\<Gamma> = "(emb ty (length \<Gamma>), Some a) # \<Gamma>"
  note rep' = let_represented [OF rep ty v]
  from infer_sound [OF rep' b] have T: "has_type (nc_foundation c) ?\<Gamma> b (emb T (Suc ?L))" "vok T (Suc ?L)" "vin T (assumed c)"
    by simp_all
  have ok: "vok T ?L" using vok_lower(1) [OF T(2)] vin_mono(1) [OF T(3) representsD(6) [OF rep]] by blast
  with T(1) emb_shift(1) [OF ok, of 1] T_Let [of "nc_foundation c" \<Gamma> a "emb ty ?L" b "shift_up (emb T ?L) 1 0"]
    infer_sound [OF rep ty] show ?thesis by (simp add: T(3))
qed

lemma quantifier_sound:
  assumes rep: "represents c \<Gamma>" and ok: "infer_quantifier_value r c A B = Ok v"
  shows "types_value c \<Gamma> (PiT A B) v \<and> types_value c \<Gamma> (SigmaT A B) v \<and> vin v (assumed c)"
proof -
  obtain n w m where A: "infer_sort_value r c A = Ok n" and w: "c_eval r A (nc_env c) = Ok w"
    and B: "infer_sort_value r (nbe_extend c w) B = Ok m" and v: "v = VUniverse (max_with n m)"
    using ok by (auto simp: infer_quantifier_value_def)
  note A' = sort_sound [OF rep A] and B' = sort_sound [OF type_represented(1) [OF rep A w] B]
  from T_Pi [OF A'] T_Sigma [OF A'] B' show ?thesis by (simp add: v level_val_max_with)
qed

lemma lam_telescope_sound:
  "represents c \<Gamma> \<Longrightarrow> lam_telescope r c ds t = Ok (c', ds', b) \<Longrightarrow>
   \<exists>es. ds' = ds @ es \<and> represents c' (binders es \<Gamma>) \<and> nc_foundation c' = nc_foundation c \<and>
     (\<forall>B. has_type (nc_foundation c) (binders es \<Gamma>) b B \<longrightarrow> has_type (nc_foundation c) \<Gamma> t (foldr PiT es B)) \<and>
     (\<forall>B. scoped (length \<Gamma> + length es) B \<longrightarrow> scoped (length \<Gamma>) (foldr PiT es B))"
proof (induction t arbitrary: c \<Gamma> ds)
  case (Lam A t)
  from Lam.prems(2) obtain n v where A: "infer_sort_value r c A = Ok n" and v: "c_eval r A (nc_env c) = Ok v"
    and rest: "lam_telescope r (nbe_extend c v) (ds @ [A]) t = Ok (c', ds', b)" by auto
  note A' = sort_sound [OF Lam.prems(1) A]
  from Lam.IH(2) [OF type_represented(1) [OF Lam.prems(1) A v] rest] obtain es
    where es: "ds' = (ds @ [A]) @ es" "represents c' (binders es ((A, None) # \<Gamma>))" "nc_foundation c' = nc_foundation c"
      "\<And>B. has_type (nc_foundation c) (binders es ((A, None) # \<Gamma>)) b B \<Longrightarrow>
         has_type (nc_foundation c) ((A, None) # \<Gamma>) t (foldr PiT es B)"
      "\<And>B. scoped (Suc (length \<Gamma>) + length es) B \<Longrightarrow> scoped (Suc (length \<Gamma>)) (foldr PiT es B)" by auto
  with T_Lam [OF A'] has_type_scoped [OF A'] show ?case by (intro exI [of _ "A # es"]) (auto simp: scoped_node)
qed (auto intro!: exI [of _ "[]"])

lemma lam_sound:
  assumes rep: "represents c \<Gamma>" and ok: "infer_lam_value r c t = Ok v"
  shows "types_value c \<Gamma> t v \<and> vin v (assumed c)"
proof -
  obtain c' ds b B B' where tele: "lam_telescope r c [] t = Ok (c', ds, b)" and b: "c_infer r c' b = Ok B"
    and q: "c_quote r B (nbe_level c') = Ok B'" and v: "c_eval r (foldr PiT ds B') (nc_env c) = Ok v"
    using ok by (auto simp: infer_lam_value_def)
  from lam_telescope_sound [OF rep tele] have rep': "represents c' (binders ds \<Gamma>)" and F: "nc_foundation c' = nc_foundation c"
    and lam: "\<And>B. has_type (nc_foundation c) (binders ds \<Gamma>) b B \<Longrightarrow> has_type (nc_foundation c) \<Gamma> t (foldr PiT ds B)"
    and sc: "\<And>B. scoped (length \<Gamma> + length ds) B \<Longrightarrow> scoped (length \<Gamma>) (foldr PiT ds B)" by auto
  note b' = infer_sound [OF rep' b]
  from quote_sound [OF q, of "env_defs (binders ds \<Gamma>)"] b' representsD(3) [OF rep']
  have B': "scoped (length \<Gamma> + length ds) B'" "conv (env_defs (binders ds \<Gamma>)) (emb B (length (binders ds \<Gamma>))) B'"
    by (simp_all add: reads_def add.commute)
  have "has_type (nc_foundation c) \<Gamma> t (foldr PiT ds B')" using lam T_Conv [OF _ B'(2)] b' F by simp
  from types_valueI [OF this eval_denotes [OF rep v sc [OF B'(1)]]] show ?thesis .
qed

lemma closure_at:
  assumes ok: "closure_apply (c_eval r) cl v = Ok T" and cl: "vok_closure cl (length \<Gamma>) 1" "cin cl (assumed c)"
    and v: "denotes (env_defs \<Gamma>) (length \<Gamma>) v x" "vin v (assumed c)"
  shows "denotes (env_defs \<Gamma>) (length \<Gamma>) T (subst (emb_closure cl (length \<Gamma>) 1) 0 x)" and "vin T (assumed c)"
proof -
  let ?B = "emb_closure cl (length \<Gamma>) 1"
  have "denotes (env_defs \<Gamma>) (length \<Gamma>) T (subst ?B 0 (emb v (length \<Gamma>)))"
    by (rule closure_apply_sound [OF ok cl(1) denotesD(1) [OF v(1)]])
  moreover have "conv (env_defs \<Gamma>) (subst ?B 0 x) (subst ?B 0 (emb v (length \<Gamma>)))"
    by (intro conv_subst conv_refl denotesD(2) [OF v(1)])
  ultimately show "denotes (env_defs \<Gamma>) (length \<Gamma>) T (subst ?B 0 x)" by (rule denotes_conv)
  show "vin T (assumed c)" by (rule closure_apply_vars [OF ok cl(1) denotesD(1) [OF v(1)] cl(2) v(2)])
qed

lemma app_sound:
  assumes rep: "represents c \<Gamma>" and ok: "infer_app_value r c f x = Ok T"
  shows "types_value c \<Gamma> (App f x) T \<and> vin T (assumed c)"
proof -
  obtain d cl v where f: "c_infer r c f = Ok (VPi d cl)" and x: "c_check r c x d = Ok ()"
    and v: "c_eval r x (nc_env c) = Ok v" and T: "closure_apply (c_eval r) cl v = Ok T"
    using ok by (auto simp: infer_app_value_def check_domain_value_def)
  have f': "has_type (nc_foundation c) \<Gamma> f (PiT (emb d (length \<Gamma>)) (emb_closure cl (length \<Gamma>) 1))" "vok d (length \<Gamma>)"
    "vok_closure cl (length \<Gamma>) 1" "cin cl (assumed c)" using infer_sound [OF rep f] by simp_all
  show ?thesis
    by (rule types_valueI [OF T_App [OF f'(1) check_sound [OF rep x f'(2)]]])
      (rule closure_at [OF T f'(3,4) checked_denotes [OF rep x v]])+
qed

lemma pair_sound:
  assumes rep: "represents c \<Gamma>" and ok: "infer_pair_value r c a b = Ok T"
  shows "types_value c \<Gamma> (PairT a b) T \<and> vin T (assumed c)"
proof -
  obtain A B A' B' where a: "c_infer r c a = Ok A" and b: "c_infer r c b = Ok B"
    and q: "c_quote r B (nbe_level c) = Ok B'" "c_quote r A (nbe_level c) = Ok A'"
    and T: "c_eval r (SigmaT A' (shift_up B' 1 0)) (nc_env c) = Ok T"
    using ok by (auto simp: infer_pair_value_def lift_term_one_binder_def)
  note a' = infer_sound [OF rep a] and b' = infer_sound [OF rep b]
  from quote_sound [OF q(1), of "env_defs \<Gamma>"] quote_sound [OF q(2), of "env_defs \<Gamma>"] a' b' representsD(3) [OF rep]
  have q': "reads (env_defs \<Gamma>) (length \<Gamma>) B' (emb B (length \<Gamma>))" "reads (env_defs \<Gamma>) (length \<Gamma>) A' (emb A (length \<Gamma>))"
    by simp_all
  then have "has_type (nc_foundation c) \<Gamma> (PairT a b) (SigmaT A' (shift_up B' 1 0))"
    using a' b' by (intro T_Pair) (auto simp: reads_def intro: T_Conv)
  moreover have "scoped (length \<Gamma>) (SigmaT A' (shift_up B' 1 0))"
    using q' scoped_shift_up [of "length \<Gamma>" B' 1 0] by (simp add: scoped_node reads_def)
  ultimately show ?thesis using types_valueI [OF _ eval_denotes [OF rep T]] by blast
qed

lemma projection_sound:
  assumes rep: "represents c \<Gamma>"
  shows "infer_fst_value r c p = Ok T \<Longrightarrow> types_value c \<Gamma> (FstT p) T \<and> vin T (assumed c)"
    and "infer_snd_value r c p = Ok T \<Longrightarrow> types_value c \<Gamma> (SndT p) T \<and> vin T (assumed c)"
proof -
  assume "infer_fst_value r c p = Ok T"
  then obtain cl where p: "c_infer r c p = Ok (VSigma T cl)" by (auto simp: infer_fst_value_def)
  from infer_sound [OF rep p] show "types_value c \<Gamma> (FstT p) T \<and> vin T (assumed c)" by (auto intro: T_Fst)
next
  assume "infer_snd_value r c p = Ok T"
  then obtain d cl v where p: "c_infer r c p = Ok (VSigma d cl)" and v: "c_eval r p (nc_env c) = Ok v"
    and T: "closure_apply (c_eval r) cl (apply_fst v) = Ok T"
    by (auto simp: infer_snd_value_def)
  note p' = infer_sound [OF rep p] and v' = inferred_denotes [OF rep p v]
  have "has_type (nc_foundation c) \<Gamma> (SndT p) (subst (emb_closure cl (length \<Gamma>) 1) 0 (FstT p))"
    using p' by (auto intro: T_Snd)
  then show "types_value c \<Gamma> (SndT p) T \<and> vin T (assumed c)"
    using types_valueI closure_at [OF T, of \<Gamma> c "FstT p"] p' apply_fst_sound [OF v'(1)] apply_fst_vars [OF v'(2)] by simp
qed

lemma id_sound:
  assumes rep: "represents c \<Gamma>" and ok: "infer_id_value r c A a b = Ok T"
  shows "types_value c \<Gamma> (IdT A a b) T \<and> vin T (assumed c)"
proof -
  obtain n v where A: "infer_sort_value r c A = Ok n" and v: "c_eval r A (nc_env c) = Ok v"
    and a: "check_domain_value r c a v = Ok ()" and b: "check_domain_value r c b v = Ok ()" and T: "T = VUniverse n"
    using ok by (auto simp: infer_id_value_def)
  note v' = type_represented(2) [OF rep A v]
  have "has_type (nc_foundation c) \<Gamma> a A" "has_type (nc_foundation c) \<Gamma> b A"
    using domain_sound [OF rep a] domain_sound [OF rep b] v' by (auto simp: denotes_def intro: T_Conv conv_sym)
  with T_Id [OF sort_sound [OF rep A]] show ?thesis by (simp add: T)
qed

lemma refl_sound:
  assumes rep: "represents c \<Gamma>" and ok: "infer_refl_value r c a = Ok T"
  shows "types_value c \<Gamma> (Refl a) T \<and> vin T (assumed c)"
proof -
  obtain A v where a: "c_infer r c a = Ok A" and v: "c_eval r a (nc_env c) = Ok v" and T: "T = VId A v v"
    using ok by (auto simp: infer_refl_value_def)
  note a' = infer_sound [OF rep a] and v' = inferred_denotes [OF rep a v]
  have "denotes (env_defs \<Gamma>) (length \<Gamma>) T (IdT (emb A (length \<Gamma>)) a a)"
    using a' v' by (auto simp: T denotes_def intro!: conv_congs conv_refl)
  with T_Refl [of "nc_foundation c" \<Gamma> a "emb A (length \<Gamma>)"] a' v' show ?thesis by (intro types_valueI) (simp_all add: T)
qed

lemma denotes_lift: "denotes \<delta> L v t \<Longrightarrow> denotes (lift_defs m \<delta>) (L + m) v (shift_up t m 0)"
  using vok_mono(1) [of v L "L + m"] by (auto simp: denotes_def emb_shift(1) intro: conv_shift_up_0)

lemma apply_at:
  assumes "apply_value (c_eval r) f x = Ok v" and "denotes \<delta> L f t" "vin f X" and "denotes \<delta> L x u" "vin x X"
  shows "denotes \<delta> L v (App t u)" and "vin v X"
  using apply_value_conv [OF assms(1,2,4)] apply_value_vars [OF assms(1) _ _ assms(3,5), of L] assms(2,4)
  by (auto simp: denotes_def)

lemma denotes_has_type:
  "has_type F \<Gamma> t (emb v (length \<Gamma>)) \<Longrightarrow> denotes (env_defs \<Gamma>) (length \<Gamma>) v T \<Longrightarrow> has_type F \<Gamma> t T"
  by (auto simp: denotes_def intro: T_Conv conv_sym)

lemma fun_ext_sound:
  assumes rep: "represents c \<Gamma>" and ok: "infer_fun_ext_value r c S f g p = Ok T"
  shows "types_value c \<Gamma> (FunExt S f g p) T \<and> vin T (assumed c)"
proof -
  let ?L = "length \<Gamma>" and ?\<delta> = "env_defs \<Gamma>" and ?\<delta>' = "lift_defs 1 (env_defs \<Gamma>)"
  have lvl: "nbe_level c = ?L" by (rule representsD(3) [OF rep])
  obtain n d cl lv rv ty l r' A' B' P where F: "nc_foundation c = FunctionExtensionality"
    and S: "infer_sort_value r c S = Ok n" and S': "c_eval r S (nc_env c) = Ok (VPi d cl)"
    and f: "c_check r c f (VPi d cl) = Ok ()" and g: "c_check r c g (VPi d cl) = Ok ()"
    and lv: "c_eval r f (nc_env c) = Ok lv" and rv: "c_eval r g (nc_env c) = Ok rv"
    and ty: "closure_apply (c_eval r) cl (VNeutral (NVar ?L)) = Ok ty"
    and l: "apply_value (c_eval r) lv (VNeutral (NVar ?L)) = Ok l"
    and r': "apply_value (c_eval r) rv (VNeutral (NVar ?L)) = Ok r'"
    and A': "c_quote r d ?L = Ok A'" and B': "c_quote r (VId ty l r') (Suc ?L) = Ok B'"
    and P: "c_eval r (PiT A' B') (nc_env c) = Ok P" and p: "c_check r c p P = Ok ()"
    and T: "T = VId (VPi d cl) lv rv"
    using ok by (auto simp: infer_fun_ext_value_def Let_def lvl split: if_splits)
  note dS = type_represented(2,3) [OF rep S S'] and df = checked_denotes [OF rep f lv] and dg = checked_denotes [OF rep g rv]
  have vok: "vok d ?L" "vok_closure cl ?L 1" using dS by (simp_all add: denotes_def)
  have probe: "denotes ?\<delta>' (Suc ?L) (VNeutral (NVar ?L)) (Var 0)" by (simp add: denotes_def conv_refl)
  have dl: "denotes ?\<delta>' (Suc ?L) l (App (shift_up f 1 0) (Var 0))" "denotes ?\<delta>' (Suc ?L) r' (App (shift_up g 1 0) (Var 0))"
    using apply_value_conv [OF l _ probe] apply_value_conv [OF r' _ probe] denotes_lift [OF df(1), of 1] denotes_lift [OF dg(1), of 1]
    by simp_all
  have dty: "denotes ?\<delta>' (Suc ?L) ty (emb_closure cl ?L 1)" by (rule open_one_sound [OF ty vok(2)])
  let ?B = "IdT (emb_closure cl ?L 1) (App (shift_up f 1 0) (Var 0)) (App (shift_up g 1 0) (Var 0))"
  have "reads ?\<delta>' (Suc ?L) B' (emb (VId ty l r') (Suc ?L))"
    by (rule quote_sound [OF B']) (use dl dty in \<open>simp add: denotes_def\<close>)
  moreover have "conv ?\<delta>' ?B (emb (VId ty l r') (Suc ?L))" using dl dty by (auto simp: denotes_def intro!: conv_congs)
  ultimately have B: "scoped (Suc ?L) B'" "conv ?\<delta>' ?B B'" by (auto simp: reads_def intro: conv_trans)
  have A: "scoped ?L A'" "conv ?\<delta> (emb d ?L) A'" using quote_sound [OF A' vok(1), of ?\<delta>] by (simp_all add: reads_def)
  have dP: "denotes ?\<delta> ?L P (PiT A' B')" by (rule eval_denotes(1) [OF rep P]) (use A B in \<open>simp add: scoped_node\<close>)
  have "conv ?\<delta> (PiT (emb d ?L) ?B) (PiT A' B')" by (intro conv_congs A(2)) (use B(2) in simp)
  then have "has_type (nc_foundation c) \<Gamma> p (PiT (emb d ?L) ?B)"
    using denotes_has_type [OF check_sound [OF rep p denotesD(1) [OF dP]] dP] by (blast intro: T_Conv conv_sym)
  moreover have "has_type (nc_foundation c) \<Gamma> f S" "has_type (nc_foundation c) \<Gamma> g S"
    using denotes_has_type [OF check_sound [OF rep f] dS(1)] denotes_has_type [OF check_sound [OF rep g] dS(1)] denotesD(1) [OF dS(1)]
    by simp_all
  moreover have "conv ?\<delta> S (PiT (emb d ?L) (emb_closure cl ?L 1))" using dS(1) by (simp add: denotes_def)
  ultimately have "has_type (nc_foundation c) \<Gamma> (FunExt S f g p) (IdT S f g)"
    by (intro T_FunExt [OF F sort_sound [OF rep S]])
  moreover have "denotes ?\<delta> ?L T (IdT S f g)" using dS df dg unfolding T denotes_def by (auto intro!: conv_congs)
  ultimately show ?thesis by (rule types_valueI) (use dS df dg in \<open>simp add: T\<close>)
qed

lemma universe_conv:
  "closure_apply (c_eval r) cl (VNeutral (NVar L)) = Ok (VUniverse k) \<Longrightarrow> vok_closure cl L 1 \<Longrightarrow>
   conv \<delta> (emb_closure cl L 1) (Universe k)"
  using open_one_sound [of cl L "VUniverse k" \<delta>] by (simp add: denotes_def)

lemma not_universe [simp]: "expect_universe_value v \<noteq> None \<longleftrightarrow> (\<exists>k. v = VUniverse k)"
  by (cases v) (auto simp: expect_universe_value_def)

lemma eliminator_kind_sound:
  assumes ok: "eliminator_kind_value r c dep m A a cl = Ok (VUniverse k)" and lvl: "nbe_level c = L"
    and vok: "vok A L" "vok a L" "vok_closure cl L 1"
  shows "conv \<delta> (emb_closure cl L 1)
    (if dep then PiT (IdT (shift_up (emb A L) 1 0) (shift_up (emb a L) 1 0) (Var 0)) (Universe k) else Universe k)"
proof (cases dep)
  case False
  with ok lvl universe_conv [OF _ vok(3)] show ?thesis by (simp add: eliminator_kind_value_def Let_def)
next
  case True
  with ok lvl obtain d cl' where pi: "closure_apply (c_eval r) cl (VNeutral (NVar L)) = Ok (VPi d cl')"
    and eq: "c_eq r d (VId A a (VNeutral (NVar L))) (Suc L) = Ok True"
    and u: "closure_apply (c_eval r) cl' (VNeutral (NVar (Suc L))) = Ok (VUniverse k)"
    by (auto simp: eliminator_kind_value_def Let_def split: if_splits)
  have d: "denotes \<delta> (Suc L) (VPi d cl') (emb_closure cl L 1)" by (rule open_one_sound [OF pi vok(3)])
  then have vok': "vok d (Suc L)" "vok_closure cl' (Suc L) 1" by (simp_all add: denotes_def)
  have "conv \<delta> (emb_closure cl L 1) (PiT (emb d (Suc L)) (emb_closure cl' (Suc L) 1))" using d by (simp add: denotes_def)
  also have "conv \<delta> \<dots> (PiT (emb (VId A a (VNeutral (NVar L))) (Suc L)) (Universe k))"
    by (intro conv_congs eq_sound [OF eq vok'(1)] universe_conv [OF u vok'(2)])
      (use vok vok_mono(1) [of _ L "Suc L"] in simp)
  finally show ?thesis using True emb_shift(1) [OF vok(1), of 1] emb_shift(1) [OF vok(2), of 1] by simp
qed

lemma identity_elim_sound:
  assumes rep: "represents c \<Gamma>" and ok: "infer_identity_elim_value r c dep m b s = Ok T"
  shows "types_value c \<Gamma> (if dep then IdElim m b s else J m b s) T \<and> vin T (assumed c)"
proof -
  let ?L = "length \<Gamma>" and ?\<delta> = "env_defs \<Gamma>" and ?F = "nc_foundation c" and ?X = "assumed c"
  have lvl: "nbe_level c = ?L" by (rule representsD(3) [OF rep])
  obtain A x y d cl k mv ex eb ey where s: "c_infer r c s = Ok (VId A x y)" and m: "c_infer r c m = Ok (VPi d cl)"
    and eq: "c_eq r d A ?L = Ok True" and kind: "eliminator_kind_value r c dep m A x cl = Ok (VUniverse k)"
    and mv: "c_eval r m (nc_env c) = Ok mv" and ex: "apply_value (c_eval r) mv x = Ok ex"
    and eb: "(if dep then apply_value (c_eval r) ex (VRefl x) else Ok ex) = Ok eb"
    and b: "check_domain_value r c b eb = Ok ()" and ey: "apply_value (c_eval r) mv y = Ok ey"
    and T: "if dep then \<exists>sv. c_eval r s (nc_env c) = Ok sv \<and> apply_value (c_eval r) ey sv = Ok T else T = ey"
    using ok by (cases dep) (auto simp: infer_identity_elim_value_def lvl split: if_splits)
  have s': "has_type ?F \<Gamma> s (IdT (emb A ?L) (emb x ?L) (emb y ?L))" "vok A ?L" "vok x ?L" "vok y ?L" "vin x ?X" "vin y ?X"
    using infer_sound [OF rep s] by simp_all
  have m': "has_type ?F \<Gamma> m (PiT (emb d ?L) (emb_closure cl ?L 1))" "vok d ?L" "vok_closure cl ?L 1"
    using infer_sound [OF rep m] by simp_all
  let ?B = "if dep then PiT (IdT (shift_up (emb A ?L) 1 0) (shift_up (emb x ?L) 1 0) (Var 0)) (Universe k) else Universe k"
  have "conv ?\<delta> (PiT (emb d ?L) (emb_closure cl ?L 1)) (PiT (emb A ?L) ?B)"
    by (intro conv_congs eq_sound [OF eq m'(2) s'(2)] eliminator_kind_sound [OF kind lvl s'(2,3) m'(3)])
  with m'(1) have motive: "has_type ?F \<Gamma> m (PiT (emb A ?L) ?B)" by (rule T_Conv)
  note dm = inferred_denotes [OF rep m mv] and dx = denotes_self [OF s'(3), of ?\<delta>] and dy = denotes_self [OF s'(4), of ?\<delta>]
  note dex = apply_at [OF ex dm dx s'(5)] and dey = apply_at [OF ey dm dy s'(6)]
  show ?thesis
  proof (cases dep)
    case False
    with eb b denotes_has_type [OF domain_sound [OF rep, of b ex] dex(1)] denotesD(1) [OF dex(1)]
    have "has_type ?F \<Gamma> b (App m (emb x ?L))" by simp
    with motive s'(1) False have "has_type ?F \<Gamma> (J m b s) (App m (emb y ?L))" by (auto intro: T_J)
    from types_valueI [OF this dey] T False show ?thesis by simp
  next
    case True
    with T obtain sv where sv: "c_eval r s (nc_env c) = Ok sv" and T': "apply_value (c_eval r) ey sv = Ok T" by auto
    from eb True have eb': "apply_value (c_eval r) ex (VRefl x) = Ok eb" by simp
    have refl: "denotes ?\<delta> ?L (VRefl x) (Refl (emb x ?L))" "vin (VRefl x) ?X" using s' by (simp_all add: denotes_def conv_refl)
    note deb = apply_at [OF eb' dex refl]
    from denotes_has_type [OF domain_sound [OF rep b denotesD(1) [OF deb(1)]] deb(1)]
    have "has_type ?F \<Gamma> b (App (App m (emb x ?L)) (Refl (emb x ?L)))" .
    with motive s'(1) True have "has_type ?F \<Gamma> (IdElim m b s) (App (App m (emb y ?L)) s)" by (auto intro: T_IdElim)
    from types_valueI [OF this apply_at [OF T' dey inferred_denotes [OF rep s sv]]] True show ?thesis by simp
  qed
qed

text \<open>The checking arms.\<close>

lemma check_lam_sound:
  assumes rep: "represents c \<Gamma>" and ok: "check_lam_value r c A b d cl = Ok ()" and vok: "vok (VPi d cl) (length \<Gamma>)"
  shows "has_type (nc_foundation c) \<Gamma> (Lam A b) (emb (VPi d cl) (length \<Gamma>))"
proof -
  let ?L = "length \<Gamma>"
  have lvl: "nbe_level c = ?L" by (rule representsD(3) [OF rep])
  obtain n v B where A: "infer_sort_value r c A = Ok n" and v: "c_eval r A (nc_env c) = Ok v"
    and eq: "c_eq r v d ?L = Ok True" and B: "closure_apply (c_eval r) cl (VNeutral (NVar ?L)) = Ok B"
    and b: "c_check r (nbe_extend c v) b B = Ok ()"
    using ok by (auto simp: check_lam_value_def lvl split: if_splits)
  note rep' = type_represented [OF rep A v]
  have vok': "vok d ?L" "vok_closure cl ?L 1" using vok by simp_all
  have dB: "denotes (env_defs ((A, None) # \<Gamma>)) (Suc ?L) B (emb_closure cl ?L 1)" by (rule open_one_sound [OF B vok'(2)])
  have "has_type (nc_foundation c) ((A, None) # \<Gamma>) b (emb B (Suc ?L))"
    using check_sound [OF rep'(1) b] denotesD(1) [OF dB] by simp
  then have "has_type (nc_foundation c) ((A, None) # \<Gamma>) b (emb_closure cl ?L 1)" using denotes_has_type dB by fastforce
  then have "has_type (nc_foundation c) \<Gamma> (Lam A b) (PiT A (emb_closure cl ?L 1))" by (rule T_Lam [OF sort_sound [OF rep A]])
  moreover have "conv (env_defs \<Gamma>) A (emb d ?L)"
    using conv_trans [OF denotesD(2) [OF rep'(2)] eq_sound [OF eq denotesD(1) [OF rep'(2)] vok'(1)]] .
  ultimately show ?thesis by (auto intro: T_Conv conv_congs conv_refl)
qed

lemma check_pair_sound:
  assumes rep: "represents c \<Gamma>" and ok: "check_pair_value r c a b d cl = Ok ()" and vok: "vok (VSigma d cl) (length \<Gamma>)"
  shows "has_type (nc_foundation c) \<Gamma> (PairT a b) (emb (VSigma d cl) (length \<Gamma>))"
proof -
  let ?L = "length \<Gamma>" and ?B = "emb_closure cl (length \<Gamma>) 1"
  obtain v B where a: "c_check r c a d = Ok ()" and v: "c_eval r a (nc_env c) = Ok v"
    and B: "closure_apply (c_eval r) cl v = Ok B" and b: "c_check r c b B = Ok ()"
    using ok by (auto simp: check_pair_value_def)
  note dv = checked_denotes(1) [OF rep a v]
  have "denotes (env_defs \<Gamma>) ?L B (subst ?B 0 (emb v ?L))"
    by (rule closure_apply_sound [OF B]) (use vok denotesD(1) [OF dv] in simp_all)
  then have dB: "denotes (env_defs \<Gamma>) ?L B (subst ?B 0 a)"
    by (rule denotes_conv) (intro conv_subst conv_refl denotesD(2) [OF dv])
  have "has_type (nc_foundation c) \<Gamma> a (emb d ?L)" by (rule check_sound [OF rep a]) (use vok in simp)
  from T_Pair [OF this denotes_has_type [OF check_sound [OF rep b denotesD(1) [OF dB]] dB]] show ?thesis by simp
qed

lemma check_refl_sound:
  assumes rep: "represents c \<Gamma>" and ok: "check_refl_value r c a e A x y = Ok ()" and vok: "vok (VId A x y) (length \<Gamma>)"
  shows "has_type (nc_foundation c) \<Gamma> (Refl a) (emb (VId A x y) (length \<Gamma>))"
proof -
  let ?L = "length \<Gamma>"
  have lvl: "nbe_level c = ?L" by (rule representsD(3) [OF rep])
  obtain v where a: "c_check r c a A = Ok ()" and v: "c_eval r a (nc_env c) = Ok v"
    and eq: "c_eq r v x ?L = Ok True" "c_eq r v y ?L = Ok True"
    using ok by (auto simp: check_refl_value_def check_domain_value_def lvl split: if_splits)
  note dv = checked_denotes(1) [OF rep a v]
  have "conv (env_defs \<Gamma>) a (emb x ?L)" "conv (env_defs \<Gamma>) a (emb y ?L)"
    using conv_trans [OF denotesD(2) [OF dv]] eq_sound [OF eq(1) denotesD(1) [OF dv]] eq_sound [OF eq(2) denotesD(1) [OF dv]] vok
    by auto
  then have "conv (env_defs \<Gamma>) (IdT (emb A ?L) a a) (emb (VId A x y) ?L)" by (simp add: conv_congs conv_refl)
  moreover have "has_type (nc_foundation c) \<Gamma> a (emb A ?L)" by (rule check_sound [OF rep a]) (use vok in simp)
  ultimately show ?thesis by (blast intro: T_Conv T_Refl)
qed

lemma check_inferred_sound:
  assumes rep: "represents c \<Gamma>" and ok: "check_inferred_value r c t v = Ok ()" and vok: "vok v (length \<Gamma>)"
  shows "has_type (nc_foundation c) \<Gamma> t (emb v (length \<Gamma>))"
proof -
  obtain w where w: "c_infer r c t = Ok w" and eq: "c_eq r w v (length \<Gamma>) = Ok True"
    using ok representsD(3) [OF rep] by (auto simp: check_inferred_value_def split: if_splits)
  from infer_sound [OF rep w] eq_sound [OF eq _ vok, of "env_defs \<Gamma>"] show ?thesis by (blast intro: T_Conv)
qed

lemma check_intro_sound:
  assumes rep: "represents c \<Gamma>" and ok: "check_intro_value r c t v = Ok ()" and vok: "vok v (length \<Gamma>)"
  shows "has_type (nc_foundation c) \<Gamma> t (emb v (length \<Gamma>))"
  using ok vok check_lam_sound [OF rep] check_pair_sound [OF rep] check_refl_sound [OF rep] check_inferred_sound [OF rep]
  by (auto simp: check_intro_value_def split: option.splits simp del: emb.simps vok.simps)

lemma check_step_sound:
  assumes rep: "represents c \<Gamma>" and ok: "check_value_step r c t v = Ok ()" and vok: "vok v (length \<Gamma>)"
  shows "has_type (nc_foundation c) \<Gamma> t (emb v (length \<Gamma>))"
proof (cases t)
  case (Var i)
  with ok obtain w eq where w: "nbe_lookup c i = Some w" and eq: "c_eq r w v (length \<Gamma>) = Ok eq"
    and rest: "\<not> eq \<Longrightarrow> (case env_defs \<Gamma> i of Some s \<Rightarrow> c_check r c s v | None \<Rightarrow> check_intro_value r c t v) = Ok ()"
    by (auto simp: check_value_step_def representsD(3) [OF rep] nbe_definition_abs [OF rep] split: if_splits)
  note w' = nbe_lookup_typed [OF rep w, of "nc_foundation c"]
  show ?thesis
  proof (cases eq)
    case True
    with eq w' vok have "conv (env_defs \<Gamma>) (emb w (length \<Gamma>)) (emb v (length \<Gamma>))" by (intro eq_sound) simp_all
    then show ?thesis unfolding Var by (rule T_Conv [OF conjunct1 [OF w']])
  next
    case False
    from rest [OF this] show ?thesis
      using check_intro_sound [OF rep _ vok] T_Def check_sound [OF rep _ vok] unfolding Var by (auto split: option.splits)
  qed
next
  case (LetT a b)
  with ok obtain ty w where ty: "c_infer r c a = Ok ty" and w: "c_eval r a (nc_env c) = Ok w"
    and b: "c_check r (nbe_define c ty w a) b v = Ok ()" by (auto simp: check_value_step_def)
  from check_sound [OF let_represented [OF rep ty w] b] vok_mono(1) [OF vok, of "Suc (length \<Gamma>)"] emb_shift(1) [OF vok, of 1]
  have "has_type (nc_foundation c) ((emb ty (length \<Gamma>), Some a) # \<Gamma>) b (shift_up (emb v (length \<Gamma>)) 1 0)" by simp
  with T_Let [of "nc_foundation c" \<Gamma> a "emb ty (length \<Gamma>)"] infer_sound [OF rep ty] show ?thesis
    unfolding LetT by fastforce
qed (use ok check_intro_sound [OF rep _ vok] in \<open>simp_all add: check_value_step_def\<close>)

end

end
