(* ===== verification/NbeInductive.thy ===== *)
theory NbeInductive
  imports NbeTyping
begin

section \<open>Data declarations, constructors and induction in the second checker\<close>

text \<open>
  The arms of the second checker for data declarations, constructor applications and induction
  derive their judgements too. With the arms of \<open>NbeTyping\<close> this makes the checker sound at every
  bound on its recursion.
\<close>

subsection \<open>Telescopes of closures\<close>

lemma instantiate_apply_terms:
  "instantiate_fields (apply_terms h ts) xs = apply_terms (instantiate_fields h xs) (map (\<lambda>t. instantiate_fields t xs) ts)"
  unfolding apply_terms_def
  by (induction ts arbitrary: h) (simp_all add: inst_under_node [of "App _ _" 0, simplified])

lemma instantiate_shift: "length xs = n \<Longrightarrow> instantiate_fields (shift_up t n 0) xs = t"
  using inst_act_shift [of t xs 0] by (simp add: instantiate_fields_eq)

text \<open>The closures \<open>ids\<close> are the values of the telescope \<open>us\<close>.\<close>

definition telescope_values :: "nat set \<Rightarrow> defs \<Rightarrow> nat \<Rightarrow> closure list \<Rightarrow> tm list \<Rightarrow> bool" where
  "telescope_values X \<delta> L ids us \<longleftrightarrow> length ids = length us \<and>
     (\<forall>j < length us. vok_closure (ids ! j) L j \<and> cin (ids ! j) X \<and>
        conv (lift_defs j \<delta>) (us ! j) (emb_closure (ids ! j) L j))"

lemma telescope_values_shift:
  assumes tele: "telescope_values X (env_defs \<Gamma>) L ids us" and \<Delta>: "env_shift m 0 \<Gamma> \<Delta>" and "X \<subseteq> Y"
  shows "telescope_values Y (env_defs \<Delta>) (L + m) ids (shift_telescope m 0 us)"
proof -
  have "conv (lift_defs j (env_defs \<Delta>)) (shift_up (us ! j) m j) (emb_closure (ids ! j) (L + m) j)"
    if "j < length us" for j
  proof -
    have "defs_shift m (0 + j) (lift_defs j (env_defs \<Gamma>)) (lift_defs j (env_defs \<Delta>))"
      using \<Delta> by (intro defs_shift_lift) (simp add: env_shift_def)
    then show ?thesis
      using conv_shift_up [of "lift_defs j (env_defs \<Gamma>)" "us ! j" "emb_closure (ids ! j) L j" m j] tele that
      by (simp add: telescope_values_def emb_shift(2))
  qed
  with tele \<open>X \<subseteq> Y\<close> show ?thesis
    by (auto simp: telescope_values_def vok_mono(2) [of _ L] intro: vin_mono(2))
qed

text \<open>Arguments checked one after the other, each against a type the earlier ones determine.\<close>

lemma arguments_in_order:
  assumes len: "length ws = length vs"
    and step: "\<And>j. j < length vs \<Longrightarrow> list_all2 R (take j ws) (take j vs) \<Longrightarrow> inside (take j ws) X \<Longrightarrow>
      P j \<and> R (ws ! j) (vs ! j) \<and> vin (ws ! j) X"
  shows "\<And>j. j < length vs \<Longrightarrow> P j" and "list_all2 R ws vs" and "inside ws X"
proof -
  have all: "list_all2 R (take j ws) (take j vs) \<and> inside (take j ws) X" if "j \<le> length vs" for j
    using that
  proof (induction j)
    case (Suc j)
    then have "list_all2 R (take j ws) (take j vs) \<and> inside (take j ws) X" by simp
    with step [of j] Suc.prems show ?case by (auto simp: take_Suc_conv_app_nth len intro: list_all2_appendI)
  qed simp
  then show "\<And>j. j < length vs \<Longrightarrow> P j" using step by (meson less_imp_le)
  from all [of "length vs"] len show "list_all2 R ws vs" and "inside ws X" by simp_all
qed

context sound_nbe
begin

text \<open>A closure applied to values of arguments.\<close>

lemma fields_at:
  assumes ok: "apply_fields (c_eval r) cl acc = Ok v" and cl: "vok_closure cl L n" "cin cl X" and n: "length acc = n"
    and conv: "conv (lift_defs n \<delta>) u (emb_closure cl L n)"
    and acc: "list_all2 (denotes \<delta> L) acc as" "inside acc X"
  shows "denotes \<delta> L v (instantiate_fields u as)" and "vin v X"
proof -
  have vs: "voks acc L" "list_all2 (conv \<delta>) as (embs acc L)" "length as = n"
    using acc(1) n by (auto simp: list_denotes dest: list_all2_lengthD)
  have "denotes \<delta> L v (instantiate_fields (emb_closure cl L n) (embs acc L))"
    using apply_fields_sound [OF ok _ vs(1)] cl n by simp
  then show "denotes \<delta> L v (instantiate_fields u as)"
    by (rule denotes_conv) (rule conv_instantiate [OF vs(2)], use conv vs(3) in simp)
  show "vin v X" by (rule apply_fields_vars [OF ok _ vs(1) cl(2) acc(2)]) (use cl n in simp)
qed

lemma values_at:
  assumes "apply_values (c_eval r) f xs = Ok v" and "denotes \<delta> L f t" "vin f X" and "list_all2 (denotes \<delta> L) xs us" "inside xs X"
  shows "denotes \<delta> L v (apply_terms t us)" and "vin v X"
  using apply_values_conv [OF assms(1,2,4)] apply_values_vars [OF assms(1) _ _ assms(3,5), of L] assms(2,4)
  by (auto simp: denotes_def list_denotes)

lemma fields_map_at:
  assumes ok: "run_map (\<lambda>cl. apply_fields (c_eval r) cl acc) cls = Ok vs" and n: "length acc = n"
    and cls: "\<And>cl. cl \<in> set cls \<Longrightarrow> vok_closure cl L n \<and> cin cl X"
    and acc: "list_all2 (denotes \<delta> L) acc as" "inside acc X"
  shows "list_all2 (denotes \<delta> L) vs (map (\<lambda>cl. instantiate_fields (emb_closure cl L n) as) cls)" and "inside vs X"
proof -
  have len: "length vs = length cls" and each: "\<And>i. i < length cls \<Longrightarrow> apply_fields (c_eval r) (cls ! i) acc = Ok (vs ! i)"
    using ok by (auto simp: run_map_eq_Ok list_all2_conv_all_nth)
  note at = fields_at [OF each _ _ n conv_refl acc]
  from at(1) cls show "list_all2 (denotes \<delta> L) vs (map (\<lambda>cl. instantiate_fields (emb_closure cl L n) as) cls)"
    by (simp add: list_all2_conv_all_nth len)
  have "vin (vs ! i) X" if "i < length cls" for i using at(2) [OF that] cls [OF nth_mem [OF that]] by blast
  then show "inside vs X" by (auto simp: in_set_conv_nth len)
qed

subsection \<open>Declarations\<close>

lemma index_arguments_sound:
  assumes rep: "represents c \<Gamma>" and tele: "telescope_values (assumed c) (env_defs \<Gamma>) (length \<Gamma>) ids us"
    and ok: "check_index_arguments r c ids vs = Ok ws"
  shows "length us = length vs"
    and "\<And>j. j < length vs \<Longrightarrow> has_type (nc_foundation c) \<Gamma> (vs ! j) (instantiate_fields (us ! j) (take j vs))"
    and "list_all2 (denotes (env_defs \<Gamma>) (length \<Gamma>)) ws vs" and "inside ws (assumed c)"
proof -
  let ?L = "length \<Gamma>" and ?\<delta> = "env_defs \<Gamma>" and ?X = "assumed c"
  let ?f = "\<lambda>values (domain, argument).
    run_bind (apply_fields (c_eval r) domain values) (\<lambda>ty.
    run_bind (c_check r c argument ty) (\<lambda>_.
    run_bind (c_eval r argument (nc_env c)) (\<lambda>v. Ok (values @ [v]))))"
  have len: "length ids = length vs" "length us = length vs" and loop: "run_for [] (zip ids vs) ?f = Ok ws"
    using ok tele by (auto simp: check_index_arguments_def telescope_values_def split: if_splits)
  then show "length us = length vs" by simp
  from run_for_collect [OF loop] have ws: "length ws = length vs"
    and each: "\<And>j. j < length vs \<Longrightarrow> ?f (take j ws) (ids ! j, vs ! j) = Ok (take j ws @ [ws ! j])"
    using len by fastforce+
  have "has_type (nc_foundation c) \<Gamma> (vs ! j) (instantiate_fields (us ! j) (take j vs)) \<and>
      denotes ?\<delta> ?L (ws ! j) (vs ! j) \<and> vin (ws ! j) ?X"
    if j: "j < length vs" and prev: "list_all2 (denotes ?\<delta> ?L) (take j ws) (take j vs)" "inside (take j ws) ?X" for j
  proof -
    obtain ty where ty: "apply_fields (c_eval r) (ids ! j) (take j ws) = Ok ty" and v: "c_check r c (vs ! j) ty = Ok ()"
      and w: "c_eval r (vs ! j) (nc_env c) = Ok (ws ! j)" using each [OF j] by auto
    have "denotes ?\<delta> ?L ty (instantiate_fields (us ! j) (take j vs))"
      by (rule fields_at(1) [OF ty _ _ _ _ prev, where n = j])
        (use tele j len ws in \<open>simp_all add: telescope_values_def\<close>)
    then have "has_type (nc_foundation c) \<Gamma> (vs ! j) (instantiate_fields (us ! j) (take j vs))"
      using denotes_has_type check_sound [OF rep v] denotesD(1) by blast
    with checked_denotes [OF rep v w] show ?thesis by blast
  qed
  note in_order = arguments_in_order [OF ws this]
  from in_order show "\<And>j. j < length vs \<Longrightarrow> has_type (nc_foundation c) \<Gamma> (vs ! j) (instantiate_fields (us ! j) (take j vs))"
    and "list_all2 (denotes ?\<delta> ?L) ws vs" and "inside ws ?X" by blast+
qed

lemma index_formation_sound:
  "represents c \<Gamma> \<Longrightarrow> index_formation_value r c ts = Ok c' \<Longrightarrow> telescope_formed (has_type (nc_foundation c)) \<Gamma> ts"
proof (induction ts arbitrary: c \<Gamma>)
  case (Cons t ts)
  then obtain l v where t: "infer_sort_value r c t = Ok l" and v: "c_eval r t (nc_env c) = Ok v"
    and rest: "index_formation_value r (nbe_extend c v) ts = Ok c'"
    by (auto simp: index_formation_value_def)
  from Cons.IH [OF type_represented(1) [OF Cons.prems(1) t v] rest] sort_sound [OF Cons.prems(1) t] show ?case
    by (auto simp: telescope_formed_def less_Suc_eq_0_disj)
qed (simp add: telescope_formed_def)

lemma field_sort_sound:
  assumes rep: "represents c \<Gamma>" and ok: "field_sort_value r l c t = Ok v"
  shows "\<exists>m. has_type (nc_foundation c) \<Gamma> t (Universe m) \<and> (\<forall>\<rho>. level_val \<rho> m \<le> level_val \<rho> l)"
    and "denotes (env_defs \<Gamma>) (length \<Gamma>) v t" and "vin v (assumed c)"
proof -
  obtain m where m: "infer_sort_value r c t = Ok m" and le: "level_eq (max_with m l) l" and v: "c_eval r t (nc_env c) = Ok v"
    using ok by (auto simp: field_sort_value_def split: if_splits)
  show "\<exists>m. has_type (nc_foundation c) \<Gamma> t (Universe m) \<and> (\<forall>\<rho>. level_val \<rho> m \<le> level_val \<rho> l)"
    using sort_sound [OF rep m] level_bound [OF le] by blast
  show "denotes (env_defs \<Gamma>) (length \<Gamma>) v t" and "vin v (assumed c)" by (rule type_represented [OF rep m v])+
qed

lemma assumed_extend: "assumed c \<subseteq> assumed (nbe_extend c v)"
  by (auto simp: assumed_def nbe_extend_def nth_append)

text \<open>A field is formed after \<open>i\<close> earlier ones, the declaration and its telescope come from the outer context.\<close>

lemma field_domain_sound:
  assumes rep: "represents c \<Gamma>" "represents local (\<Delta> @ \<Gamma>)" and F: "nc_foundation local = nc_foundation c"
    and X: "assumed c \<subseteq> assumed local"
    and D: "denotes (env_defs \<Gamma>) (length \<Gamma>) D data" "vin D (assumed c)"
    and tele: "telescope_values (assumed c) (env_defs \<Gamma>) (length \<Gamma>) ids ts"
    and ok: "field_formation_value r c D l ids local f = Ok local'"
  shows "field_formed (has_type (nc_foundation c)) (\<Delta> @ \<Gamma>) data l ts (length \<Delta>) f"
    and "\<exists>v. local' = nbe_extend local v \<and> vin v (assumed local) \<and>
      denotes (env_defs (\<Delta> @ \<Gamma>)) (length (\<Delta> @ \<Gamma>)) v (field_domain data f (length \<Delta>))"
proof -
  let ?\<Gamma> = "\<Delta> @ \<Gamma>" and ?i = "length \<Delta>" and ?F = "nc_foundation c"
  have \<Delta>: "env_shift ?i 0 \<Gamma> ?\<Gamma>" by (rule env_shift_append)
  have D': "denotes (env_defs ?\<Gamma>) (length ?\<Gamma>) D (shift_up data ?i 0)" "vin D (assumed local)"
    using denotes_shift [OF \<Delta> D(1)] vin_mono(1) [OF D(2) X] by (simp_all add: add.commute)
  have tele': "telescope_values (assumed local) (env_defs ?\<Gamma>) (length ?\<Gamma>) ids (shift_telescope ?i 0 ts)"
    using telescope_values_shift [OF tele \<Delta> X] by (simp add: add.commute)
  have recursive: "args_typed (has_type ?F) ?\<Gamma> ts vs ?i \<and> vin v (assumed local) \<and>
      denotes (env_defs ?\<Gamma>) (length ?\<Gamma>) v (apply_terms (shift_up data ?i 0) vs)"
    if "field_recursive_value r D ids local vs = Ok v" for vs v
  proof -
    from that obtain ws where ws: "check_index_arguments r local ids vs = Ok ws"
      and v: "apply_values (c_eval r) D ws = Ok v" by (auto simp: field_recursive_value_def)
    note args = index_arguments_sound [OF rep(2) tele' ws]
    from args(1,2) have "args_typed (has_type ?F) ?\<Gamma> ts vs ?i" by (auto simp: args_typed_def F)
    with values_at [OF v D' args(3,4)] show ?thesis by blast
  qed
  have "field_formed (has_type ?F) ?\<Gamma> data l ts ?i f \<and> (\<exists>v. local' = nbe_extend local v \<and> vin v (assumed local) \<and>
      denotes (env_defs ?\<Gamma>) (length ?\<Gamma>) v (field_domain data f ?i))"
  proof (cases f)
    case (Value t)
    with ok obtain v where v: "field_sort_value r l c t = Ok v" and l': "local' = nbe_extend local v"
      by (auto simp: field_formation_value_def)
    note s = field_sort_sound [OF rep(1) v]
    from s(1) obtain m where m: "has_type ?F \<Gamma> t (Universe m)" "\<And>\<rho>. level_val \<rho> m \<le> level_val \<rho> l" by blast
    from weakening [OF m(1), of \<Delta>] have "has_type ?F ?\<Gamma> (shift_up t ?i 0) (Universe m)" by (simp add: up.trav_node)
    with m(2) denotes_shift [OF \<Delta> s(2)] vin_mono(1) [OF s(3) X] l' show ?thesis
      by (auto simp: Value field_formed_def recursive_indices_def field_domain_def field_value_type_def add.commute)
  next
    case (Dependent t)
    with ok obtain v where v: "field_sort_value r l local t = Ok v" and l': "local' = nbe_extend local v"
      by (auto simp: field_formation_value_def)
    from field_sort_sound [OF rep(2) v] l' show ?thesis
      by (auto simp: Dependent field_formed_def recursive_indices_def field_domain_def field_value_type_def F)
  next
    case Recursive
    with ok obtain v where "field_recursive_value r D ids local [] = Ok v" and "local' = nbe_extend local v"
      by (auto simp: field_formation_value_def)
    with recursive show ?thesis
      by (auto simp: Recursive field_formed_def recursive_indices_def field_domain_def field_value_type_def)
  next
    case (RecursiveAt vs)
    with ok obtain v where "field_recursive_value r D ids local vs = Ok v" and "local' = nbe_extend local v"
      by (auto simp: field_formation_value_def)
    with recursive show ?thesis
      by (auto simp: RecursiveAt field_formed_def recursive_indices_def field_domain_def field_value_type_def)
  qed
  then show "field_formed (has_type ?F) ?\<Gamma> data l ts ?i f"
    and "\<exists>v. local' = nbe_extend local v \<and> vin v (assumed local) \<and>
      denotes (env_defs ?\<Gamma>) (length ?\<Gamma>) v (field_domain data f ?i)" by blast+
qed

lemma fields_formed:
  "run_for local fs (field_formation_value r c D l ids) = Ok local' \<Longrightarrow>
   represents local (binders ds \<Gamma>) \<Longrightarrow> nc_foundation local = nc_foundation c \<Longrightarrow> assumed c \<subseteq> assumed local \<Longrightarrow>
   represents c \<Gamma> \<Longrightarrow> denotes (env_defs \<Gamma>) (length \<Gamma>) D data \<Longrightarrow> vin D (assumed c) \<Longrightarrow>
   telescope_values (assumed c) (env_defs \<Gamma>) (length \<Gamma>) ids ts \<Longrightarrow>
   represents local' (binders (ds @ map (\<lambda>(i, f). field_domain data f i) (List.enumerate (length ds) fs)) \<Gamma>) \<and>
   nc_foundation local' = nc_foundation c \<and> assumed c \<subseteq> assumed local' \<and>
   (\<forall>i < length fs. field_formed (has_type (nc_foundation c))
     (binders (ds @ take i (map (\<lambda>(i, f). field_domain data f i) (List.enumerate (length ds) fs))) \<Gamma>) data l ts
     (length ds + i) (fs ! i))"
proof (induction fs arbitrary: local ds)
  case (Cons f fs)
  from Cons.prems(1) obtain local1 where f: "field_formation_value r c D l ids local f = Ok local1"
    and rest: "run_for local1 fs (field_formation_value r c D l ids) = Ok local'" by auto
  let ?\<Delta> = "rev (map (\<lambda>t. (t, None)) ds)"
  have \<Delta>: "binders ds \<Gamma> = ?\<Delta> @ \<Gamma>" by (simp add: binders_def)
  note field = field_domain_sound [OF Cons.prems(5) Cons.prems(2) [unfolded \<Delta>] Cons.prems(3,4,6,7,8) f]
  from field(2) obtain v where v: "local1 = nbe_extend local v" "vin v (assumed local)"
    "denotes (env_defs (binders ds \<Gamma>)) (length (binders ds \<Gamma>)) v (field_domain data f (length ds))" by (auto simp: \<Delta>)
  have "represents local1 (binders (ds @ [field_domain data f (length ds)]) \<Gamma>)"
    unfolding binders_snoc v(1) by (rule represents_extend [OF Cons.prems(2) v(3,2)])
  from Cons.IH [OF rest this] Cons.prems assumed_extend [of local v] field(1) show ?case
    by (auto simp: v(1) \<Delta> less_Suc_eq_0_disj)
qed simp

lemma constructor_formed_sound:
  assumes rep: "represents c \<Gamma>" and D: "denotes (env_defs \<Gamma>) (length \<Gamma>) D data" "vin D (assumed c)"
    and tele: "telescope_values (assumed c) (env_defs \<Gamma>) (length \<Gamma>) ids ts"
    and ok: "constructor_formation_value r c D l ids k = Ok ()"
  shows "constructor_formed (has_type (nc_foundation c)) \<Gamma> data l ts k"
proof -
  let ?ds = "field_domains data (con_fields k)" and ?n = "length (con_fields k)"
  obtain local ws where loop: "run_for c (con_fields k) (field_formation_value r c D l ids) = Ok local"
    and ws: "check_index_arguments r local ids (con_indices k) = Ok ws"
    using ok by (auto simp: constructor_formation_value_def)
  from fields_formed [OF loop, of "[]"] rep D tele
  have rep': "represents local (binders ?ds \<Gamma>)" and F: "nc_foundation local = nc_foundation c" and X: "assumed c \<subseteq> assumed local"
    and fields: "\<And>i. i < ?n \<Longrightarrow> field_formed (has_type (nc_foundation c)) (binders (take i ?ds) \<Gamma>) data l ts i (con_fields k ! i)"
    by (auto simp: field_domains_def)
  have "env_shift ?n 0 \<Gamma> (binders ?ds \<Gamma>)"
    using env_shift_append [of "rev (map (\<lambda>t. (t, None)) ?ds)" \<Gamma>] by (simp add: binders_def)
  from telescope_values_shift [OF tele this X]
  have "telescope_values (assumed local) (env_defs (binders ?ds \<Gamma>)) (length (binders ?ds \<Gamma>)) ids (shift_telescope ?n 0 ts)"
    by (simp add: add.commute)
  note args = index_arguments_sound [OF rep' this ws]
  from args(1,2) have "args_typed (has_type (nc_foundation c)) (binders ?ds \<Gamma>) ts (con_indices k) ?n"
    by (auto simp: args_typed_def F)
  with fields show ?thesis by (simp add: constructor_formed_def)
qed

lemma data_sound:
  assumes rep: "represents c \<Gamma>" and ok: "infer_data_value r c (Data n l ts cs) l ts cs = Ok T"
  shows "types_value c \<Gamma> (Data n l ts cs) T \<and> vin T (assumed c)"
proof -
  let ?d = "Data n l ts cs" and ?ids = "map (\<lambda>(i, ty). capture ty (nc_env c) i) (List.enumerate 0 ts)"
  note env = representsD [OF rep]
  obtain c' D where idx: "index_formation_value r c ts = Ok c'" and D: "c_eval r ?d (nc_env c) = Ok D"
    and cons: "\<And>k. k \<in> set cs \<Longrightarrow> constructor_formation_value r c D l ?ids k = Ok ()"
    and T: "c_eval r (foldr PiT ts (Universe (level_normalize l))) (nc_env c) = Ok T"
    using ok eval_declaration [of n l ts cs "nc_env c"] by (fastforce simp: infer_data_value_def run_for_unit)
  have scoped: "scoped (length \<Gamma>) ?d" using data_scoped [OF ok] env(2) by simp
  have index: "scoped (length \<Gamma> + i) (ts ! i)" if "i < length ts" for i
    using scoped that by (force simp: scoped_node set_enumerate_iff simp del: con_children.simps)
  note D' = eval_denotes [OF rep D scoped]
  have tele: "telescope_values (assumed c) (env_defs \<Gamma>) (length \<Gamma>) ?ids ts"
    using index represents_inst_under [OF rep] capture_ok [of "nc_env c" _ _ "length \<Gamma>"] env(1,4,5)
    by (auto simp: telescope_values_def nth_enumerate_eq capture_emb cvars_capture)
  have "has_type (nc_foundation c) \<Gamma> ?d (foldr PiT ts (Universe (level_normalize l)))"
    by (rule T_Data [OF index_formation_sound [OF rep idx] constructor_formed_sound [OF rep D' tele cons]])
      (simp_all add: level_val_normalize)
  moreover have "scoped (length \<Gamma>) (foldr PiT ts (Universe (level_normalize l)))"
    using index by (simp add: scoped_foldr_PiT scoped_node)
  ultimately show ?thesis using types_valueI [OF _ eval_denotes [OF rep T]] by blast
qed

subsection \<open>Constructors\<close>

lemma construct_expected_sound:
  assumes D: "denotes \<delta> L D data" "vin D X" and f: "vok_field f L n" "fin f X" and n: "length acc = n"
    and acc: "list_all2 (denotes \<delta> L) acc as" "inside acc X"
    and ok: "run_bind (field_value_domain (c_eval r) f acc) (\<lambda>domain.
      case domain of Some ty \<Rightarrow> Ok ty
      | None \<Rightarrow> run_bind (field_value_indices (c_eval r) f acc) (\<lambda>vs. apply_values (c_eval r) D (the vs))) = Ok v"
  shows "denotes \<delta> L v (instantiate_fields (field_domain data (emb_field f L n) n) as)"
proof -
  have as: "length as = n" using acc(1) n by (auto dest: list_all2_lengthD)
  have head: "instantiate_fields (apply_terms (shift_up data n 0) ts) as = apply_terms data (map (\<lambda>t. instantiate_fields t as) ts)" for ts
    by (simp add: instantiate_apply_terms instantiate_shift as)
  show ?thesis
  proof (cases f)
    case (FValue cl)
    with ok have "apply_fields (c_eval r) cl [] = Ok v" by (auto simp: field_value_domain_def apply_fields_def)
    from fields_at(1) [OF this, of L 0 X \<delta> "emb_closure cl L 0" "[]"] f FValue show ?thesis
      by (simp add: field_domain_def field_value_type_def instantiate_shift as conv_refl)
  next
    case (FDependent cl)
    with ok have "apply_fields (c_eval r) cl acc = Ok v" by (auto simp: field_value_domain_def)
    from fields_at(1) [OF this _ _ n conv_refl acc] f FDependent show ?thesis
      by (simp add: field_domain_def field_value_type_def)
  next
    case FRecursive
    with ok have "apply_values (c_eval r) D [] = Ok v" by (simp add: field_value_domain_def field_value_indices_def)
    from values_at(1) [OF this D, of "[]"] FRecursive show ?thesis
      by (simp add: field_domain_def field_value_type_def recursive_indices_def head)
  next
    case (FRecursiveAt cls)
    with ok obtain vs where vs: "run_map (\<lambda>cl. apply_fields (c_eval r) cl acc) cls = Ok vs"
      and v: "apply_values (c_eval r) D vs = Ok v" by (auto simp: field_value_domain_def field_value_indices_def)
    note vs' = fields_map_at [OF vs n _ acc]
    from values_at(1) [OF v D vs'] f FRecursiveAt show ?thesis
      by (simp add: field_domain_def field_value_type_def recursive_indices_def head comp_def)
  qed
qed

lemma construct_arguments_sound:
  assumes rep: "represents c \<Gamma>" and D: "denotes (env_defs \<Gamma>) (length \<Gamma>) D data" "vin D (assumed c)"
    and fs: "\<forall>j < length fs. vok_field (fs ! j) (length \<Gamma>) j \<and> fin (fs ! j) (assumed c)"
    and len: "length fs = length args" and loop: "run_for [] (zip fs args) (construct_argument_value r c D) = Ok ws"
  shows "\<And>j. j < length args \<Longrightarrow> has_type (nc_foundation c) \<Gamma> (args ! j)
      (instantiate_fields (field_domain data (emb_field (fs ! j) (length \<Gamma>) j) j) (take j args))"
    and "list_all2 (denotes (env_defs \<Gamma>) (length \<Gamma>)) ws args" and "inside ws (assumed c)"
proof -
  let ?L = "length \<Gamma>" and ?\<delta> = "env_defs \<Gamma>" and ?X = "assumed c"
  from run_for_collect [OF loop] have ws: "length ws = length args"
    and each: "\<And>j. j < length args \<Longrightarrow> construct_argument_value r c D (take j ws) (fs ! j, args ! j) = Ok (take j ws @ [ws ! j])"
    using len by (fastforce simp: construct_argument_value_def)+
  let ?P = "\<lambda>j. has_type (nc_foundation c) \<Gamma> (args ! j)
    (instantiate_fields (field_domain data (emb_field (fs ! j) ?L j) j) (take j args))"
  have "?P j \<and> denotes ?\<delta> ?L (ws ! j) (args ! j) \<and> vin (ws ! j) ?X"
    if j: "j < length args" and prev: "list_all2 (denotes ?\<delta> ?L) (take j ws) (take j args)" "inside (take j ws) ?X" for j
  proof -
    obtain ty where ty: "run_bind (field_value_domain (c_eval r) (fs ! j) (take j ws)) (\<lambda>domain.
        case domain of Some ty \<Rightarrow> Ok ty
        | None \<Rightarrow> run_bind (field_value_indices (c_eval r) (fs ! j) (take j ws)) (\<lambda>vs. apply_values (c_eval r) D (the vs))) = Ok ty"
      and v: "c_check r c (args ! j) ty = Ok ()" and w: "c_eval r (args ! j) (nc_env c) = Ok (ws ! j)"
      using each [OF j] by (fastforce simp: construct_argument_value_def)
    have "denotes ?\<delta> ?L ty (instantiate_fields (field_domain data (emb_field (fs ! j) ?L j) j) (take j args))"
      by (rule construct_expected_sound [OF D _ _ _ prev ty]) (use fs j len ws in simp_all)
    then have "?P j" using denotes_has_type check_sound [OF rep v] denotesD(1) by blast
    with checked_denotes [OF rep v w] show ?thesis by blast
  qed
  note in_order = arguments_in_order [OF ws this]
  from in_order show "\<And>j. j < length args \<Longrightarrow> ?P j" and "list_all2 (denotes ?\<delta> ?L) ws args" and "inside ws ?X" by blast+
qed

lemma construct_sound:
  assumes rep: "represents c \<Gamma>" and ok: "infer_construct_value r c d k args = Ok T"
  shows "types_value c \<Gamma> (Construct d k args) T \<and> vin T (assumed c)"
proof -
  let ?L = "length \<Gamma>" and ?\<delta> = "env_defs \<Gamma>" and ?X = "assumed c"
  obtain K n l ids ks ws rs where d: "c_infer r c d = Ok K" and D: "c_eval r d (nc_env c) = Ok (VData n l ids ks [])"
    and k: "k < length ks" and len: "length (cv_fields (ks ! k)) = length args"
    and loop: "run_for [] (zip (cv_fields (ks ! k)) args) (construct_argument_value r c (VData n l ids ks [])) = Ok ws"
    and rs: "run_map (\<lambda>cl. apply_fields (c_eval r) cl ws) (cv_indices (ks ! k)) = Ok rs"
    and T: "apply_values (c_eval r) (VData n l ids ks []) rs = Ok T"
    using ok by (auto simp: infer_construct_value_def Let_def split: if_splits)
  let ?D = "VData n l ids ks []" and ?ts = "map (\<lambda>(i, cl). emb_closure cl ?L i) (List.enumerate 0 ids)" and ?cs = "map (\<lambda>k. emb_con k ?L) ks"
  obtain fs js where con: "ks ! k = ConstructorValue fs js" by (cases "ks ! k")
  note D' = inferred_denotes [OF rep d D]
  have emb: "emb ?D ?L = Data n l ?ts ?cs" by (simp add: apply_terms_def)
  have vokD: "vok ?D ?L" by (rule denotesD(1) [OF D'(1)])
  have vokC: "vok_con (ks ! k) ?L" "kin (ks ! k) ?X" using vokD D'(2) k by simp_all
  have dD: "denotes ?\<delta> ?L ?D (Data n l ?ts ?cs)" using denotes_self [OF vokD] by (simp only: emb)
  have "length fs = length args" using len con by simp
  have "\<forall>j < length fs. vok_field (fs ! j) ?L j \<and> fin (fs ! j) ?X" using vokC by (simp add: con)
  note args = construct_arguments_sound [OF rep dD D'(2) this \<open>length fs = length args\<close> loop [unfolded con con_value.sel]]
  have cs: "con_fields (?cs ! k) = map (\<lambda>(i, f). emb_field f ?L i) (List.enumerate 0 fs)"
    "con_indices (?cs ! k) = map (\<lambda>cl. emb_closure cl ?L (length args)) js" using k con len by simp_all
  have typed: "has_type (nc_foundation c) \<Gamma> (Construct d k args)
      (apply_terms (Data n l ?ts ?cs) (map (\<lambda>t. instantiate_fields t args) (con_indices (?cs ! k))))"
  proof (rule T_Construct)
    show "has_type (nc_foundation c) \<Gamma> d (emb K ?L)" using infer_sound [OF rep d] by blast
    show "conv ?\<delta> d (Data n l ?ts ?cs)" using denotesD(2) [OF D'(1)] by (simp only: emb)
    show "has_type (nc_foundation c) \<Gamma> (args ! j)
        (instantiate_fields (field_domain (Data n l ?ts ?cs) (con_fields (?cs ! k) ! j) j) (take j args))"
      if "j < length args" for j
      using args(1) [OF that] that \<open>length fs = length args\<close> unfolding cs by (simp add: nth_enumerate_eq)
  qed (use k len con in simp_all)
  have "length ws = length args" using list_all2_lengthD [OF args(2)] by simp
  note rs' = fields_map_at [OF rs [unfolded con con_value.sel] this _ args(2,3)]
  show ?thesis
    by (rule types_valueI [OF typed])
      (rule values_at [OF T dD D'(2)], use rs' vokC \<open>length fs = length args\<close> in \<open>simp_all add: cs con comp_def\<close>)+
qed

subsection \<open>Induction\<close>

lemma motive_indices_sound:
  assumes "run_for (mk, fresh_values L n) ids (motive_index_value r c) = Ok (mk', refs)" and "nbe_level c = L"
    and "vok mk (L + n)" and "length ts = length ids"
    and "\<And>i. i < length ids \<Longrightarrow> vok_closure (ids ! i) L (n + i) \<and>
      (\<forall>\<delta>. conv (lift_defs (n + i) \<delta>) (emb_closure (ids ! i) L (n + i)) (ts ! i))"
  shows "refs = fresh_values L (n + length ids) \<and> vok mk' (L + (n + length ids)) \<and>
    conv (lift_defs n \<delta>) (emb mk (L + n)) (foldr PiT ts (emb mk' (L + (n + length ids))))"
  using assms
proof (induction ids arbitrary: mk n ts)
  case (Cons cl ids)
  obtain t ts' where ts: "ts = t # ts'" using Cons.prems(4) by (cases ts) auto
  have fresh: "fresh_values L n @ [VNeutral (NVar (L + n))] = fresh_values L (Suc n)"
    by (simp add: fresh_values_def fresh_def)
  from Cons.prems(1,2) obtain d cd e mk1 where mk: "mk = VPi d cd" and e: "apply_fields (c_eval r) cl (fresh_values L n) = Ok e"
    and eq: "c_eq r d e (L + n) = Ok True" and mk1: "closure_apply (c_eval r) cd (VNeutral (NVar (L + n))) = Ok mk1"
    and rest: "run_for (mk1, fresh_values L (Suc n)) ids (motive_index_value r c) = Ok (mk', refs)"
    by (auto simp: motive_index_value_def Let_def fresh split: if_splits)
  have cl: "vok_closure cl L n" "conv (lift_defs n \<delta>) (emb_closure cl L n) t" using Cons.prems(5) [of 0] by (auto simp: ts)
  have vok: "vok d (L + n)" "vok_closure cd (L + n) 1" using Cons.prems(3) mk by simp_all
  have de: "denotes (lift_defs n \<delta>) (L + n) e (emb_closure cl L n)" by (rule open_sound [OF e cl(1)])
  have d1: "denotes (lift_defs (Suc n) \<delta>) (Suc (L + n)) mk1 (emb_closure cd (L + n) 1)" by (rule open_one_sound [OF mk1 vok(2)])
  have IH: "refs = fresh_values L (Suc n + length ids) \<and> vok mk' (L + (Suc n + length ids)) \<and>
      conv (lift_defs (Suc n) \<delta>) (emb mk1 (L + Suc n)) (foldr PiT ts' (emb mk' (L + (Suc n + length ids))))"
    using Cons.IH [OF rest Cons.prems(2), of ts'] denotesD(1) [OF d1] Cons.prems(4) Cons.prems(5) [of "Suc _"] by (simp add: ts)
  have "conv (lift_defs n \<delta>) (emb d (L + n)) (emb e (L + n))" by (rule eq_sound [OF eq vok(1) denotesD(1) [OF de]])
  also have "conv (lift_defs n \<delta>) \<dots> (emb_closure cl L n)" by (rule conv_sym [OF denotesD(2) [OF de]])
  also have "conv (lift_defs n \<delta>) \<dots> t" by (rule cl(2))
  finally have "conv (lift_defs n \<delta>) (emb d (L + n)) t" .
  moreover have "conv (lift_defs 1 (lift_defs n \<delta>)) (emb_closure cd (L + n) 1) (foldr PiT ts' (emb mk' (L + (Suc n + length ids))))"
    using conv_trans [OF denotesD(2) [OF d1]] IH by (simp add: lift_defs_lift)
  ultimately show ?case using IH by (simp add: mk ts conv_congs)
qed (simp add: conv_refl)

lemma motive_target_sound:
  assumes ok: "motive_target_value r c D mk (fresh_values L n) = Ok ()" and lvl: "nbe_level c = L"
    and mk: "vok mk (L + n)" and D: "vok D L" "conv \<delta> (emb D L) raw"
  shows "\<exists>u. conv (lift_defs n \<delta>) (emb mk (L + n)) (PiT (apply_terms (shift_up raw n 0) (map Var (rev [0..<n]))) (Universe u))"
proof -
  obtain d cd e k where pi: "mk = VPi d cd" and e: "apply_values (c_eval r) D (fresh_values L n) = Ok e"
    and eq: "c_eq r d e (L + n) = Ok True" and u: "closure_apply (c_eval r) cd (VNeutral (NVar (L + n))) = Ok (VUniverse k)"
    using ok lvl by (auto simp: motive_target_value_def Let_def split: if_splits)
  have vok: "vok d (L + n)" "vok_closure cd (L + n) 1" using mk pi by simp_all
  have vars: "embs (fresh_values L n) (L + n) = map Var (rev [0..<n])"
    unfolding embs_fresh by (rule nth_equalityI) (simp_all add: rev_nth)
  have "denotes (lift_defs n \<delta>) (L + n) D (emb D (L + n))" using vok_mono(1) [OF D(1), of "L + n"] by (simp add: denotes_self)
  from apply_values_conv [OF e this voks_denotes [OF fresh_values_ok]] vars
  have de: "denotes (lift_defs n \<delta>) (L + n) e (apply_terms (emb D (L + n)) (map Var (rev [0..<n])))" by simp
  have "conv (lift_defs n \<delta>) (emb d (L + n)) (emb e (L + n))" by (rule eq_sound [OF eq vok(1) denotesD(1) [OF de]])
  also have "conv (lift_defs n \<delta>) \<dots> (apply_terms (emb D (L + n)) (map Var (rev [0..<n])))" by (rule conv_sym [OF denotesD(2) [OF de]])
  also have "conv (lift_defs n \<delta>) \<dots> (apply_terms (shift_up raw n 0) (map Var (rev [0..<n])))"
    unfolding emb_shift(1) [OF D(1)] by (intro conv_apply_terms conv_shift_up_0 D(2))
  finally have "conv (lift_defs n \<delta>) (emb d (L + n)) (apply_terms (shift_up raw n 0) (map Var (rev [0..<n])))" .
  with universe_conv [OF u vok(2)] show ?thesis by (auto simp: pi intro: conv_congs)
qed

lemma induct_sound:
  assumes rep: "represents c \<Gamma>" and ok: "infer_induct_value r c s m bs = Ok T"
  shows "types_value c \<Gamma> (Induct s m bs) T \<and> vin T (assumed c)"
proof -
  let ?L = "length \<Gamma>" and ?\<delta> = "env_defs \<Gamma>" and ?X = "assumed c" and ?F = "nc_foundation c"
  have lvl: "nbe_level c = ?L" by (rule representsD(3) [OF rep])
  obtain n l ids ks vs raw nm lv ts cs K mty mk refs mv hd sv
    where s: "c_infer r c s = Ok (VData n l ids ks vs)" and len: "length ids = length vs"
      and q: "c_quote r (VData n l ids ks []) ?L = Ok raw" and raw: "raw = Data nm lv ts cs"
      and typed: "c_infer r c raw = Ok K" and m: "c_infer r c m = Ok mty"
      and loop: "run_for (mty, []) ids (motive_index_value r c) = Ok (mk, refs)"
      and target: "motive_target_value r c (VData n l ids ks []) mk refs = Ok ()"
      and bs: "length bs = length cs"
      and branches: "run_for () (List.enumerate 0 (zip cs bs)) (\<lambda>_ (index, k, branch).
        run_bind (c_eval r (induction_case_type raw m index k) (nc_env c)) (\<lambda>expected. c_check r c branch expected)) = Ok ()"
      and mv: "c_eval r m (nc_env c) = Ok mv" and hd: "apply_values (c_eval r) mv vs = Ok hd"
      and sv: "c_eval r s (nc_env c) = Ok sv" and T: "apply_value (c_eval r) hd sv = Ok T"
    using ok by (auto simp: infer_induct_value_def Let_def lvl split: if_splits)
  let ?D = "VData n l ids ks []"
  note s' = infer_sound [OF rep s] and m' = infer_sound [OF rep m]
  have D: "vok ?D ?L" "voks vs ?L" "inside vs ?X" using s' by simp_all
  from quote_declaration [OF q D(1)] raw have ts: "length ts = length ids"
    "\<And>i \<delta>. i < length ids \<Longrightarrow> conv (lift_defs i \<delta>) (emb_closure (ids ! i) ?L i) (ts ! i)" by auto
  have rawconv: "conv ?\<delta> (emb ?D ?L) raw" and rawscoped: "scoped ?L raw"
    using quote_sound [OF q D(1), of ?\<delta>] by (simp_all add: reads_def)
  have "emb (VData n l ids ks vs) ?L = apply_terms (emb ?D ?L) (embs vs ?L)" by (simp add: apply_terms_def)
  then have scrutinee: "has_type ?F \<Gamma> s (apply_terms raw (embs vs ?L))"
    using s' T_Conv conv_apply_terms [OF rawconv, of "embs vs ?L"] by metis
  have "fresh_values ?L 0 = []" by (simp add: fresh_values_def)
  with motive_indices_sound [of mty ?L 0 ids c mk refs ts ?\<delta>] loop lvl m' ts D(1)
  have mk: "refs = fresh_values ?L (length ids)" "vok mk (?L + length ids)"
    "conv ?\<delta> (emb mty ?L) (foldr PiT ts (emb mk (?L + length ids)))" by simp_all
  from motive_target_sound [OF target [unfolded mk(1)] lvl mk(2) D(1) rawconv] obtain u
    where "conv (lift_defs (length ids) ?\<delta>) (emb mk (?L + length ids))
      (PiT (apply_terms (shift_up raw (length ids) 0) (map Var (rev [0..<length ids]))) (Universe u))" by blast
  from conv_trans [OF mk(3) [folded ts(1)] conv_foldr_PiT [OF this [folded ts(1)]]] m' ts(1)
  have motive: "has_type ?F \<Gamma> m (foldr PiT ts (PiT (apply_terms (shift_up raw (length ts) 0) (map Var (rev [0..<length ts]))) (Universe u)))"
    by (auto intro: T_Conv)
  have case_typed: "has_type ?F \<Gamma> (bs ! i) (induction_case_type raw m i (cs ! i))" if i: "i < length cs" for i
  proof -
    obtain e where e: "c_eval r (induction_case_type raw m i (cs ! i)) (nc_env c) = Ok e" and b: "c_check r c (bs ! i) e = Ok ()"
      using branches [unfolded run_for_unit_zip [OF bs [symmetric]]] i bs by auto
    have "scoped ?L (induction_case_type raw m i (cs ! i))"
      using rawscoped infer_scoped [OF m] representsD(2) [OF rep] i unfolding raw by (auto intro: scoped_induction_case_type)
    note de = eval_denotes(1) [OF rep e this]
    from denotes_has_type [OF check_sound [OF rep b denotesD(1) [OF de]] de] show ?thesis .
  qed
  have "has_type ?F \<Gamma> (Induct s m bs) (App (apply_terms m (embs vs ?L)) s)"
    by (rule T_Induct [OF scrutinee [unfolded raw] _ motive [unfolded raw] bs case_typed [unfolded raw]]) (simp_all add: len ts(1))
  from types_valueI [OF this apply_at [OF T values_at [OF hd inferred_denotes [OF rep m mv] voks_denotes [OF D(2)] D(3)]
        inferred_denotes [OF rep s sv]]] show ?thesis .
qed

subsection \<open>All arms\<close>

lemma infer_step_sound:
  assumes rep: "represents c \<Gamma>" and ok: "infer_value_step r c t = Ok v"
  shows "types_value c \<Gamma> t v \<and> vin v (assumed c)"
proof (cases t)
  case (Var i)
  with ok nbe_lookup_typed [OF rep] show ?thesis by (simp add: infer_value_step_def)
next
  case (Universe l)
  have "has_type (nc_foundation c) \<Gamma> (Universe l) (Universe (level_successor (level_normalize l)))"
    by (rule T_Univ) (simp add: level_val_successor level_val_normalize)
  with ok Universe show ?thesis by (auto simp: infer_value_step_def)
next
  case (J m b s)
  with ok identity_elim_sound [OF rep, of False] show ?thesis by (simp add: infer_value_step_def)
next
  case (IdElim m b s)
  with ok identity_elim_sound [OF rep, of True] show ?thesis by (simp add: infer_value_step_def)
qed (use ok fun_ext_sound [OF rep] let_sound [OF rep] data_sound [OF rep] construct_sound [OF rep] induct_sound [OF rep]
    quantifier_sound [OF rep] lam_sound [OF rep] app_sound [OF rep] pair_sound [OF rep] projection_sound [OF rep]
    id_sound [OF rep] refl_sound [OF rep] in \<open>simp_all add: infer_value_step_def\<close>)

end

subsection \<open>The checker at every bound\<close>

lemma eval_data_value:
  "nbe_eval n (Data nm l ts ks) env = Ok v \<Longrightarrow>
   v = VData nm l (map (\<lambda>(i, ty). capture ty env i) (List.enumerate 0 ts)) (map (eval_constructor env) ks) []"
  by (cases n) (simp_all add: eval_step_def)

lemma quote_data_value:
  assumes ok: "nbe_quote n (VData nm l ids cs []) L = Ok t" and v: "vok (VData nm l ids cs []) L"
  shows "\<exists>ts ks. t = Data nm l ts ks \<and> length ts = length ids \<and>
    (\<forall>i < length ids. conv (lift_defs i \<delta>) (emb_closure (ids ! i) L i) (ts ! i))"
proof (cases n)
  case (Suc m)
  with ok obtain ts ks where ts: "run_map (\<lambda>(i, c). quote_closure (nbe_eval m) (nbe_quote m) c
      (take i (fresh_values L (length ids))) (L + i)) (List.enumerate 0 ids) = Ok ts" and t: "t = Data nm l ts ks"
    by (auto simp: quote_step_def quote_data_def Let_def)
  have "length ts = length ids \<and> (\<forall>i < length ids. reads (lift_defs i \<delta>) (L + i) (ts ! i) (emb_closure (ids ! i) L i))"
    using ts v quotes.quote_closure_sound [of m]
    by (auto simp: run_map_eq_Ok list_all2_conv_all_nth nth_enumerate_eq take_fresh_values)
  then show ?thesis by (auto simp: t reads_def)
qed (use ok in simp)

text \<open>What the checker takes from evaluation, readback and conversion, at every bound.\<close>

lemma nbe_provider:
  assumes "scoped_calls r" and "c_eval r = nbe_eval n" "c_quote r = nbe_quote n" "c_eq r = value_def_eq n"
    and "\<And>c \<Gamma> t v. represents c \<Gamma> \<Longrightarrow> c_infer r c t = Ok v \<Longrightarrow> types_value c \<Gamma> t v \<and> vin v (assumed c)"
    and "\<And>c \<Gamma> t v. represents c \<Gamma> \<Longrightarrow> c_check r c t v = Ok () \<Longrightarrow> vok v (length \<Gamma>) \<Longrightarrow>
      has_type (nc_foundation c) \<Gamma> t (emb v (length \<Gamma>))"
  shows "sound_nbe r"
proof -
  have "confined_eval (c_eval r)" unfolding assms(2) by (rule confined.confined_eval_axioms)
  moreover have "sound_nbe_axioms r"
    by (unfold_locales, unfold assms(2-4))
      ((blast intro: quotes.qt_sound veqs.veq_sound eval_data_value quote_data_value)+, (rule assms(5,6); assumption)+)
  ultimately show ?thesis using assms(1) by (simp add: sound_nbe_def)
qed

interpretation nbe_kernel: sound_nbe "nbe_rec n" for n
proof (induction n)
  case 0
  show ?case by (rule nbe_provider [where n = 0, OF nbe_scope.scoped_calls_axioms]) simp_all
next
  case (Suc n)
  show ?case
    using sound_nbe.infer_step_sound [OF Suc] sound_nbe.check_step_sound [OF Suc]
    by (intro nbe_provider [where n = "Suc n", OF nbe_scope.scoped_calls_axioms]) simp_all
qed

subsection \<open>Properties\<close>

lemma nbe_infer_sound:
  assumes rep: "represents c \<Gamma>" and ok: "nbe_infer n c t = Ok T"
  shows "has_type (nc_foundation c) \<Gamma> t T \<and> scoped (length \<Gamma>) T"
proof -
  obtain v where v: "c_infer (nbe_rec n) c t = Ok v" and q: "nbe_quote n v (nbe_level c) = Ok T"
    using ok by (auto simp: nbe_infer_def infer_value_def)
  note v' = nbe_kernel.infer_sound [OF rep v]
  from quotes.qt_sound [OF q, of "env_defs \<Gamma>"] v' representsD(3) [OF rep]
  have "scoped (length \<Gamma>) T" "conv (env_defs \<Gamma>) (emb v (length \<Gamma>)) T" by (simp_all add: reads_def)
  with v' show ?thesis by (blast intro: T_Conv)
qed

lemma check_evaluated_sound:
  assumes rep: "represents c \<Gamma>" and T: "scoped (length \<Gamma>) T" "nbe_eval n T (nc_env c) = Ok v"
    and ok: "check_value n c t v = Ok ()"
  shows "has_type (nc_foundation c) \<Gamma> t T"
proof -
  have "denotes (env_defs \<Gamma>) (length \<Gamma>) v T"
    using nbe_kernel.eval_denotes(1) [where n = n, unfolded nbe_rec_fields, OF rep T(2,1)] .
  with nbe_kernel.check_sound [OF rep ok [unfolded check_value_def]] denotesD(1) show ?thesis
    by (blast intro: nbe_kernel.denotes_has_type)
qed

lemma nbe_check_sound:
  assumes rep: "represents c \<Gamma>" and ok: "nbe_check n c t T = Ok ()"
  shows "has_type (nc_foundation c) \<Gamma> t T \<and> (\<exists>l. has_type (nc_foundation c) \<Gamma> T (Universe l))"
proof -
  obtain l v where l: "infer_sort_value (nbe_rec n) c T = Ok l" and v: "nbe_eval n T (nc_env c) = Ok v"
    and t: "check_value n c t v = Ok ()" using ok by (auto simp: nbe_check_def)
  note T = nbe_kernel.sort_sound [OF rep l]
  from check_evaluated_sound [OF rep has_type_scoped [OF T] v t] T show ?thesis by blast
qed

lemma verify_certificate_sound:
  assumes "verify_certificate_with_foundation n cert f = Ok ()"
  shows "has_type f [] (cert_term cert) (cert_claimed_type cert)"
    and "\<exists>l. has_type f [] (cert_claimed_type cert) (Universe l)"
proof -
  let ?c = "nbe_with_foundation f" and ?T = "cert_claimed_type cert"
  have rep: "represents ?c []" by (rule represents_Nil)
  have f: "nc_foundation ?c = f" by (simp add: nbe_with_foundation_def)
  obtain K k v where K: "nbe_infer n ?c ?T = Ok K" and k: "nbe_eval n K (nc_env ?c) = Ok (VUniverse k)"
    and v: "nbe_eval n ?T (nc_env ?c) = Ok v" and ok: "check_value n ?c (cert_term cert) v = Ok ()"
    using assms by (auto simp: verify_certificate_with_foundation_def Let_def split: if_splits)
  note K' = nbe_infer_sound [OF rep K, unfolded f]
  have "denotes (env_defs []) 0 (VUniverse k) K"
    using nbe_kernel.eval_denotes(1) [where n = n, unfolded nbe_rec_fields, OF rep k] K' by simp
  then have T: "has_type f [] ?T (Universe k)" using K' by (auto simp: denotes_def intro: T_Conv)
  then show "\<exists>l. has_type f [] ?T (Universe l)" by blast
  from check_evaluated_sound [OF rep _ v ok] has_type_scoped [OF T] f show "has_type f [] (cert_term cert) ?T" by simp
qed

text \<open>C4: Soundness of the second checker's certificates: a certificate it accepts has a derivation of
  its claim from no assumptions in the same declarative type system, and the claim is a type.\<close>

theorem nbe_certificate_sound:
  assumes "verify_certificate_with_foundation n cert f = Ok ()"
  shows "has_type f [] (cert_term cert) (cert_claimed_type cert) \<and>
    (\<exists>l. has_type f [] (cert_claimed_type cert) (Universe l))"
  using verify_certificate_sound [OF assms] by blast

theorem nbe_certificate_sound_witness:
  "has_type FunctionExtensionality [] (cert_term identity_certificate) (cert_claimed_type identity_certificate)"
  using nbe_certificate_sound [OF identity_verified_nbe [of FunctionExtensionality]] by blast

text \<open>C6: Soundness of the second checker in every context that represents an abstract one: an inferred
  value denotes a type of the term, the term read back from it is a type of the term, and what is
  checked against a type has that type, which then is a type itself.\<close>

theorem nbe_checker_sound:
  assumes "represents c \<Gamma>"
  shows "(infer_value n c t = Ok v \<longrightarrow> has_type (nc_foundation c) \<Gamma> t (emb v (length \<Gamma>))) \<and>
    (nbe_infer n c t = Ok T \<longrightarrow> has_type (nc_foundation c) \<Gamma> t T) \<and>
    (nbe_check n c t T = Ok () \<longrightarrow>
      has_type (nc_foundation c) \<Gamma> t T \<and> (\<exists>l. has_type (nc_foundation c) \<Gamma> T (Universe l)))"
  using nbe_kernel.infer_sound [OF assms, of n t v] nbe_infer_sound [OF assms, of n t T] nbe_check_sound [OF assms, of n t T]
  by (auto simp: infer_value_def)

theorem nbe_checker_sound_witness: "has_type Intensional [(Universe (Concrete 0), None)] (Var 0) (Universe (Concrete 0))"
proof -
  let ?c = "nbe_extend (nbe_with_foundation Intensional) (VUniverse (Concrete 0))"
  have "represents ?c [(Universe (Concrete 0), None)]"
    by (rule represents_extend [OF represents_Nil]) (simp_all add: denotes_def conv_refl)
  moreover have "nbe_infer 1 ?c (Var 0) = Ok (Universe (Concrete 0))"
    by (simp add: nbe_infer_def infer_value_def infer_value_step_def nbe_lookup_def nbe_extend_def nbe_with_foundation_def
        ok_or_def nbe_level_def quote_step_def)
  ultimately show ?thesis
    using nbe_checker_sound [of ?c _ 1 "Var 0" _ "Universe (Concrete 0)"] by (simp add: nbe_with_foundation_def)
qed

text \<open>What the second checker accepts is closed, and uses function extensionality nowhere unless
  that foundation was selected.\<close>

theorem nbe_certificate_safe:
  assumes "verify_certificate_with_foundation n cert f = Ok ()"
  shows "scoped 0 (cert_term cert) \<and> scoped 0 (cert_claimed_type cert) \<and>
    (f = Intensional \<longrightarrow> \<not> uses_fun_ext (cert_term cert) \<and> \<not> uses_fun_ext (cert_claimed_type cert))"
  using verify_certificate_sound [OF assms] has_type_scoped intensional_no_fun_ext by fastforce

theorem nbe_certificate_safe_witness:
  "scoped 0 (cert_term identity_certificate) \<and> \<not> uses_fun_ext (cert_term identity_certificate)"
  using nbe_certificate_safe [OF identity_verified_nbe [of Intensional]] by simp

end
