(* ===== verification/Limits.thy ===== *)
theory Limits
  imports Prelude
begin

section \<open>Resource policies\<close>

text \<open>
  Models \<open>crates/verum_proof/src/limits.rs\<close>: the structural budget a verifier selects before it
  reads a proof and the process ceilings of the isolated worker. Sizes of type \<open>usize\<close> (64 bits)
  and \<open>u64\<close> are natural numbers here with the overflow of each checked operation written out.
\<close>

definition word_limit :: nat where
  "word_limit = 2 ^ 64"

definition checked_add_nat :: "nat \<Rightarrow> nat \<Rightarrow> nat option" where
  "checked_add_nat a b = (if a + b < word_limit then Some (a + b) else None)"

definition checked_mul_nat :: "nat \<Rightarrow> nat \<Rightarrow> nat option" where
  "checked_mul_nat a b = (if a * b < word_limit then Some (a * b) else None)"

record admission_limits =
  max_bytes :: nat
  max_nodes :: nat
  max_depth :: nat

definition default_admission :: admission_limits where
  "default_admission = \<lparr>max_bytes = 1024 * 1024, max_nodes = 65536, max_depth = 128\<rparr>"

definition json_nesting_limit :: "admission_limits \<Rightarrow> nat option" where
  "json_nesting_limit lim =
     Option.bind (checked_add_nat (max_depth lim) 1) (\<lambda>n.
       Option.bind (checked_mul_nat n 8) (\<lambda>n. checked_add_nat n 8))"

definition read_limit :: "admission_limits \<Rightarrow> nat option" where
  "read_limit lim =
     Option.bind (if max_bytes lim < word_limit then Some (max_bytes lim) else None) (\<lambda>n. checked_add_nat n 1)"

definition admission_valid :: "admission_limits \<Rightarrow> bool" where
  "admission_valid lim \<longleftrightarrow> json_nesting_limit lim \<noteq> None \<and> read_limit lim \<noteq> None"

record process_limits =
  wall_time_ms :: nat
  cpu_seconds :: nat
  memory_bytes :: nat
  stack_bytes :: nat
  output_bytes :: nat

definition default_process :: process_limits where
  "default_process = \<lparr>wall_time_ms = 5000, cpu_seconds = 3, memory_bytes = 512 * 1024 * 1024,
     stack_bytes = 16 * 1024 * 1024, output_bytes = 64 * 1024\<rparr>"

definition process_valid :: "process_limits \<Rightarrow> bool" where
  "process_valid p \<longleftrightarrow> 0 < cpu_seconds p \<and> 0 < memory_bytes p \<and> 0 < stack_bytes p \<and> 0 < output_bytes p \<and>
     checked_add_nat (output_bytes p) 1 \<noteq> None"

record replay_limits =
  rl_admission :: admission_limits
  rl_process :: process_limits

definition replay_valid :: "replay_limits \<Rightarrow> bool" where
  "replay_valid r \<longleftrightarrow> admission_valid (rl_admission r) \<and> process_valid (rl_process r)"

record installed_limits =
  inst_cpu_seconds :: nat
  inst_address_space :: "nat option"
  inst_stack_bytes :: nat
  inst_output_bytes :: nat

record worker_receipt =
  wr_requested :: replay_limits
  wr_installed :: "installed_limits option"

lemma checked_nat_Some [simp]:
  "checked_add_nat a b = Some c \<longleftrightarrow> c = a + b \<and> a + b < word_limit"
  "checked_mul_nat a b = Some c \<longleftrightarrow> c = a * b \<and> a * b < word_limit"
  by (auto simp: checked_add_nat_def checked_mul_nat_def)

lemma json_nesting_limit_eq:
  "json_nesting_limit lim =
     (if 8 * (max_depth lim + 1) + 8 < word_limit then Some (8 * (max_depth lim + 1) + 8) else None)"
  by (auto simp: json_nesting_limit_def checked_add_nat_def checked_mul_nat_def)

lemma admission_valid_iff:
  "admission_valid lim \<longleftrightarrow> 8 * max_depth lim + 16 < word_limit \<and> max_bytes lim + 1 < word_limit"
  by (auto simp: admission_valid_def json_nesting_limit_eq read_limit_def checked_add_nat_def)

subsection \<open>Properties\<close>

text \<open>A policy passes validation exactly when no derived bound overflows 64 bits: the nesting
  bound \<open>8 * (depth + 1) + 8\<close> and the read bound \<open>bytes + 1\<close> are then the values the pipeline uses,
  and the defaults pass.\<close>

theorem admission_policy_bounds:
  "(admission_valid lim \<longleftrightarrow>
      json_nesting_limit lim = Some (8 * (max_depth lim + 1) + 8) \<and> read_limit lim = Some (max_bytes lim + 1)) \<and>
   (admission_valid lim \<longleftrightarrow> 8 * (max_depth lim + 1) + 8 < 2 ^ 64 \<and> max_bytes lim + 1 < 2 ^ 64) \<and>
   replay_valid \<lparr>rl_admission = default_admission, rl_process = default_process\<rparr>"
  by (auto simp: admission_valid_iff json_nesting_limit_eq read_limit_def checked_add_nat_def word_limit_def
      replay_valid_def process_valid_def default_admission_def default_process_def)

end
