(* ===== verification/Envelope.thy ===== *)
theory Envelope
  imports Limits
begin

section \<open>The JSON envelope scan\<close>

text \<open>
  Models \<open>json_envelope\<close> and \<open>AdmissionFailure\<close> of \<open>crates/verum_proof/src/admission.rs\<close>: one
  pass over the raw bytes, before the recursive decoder runs, that bounds the nesting of JSON
  containers. The specification is a grammar: with the string literals removed, the input is a
  well-bracketed word whose nesting stays within the bound.
\<close>

type_synonym byte = "8 word"

datatype admission_failure = Exhausted string | Invalid string

abbreviation quote_byte :: byte where "quote_byte \<equiv> 34"
abbreviation backslash_byte :: byte where "backslash_byte \<equiv> 92"
abbreviation open_brace :: byte where "open_brace \<equiv> 123"
abbreviation close_brace :: byte where "close_brace \<equiv> 125"
abbreviation open_bracket :: byte where "open_bracket \<equiv> 91"
abbreviation close_bracket :: byte where "close_bracket \<equiv> 93"

text \<open>The container stack has its top at the head of the list.\<close>

fun json_loop :: "nat \<Rightarrow> byte list \<Rightarrow> bool \<Rightarrow> bool \<Rightarrow> byte list \<Rightarrow> (admission_failure, unit) run" where
  "json_loop max_nesting containers quoted escaped [] =
     (if quoted \<or> containers \<noteq> [] then Err (Invalid ''invalid_certificate'') else Ok ())"
| "json_loop max_nesting containers quoted escaped (b # bytes) =
     (if quoted then
        (if escaped then json_loop max_nesting containers quoted False bytes
         else if b = backslash_byte then json_loop max_nesting containers quoted True bytes
         else if b = quote_byte then json_loop max_nesting containers False escaped bytes
         else json_loop max_nesting containers quoted escaped bytes)
      else if b = quote_byte then json_loop max_nesting containers True escaped bytes
      else if b = open_brace \<or> b = open_bracket then
        (if length containers = max_nesting then Err (Exhausted ''json_depth_limit'')
         else json_loop max_nesting (b # containers) quoted escaped bytes)
      else if b = close_brace \<or> b = close_bracket then
        (let expected = (if b = close_brace then open_brace else open_bracket)
         in case containers of
              opened # rest \<Rightarrow>
                if opened \<noteq> expected then Err (Invalid ''invalid_certificate'')
                else json_loop max_nesting rest quoted escaped bytes
            | [] \<Rightarrow> Err (Invalid ''invalid_certificate''))
      else json_loop max_nesting containers quoted escaped bytes)"

definition json_envelope :: "byte list \<Rightarrow> nat \<Rightarrow> (admission_failure, unit) run" where
  "json_envelope bytes max_nesting = json_loop max_nesting [] False False bytes"

subsection \<open>The grammar\<close>

text \<open>The rest of the input after the string literal it starts in.\<close>

fun skip_string :: "byte list \<Rightarrow> byte list option" where
  "skip_string [] = None"
| "skip_string (b # bs) =
     (if b = backslash_byte then (case bs of [] \<Rightarrow> None | _ # bs' \<Rightarrow> skip_string bs')
      else if b = quote_byte then Some bs
      else skip_string bs)"

lemma skip_string_length: "skip_string bs = Some cs \<Longrightarrow> length cs < length bs"
  by (induction bs rule: skip_string.induct)
    (auto split: if_splits list.splits simp: less_SucI)

text \<open>The input with its string literals removed; \<open>None\<close> if the last one is not closed.\<close>

function without_strings :: "byte list \<Rightarrow> byte list option" where
  "without_strings [] = Some []"
| "without_strings (b # bs) =
     (if b = quote_byte then
        (case skip_string bs of None \<Rightarrow> None | Some cs \<Rightarrow> without_strings cs)
      else map_option ((#) b) (without_strings bs))"
  by pat_completeness auto
termination
  by (relation "measure length") (auto dest: skip_string_length)

definition is_bracket :: "byte \<Rightarrow> bool" where
  "is_bracket b \<longleftrightarrow> b \<in> {open_brace, close_brace, open_bracket, close_bracket}"

inductive nested :: "nat \<Rightarrow> byte list \<Rightarrow> bool" where
  nested_Nil: "nested n []"
| nested_skip: "\<not> is_bracket b \<Longrightarrow> nested n bs \<Longrightarrow> nested n (b # bs)"
| nested_container: "nested n bs \<Longrightarrow> nested (Suc n) cs \<Longrightarrow>
    (l, r) \<in> {(open_brace, close_brace), (open_bracket, close_bracket)} \<Longrightarrow>
    nested (Suc n) (l # bs @ r # cs)"

subsection \<open>The scan decides the grammar\<close>

text \<open>The scan restricted to inputs without string literals.\<close>

fun bracket_loop :: "nat \<Rightarrow> byte list \<Rightarrow> byte list \<Rightarrow> bool" where
  "bracket_loop m st [] \<longleftrightarrow> st = []"
| "bracket_loop m st (b # bs) \<longleftrightarrow>
     (if b = open_brace \<or> b = open_bracket then length st \<noteq> m \<and> bracket_loop m (b # st) bs
      else if b = close_brace then (case st of t # st \<Rightarrow> t = open_brace \<and> bracket_loop m st bs | [] \<Rightarrow> False)
      else if b = close_bracket then (case st of t # st \<Rightarrow> t = open_bracket \<and> bracket_loop m st bs | [] \<Rightarrow> False)
      else bracket_loop m st bs)"

lemma json_loop_quoted:
  "json_loop m st True False bs = Ok () \<longleftrightarrow>
   (case skip_string bs of None \<Rightarrow> False | Some cs \<Rightarrow> json_loop m st False False cs = Ok ())"
proof (induction bs rule: skip_string.induct)
  case (2 b bs)
  then show ?case by (cases bs) auto
qed simp

lemma json_loop_without_strings:
  "json_loop m st False False bs = Ok () \<longleftrightarrow>
   (case without_strings bs of None \<Rightarrow> False | Some cs \<Rightarrow> bracket_loop m st cs)"
proof (induction bs arbitrary: st rule: without_strings.induct)
  case (2 b bs)
  show ?case
  proof (cases "b = quote_byte")
    case True
    then show ?thesis using 2(1) by (auto simp: json_loop_quoted split: option.splits)
  next
    case False
    then show ?thesis using 2(2) by (auto split: option.splits list.splits)
  qed
qed simp

text \<open>A word that closes the containers of a stack: one nested word per container and a last one.\<close>

fun closes :: "nat \<Rightarrow> byte list \<Rightarrow> byte list \<Rightarrow> bool" where
  "closes m [] bs \<longleftrightarrow> nested m bs"
| "closes m (t # st) bs \<longleftrightarrow> (\<exists>us r vs. bs = us @ r # vs \<and> nested (m - Suc (length st)) us \<and>
     (t, r) \<in> {(open_brace, close_brace), (open_bracket, close_bracket)} \<and> closes m st vs)"

lemma closes_skip: "\<not> is_bracket b \<Longrightarrow> closes m st bs \<Longrightarrow> closes m st (b # bs)"
proof (cases st)
  case (Cons t st')
  assume "\<not> is_bracket b" and "closes m st bs"
  then show ?thesis
    unfolding Cons closes.simps by (metis append_Cons nested_skip)
qed (simp add: nested_skip)

lemma closes_open:
  assumes "closes m (b # st) bs" and "length st < m" 
  shows "closes m st (b # bs)"
proof -
  from assms(1) obtain us r vs where bs: "bs = us @ r # vs" and us: "nested (m - Suc (length st)) us"
    and br: "(b, r) \<in> {(open_brace, close_brace), (open_bracket, close_bracket)}" and vs: "closes m st vs"
    by auto
  have m: "m - length st = Suc (m - Suc (length st))" using assms(2) by simp
  show ?thesis
  proof (cases st)
    case Nil
    with vs us br assms(2) show ?thesis
      by (cases m) (auto simp: bs intro: nested_container)
  next
    case (Cons t st')
    with vs obtain us' r' vs' where vs: "vs = us' @ r' # vs'" "nested (m - length st) us'"
      "(t, r') \<in> {(open_brace, close_brace), (open_bracket, close_bracket)}" "closes m st' vs'"
      by auto
    have "nested (m - length st) (b # us @ r # us')"
      unfolding m using us vs(2) [unfolded m] br by (rule nested_container)
    then show ?thesis
      unfolding Cons closes.simps using vs Cons
      by (intro exI [of _ "b # us @ r # us'"] exI [of _ r'] exI [of _ vs']) (auto simp: bs)
  qed
qed

lemma bracket_loop_closes: "length st \<le> m \<Longrightarrow> bracket_loop m st bs \<Longrightarrow> closes m st bs"
proof (induction bs arbitrary: st)
  case (Cons b bs)
  consider (op) "b = open_brace \<or> b = open_bracket" | (cl) "b = close_brace \<or> b = close_bracket"
    | (other) "\<not> is_bracket b" by (auto simp: is_bracket_def)
  then show ?case
  proof cases
    case op
    with Cons.prems have "length (b # st) \<le> m" and "bracket_loop m (b # st) bs" by auto
    from closes_open [OF Cons.IH [OF this]] this(1) show ?thesis by simp
  next
    case cl
    with Cons.prems Cons.IH obtain t st' where "st = t # st'" "closes m st' bs"
      "(t, b) \<in> {(open_brace, close_brace), (open_bracket, close_bracket)}"
      by (auto split: list.splits)
    then show ?thesis by (auto intro!: exI [of _ "[]"] nested_Nil)
  next
    case other
    with Cons show ?thesis by (auto simp: is_bracket_def intro!: closes_skip)
  qed
qed (auto split: list.splits intro: nested_Nil)

lemma bracket_loop_nested:
  "nested n us \<Longrightarrow> n + length st \<le> m \<Longrightarrow> bracket_loop m st (us @ vs) \<longleftrightarrow> bracket_loop m st vs"
proof (induction arbitrary: st vs rule: nested.induct)
  case (nested_skip b n bs)
  then show ?case by (auto simp: is_bracket_def)
next
  case (nested_container n bs cs l r)
  have "bracket_loop m (l # st) (bs @ (r # cs @ vs)) \<longleftrightarrow> bracket_loop m (l # st) (r # cs @ vs)"
    using nested_container by (intro nested_container.IH(1)) simp
  then show ?case using nested_container by auto
qed simp

lemma bracket_loop_iff: "bracket_loop m [] bs \<longleftrightarrow> nested m bs"
  using bracket_loop_closes [of "[]" m bs] bracket_loop_nested [of m bs "[]" m "[]"] by auto

subsection \<open>Properties\<close>

text \<open>C23: The envelope scan decides its grammar: it accepts the bytes exactly when every string
  literal is closed and, with the literals removed, braces and brackets are properly nested to a
  depth within the bound.\<close>

theorem json_envelope_decides:
  "json_envelope bytes m = Ok () \<longleftrightarrow> (\<exists>cs. without_strings bytes = Some cs \<and> nested m cs)"
  by (auto simp: json_envelope_def json_loop_without_strings bracket_loop_iff split: option.splits)

end
