(* ===== verification/Admission.thy ===== *)
theory Admission
  imports Typing Envelope
begin

section \<open>Admission and replay of judgments\<close>

text \<open>
  Models \<open>crates/verum_proof/src/admission.rs\<close>: the structural admission of a decoded judgment
  (an explicit stack of pending nodes with node and depth budgets), the classification of checker
  errors, and the replay pipeline from bytes to a report.

  Two parts of the pipeline are arguments: \<open>decode\<close>, the strict JSON decoder of the serde
  packages, and \<open>checker_identity\<close>, a hash of the checker's sources. The second checker, by
  evaluation, is the argument \<open>nbe\<close> here and the model of \<open>proof_checker_nbe.rs\<close> where the
  pipeline is put together.
\<close>

subsection \<open>Judgments and reports\<close>

definition PROFILE :: string where
  "PROFILE = ''verum-native/1''"

definition EXTENSIONAL_PROFILE :: string where
  "EXTENSIONAL_PROFILE = ''verum-native-funext/1''"

definition profile_for :: "foundation \<Rightarrow> string" where
  "profile_for f = (case f of Intensional \<Rightarrow> PROFILE | FunctionExtensionality \<Rightarrow> EXTENSIONAL_PROFILE)"

record native_judgment =
  j_profile :: string
  j_statement :: tm
  j_certificate :: certificate

record diagnostic =
  d_code :: string
  d_stage :: string
  d_message :: string

datatype replay_outcome = Accepted | Rejected | Unsupported | ResourceExhausted | Inconclusive

fun outcome_tag :: "replay_outcome \<Rightarrow> string" where
  "outcome_tag Accepted = ''accepted''"
| "outcome_tag Rejected = ''rejected''"
| "outcome_tag Unsupported = ''unsupported''"
| "outcome_tag ResourceExhausted = ''resource_exhausted''"
| "outcome_tag Inconclusive = ''inconclusive''"

record report =
  r_profile :: string
  r_checker :: string
  r_accepted :: bool
  r_outcome :: replay_outcome
  r_limits :: admission_limits
  r_worker :: "worker_receipt option"
  r_diagnostic :: "diagnostic option"

definition refusal ::
  "string \<Rightarrow> foundation \<Rightarrow> admission_limits \<Rightarrow> replay_outcome \<Rightarrow> string \<Rightarrow> string \<Rightarrow> string \<Rightarrow> report" where
  "refusal checker_identity f lim outcome stage code message =
     \<lparr>r_profile = profile_for f, r_checker = checker_identity, r_accepted = False, r_outcome = outcome,
      r_limits = lim, r_worker = None,
      r_diagnostic = Some \<lparr>d_code = code, d_stage = stage, d_message = message\<rparr>\<rparr>"

definition is_consistent :: "report \<Rightarrow> bool" where
  "is_consistent r \<longleftrightarrow> r_accepted r = (r_outcome r = Accepted) \<and> r_accepted r = (r_diagnostic r = None)"

fun failure_outcome :: "admission_failure \<Rightarrow> replay_outcome" where
  "failure_outcome (Exhausted _) = ResourceExhausted"
| "failure_outcome (Invalid _) = Rejected"

fun failure_code :: "admission_failure \<Rightarrow> string" where
  "failure_code (Exhausted code) = code"
| "failure_code (Invalid code) = code"

fun classify_check_failure :: "check_error \<Rightarrow> replay_outcome \<times> string" where
  "classify_check_failure FuelExhausted = (ResourceExhausted, ''normalization_limit'')"
| "classify_check_failure (FoundationRequired _) = (Unsupported, ''foundation_required'')"
| "classify_check_failure (InvalidInductive _) = (Rejected, ''invalid_inductive'')"
| "classify_check_failure (UnboundVariable _) = (Rejected, ''unbound_variable'')"
| "classify_check_failure (NotAType _) = (Rejected, ''not_a_type'')"
| "classify_check_failure (ClaimedTypeNotAType _ _) = (Rejected, ''not_a_type'')"
| "classify_check_failure (NotAFunction _) = (Rejected, ''not_a_function'')"
| "classify_check_failure (NotASigma _) = (Rejected, ''not_a_pair_type'')"
| "classify_check_failure (NotAnIdentity _) = (Rejected, ''not_an_identity'')"
| "classify_check_failure (ReflEndpointMismatch _ _) = (Rejected, ''identity_endpoints_differ'')"
| "classify_check_failure (NotAValidJMotive _) = (Rejected, ''invalid_identity_motive'')"
| "classify_check_failure (DomainMismatch _ _) = (Rejected, ''domain_mismatch'')"
| "classify_check_failure (TypeMismatch _ _) = (Rejected, ''type_mismatch'')"
| "classify_check_failure (UniverseOverflow _) = (Unsupported, ''universe_limit'')"
| "classify_check_failure (KernelV0ManifestUnclean _ _) = (Unsupported, ''unsupported_kernel_extension'')"
| "classify_check_failure KernelV0MetaSoundnessExceeded = (Unsupported, ''unsupported_kernel_extension'')"
| "classify_check_failure (KernelV0StrictIntrinsicDisagreement _) = (Unsupported, ''unsupported_kernel_extension'')"

subsection \<open>Structural admission\<close>

datatype node = NTerm tm nat | NLevel level

text \<open>What a data declaration pushes for its constructors and fields, in order.\<close>

definition field_pushes :: "nat \<Rightarrow> nat \<times> data_field \<Rightarrow> node list" where
  "field_pushes scope = (\<lambda>(index, field).
     case field of
       Value ty \<Rightarrow> [NTerm ty scope]
     | Dependent ty \<Rightarrow> [NTerm ty (scope + index)]
     | Recursive \<Rightarrow> []
     | RecursiveAt indices \<Rightarrow> map (\<lambda>t. NTerm t (scope + index)) indices)"

definition constructor_pushes :: "nat \<Rightarrow> data_constructor \<Rightarrow> node list" where
  "constructor_pushes scope k =
     map (\<lambda>t. NTerm t (scope + length (con_fields k))) (con_indices k) @
     concat (map (field_pushes scope) (List.enumerate 0 (con_fields k)))"

fun term_pushes :: "tm \<Rightarrow> nat \<Rightarrow> node list" where
  "term_pushes (FunExt a b c d) n = [NTerm a n, NTerm b n, NTerm c n, NTerm d n]"
| "term_pushes (Data _ l indices cs) n =
     [NLevel l] @ map (\<lambda>(index, ty). NTerm ty (n + index)) (List.enumerate 0 indices) @
     concat (map (constructor_pushes n) cs)"
| "term_pushes (Construct d _ args) n = [NTerm d n] @ map (\<lambda>t. NTerm t n) args"
| "term_pushes (Induct s m cs) n = [NTerm s n, NTerm m n] @ map (\<lambda>t. NTerm t n) cs"
| "term_pushes (Universe l) n = [NLevel l]"
| "term_pushes (Var _) n = []"
| "term_pushes (LetT a b) n = [NTerm a n, NTerm b (n + 1)]"
| "term_pushes (PiT a b) n = [NTerm a n, NTerm b (n + 1)]"
| "term_pushes (Lam a b) n = [NTerm a n, NTerm b (n + 1)]"
| "term_pushes (SigmaT a b) n = [NTerm a n, NTerm b (n + 1)]"
| "term_pushes (App a b) n = [NTerm a n, NTerm b n]"
| "term_pushes (PairT a b) n = [NTerm a n, NTerm b n]"
| "term_pushes (FstT a) n = [NTerm a n]"
| "term_pushes (SndT a) n = [NTerm a n]"
| "term_pushes (Refl a) n = [NTerm a n]"
| "term_pushes (IdT a b c) n = [NTerm a n, NTerm b n, NTerm c n]"
| "term_pushes (J a b c) n = [NTerm a n, NTerm b n, NTerm c n]"
| "term_pushes (IdElim a b c) n = [NTerm a n, NTerm b n, NTerm c n]"

fun level_pushes :: "level \<Rightarrow> node list" where
  "level_pushes (Concrete _) = []"
| "level_pushes (LVar _) = []"
| "level_pushes (LSucc a) = [NLevel a]"
| "level_pushes (Offset a _) = [NLevel a]"
| "level_pushes (LMax a b) = [NLevel a, NLevel b]"

text \<open>The constructors and fields of a declaration count as nodes of their own.\<close>

fun extra_count :: "tm \<Rightarrow> nat" where
  "extra_count (Data _ _ _ cs) = length cs + sum_list (map (\<lambda>k. length (con_fields k)) cs)"
| "extra_count _ = 0"

fun admit_node :: "admission_limits \<Rightarrow> node \<Rightarrow> nat \<Rightarrow> (admission_failure, node list \<times> nat) run" where
  "admit_node lim (NTerm (Var index) scope) visited =
     (if scope \<le> index then Err (Invalid ''unbound_variable'') else Ok ([], visited))"
| "admit_node lim (NTerm (Data nm l indices cs) scope) visited =
     run_bind (ok_or (checked_add_nat visited (extra_count (Data nm l indices cs))) (Exhausted ''structural_limit''))
       (\<lambda>visited. if max_nodes lim < visited then Err (Exhausted ''structural_limit'')
                 else Ok (term_pushes (Data nm l indices cs) scope, visited))"
| "admit_node lim (NTerm t scope) visited = Ok (term_pushes t scope, visited)"
| "admit_node lim (NLevel l) visited = Ok (level_pushes l, visited)"

subsection \<open>Size and depth of a judgment\<close>

primrec level_count :: "level \<Rightarrow> nat" where
  "level_count (Concrete _) = 1"
| "level_count (LVar _) = 1"
| "level_count (LSucc a) = Suc (level_count a)"
| "level_count (Offset a _) = Suc (level_count a)"
| "level_count (LMax a b) = Suc (level_count a + level_count b)"

primrec level_depth :: "level \<Rightarrow> nat" where
  "level_depth (Concrete _) = 0"
| "level_depth (LVar _) = 0"
| "level_depth (LSucc a) = Suc (level_depth a)"
| "level_depth (Offset a _) = Suc (level_depth a)"
| "level_depth (LMax a b) = Suc (max (level_depth a) (level_depth b))"

fun levels_of :: "tm \<Rightarrow> level list" where
  "levels_of (Data _ l _ _) = [l]"
| "levels_of (Universe l) = [l]"
| "levels_of _ = []"

function term_count :: "tm \<Rightarrow> nat" where
  "term_count t = 1 + extra_count t + sum_list (map level_count (levels_of t)) +
     sum_list (map (\<lambda>(c, b). term_count c) (children t))"
  by pat_completeness auto
termination
  by (relation "measure size") (auto simp del: children.simps dest: children_size)

function term_depth :: "tm \<Rightarrow> nat" where
  "term_depth t = foldr max
     (map (\<lambda>l. Suc (level_depth l)) (levels_of t) @ map (\<lambda>(c, b). Suc (term_depth c)) (children t)) 0"
  by pat_completeness auto
termination
  by (relation "measure size") (auto simp del: children.simps dest: children_size)

declare term_count.simps [simp del] term_depth.simps [simp del]

fun node_count :: "node \<Rightarrow> nat" where
  "node_count (NTerm t _) = term_count t"
| "node_count (NLevel l) = level_count l"

fun node_depth :: "node \<Rightarrow> nat" where
  "node_depth (NTerm t _) = term_depth t"
| "node_depth (NLevel l) = level_depth l"

fun node_scoped :: "node \<Rightarrow> bool" where
  "node_scoped (NTerm t n) = scoped n t"
| "node_scoped (NLevel _) = True"

lemma field_pushes_children:
  "field_pushes n (i, f) = map (\<lambda>(c, b). NTerm c (n + b)) (field_children i f)"
  by (cases f) (simp_all add: field_pushes_def)

lemma constructor_pushes_children:
  "constructor_pushes n k = map (\<lambda>(c, b). NTerm c (n + b)) (con_children k)"
  by (cases k) (auto simp: constructor_pushes_def field_pushes_children map_concat intro!: arg_cong [where f = concat])

lemma term_pushes_children:
  "term_pushes t n = map NLevel (levels_of t) @ map (\<lambda>(c, b). NTerm c (n + b)) (children t)"
  by (cases t) (auto simp: constructor_pushes_children [abs_def] map_concat comp_def)

lemma node_pushes_count:
  "term_count t = 1 + extra_count t + sum_list (map node_count (term_pushes t n))"
  by (subst term_count.simps) (simp add: term_pushes_children comp_def case_prod_unfold)

lemma level_pushes_count: "level_count l = 1 + sum_list (map node_count (level_pushes l))"
  by (cases l) simp_all

lemma foldr_max_le: "foldr max xs (0::nat) \<le> d \<longleftrightarrow> (\<forall>x \<in> set xs. x \<le> d)"
  by (induction xs) auto

lemma term_depth_le:
  "d + term_depth t \<le> m \<longleftrightarrow> d \<le> m \<and> (\<forall>nd \<in> set (term_pushes t n). Suc d + node_depth nd \<le> m)"
proof -
  have "term_depth t \<le> m - d \<longleftrightarrow> (\<forall>nd \<in> set (term_pushes t n). Suc (node_depth nd) \<le> m - d)"
    by (subst term_depth.simps)
      (auto simp: foldr_max_le term_pushes_children ball_Un split_beta simp del: children.simps foldr_append)
  then show ?thesis by fastforce
qed

lemma level_depth_le:
  "d + level_depth l \<le> m \<longleftrightarrow> d \<le> m \<and> (\<forall>nd \<in> set (level_pushes l). Suc d + node_depth nd \<le> m)"
  by (cases l) auto

lemma scoped_pushes:
  "\<not> is_var t \<Longrightarrow> scoped n t \<longleftrightarrow> (\<forall>nd \<in> set (term_pushes t n). node_scoped nd)"
  by (auto simp: scoped_node term_pushes_children ball_Un split_beta)

subsection \<open>The admission loop\<close>

fun node_pushes :: "node \<Rightarrow> node list" where
  "node_pushes (NTerm t n) = term_pushes t n"
| "node_pushes (NLevel l) = level_pushes l"

fun node_extra :: "node \<Rightarrow> nat" where
  "node_extra (NTerm t n) = extra_count t"
| "node_extra (NLevel l) = 0"

fun node_bound :: "node \<Rightarrow> bool" where
  "node_bound (NTerm (Var i) n) = (i < n)"
| "node_bound _ = True"

lemma node_count_eq: "node_count nd = 1 + node_extra nd + sum_list (map node_count (node_pushes nd))"
  by (cases nd) (use node_pushes_count level_pushes_count in \<open>simp_all del: term_pushes.simps\<close>)

lemma admit_node_pushes:
  "admit_node lim nd visited = Ok (pushes, visited') \<Longrightarrow> pushes = node_pushes nd"
  by (induction lim nd visited rule: admit_node.induct) (auto split: if_splits)

lemma admit_node_smaller:
  "admit_node lim nd visited = Ok (pushes, visited') \<Longrightarrow> sum_list (map node_count pushes) < node_count nd"
  by (frule admit_node_pushes, subst node_count_eq) simp

function admit_loop ::
  "admission_limits \<Rightarrow> (node \<times> nat) list \<Rightarrow> nat \<Rightarrow> (admission_failure, unit) run" where
  "admit_loop lim queue visited =
     (case queue of
        [] \<Rightarrow> Ok ()
      | (nd, nesting) # rest \<Rightarrow>
          run_bind (ok_or (checked_add_nat visited 1) (Exhausted ''structural_limit'')) (\<lambda>visited.
            if max_nodes lim < visited \<or> max_depth lim < nesting then Err (Exhausted ''structural_limit'')
            else run_bind (admit_node lim nd visited) (\<lambda>(pushes, visited).
              admit_loop lim (rev (map (\<lambda>nd. (nd, nesting + 1)) pushes) @ rest) visited)))"
  by pat_completeness auto
termination
  by (relation "measure (\<lambda>(_, queue, _). sum_list (map (node_count \<circ> fst) queue))")
    (auto simp: comp_def rev_map [symmetric] sum_list_rev dest!: admit_node_smaller)

definition admit_structure :: "native_judgment \<Rightarrow> admission_limits \<Rightarrow> (admission_failure, unit) run" where
  "admit_structure j lim =
     admit_loop lim
       (rev [(NTerm (j_statement j) 0, 0), (NTerm (cert_term (j_certificate j)) 0, 0),
             (NTerm (cert_claimed_type (j_certificate j)) 0, 0)]) 0"

declare admit_loop.simps [simp del]

subsection \<open>What admission decides\<close>

lemma admit_node_eq:
  assumes "visited \<le> max_nodes lim" and "max_nodes lim < word_limit"
  shows "admit_node lim nd visited =
    (if \<not> node_bound nd then Err (Invalid ''unbound_variable'')
     else if max_nodes lim < visited + node_extra nd then Err (Exhausted ''structural_limit'')
     else Ok (node_pushes nd, visited + node_extra nd))"
  using assms
  by (induction lim nd visited rule: admit_node.induct)
    (auto simp: checked_add_nat_def ok_or_def simp del: term_pushes.simps(2) extra_count.simps(1))

lemma node_depth_le:
  "d + node_depth nd \<le> m \<longleftrightarrow> d \<le> m \<and> (\<forall>x \<in> set (node_pushes nd). Suc d + node_depth x \<le> m)"
proof (cases nd)
  case (NTerm t n)
  show ?thesis unfolding NTerm node_depth.simps node_pushes.simps by (rule term_depth_le)
next
  case (NLevel l)
  show ?thesis unfolding NLevel node_depth.simps node_pushes.simps by (rule level_depth_le)
qed

lemma node_scoped_iff: "node_scoped nd \<longleftrightarrow> node_bound nd \<and> (\<forall>x \<in> set (node_pushes nd). node_scoped x)"
proof (cases nd)
  case (NTerm t n)
  then show ?thesis using scoped_pushes [of t n] by (cases "is_var t"; cases t) auto
next
  case (NLevel l)
  then show ?thesis by (cases l) auto
qed

definition queue_ok :: "admission_limits \<Rightarrow> (node \<times> nat) list \<Rightarrow> nat \<Rightarrow> bool" where
  "queue_ok lim queue visited \<longleftrightarrow>
     (\<forall>(nd, d) \<in> set queue. node_scoped nd \<and> d + node_depth nd \<le> max_depth lim) \<and>
     visited + sum_list (map (node_count \<circ> fst) queue) \<le> max_nodes lim"

lemma queue_ok_Cons:
  "queue_ok lim ((nd, d) # rest) visited \<longleftrightarrow>
     d \<le> max_depth lim \<and> node_bound nd \<and> visited + 1 + node_extra nd \<le> max_nodes lim \<and>
     queue_ok lim (rev (map (\<lambda>nd. (nd, d + 1)) (node_pushes nd)) @ rest) (visited + 1 + node_extra nd)"
proof -
  have "sum_list (map (node_count \<circ> fst) (rev (map (\<lambda>nd. (nd, d + 1)) xs))) = sum_list (map node_count xs)" for xs
    by (simp add: rev_map comp_def sum_list_rev flip: rev_map)
  then show ?thesis
    using node_count_eq [of nd]
    by (auto simp: queue_ok_def node_depth_le [of d nd] node_scoped_iff [of nd] ball_Un)
qed

lemma admit_loop_iff:
  "max_nodes lim < word_limit \<Longrightarrow> visited \<le> max_nodes lim \<Longrightarrow>
   admit_loop lim queue visited = Ok () \<longleftrightarrow> queue_ok lim queue visited"
proof (induction lim queue visited rule: admit_loop.induct)
  case (1 lim queue visited)
  show ?case
  proof (cases queue)
    case Nil
    with 1(3) show ?thesis by (subst admit_loop.simps) (simp add: queue_ok_def)
  next
    case (Cons x rest)
    obtain nd d where x: "x = (nd, d)" by fastforce
    let ?next = "rev (map (\<lambda>nd. (nd, d + 1)) (node_pushes nd)) @ rest" and ?v = "visited + 1 + node_extra nd"
    show ?thesis
    proof (cases "visited + 1 \<le> max_nodes lim \<and> d \<le> max_depth lim")
      case True
      then have add: "checked_add_nat visited 1 = Some (visited + 1)" using 1(2) by simp
      note node = admit_node_eq [OF conjunct1 [OF True] 1(2), of nd]
      have "admit_loop lim ?next ?v = Ok () \<longleftrightarrow> queue_ok lim ?next ?v"
        if "?v \<le> max_nodes lim" "node_bound nd"
        by (rule 1(1) [OF Cons [unfolded x] refl, of "visited + 1" "(node_pushes nd, ?v)"])
          (use that True 1(2) node in auto)
      then show ?thesis
        unfolding Cons x queue_ok_Cons
        by (subst admit_loop.simps) (use True add node 1(2) in auto)
    next
      case False
      then show ?thesis
        unfolding Cons x queue_ok_Cons by (subst admit_loop.simps) auto
    qed
  qed
qed

lemma admit_structure_iff:
  assumes "max_nodes lim < word_limit"
  shows "admit_structure j lim = Ok () \<longleftrightarrow>
    (\<forall>t \<in> {j_statement j, cert_term (j_certificate j), cert_claimed_type (j_certificate j)}.
       scoped 0 t \<and> term_depth t \<le> max_depth lim) \<and>
    term_count (j_statement j) + term_count (cert_term (j_certificate j)) +
      term_count (cert_claimed_type (j_certificate j)) \<le> max_nodes lim"
  unfolding admit_structure_def admit_loop_iff [OF assms le0]
  by (auto simp: queue_ok_def)

subsection \<open>Decoding and replay\<close>

type_synonym decoder = "byte list \<Rightarrow> native_judgment option"
type_synonym verifier = "certificate \<Rightarrow> foundation \<Rightarrow> (check_error, unit) run"

definition decode_judgment ::
  "decoder \<Rightarrow> string \<Rightarrow> byte list \<Rightarrow> foundation \<Rightarrow> admission_limits \<Rightarrow> (report, native_judgment) run" where
  "decode_judgment decode checker_identity bytes f lim =
     (let refuse = (\<lambda>outcome stage code message. Err (refusal checker_identity f lim outcome stage code message))
      in if \<not> admission_valid lim
         then refuse Inconclusive ''policy'' ''invalid_limits'' ''Admission limits cannot be represented safely.''
         else if max_bytes lim < length bytes
         then refuse ResourceExhausted ''decode'' ''byte_limit'' ''Native judgment exceeds the input byte budget.''
         else case json_envelope bytes (the (json_nesting_limit lim)) of
           Err e \<Rightarrow> refuse (failure_outcome e) ''decode'' (failure_code e)
             (case e of
                Exhausted _ \<Rightarrow> ''Native judgment exceeds the JSON nesting budget.''
              | Invalid _ \<Rightarrow> ''Native judgment has malformed JSON nesting.'')
         | NoFuel \<Rightarrow> NoFuel
         | Ok _ \<Rightarrow>
             (case decode bytes of
                None \<Rightarrow> refuse Rejected ''decode'' ''invalid_certificate''
                  ''Expected one strict native judgment JSON object; duplicate or unknown fields and malformed terms are rejected.''
              | Some j \<Rightarrow>
                  if j_profile j \<noteq> profile_for f
                  then refuse Unsupported ''profile'' ''unsupported_profile''
                    ''The requested logical profile is not supported by this checker.''
                  else case admit_structure j lim of
                    Err e \<Rightarrow> refuse (failure_outcome e) ''admission'' (failure_code e)
                      (case e of
                         Invalid _ \<Rightarrow> ''A closed native judgment contains a variable outside its binder scope.''
                       | Exhausted _ \<Rightarrow> ''Native judgment exceeds the node or depth budget.'')
                  | NoFuel \<Rightarrow> NoFuel
                  | Ok _ \<Rightarrow>
                      if j_statement j \<noteq> cert_claimed_type (j_certificate j)
                      then refuse Rejected ''statement'' ''statement_mismatch''
                        ''The certificate claims a different formal statement.''
                      else Ok j))"

definition accepted_report :: "string \<Rightarrow> foundation \<Rightarrow> admission_limits \<Rightarrow> report" where
  "accepted_report checker_identity f lim =
     \<lparr>r_profile = profile_for f, r_checker = checker_identity, r_accepted = True, r_outcome = Accepted,
      r_limits = lim, r_worker = None, r_diagnostic = None\<rparr>"

definition report_failure ::
  "string \<Rightarrow> foundation \<Rightarrow> admission_limits \<Rightarrow> string \<Rightarrow> check_error \<Rightarrow> report" where
  "report_failure checker_identity f lim stage e =
     (let (outcome, code) = classify_check_failure e
      in refusal checker_identity f lim outcome stage code ''The native checker did not establish the judgment.'')"

text \<open>\<open>NoFuel\<close>: one of the two checkers had not returned within the model's bound.\<close>

definition replay_with_limits ::
  "decoder \<Rightarrow> string \<Rightarrow> verifier \<Rightarrow> verifier \<Rightarrow> byte list \<Rightarrow> foundation \<Rightarrow> admission_limits \<Rightarrow> (unit, report) run" where
  "replay_with_limits decode checker_identity substitution nbe bytes f lim =
     (case decode_judgment decode checker_identity bytes f lim of
        Err r \<Rightarrow> Ok r
      | NoFuel \<Rightarrow> NoFuel
      | Ok j \<Rightarrow>
          (case substitution (j_certificate j) f of
             Err e \<Rightarrow> Ok (report_failure checker_identity f lim ''substitution'' e)
           | NoFuel \<Rightarrow> NoFuel
           | Ok _ \<Rightarrow>
               (case nbe (j_certificate j) f of
                  Err e \<Rightarrow> Ok (report_failure checker_identity f lim ''normalization'' e)
                | NoFuel \<Rightarrow> NoFuel
                | Ok _ \<Rightarrow> Ok (accepted_report checker_identity f lim))))"

definition replay_with_foundation where
  "replay_with_foundation decode checker_identity substitution nbe bytes f =
     replay_with_limits decode checker_identity substitution nbe bytes f default_admission"

definition replay where
  "replay decode checker_identity substitution nbe bytes =
     replay_with_foundation decode checker_identity substitution nbe bytes Intensional"

lemma classify_not_accepted: "fst (classify_check_failure e) \<noteq> Accepted"
  by (cases e) simp_all

lemma failure_not_accepted: "failure_outcome e \<noteq> Accepted"
  by (cases e) simp_all

lemma refusal_fields [simp]:
  "r_accepted (refusal ci f lim out st code msg) = False"
  "r_outcome (refusal ci f lim out st code msg) = out"
  "r_diagnostic (refusal ci f lim out st code msg) \<noteq> None"
  "r_limits (refusal ci f lim out st code msg) = lim"
  "r_profile (refusal ci f lim out st code msg) = profile_for f"
  by (simp_all add: refusal_def)

lemma decode_judgment_Err:
  "decode_judgment decode ci bytes f lim = Err r \<Longrightarrow>
   is_consistent r \<and> r_outcome r \<noteq> Accepted \<and> r_limits r = lim \<and> r_profile r = profile_for f"
  using failure_not_accepted
  by (auto simp: decode_judgment_def Let_def is_consistent_def split: if_splits run.splits option.splits)

lemma report_failure_fields:
  "is_consistent (report_failure ci f lim st e) \<and> r_outcome (report_failure ci f lim st e) \<noteq> Accepted \<and>
   r_limits (report_failure ci f lim st e) = lim \<and> r_profile (report_failure ci f lim st e) = profile_for f"
  using classify_not_accepted [of e] by (auto simp: report_failure_def is_consistent_def split: prod.splits)

lemma decode_judgment_Ok:
  "decode_judgment decode ci bytes f lim = Ok j \<longleftrightarrow>
     admission_valid lim \<and> length bytes \<le> max_bytes lim \<and>
     json_envelope bytes (the (json_nesting_limit lim)) = Ok () \<and> decode bytes = Some j \<and>
     j_profile j = profile_for f \<and> admit_structure j lim = Ok () \<and>
     j_statement j = cert_claimed_type (j_certificate j)"
  by (auto simp: decode_judgment_def Let_def split: if_splits run.splits option.splits)

lemma replay_accepted_iff:
  "(\<exists>r. replay_with_limits decode ci sub nbe bytes f lim = Ok r \<and> r_outcome r = Accepted) \<longleftrightarrow>
   (\<exists>j. decode_judgment decode ci bytes f lim = Ok j \<and> sub (j_certificate j) f = Ok () \<and>
        nbe (j_certificate j) f = Ok ())"
  using report_failure_fields [of ci f lim] decode_judgment_Err [of decode ci bytes f lim]
  by (auto simp: replay_with_limits_def accepted_report_def split: run.splits)

lemma admit_loop_neq_NoFuel: "admit_loop lim queue visited \<noteq> NoFuel"
proof (induction lim queue visited rule: admit_loop.induct)
  case (1 lim queue visited)
  have node: "admit_node lim nd v \<noteq> NoFuel" for nd v
    by (induction lim nd v rule: admit_node.induct) (auto simp: ok_or_def split: option.splits)
  show ?case
    by (subst admit_loop.simps) (use node 1 in \<open>auto simp: ok_or_def split: list.splits option.splits\<close>)
qed

lemma json_loop_neq_NoFuel: "json_loop m st q e bs \<noteq> NoFuel"
  by (induction m st q e bs rule: json_loop.induct) (auto split: list.splits simp: Let_def)

lemma decode_judgment_neq_NoFuel: "decode_judgment decode ci bytes f lim \<noteq> NoFuel"
  using admit_loop_neq_NoFuel json_loop_neq_NoFuel
  by (auto simp: decode_judgment_def Let_def admit_structure_def json_envelope_def split: option.splits run.splits)

subsection \<open>Properties\<close>

text \<open>C22: Structural admission, which always returns, decides exactly this: every variable of the
  statement, the proof and the claim is bound, each of the three is within the depth budget, and
  together they are within the node budget (constructors, fields and levels counted).\<close>

theorem admit_structure_decides:
  assumes "max_nodes lim < 2 ^ 64"
  shows "admit_structure j lim \<noteq> NoFuel \<and>
    (admit_structure j lim = Ok () \<longleftrightarrow>
      (\<forall>t \<in> {j_statement j, cert_term (j_certificate j), cert_claimed_type (j_certificate j)}.
         scoped 0 t \<and> term_depth t \<le> max_depth lim) \<and>
      term_count (j_statement j) + term_count (cert_term (j_certificate j)) +
        term_count (cert_claimed_type (j_certificate j)) \<le> max_nodes lim)"
  using admit_structure_iff [of lim j] assms admit_loop_neq_NoFuel
  by (simp add: word_limit_def admit_structure_def)

definition identity_judgment :: native_judgment where
  "identity_judgment = \<lparr>j_profile = PROFILE, j_statement = cert_claimed_type identity_certificate,
     j_certificate = identity_certificate\<rparr>"

lemma measure_simps:
  "term_depth (Var i) = 0" "term_count (Var i) = 1"
  "term_depth (Universe l) = Suc (level_depth l)" "term_count (Universe l) = 1 + level_count l"
  "term_depth (Lam a b) = Suc (max (term_depth a) (term_depth b))"
  "term_count (Lam a b) = 1 + term_count a + term_count b"
  "term_depth (PiT a b) = Suc (max (term_depth a) (term_depth b))"
  "term_count (PiT a b) = 1 + term_count a + term_count b"
  by (subst term_depth.simps term_count.simps, simp)+

lemma identity_judgment_measures:
  "scoped 0 (cert_term identity_certificate)" "scoped 0 (cert_claimed_type identity_certificate)"
  "term_depth (cert_term identity_certificate) = 2" "term_depth (cert_claimed_type identity_certificate) = 2"
  "term_count (cert_term identity_certificate) = 6" "term_count (cert_claimed_type identity_certificate) = 6"
  by (simp_all add: identity_certificate_def scoped_node measure_simps)

lemma identity_decoded:
  "decode_judgment (\<lambda>_. Some identity_judgment) ci [open_brace, close_brace] Intensional default_admission = Ok identity_judgment"
proof -
  have "admit_structure identity_judgment default_admission = Ok ()"
    using identity_judgment_measures
    by (subst admit_structure_iff) (simp_all add: word_limit_def default_admission_def identity_judgment_def)
  moreover have "json_envelope [open_brace, close_brace] (the (json_nesting_limit default_admission)) = Ok ()"
    by (simp add: json_envelope_def json_nesting_limit_eq default_admission_def word_limit_def)
  ultimately show ?thesis
    unfolding decode_judgment_Ok
    by (simp add: admission_valid_iff default_admission_def word_limit_def profile_for_def identity_judgment_def)
qed

theorem admit_structure_decides_witness: "admit_structure identity_judgment default_admission = Ok ()"
  using admit_structure_decides [of default_admission identity_judgment] identity_judgment_measures
  by (simp add: default_admission_def identity_judgment_def)

text \<open>C27: Every report of the replay pipeline, whatever the decoder and the two checkers do, is
  consistent: it is accepting exactly when its outcome is \<open>Accepted\<close> and exactly when it has no
  diagnostic, and it carries the profile and the limits that were requested.\<close>

theorem reports_consistent:
  assumes "replay_with_limits decode ci sub nbe bytes f lim = Ok r"
  shows "r_accepted r = (r_outcome r = Accepted) \<and> r_accepted r = (r_diagnostic r = None) \<and>
    r_limits r = lim \<and> r_profile r = profile_for f"
  using assms report_failure_fields [of ci f lim] decode_judgment_Err [of decode ci bytes f lim]
  by (auto simp: replay_with_limits_def accepted_report_def is_consistent_def split: run.splits)

theorem reports_consistent_witness:
  "r_accepted (refusal ''id'' Intensional default_admission ResourceExhausted ''decode'' ''byte_limit''
     ''Native judgment exceeds the input byte budget.'') = False"
proof -
  let ?bytes = "replicate (1024 * 1024 + 1) 0 :: byte list"
  let ?r = "refusal ''id'' Intensional default_admission ResourceExhausted ''decode'' ''byte_limit''
     ''Native judgment exceeds the input byte budget.''"
  have "decode_judgment (\<lambda>_. None) ''id'' ?bytes Intensional default_admission = Err ?r"
    unfolding decode_judgment_def Let_def length_replicate
    by (simp add: default_admission_def admission_valid_iff word_limit_def del: replicate_Suc)
  then have "replay_with_limits (\<lambda>_. None) ''id'' (\<lambda>_ _. NoFuel) (\<lambda>_ _. NoFuel) ?bytes Intensional default_admission = Ok ?r"
    unfolding replay_with_limits_def by simp
  from reports_consistent [OF this] show ?thesis unfolding refusal_fields by simp
qed

text \<open>Classification of checker errors: no error counts as acceptance, running out of the
  reduction budget is resource exhaustion and nothing else is, and a missing foundation, a level
  beyond the wire and a kernel extension are unsupported instead of rejected.\<close>

theorem classify_check_failure_cases:
  "fst (classify_check_failure e) \<noteq> Accepted \<and> fst (classify_check_failure e) \<noteq> Inconclusive \<and>
   (fst (classify_check_failure e) = ResourceExhausted \<longleftrightarrow> e = FuelExhausted) \<and>
   (fst (classify_check_failure e) = Unsupported \<longleftrightarrow>
      (\<exists>g. e = FoundationRequired g) \<or> (\<exists>n. e = UniverseOverflow n) \<or> (\<exists>a b. e = KernelV0ManifestUnclean a b) \<or>
      e = KernelV0MetaSoundnessExceeded \<or> (\<exists>a. e = KernelV0StrictIntrinsicDisagreement a))"
  by (cases e) simp_all

end
