(* ===== verification/Decimal.thy ===== *)
theory Decimal
  imports Limits
begin

section \<open>Decimal numerals\<close>

text \<open>
  What \<open>lean_export.rs\<close> and \<open>main.rs\<close> use of the standard library's conversions: printing an unsigned
  integer with \<open>write!\<close> and reading one with \<open>str::parse::<u64>\<close>, which accepts a leading plus sign and
  leading zeros and refuses the empty string, other characters and values that do not fit.
\<close>

definition digit_char :: "nat \<Rightarrow> char" where
  "digit_char d = char_of (48 + d)"

fun show_nat :: "nat \<Rightarrow> string" where
  "show_nat n = (if n < 10 then [digit_char n] else show_nat (n div 10) @ [digit_char (n mod 10)])"

declare show_nat.simps [simp del]

definition digit_value :: "char \<Rightarrow> nat option" where
  "digit_value c = (let n = of_char c :: nat in if 48 \<le> n \<and> n < 58 then Some (n - 48) else None)"

fun parse_digits :: "nat \<Rightarrow> string \<Rightarrow> nat option" where
  "parse_digits acc [] = Some acc"
| "parse_digits acc (c # cs) =
     Option.bind (digit_value c) (\<lambda>d. Option.bind (checked_mul_nat acc 10) (\<lambda>m.
       Option.bind (checked_add_nat m d) (\<lambda>acc. parse_digits acc cs)))"

definition parse_u64 :: "string \<Rightarrow> nat option" where
  "parse_u64 s = (if s = [] \<or> s = ''+'' then None else parse_digits 0 (if hd s = CHR ''+'' then tl s else s))"

lemma digit_value_char [simp]: "d < 10 \<Longrightarrow> digit_value (digit_char d) = Some d"
  by (simp add: digit_value_def digit_char_def)

lemma parse_digits_append:
  "parse_digits acc (xs @ ys) = Option.bind (parse_digits acc xs) (\<lambda>n. parse_digits n ys)"
  by (induction xs arbitrary: acc) (simp_all add: bind_assoc)

lemma parse_digits_less: "parse_digits acc xs = Some n \<Longrightarrow> acc < word_limit \<Longrightarrow> n < word_limit"
  by (induction acc xs rule: parse_digits.induct) (auto split: bind_splits)

lemma parse_show_digits: "n < word_limit \<Longrightarrow> parse_digits 0 (show_nat n) = Some n"
proof (induction n rule: show_nat.induct)
  case (1 n)
  then show ?case
    by (subst show_nat.simps) (auto simp: parse_digits_append checked_mul_nat_def checked_add_nat_def)
qed

lemma show_nat_digits: "c \<in> set (show_nat n) \<Longrightarrow> \<exists>d < 10. c = digit_char d"
proof (induction n rule: show_nat.induct)
  case (1 n)
  from 1(2) show ?case
    by (subst (asm) show_nat.simps) (use 1(1) in \<open>auto split: if_splits intro: exI [of _ "n mod 10"]\<close>)
qed

lemma show_nat_not_Nil [simp]: "show_nat n \<noteq> []"
  by (subst show_nat.simps) simp

lemma digit_char_plain: "d < 10 \<Longrightarrow> digit_char d \<noteq> CHR ''+'' \<and> digit_char d \<noteq> CHR ''-''"
  by (auto simp: digit_char_def dest: arg_cong [of _ _ "of_char :: char \<Rightarrow> nat"])

lemma parse_u64_show: "n < word_limit \<Longrightarrow> parse_u64 (show_nat n) = Some n"
proof -
  assume n: "n < word_limit"
  have "CHR ''+'' \<notin> set (show_nat n)" using show_nat_digits [of "CHR ''+''" n] digit_char_plain by metis
  then have "hd (show_nat n) \<noteq> CHR ''+''" "show_nat n \<noteq> ''+''"
    using hd_in_set [of "show_nat n"] by force+
  then show ?thesis using parse_show_digits [OF n] by (simp add: parse_u64_def)
qed

lemma parse_u64_less: "parse_u64 s = Some n \<Longrightarrow> n < word_limit"
  by (auto simp: parse_u64_def word_limit_def split: if_splits dest: parse_digits_less)

lemma show_nat_inject [simp]: "show_nat m = show_nat n \<longleftrightarrow> m = n"
proof
  show "show_nat m = show_nat n \<Longrightarrow> m = n"
  proof (induction m arbitrary: n rule: show_nat.induct)
    case (1 m)
    have digit: "digit_char a = digit_char b \<longleftrightarrow> a = b" if "a < 10" "b < 10" for a b
      using that digit_value_char by (metis option.inject)
    show ?case
    proof (cases "m < 10 \<or> n < 10")
      case True
      then show ?thesis using 1(2)
        by (subst (asm) (1 2) show_nat.simps) (auto simp: digit append_eq_Cons_conv Cons_eq_append_conv split: if_splits)
    next
      case False
      then have "show_nat (m div 10) = show_nat (n div 10)" "m mod 10 = n mod 10"
        using 1(2) digit [of "m mod 10" "n mod 10"] by (simp_all add: show_nat.simps [of m] show_nat.simps [of n])
      then show ?thesis using 1(1) False by (metis div_mult_mod_eq)
    qed
  qed
qed simp

end
