(* ===== verification/LeanExport.thy ===== *)
theory LeanExport
  imports Admission Decimal
begin

section \<open>Export of judgments to Lean\<close>

text \<open>
  Models \<open>crates/verum_proof/src/lean_export.rs\<close>: the structural translation of a closed intensional
  judgment without inductive declarations to Lean source. Text is a list of UTF-8 bytes, so the three
  characters outside ASCII are byte sequences. The table of universe names, a hash map in the code, is
  an association list; only its size and its lookups are used.
\<close>

subsection \<open>The encoder\<close>

definition lean_arrow :: string where
  "lean_arrow = [CHR 0xE2, CHR 0x86, CHR 0x92]"

definition left_angle :: string where
  "left_angle = [CHR 0xE2, CHR 0x9F, CHR 0xA8]"

definition right_angle :: string where
  "right_angle = [CHR 0xE2, CHR 0x9F, CHR 0xA9]"

definition newline :: string where
  "newline = [CHR 0x0A]"

definition LEAN_PRELUDE :: string where
  "LEAN_PRELUDE = concat (map (\<lambda>line. line @ newline)
     [''import Init'',
      ''set_option autoImplicit false'',
      ''set_option warningAsError true'',
      ''set_option maxRecDepth 4096'',
      ''namespace VerumCertificate'',
      ''universe u v'',
      ''inductive Identity {A : Type u} (x : A) : A '' @ lean_arrow @ '' Type u where'',
      ''  | refl : Identity x x'',
      '''',
      ''def transport {A : Type u} {x y : A} (P : A '' @ lean_arrow @ '' Type v) (b : P x)'',
      ''    (p : Identity x y) : P y := match p with | .refl => b'',
      '''',
      ''def induction {A : Type u} {x y : A} (P : (z : A) '' @ lean_arrow @ '' Identity x z '' @ lean_arrow @ '' Type v)'',
      ''    (b : P x (.refl)) (p : Identity x y) : P y p := match p with | .refl => b'',
      ''''])"

record encoder =
  enc_levels :: "(string \<times> nat) list"
  enc_in_statement :: bool
  enc_out :: string

definition push_text :: "string \<Rightarrow> encoder \<Rightarrow> encoder" where
  "push_text s e = e\<lparr>enc_out := enc_out e @ s\<rparr>"

fun encode_level :: "level \<Rightarrow> encoder \<Rightarrow> (string, encoder) run" where
  "encode_level (Concrete n) e = Ok (push_text (show_nat (unat n)) e)"
| "encode_level (LVar name) e =
     (let next_index = length (enc_levels e)
      in if enc_in_statement e
         then case map_of (enc_levels e) name of
                Some index \<Rightarrow> Ok (push_text (''w'' @ show_nat index) e)
              | None \<Rightarrow> Ok (push_text (''w'' @ show_nat next_index)
                         (e\<lparr>enc_levels := enc_levels e @ [(name, next_index)]\<rparr>))
         else run_bind (ok_or (map_of (enc_levels e) name) ''proof universe is outside the statement scope'')
                (\<lambda>index. Ok (push_text (''w'' @ show_nat index) e)))"
| "encode_level (LSucc inner) e =
     run_bind (encode_level inner (push_text ''('' e)) (\<lambda>e. Ok (push_text ('' + '' @ show_nat 1 @ '')'') e))"
| "encode_level (Offset inner n) e =
     run_bind (encode_level inner (push_text ''('' e)) (\<lambda>e. Ok (push_text ('' + '' @ show_nat (unat n) @ '')'') e))"
| "encode_level (LMax a b) e =
     run_bind (encode_level a (push_text ''(max '' e)) (\<lambda>e.
       run_bind (encode_level b (push_text '' '' e)) (\<lambda>e. Ok (push_text '')'' e)))"

text \<open>The parts of \<open>term\<close> between its opening and closing parenthesis.\<close>

definition encode_binder ::
  "(tm \<Rightarrow> nat \<Rightarrow> encoder \<Rightarrow> (string, encoder) run) \<Rightarrow> string \<Rightarrow> string \<Rightarrow> tm \<Rightarrow> tm \<Rightarrow> nat \<Rightarrow> encoder \<Rightarrow> (string, encoder) run" where
  "encode_binder rec opening closing a b d e =
     run_bind (rec a d (push_text (opening @ ''(x'' @ show_nat d @ '' : '') e)) (\<lambda>e.
       rec b (d + 1) (push_text closing e))"

definition encode_eliminator ::
  "(tm \<Rightarrow> nat \<Rightarrow> encoder \<Rightarrow> (string, encoder) run) \<Rightarrow> string \<Rightarrow> tm \<Rightarrow> tm \<Rightarrow> tm \<Rightarrow> nat \<Rightarrow> encoder \<Rightarrow> (string, encoder) run" where
  "encode_eliminator rec name m b s d e =
     run_bind (rec m d (push_text '' '' (push_text name e))) (\<lambda>e.
       run_bind (rec b d (push_text '' '' e)) (\<lambda>e. rec s d (push_text '' '' e)))"

lemma encode_binder_cong [fundef_cong]:
  "a = a' \<Longrightarrow> b = b' \<Longrightarrow> (\<And>d e. f a' d e = g a' d e) \<Longrightarrow> (\<And>d e. f b' d e = g b' d e) \<Longrightarrow>
   opening = opening' \<Longrightarrow> closing = closing' \<Longrightarrow> d = d' \<Longrightarrow> e = e' \<Longrightarrow>
   encode_binder f opening closing a b d e = encode_binder g opening' closing' a' b' d' e'"
  by (simp add: encode_binder_def)

lemma encode_eliminator_cong [fundef_cong]:
  "m = m' \<Longrightarrow> b = b' \<Longrightarrow> s = s' \<Longrightarrow> (\<And>d e. f m' d e = g m' d e) \<Longrightarrow> (\<And>d e. f b' d e = g b' d e) \<Longrightarrow>
   (\<And>d e. f s' d e = g s' d e) \<Longrightarrow> name = name' \<Longrightarrow> d = d' \<Longrightarrow> e = e' \<Longrightarrow>
   encode_eliminator f name m b s d e = encode_eliminator g name' m' b' s' d' e'"
  by (simp add: encode_eliminator_def)

fun encode_term :: "tm \<Rightarrow> nat \<Rightarrow> encoder \<Rightarrow> (string, encoder) run"
  and encode_inner :: "tm \<Rightarrow> nat \<Rightarrow> encoder \<Rightarrow> (string, encoder) run" where
  "encode_term t d e = run_bind (encode_inner t d (push_text ''('' e)) (\<lambda>e. Ok (push_text '')'' e))"
| "encode_inner (Var i) d e =
     run_bind (ok_or (if i + 1 \<le> d then Some (d - (i + 1)) else None) ''unbound term variable'')
       (\<lambda>n. Ok (push_text (''x'' @ show_nat n) e))"
| "encode_inner (Universe u) d e = encode_level u (push_text ''Type '' e)"
| "encode_inner (PiT a b) d e = encode_binder encode_term '''' ('') '' @ lean_arrow @ '' '') a b d e"
| "encode_inner (Lam a b) d e = encode_binder encode_term ''fun '' '') => '' a b d e"
| "encode_inner (SigmaT a b) d e =
     run_bind (encode_binder encode_term ''Sigma (fun '' '') => '' a b d e) (\<lambda>e. Ok (push_text '')'' e))"
| "encode_inner (LetT v b) d e =
     run_bind (encode_term v d (push_text (''let x'' @ show_nat d @ '' := '') e)) (\<lambda>e.
       encode_term b (d + 1) (push_text ''; '' e))"
| "encode_inner (App f a) d e =
     run_bind (encode_term f d e) (\<lambda>e. encode_term a d (push_text '' '' e))"
| "encode_inner (PairT a b) d e =
     run_bind (encode_term a d (push_text left_angle e)) (\<lambda>e.
       run_bind (encode_term b d (push_text '', '' e)) (\<lambda>e. Ok (push_text right_angle e)))"
| "encode_inner (FstT p) d e = run_bind (encode_term p d e) (\<lambda>e. Ok (push_text ''.1'' e))"
| "encode_inner (SndT p) d e = run_bind (encode_term p d e) (\<lambda>e. Ok (push_text ''.2'' e))"
| "encode_inner (IdT ty l r) d e = encode_eliminator encode_term ''@Identity'' ty l r d e"
| "encode_inner (Refl x) d e =
     run_bind (encode_term x d (push_text ''Identity.refl (x := '' e)) (\<lambda>e. Ok (push_text '')'' e))"
| "encode_inner (J m b s) d e = encode_eliminator encode_term ''transport'' m b s d e"
| "encode_inner (IdElim m b s) d e = encode_eliminator encode_term ''induction'' m b s d e"
| "encode_inner (FunExt _ _ _ _) d e = Err ''extensionality is outside the intensional profile''"
| "encode_inner (Data _ _ _ _) d e = Err ''native inductive declarations are outside this Lean export fragment''"
| "encode_inner (Construct _ _ _) d e = Err ''native inductive declarations are outside this Lean export fragment''"
| "encode_inner (Induct _ _ _) d e = Err ''native inductive declarations are outside this Lean export fragment''"

definition lean_text :: "nat \<Rightarrow> string \<Rightarrow> string \<Rightarrow> string" where
  "lean_text universes statement proof_text =
     LEAN_PRELUDE @
     (if universes = 0 then [] else ''universe'' @ concat (map (\<lambda>i. '' w'' @ show_nat i) [0..<universes]) @ newline) @
     ''def checked : '' @ statement @ '' :='' @ newline @ proof_text @ newline @
     ''#print axioms checked'' @ newline @ ''end VerumCertificate'' @ newline"

definition lean_source :: "decoder \<Rightarrow> string \<Rightarrow> byte list \<Rightarrow> (string, string) run" where
  "lean_source decode checker_identity bytes =
     (case decode_judgment decode checker_identity bytes Intensional default_admission of
        Err r \<Rightarrow> Err (case r_diagnostic r of Some diag \<Rightarrow> d_message diag | None \<Rightarrow> ''invalid judgment'')
      | NoFuel \<Rightarrow> NoFuel
      | Ok j \<Rightarrow>
          run_bind (encode_term (j_statement j) 0 \<lparr>enc_levels = [], enc_in_statement = True, enc_out = []\<rparr>) (\<lambda>e.
            let statement = enc_out e
            in run_bind (encode_term (cert_term (j_certificate j)) 0 (e\<lparr>enc_in_statement := False, enc_out := []\<rparr>)) (\<lambda>e.
                 Ok (lean_text (length (enc_levels e)) statement (enc_out e)))))"

subsection \<open>The exported fragment and its text\<close>

text \<open>The terms that have an export below \<open>d\<close> binders, the universe names in order of occurrence, and
  the text over a given numbering of the names.\<close>

fun exports :: "nat \<Rightarrow> tm \<Rightarrow> bool" where
  "exports d (Var i) = (i < d)"
| "exports d (Universe u) = True"
| "exports d (PiT a b) = (exports d a \<and> exports (d + 1) b)"
| "exports d (Lam a b) = (exports d a \<and> exports (d + 1) b)"
| "exports d (SigmaT a b) = (exports d a \<and> exports (d + 1) b)"
| "exports d (LetT a b) = (exports d a \<and> exports (d + 1) b)"
| "exports d (App a b) = (exports d a \<and> exports d b)"
| "exports d (PairT a b) = (exports d a \<and> exports d b)"
| "exports d (FstT a) = exports d a"
| "exports d (SndT a) = exports d a"
| "exports d (Refl a) = exports d a"
| "exports d (IdT a b c) = (exports d a \<and> exports d b \<and> exports d c)"
| "exports d (J a b c) = (exports d a \<and> exports d b \<and> exports d c)"
| "exports d (IdElim a b c) = (exports d a \<and> exports d b \<and> exports d c)"
| "exports d _ = False"

fun in_fragment :: "tm \<Rightarrow> bool" where
  "in_fragment (FunExt _ _ _ _) = False"
| "in_fragment (Data _ _ _ _) = False"
| "in_fragment (Construct _ _ _) = False"
| "in_fragment (Induct _ _ _) = False"
| "in_fragment (Var i) = True"
| "in_fragment (Universe u) = True"
| "in_fragment (PiT a b) = (in_fragment a \<and> in_fragment b)"
| "in_fragment (Lam a b) = (in_fragment a \<and> in_fragment b)"
| "in_fragment (SigmaT a b) = (in_fragment a \<and> in_fragment b)"
| "in_fragment (LetT a b) = (in_fragment a \<and> in_fragment b)"
| "in_fragment (App a b) = (in_fragment a \<and> in_fragment b)"
| "in_fragment (PairT a b) = (in_fragment a \<and> in_fragment b)"
| "in_fragment (FstT a) = in_fragment a"
| "in_fragment (SndT a) = in_fragment a"
| "in_fragment (Refl a) = in_fragment a"
| "in_fragment (IdT a b c) = (in_fragment a \<and> in_fragment b \<and> in_fragment c)"
| "in_fragment (J a b c) = (in_fragment a \<and> in_fragment b \<and> in_fragment c)"
| "in_fragment (IdElim a b c) = (in_fragment a \<and> in_fragment b \<and> in_fragment c)"

primrec level_occurrences :: "level \<Rightarrow> string list" where
  "level_occurrences (Concrete n) = []"
| "level_occurrences (LVar x) = [x]"
| "level_occurrences (LSucc a) = level_occurrences a"
| "level_occurrences (Offset a n) = level_occurrences a"
| "level_occurrences (LMax a b) = level_occurrences a @ level_occurrences b"

fun occurrences :: "tm \<Rightarrow> string list" where
  "occurrences (Universe u) = level_occurrences u"
| "occurrences (PiT a b) = occurrences a @ occurrences b"
| "occurrences (Lam a b) = occurrences a @ occurrences b"
| "occurrences (SigmaT a b) = occurrences a @ occurrences b"
| "occurrences (LetT a b) = occurrences a @ occurrences b"
| "occurrences (App a b) = occurrences a @ occurrences b"
| "occurrences (PairT a b) = occurrences a @ occurrences b"
| "occurrences (FstT a) = occurrences a"
| "occurrences (SndT a) = occurrences a"
| "occurrences (Refl a) = occurrences a"
| "occurrences (IdT a b c) = occurrences a @ occurrences b @ occurrences c"
| "occurrences (J a b c) = occurrences a @ occurrences b @ occurrences c"
| "occurrences (IdElim a b c) = occurrences a @ occurrences b @ occurrences c"
| "occurrences _ = []"

primrec level_text :: "(string \<Rightarrow> nat) \<Rightarrow> level \<Rightarrow> string" where
  "level_text \<sigma> (Concrete n) = show_nat (unat n)"
| "level_text \<sigma> (LVar x) = ''w'' @ show_nat (\<sigma> x)"
| "level_text \<sigma> (LSucc a) = ''('' @ level_text \<sigma> a @ '' + '' @ show_nat 1 @ '')''"
| "level_text \<sigma> (Offset a n) = ''('' @ level_text \<sigma> a @ '' + '' @ show_nat (unat n) @ '')''"
| "level_text \<sigma> (LMax a b) = ''(max '' @ level_text \<sigma> a @ '' '' @ level_text \<sigma> b @ '')''"

fun term_text :: "(string \<Rightarrow> nat) \<Rightarrow> nat \<Rightarrow> tm \<Rightarrow> string"
  and inner_text :: "(string \<Rightarrow> nat) \<Rightarrow> nat \<Rightarrow> tm \<Rightarrow> string" where
  "term_text \<sigma> d t = ''('' @ inner_text \<sigma> d t @ '')''"
| "inner_text \<sigma> d (Var i) = ''x'' @ show_nat (d - (i + 1))"
| "inner_text \<sigma> d (Universe u) = ''Type '' @ level_text \<sigma> u"
| "inner_text \<sigma> d (PiT a b) =
     ''(x'' @ show_nat d @ '' : '' @ term_text \<sigma> d a @ '') '' @ lean_arrow @ '' '' @ term_text \<sigma> (d + 1) b"
| "inner_text \<sigma> d (Lam a b) =
     ''fun (x'' @ show_nat d @ '' : '' @ term_text \<sigma> d a @ '') => '' @ term_text \<sigma> (d + 1) b"
| "inner_text \<sigma> d (SigmaT a b) =
     ''Sigma (fun (x'' @ show_nat d @ '' : '' @ term_text \<sigma> d a @ '') => '' @ term_text \<sigma> (d + 1) b @ '')''"
| "inner_text \<sigma> d (LetT v b) =
     ''let x'' @ show_nat d @ '' := '' @ term_text \<sigma> d v @ ''; '' @ term_text \<sigma> (d + 1) b"
| "inner_text \<sigma> d (App f a) = term_text \<sigma> d f @ '' '' @ term_text \<sigma> d a"
| "inner_text \<sigma> d (PairT a b) = left_angle @ term_text \<sigma> d a @ '', '' @ term_text \<sigma> d b @ right_angle"
| "inner_text \<sigma> d (FstT p) = term_text \<sigma> d p @ ''.1''"
| "inner_text \<sigma> d (SndT p) = term_text \<sigma> d p @ ''.2''"
| "inner_text \<sigma> d (IdT a b c) =
     ''@Identity '' @ term_text \<sigma> d a @ '' '' @ term_text \<sigma> d b @ '' '' @ term_text \<sigma> d c"
| "inner_text \<sigma> d (Refl x) = ''Identity.refl (x := '' @ term_text \<sigma> d x @ '')''"
| "inner_text \<sigma> d (J a b c) =
     ''transport '' @ term_text \<sigma> d a @ '' '' @ term_text \<sigma> d b @ '' '' @ term_text \<sigma> d c"
| "inner_text \<sigma> d (IdElim a b c) =
     ''induction '' @ term_text \<sigma> d a @ '' '' @ term_text \<sigma> d b @ '' '' @ term_text \<sigma> d c"
| "inner_text \<sigma> d _ = []"

text \<open>The table of universe names after some occurrences.\<close>

definition known :: "encoder \<Rightarrow> string set" where
  "known e = fst ` set (enc_levels e)"

fun grow :: "(string \<times> nat) list \<Rightarrow> string list \<Rightarrow> (string \<times> nat) list" where
  "grow table [] = table"
| "grow table (x # xs) = grow (if x \<in> fst ` set table then table else table @ [(x, length table)]) xs"

abbreviation numbering :: "(string \<times> nat) list \<Rightarrow> string \<Rightarrow> nat" where
  "numbering table x \<equiv> the (map_of table x)"

lemma grow_append [simp]: "grow table (xs @ ys) = grow (grow table xs) ys"
  by (induction table xs rule: grow.induct) simp_all

lemma grow_known [simp]: "fst ` set (grow table xs) = fst ` set table \<union> set xs"
  by (induction table xs rule: grow.induct) auto

lemma grow_old: "x \<in> fst ` set table \<Longrightarrow> map_of (grow table xs) x = map_of table x"
  by (induction table xs rule: grow.induct) (auto simp: map_add_def split: option.splits dest: map_of_SomeD intro: rev_image_eqI)

lemma grow_subset: "set xs \<subseteq> fst ` set table \<Longrightarrow> grow table xs = table"
  by (induction table xs rule: grow.induct) auto

lemma exports_iff: "exports d t \<longleftrightarrow> in_fragment t \<and> scoped d t"
  by (induction d t rule: exports.induct) (auto simp: scoped_node)

text \<open>What a step of the encoder does to its state: names are numbered and text is appended.\<close>

definition advance :: "string list \<Rightarrow> string \<Rightarrow> encoder \<Rightarrow> encoder" where
  "advance xs s e = e\<lparr>enc_levels := grow (enc_levels e) xs, enc_out := enc_out e @ s\<rparr>"

definition can_name :: "string list \<Rightarrow> encoder \<Rightarrow> bool" where
  "can_name xs e \<longleftrightarrow> enc_in_statement e \<or> set xs \<subseteq> known e"

lemma push_text_advance: "push_text s e = advance [] s e"
  by (simp add: push_text_def advance_def)

lemma advance_simps [simp]:
  "advance ys t (advance xs s e) = advance (xs @ ys) (s @ t) e"
  "enc_levels (advance xs s e) = grow (enc_levels e) xs"
  "enc_out (advance xs s e) = enc_out e @ s"
  "enc_in_statement (advance xs s e) = enc_in_statement e"
  by (simp_all add: advance_def)

lemma can_name_simps [simp]:
  "can_name [] e"
  "can_name (xs @ ys) e \<longleftrightarrow> can_name xs e \<and> can_name ys e"
  "can_name xs e \<Longrightarrow> can_name ys (advance xs s e) \<longleftrightarrow> can_name ys e"
  "can_name ys (advance [] s e) \<longleftrightarrow> can_name ys e"
  by (auto simp: can_name_def known_def)

lemma level_text_grow [simp]:
  "set (level_occurrences l) \<subseteq> fst ` set table \<Longrightarrow>
   level_text (numbering (grow table xs)) l = level_text (numbering table) l"
  by (induction l) (simp_all add: grow_old)

lemma term_text_grow [simp]:
  "set (occurrences t) \<subseteq> fst ` set table \<Longrightarrow>
   inner_text (numbering (grow table xs)) d t = inner_text (numbering table) d t"
  by (induction d t rule: exports.induct) simp_all

lemma encode_level_eq:
  "encode_level l e =
     (if can_name (level_occurrences l) e
      then Ok (advance (level_occurrences l) (level_text (numbering (grow (enc_levels e) (level_occurrences l))) l) e)
      else Err ''proof universe is outside the statement scope'')"
proof (induction l arbitrary: e)
  case (LVar x)
  show ?case
    by (auto simp: Let_def can_name_def known_def push_text_def advance_def ok_or_def map_of_eq_None_iff map_add_def
        split: option.splits dest: map_of_SomeD intro: rev_image_eqI)
qed (auto simp: push_text_advance)

lemma middle_subset [simp]: "A \<subseteq> S \<union> A \<union> B"
  by blast

lemmas encode_step_simps = push_text_advance encode_level_eq encode_binder_def encode_eliminator_def ok_or_def

lemma encode_inner_Ok:
  "exports d t \<Longrightarrow> can_name (occurrences t) e \<Longrightarrow>
   encode_inner t d e = Ok (advance (occurrences t) (inner_text (numbering (grow (enc_levels e) (occurrences t))) d t) e)"
  by (induction d t arbitrary: e rule: exports.induct) (simp_all add: encode_step_simps)

lemma encode_inner_OkD:
  "encode_inner t d e = Ok e' \<Longrightarrow> exports d t \<and> can_name (occurrences t) e \<and> (\<exists>s. e' = advance (occurrences t) s e)"
  by (induction d t arbitrary: e e' rule: exports.induct)
    (fastforce simp: encode_step_simps split: if_splits)+

lemma encode_inner_neq_NoFuel: "encode_inner t d e \<noteq> NoFuel"
  by (induction d t arbitrary: e rule: exports.induct) (auto simp: encode_step_simps split: if_splits)

lemma encode_inner_iff:
  "encode_inner t d e = Ok e' \<longleftrightarrow> exports d t \<and> can_name (occurrences t) e \<and>
     e' = advance (occurrences t) (inner_text (numbering (grow (enc_levels e) (occurrences t))) d t) e"
  using encode_inner_Ok encode_inner_OkD by (metis run.inject(1))

lemma encode_term_iff:
  "encode_term t d e = Ok e' \<longleftrightarrow> exports d t \<and> can_name (occurrences t) e \<and>
     e' = advance (occurrences t) (term_text (numbering (grow (enc_levels e) (occurrences t))) d t) e"
  by (auto simp: push_text_advance encode_inner_iff)

subsection \<open>Renaming universes\<close>

primrec rename_level :: "(string \<Rightarrow> string) \<Rightarrow> level \<Rightarrow> level" where
  "rename_level \<rho> (Concrete n) = Concrete n"
| "rename_level \<rho> (LVar x) = LVar (\<rho> x)"
| "rename_level \<rho> (LSucc a) = LSucc (rename_level \<rho> a)"
| "rename_level \<rho> (LMax a b) = LMax (rename_level \<rho> a) (rename_level \<rho> b)"
| "rename_level \<rho> (Offset a n) = Offset (rename_level \<rho> a) n"

fun rename_head :: "(string \<Rightarrow> string) \<Rightarrow> tm \<Rightarrow> tm" where
  "rename_head \<rho> (Universe l) = Universe (rename_level \<rho> l)"
| "rename_head \<rho> (Data n l ixs cs) = Data n (rename_level \<rho> l) ixs cs"
| "rename_head \<rho> t = t"

function rename_universes :: "(string \<Rightarrow> string) \<Rightarrow> tm \<Rightarrow> tm" where
  "rename_universes \<rho> t = rename_head \<rho> (map_children t (\<lambda>c b. rename_universes \<rho> c))"
  by pat_completeness auto
termination
  by (relation "measure (\<lambda>(_, t). size t)") (auto simp del: children.simps)

declare rename_universes.simps [simp del]

lemma rename_universes_simps [simp]:
  "rename_universes \<rho> (Var i) = Var i"
  "rename_universes \<rho> (Universe l) = Universe (rename_level \<rho> l)"
  "rename_universes \<rho> (PiT a b) = PiT (rename_universes \<rho> a) (rename_universes \<rho> b)"
  "rename_universes \<rho> (Lam a b) = Lam (rename_universes \<rho> a) (rename_universes \<rho> b)"
  "rename_universes \<rho> (SigmaT a b) = SigmaT (rename_universes \<rho> a) (rename_universes \<rho> b)"
  "rename_universes \<rho> (LetT a b) = LetT (rename_universes \<rho> a) (rename_universes \<rho> b)"
  "rename_universes \<rho> (App a b) = App (rename_universes \<rho> a) (rename_universes \<rho> b)"
  "rename_universes \<rho> (PairT a b) = PairT (rename_universes \<rho> a) (rename_universes \<rho> b)"
  "rename_universes \<rho> (FstT a) = FstT (rename_universes \<rho> a)"
  "rename_universes \<rho> (SndT a) = SndT (rename_universes \<rho> a)"
  "rename_universes \<rho> (Refl a) = Refl (rename_universes \<rho> a)"
  "rename_universes \<rho> (IdT a b c) = IdT (rename_universes \<rho> a) (rename_universes \<rho> b) (rename_universes \<rho> c)"
  "rename_universes \<rho> (J a b c) = J (rename_universes \<rho> a) (rename_universes \<rho> b) (rename_universes \<rho> c)"
  "rename_universes \<rho> (IdElim a b c) = IdElim (rename_universes \<rho> a) (rename_universes \<rho> b) (rename_universes \<rho> c)"
  "rename_universes \<rho> (FunExt a b c d) = FunExt (rename_universes \<rho> a) (rename_universes \<rho> b) (rename_universes \<rho> c) (rename_universes \<rho> d)"
  "rename_universes \<rho> (Construct a k ts) = Construct (rename_universes \<rho> a) k (map (rename_universes \<rho>) ts)"
  "rename_universes \<rho> (Induct a b ts) = Induct (rename_universes \<rho> a) (rename_universes \<rho> b) (map (rename_universes \<rho>) ts)"
  by (subst rename_universes.simps, simp)+

lemma rename_universes_Data [simp]:
  "rename_universes \<rho> (Data n l ixs cs) = Data n (rename_level \<rho> l)
     (map (\<lambda>(i, ty). rename_universes \<rho> ty) (List.enumerate 0 ixs)) (map (map_constructor (\<lambda>c b. rename_universes \<rho> c)) cs)"
  by (subst rename_universes.simps) simp

lemma rename_fragment [simp]: "in_fragment (rename_universes \<rho> t) = in_fragment t"
  by (induction t rule: in_fragment.induct) simp_all

lemma level_occurrences_rename [simp]: "level_occurrences (rename_level \<rho> l) = map \<rho> (level_occurrences l)"
  by (induction l) simp_all

lemma occurrences_rename [simp]: "occurrences (rename_universes \<rho> t) = map \<rho> (occurrences t)"
  by (induction t rule: occurrences.induct) simp_all

lemma grow_rename:
  "inj \<rho> \<Longrightarrow> grow (map (\<lambda>(x, i). (\<rho> x, i)) table) (map \<rho> xs) = map (\<lambda>(x, i). (\<rho> x, i)) (grow table xs)"
proof (induction table xs rule: grow.induct)
  case (2 table x xs)
  have "\<rho> x \<in> fst ` set (map (\<lambda>(x, i). (\<rho> x, i)) table) \<longleftrightarrow> x \<in> fst ` set table"
    using 2(2) by (force simp: inj_eq)
  then show ?case using 2 by (auto split: if_splits)
qed simp

lemma map_of_rename: "inj \<rho> \<Longrightarrow> map_of (map (\<lambda>(x, i). (\<rho> x, i)) table) (\<rho> y) = map_of table y"
  by (induction table) (auto simp: inj_eq)

lemma level_text_rename:
  "inj \<rho> \<Longrightarrow> level_text (numbering (map (\<lambda>(x, i). (\<rho> x, i)) table)) (rename_level \<rho> l) = level_text (numbering table) l"
  by (induction l) (simp_all add: map_of_rename)

lemma term_text_rename:
  "inj \<rho> \<Longrightarrow> inner_text (numbering (map (\<lambda>(x, i). (\<rho> x, i)) table)) d (rename_universes \<rho> t) =
   inner_text (numbering table) d t"
  by (induction d t rule: exports.induct) (simp_all add: level_text_rename)

definition rename_judgment :: "(string \<Rightarrow> string) \<Rightarrow> native_judgment \<Rightarrow> native_judgment" where
  "rename_judgment \<rho> j = j\<lparr>j_statement := rename_universes \<rho> (j_statement j),
     j_certificate := (j_certificate j)\<lparr>cert_term := rename_universes \<rho> (cert_term (j_certificate j)),
       cert_claimed_type := rename_universes \<rho> (cert_claimed_type (j_certificate j))\<rparr>\<rparr>"

subsection \<open>What is exported\<close>

definition exportable :: "native_judgment \<Rightarrow> bool" where
  "exportable j \<longleftrightarrow> in_fragment (j_statement j) \<and> in_fragment (cert_term (j_certificate j)) \<and>
     set (occurrences (cert_term (j_certificate j))) \<subseteq> set (occurrences (j_statement j))"

definition judgment_text :: "native_judgment \<Rightarrow> string" where
  "judgment_text j =
     (let table = grow [] (occurrences (j_statement j))
      in lean_text (length table) (term_text (numbering table) 0 (j_statement j))
           (term_text (numbering table) 0 (cert_term (j_certificate j))))"

lemma decoded_scoped:
  assumes "decode_judgment decode ci bytes f default_admission = Ok j"
  shows "scoped 0 (j_statement j) \<and> scoped 0 (cert_term (j_certificate j))"
proof -
  have "max_nodes default_admission < word_limit" by (simp add: default_admission_def word_limit_def)
  with assms show ?thesis by (auto simp: decode_judgment_Ok admit_structure_iff)
qed

lemma lean_source_iff:
  assumes "decode_judgment decode ci bytes Intensional default_admission = Ok j"
  shows "lean_source decode ci bytes = Ok s \<longleftrightarrow> exportable j \<and> s = judgment_text j"
proof -
  note scoped = decoded_scoped [OF assms]
  have "grow (grow [] (occurrences (j_statement j))) (occurrences (cert_term (j_certificate j))) =
      grow [] (occurrences (j_statement j))" if "exportable j"
    using that by (intro grow_subset) (auto simp: exportable_def)
  then show ?thesis
    using assms scoped
    by (auto simp: lean_source_def Let_def encode_term_iff exports_iff exportable_def judgment_text_def can_name_def known_def
        simp del: encode_term.simps term_text.simps)
qed

lemma exportable_rename [simp]: "inj \<rho> \<Longrightarrow> exportable (rename_judgment \<rho> j) = exportable j"
  by (auto simp: exportable_def rename_judgment_def inj_image_subset_iff)

lemma judgment_text_rename: "inj \<rho> \<Longrightarrow> judgment_text (rename_judgment \<rho> j) = judgment_text j"
  using grow_rename [of \<rho> "[]" "occurrences (j_statement j)"]
  by (simp add: judgment_text_def rename_judgment_def Let_def term_text_rename)

subsection \<open>Properties\<close>

text \<open>What the export accepts: a decoded judgment has Lean source exactly when neither its statement
  nor its proof uses extensionality or inductive declarations and every universe name of the proof
  occurs in the statement. A consistent renaming of universes changes neither the decision nor a
  byte of the text, so no name of the input reaches Lean.\<close>

theorem export_decides:
  assumes "decode_judgment decode ci bytes Intensional default_admission = Ok j"
  shows "lean_source decode ci bytes \<noteq> NoFuel \<and>
    ((\<exists>s. lean_source decode ci bytes = Ok s) \<longleftrightarrow>
       in_fragment (j_statement j) \<and> in_fragment (cert_term (j_certificate j)) \<and>
       set (occurrences (cert_term (j_certificate j))) \<subseteq> set (occurrences (j_statement j))) \<and>
    (decode_judgment decode ci bytes' Intensional default_admission = Ok (rename_judgment \<rho> j) \<longrightarrow> inj \<rho> \<longrightarrow>
       (lean_source decode ci bytes' = Ok s \<longleftrightarrow> lean_source decode ci bytes = Ok s))"
proof (intro conjI impI)
  show "lean_source decode ci bytes \<noteq> NoFuel"
    using assms encode_inner_neq_NoFuel by (simp add: lean_source_def Let_def)
  show "(\<exists>s. lean_source decode ci bytes = Ok s) \<longleftrightarrow>
       in_fragment (j_statement j) \<and> in_fragment (cert_term (j_certificate j)) \<and>
       set (occurrences (cert_term (j_certificate j))) \<subseteq> set (occurrences (j_statement j))"
    unfolding lean_source_iff [OF assms] exportable_def by simp
  show "lean_source decode ci bytes' = Ok s \<longleftrightarrow> lean_source decode ci bytes = Ok s"
    if "decode_judgment decode ci bytes' Intensional default_admission = Ok (rename_judgment \<rho> j)" "inj \<rho>"
    unfolding lean_source_iff [OF assms] lean_source_iff [OF that(1)] using that(2) by (simp add: judgment_text_rename)
qed

theorem export_decides_witness:
  "\<exists>s. lean_source (\<lambda>_. Some identity_judgment) ''id'' [open_brace, close_brace] = Ok s"
  using export_decides [OF identity_decoded, of "''id''" "[]" id "[]"]
  by (simp add: identity_judgment_def identity_certificate_def)

end
