(* ===== verification/LeanReader.thy ===== *)
theory LeanReader
  imports LeanExport
begin

section \<open>Reading exported text back\<close>

text \<open>
  A specification of what \<open>lean_export.rs\<close> writes: a deterministic reader of its text, which
  resolves variables by the names of their binders. It recovers the statement and the proof up to the
  numbering of universes and the two spellings of a successor level, so two judgments with the same
  Lean source are the same judgment up to these.
\<close>

subsection \<open>Lexical parts\<close>

fun strip :: "string \<Rightarrow> string \<Rightarrow> string option" where
  "strip [] s = Some s"
| "strip (c # cs) (d # ds) = (if c = d then strip cs ds else None)"
| "strip (c # cs) [] = None"

definition is_digit :: "char \<Rightarrow> bool" where
  "is_digit c \<longleftrightarrow> digit_value c \<noteq> None"

definition read_number :: "string \<Rightarrow> nat \<times> string" where
  "read_number s = (foldl (\<lambda>a c. 10 * a + the (digit_value c)) 0 (takeWhile is_digit s), dropWhile is_digit s)"

definition ends_number :: "string \<Rightarrow> bool" where
  "ends_number s \<longleftrightarrow> (case s of [] \<Rightarrow> True | c # _ \<Rightarrow> \<not> is_digit c)"

lemma strip_append [simp]: "strip p (p @ s) = Some s"
  by (induction p) simp_all

lemma ends_number_simps [simp]: "ends_number []" "ends_number (c # s) \<longleftrightarrow> \<not> is_digit c"
  by (simp_all add: ends_number_def)

lemma is_digit_chars [simp]:
  "\<not> is_digit (CHR '' '')" "\<not> is_digit (CHR '')'')"
  by (simp_all add: is_digit_def digit_value_def)

lemma show_nat_is_digit: "c \<in> set (show_nat n) \<Longrightarrow> is_digit c"
  using show_nat_digits [of c n] by (auto simp: is_digit_def)

lemma foldl_show_nat: "foldl (\<lambda>a c. 10 * a + the (digit_value c)) 0 (show_nat n) = n"
proof (induction n rule: show_nat.induct)
  case (1 n)
  then show ?case by (subst show_nat.simps) (auto simp: show_nat.simps [of n])
qed

lemma read_number_show [simp]: "ends_number s \<Longrightarrow> read_number (show_nat n @ s) = (n, s)"
proof -
  assume s: "ends_number s"
  have all: "\<forall>c \<in> set (show_nat n). is_digit c" using show_nat_is_digit by blast
  have "takeWhile is_digit s = []" "dropWhile is_digit s = s"
    using s by (auto simp: ends_number_def split: list.splits)
  then show ?thesis
    using all foldl_show_nat by (simp add: read_number_def takeWhile_append2 dropWhile_append2)
qed

lemma show_nat_first: "\<exists>d cs. show_nat n = d # cs \<and> is_digit d"
  using show_nat_is_digit [of _ n] by (cases "show_nat n") auto

subsection \<open>Levels\<close>

fun read_level :: "nat \<Rightarrow> string \<Rightarrow> (level \<times> string) option" where
  "read_level 0 s = None"
| "read_level (Suc k) s =
     (case strip ''(max '' s of
        Some s \<Rightarrow>
          Option.bind (read_level k s) (\<lambda>(a, s). Option.bind (strip '' '' s) (\<lambda>s.
            Option.bind (read_level k s) (\<lambda>(b, s). Option.bind (strip '')'' s) (\<lambda>s. Some (LMax a b, s)))))
      | None \<Rightarrow>
          (case strip ''('' s of
             Some s \<Rightarrow>
               Option.bind (read_level k s) (\<lambda>(a, s). Option.bind (strip '' + '' s) (\<lambda>s.
                 case read_number s of (n, s) \<Rightarrow>
                   Option.bind (strip '')'' s) (\<lambda>s. Some (Offset a (of_nat n), s))))
           | None \<Rightarrow>
               (case strip ''w'' s of
                  Some s \<Rightarrow> (case read_number s of (n, s) \<Rightarrow> Some (LVar (''w'' @ show_nat n), s))
                | None \<Rightarrow> (case read_number s of (n, s) \<Rightarrow> Some (Concrete (of_nat n), s)))))"

primrec canonical_level :: "(string \<Rightarrow> nat) \<Rightarrow> level \<Rightarrow> level" where
  "canonical_level \<sigma> (Concrete n) = Concrete n"
| "canonical_level \<sigma> (LVar x) = LVar (''w'' @ show_nat (\<sigma> x))"
| "canonical_level \<sigma> (LSucc a) = Offset (canonical_level \<sigma> a) 1"
| "canonical_level \<sigma> (Offset a n) = Offset (canonical_level \<sigma> a) n"
| "canonical_level \<sigma> (LMax a b) = LMax (canonical_level \<sigma> a) (canonical_level \<sigma> b)"

lemma strip_digit: "is_digit d \<Longrightarrow> strip ''(max '' (d # s) = None \<and> strip ''('' (d # s) = None \<and> strip ''w'' (d # s) = None"
  by (auto simp: is_digit_def digit_value_def split: if_splits)

lemma level_text_first:
  "\<exists>c cs. level_text \<sigma> l = c # cs \<and> c \<noteq> CHR ''m''"
proof (cases l)
  case (Concrete n)
  obtain d cs where "show_nat (unat n) = d # cs" "is_digit d" using show_nat_first by blast
  moreover have "\<not> is_digit (CHR ''m'')" by (simp add: is_digit_def digit_value_def)
  ultimately show ?thesis using Concrete by auto
qed simp_all

lemma read_level_text:
  "size l < k \<Longrightarrow> ends_number s \<Longrightarrow> read_level k (level_text \<sigma> l @ s) = Some (canonical_level \<sigma> l, s)"
proof (induction l arbitrary: k s)
  case (Concrete n)
  then obtain k' where k: "k = Suc k'" by (cases k) auto
  obtain d cs where d: "show_nat (unat n) = d # cs" "is_digit d" using show_nat_first by blast
  then have "read_number (d # cs @ s) = (unat n, s)" using read_number_show [OF Concrete(2), of "unat n"] by simp
  then show ?case using strip_digit [OF d(2)] by (simp add: k d(1) del: strip.simps)
next
  case (LSucc l)
  then obtain k' where k: "k = Suc k'" by (cases k) auto
  obtain c cs where c: "level_text \<sigma> l = c # cs" "c \<noteq> CHR ''m''" using level_text_first by blast
  show ?case using LSucc.IH [of k' "'' + '' @ show_nat 1 @ '')'' @ s"] LSucc.prems c
    by (simp add: k)
next
  case (Offset l n)
  then obtain k' where k: "k = Suc k'" by (cases k) auto
  obtain c cs where c: "level_text \<sigma> l = c # cs" "c \<noteq> CHR ''m''" using level_text_first by blast
  show ?case using Offset.IH [of k' "'' + '' @ show_nat (unat n) @ '')'' @ s"] Offset.prems c
    by (simp add: k)
next
  case (LVar x)
  then obtain k' where k: "k = Suc k'" by (cases k) auto
  then show ?case using LVar by simp
next
  case (LMax a b)
  then obtain k' where k: "k = Suc k'" by (cases k) auto
  show ?case using LMax.IH(1) [of k' "'' '' @ level_text \<sigma> b @ '')'' @ s"] LMax.IH(2) [of k' "'')'' @ s"] LMax.prems
    by (simp add: k)
qed

subsection \<open>Terms\<close>

text \<open>Variables are read as Lean reads them, by name: the reader carries the numbers of the binders around
  a term, innermost first; a variable is the innermost binder of its number and an error without one.\<close>

fun binder_position :: "nat \<Rightarrow> nat list \<Rightarrow> nat option" where
  "binder_position n [] = None"
| "binder_position n (m # env) = (if m = n then Some 0 else map_option Suc (binder_position n env))"

lemma binder_position_upt: "i < d \<Longrightarrow> binder_position (d - Suc i) (rev [0..<d]) = Some i"
proof (induction d arbitrary: i)
  case (Suc d)
  then show ?case by (cases i) auto
qed simp

definition read_binder ::
  "(nat list \<Rightarrow> string \<Rightarrow> (tm \<times> string) option) \<Rightarrow> (tm \<Rightarrow> tm \<Rightarrow> tm) \<Rightarrow> nat list \<Rightarrow> string \<Rightarrow> string \<Rightarrow> string \<Rightarrow> (tm \<times> string) option" where
  "read_binder rec con env colon closing s =
     (case read_number s of (n, s) \<Rightarrow>
        Option.bind (strip colon s) (\<lambda>s. Option.bind (rec env s) (\<lambda>(a, s).
          Option.bind (strip closing s) (\<lambda>s. Option.bind (rec (n # env) s) (\<lambda>(b, s). Some (con a b, s))))))"

definition read_three ::
  "(nat list \<Rightarrow> string \<Rightarrow> (tm \<times> string) option) \<Rightarrow> (tm \<Rightarrow> tm \<Rightarrow> tm \<Rightarrow> tm) \<Rightarrow> nat list \<Rightarrow> string \<Rightarrow> (tm \<times> string) option" where
  "read_three rec con env s =
     Option.bind (rec env s) (\<lambda>(a, s). Option.bind (strip '' '' s) (\<lambda>s.
       Option.bind (rec env s) (\<lambda>(b, s). Option.bind (strip '' '' s) (\<lambda>s.
         Option.bind (rec env s) (\<lambda>(c, s). Some (con a b c, s))))))"

text \<open>An opening parenthesis starts a product when a variable and a colon follow, and else the head of
  an application or a projection.\<close>

definition product_head :: "string \<Rightarrow> string option" where
  "product_head s = Option.bind (strip ''(x'' s) (\<lambda>s. strip '' : '' (snd (read_number s)))"

definition read_application ::
  "(nat list \<Rightarrow> string \<Rightarrow> (tm \<times> string) option) \<Rightarrow> nat list \<Rightarrow> string \<Rightarrow> (tm \<times> string) option" where
  "read_application rec env s =
     Option.bind (rec env s) (\<lambda>(f, s).
       case strip ''.1'' s of Some s \<Rightarrow> Some (FstT f, s)
       | None \<Rightarrow> (case strip ''.2'' s of Some s \<Rightarrow> Some (SndT f, s)
         | None \<Rightarrow> Option.bind (strip '' '' s) (\<lambda>s. Option.bind (rec env s) (\<lambda>(a, s). Some (App f a, s)))))"

definition read_inner :: "nat \<Rightarrow> (nat list \<Rightarrow> string \<Rightarrow> (tm \<times> string) option) \<Rightarrow> nat list \<Rightarrow> string \<Rightarrow> (tm \<times> string) option" where
  "read_inner k rec env s =
     (case strip ''x'' s of Some s \<Rightarrow> (case read_number s of (n, s) \<Rightarrow> map_option (\<lambda>i. (Var i, s)) (binder_position n env)) | None \<Rightarrow>
     (case strip ''Type '' s of Some s \<Rightarrow> Option.bind (read_level k s) (\<lambda>(u, s). Some (Universe u, s)) | None \<Rightarrow>
     (case strip ''fun (x'' s of Some s \<Rightarrow> read_binder rec Lam env '' : '' '') => '' s | None \<Rightarrow>
     (case strip ''Sigma (fun (x'' s of
        Some s \<Rightarrow> Option.bind (read_binder rec SigmaT env '' : '' '') => '' s) (\<lambda>(t, s). Option.bind (strip '')'' s) (\<lambda>s. Some (t, s)))
      | None \<Rightarrow>
     (case strip ''let x'' s of Some s \<Rightarrow> read_binder rec LetT env '' := '' ''; '' s | None \<Rightarrow>
     (case strip left_angle s of
        Some s \<Rightarrow> Option.bind (rec env s) (\<lambda>(a, s). Option.bind (strip '', '' s) (\<lambda>s. Option.bind (rec env s) (\<lambda>(b, s).
          Option.bind (strip right_angle s) (\<lambda>s. Some (PairT a b, s)))))
      | None \<Rightarrow>
     (case strip ''@Identity '' s of Some s \<Rightarrow> read_three rec IdT env s | None \<Rightarrow>
     (case strip ''Identity.refl (x := '' s of
        Some s \<Rightarrow> Option.bind (rec env s) (\<lambda>(a, s). Option.bind (strip '')'' s) (\<lambda>s. Some (Refl a, s)))
      | None \<Rightarrow>
     (case strip ''transport '' s of Some s \<Rightarrow> read_three rec J env s | None \<Rightarrow>
     (case strip ''induction '' s of Some s \<Rightarrow> read_three rec IdElim env s | None \<Rightarrow>
     (case product_head s of
        Some _ \<Rightarrow> Option.bind (strip ''(x'' s) (\<lambda>s. read_binder rec PiT env '' : '' ('') '' @ lean_arrow @ '' '') s)
      | None \<Rightarrow> read_application rec env s)))))))))))"

fun read_term :: "nat \<Rightarrow> nat list \<Rightarrow> string \<Rightarrow> (tm \<times> string) option" where
  "read_term 0 env s = None"
| "read_term (Suc k) env s =
     Option.bind (strip ''('' s) (\<lambda>s. Option.bind (read_inner k (read_term k) env s) (\<lambda>(t, s).
       Option.bind (strip '')'' s) (\<lambda>s. Some (t, s))))"

fun canonical_term :: "(string \<Rightarrow> nat) \<Rightarrow> tm \<Rightarrow> tm" where
  "canonical_term \<sigma> (Universe u) = Universe (canonical_level \<sigma> u)"
| "canonical_term \<sigma> (PiT a b) = PiT (canonical_term \<sigma> a) (canonical_term \<sigma> b)"
| "canonical_term \<sigma> (Lam a b) = Lam (canonical_term \<sigma> a) (canonical_term \<sigma> b)"
| "canonical_term \<sigma> (SigmaT a b) = SigmaT (canonical_term \<sigma> a) (canonical_term \<sigma> b)"
| "canonical_term \<sigma> (LetT a b) = LetT (canonical_term \<sigma> a) (canonical_term \<sigma> b)"
| "canonical_term \<sigma> (App a b) = App (canonical_term \<sigma> a) (canonical_term \<sigma> b)"
| "canonical_term \<sigma> (PairT a b) = PairT (canonical_term \<sigma> a) (canonical_term \<sigma> b)"
| "canonical_term \<sigma> (FstT a) = FstT (canonical_term \<sigma> a)"
| "canonical_term \<sigma> (SndT a) = SndT (canonical_term \<sigma> a)"
| "canonical_term \<sigma> (Refl a) = Refl (canonical_term \<sigma> a)"
| "canonical_term \<sigma> (IdT a b c) = IdT (canonical_term \<sigma> a) (canonical_term \<sigma> b) (canonical_term \<sigma> c)"
| "canonical_term \<sigma> (J a b c) = J (canonical_term \<sigma> a) (canonical_term \<sigma> b) (canonical_term \<sigma> c)"
| "canonical_term \<sigma> (IdElim a b c) = IdElim (canonical_term \<sigma> a) (canonical_term \<sigma> b) (canonical_term \<sigma> c)"
| "canonical_term \<sigma> t = t"

text \<open>The recursion depth that reading a term takes; its text is at least as long.\<close>

fun weight :: "tm \<Rightarrow> nat" where
  "weight (Universe u) = size u + 1"
| "weight (PiT a b) = weight a + weight b + 1"
| "weight (Lam a b) = weight a + weight b + 1"
| "weight (SigmaT a b) = weight a + weight b + 1"
| "weight (LetT a b) = weight a + weight b + 1"
| "weight (App a b) = weight a + weight b + 1"
| "weight (PairT a b) = weight a + weight b + 1"
| "weight (FstT a) = weight a + 1"
| "weight (SndT a) = weight a + 1"
| "weight (Refl a) = weight a + 1"
| "weight (IdT a b c) = weight a + weight b + weight c + 1"
| "weight (J a b c) = weight a + weight b + weight c + 1"
| "weight (IdElim a b c) = weight a + weight b + weight c + 1"
| "weight _ = 0"

lemma size_level_text: "size l < length (level_text \<sigma> l)"
  by (induction l) simp_all

lemma weight_text: "weight t \<le> length (inner_text \<sigma> d t)"
proof (induction d t rule: exports.induct)
  case (2 d u)
  show ?case using size_level_text [of u \<sigma>] by simp
qed simp_all

lemma product_head_application:
  "exports d t \<Longrightarrow> product_head (''('' @ inner_text \<sigma> d t @ '')'' @ s) = None"
  by (cases t) (simp_all add: product_head_def left_angle_def)

lemma read_term_text:
  "exports d t \<Longrightarrow> weight t < k \<Longrightarrow> read_term k (rev [0..<d]) (term_text \<sigma> d t @ s) = Some (canonical_term \<sigma> t, s)"
proof (induction d t arbitrary: k s rule: exports.induct)
  case (2 d u)
  then obtain k' where "k = Suc k'" by (cases k) auto
  with 2 read_level_text [of u k' "'')'' @ s" \<sigma>] show ?case by (simp add: read_inner_def)
next
  case (7 d a b)
  then obtain k' where "k = Suc k'" by (cases k) auto
  with 7 product_head_application [of d a \<sigma>] show ?case
    by (simp add: read_inner_def left_angle_def read_application_def)
next
  case (9 d a)
  then obtain k' where "k = Suc k'" by (cases k) auto
  with 9 product_head_application [of d a \<sigma>] show ?case
    by (simp add: read_inner_def left_angle_def read_application_def)
next
  case (10 d a)
  then obtain k' where "k = Suc k'" by (cases k) auto
  with 10 product_head_application [of d a \<sigma>] show ?case
    by (simp add: read_inner_def left_angle_def read_application_def)
next
  case (1 d i)
  then obtain k' where "k = Suc k'" by (cases k) auto
  with 1 binder_position_upt [of i d] show ?case
    by (simp add: read_inner_def product_head_def left_angle_def right_angle_def lean_arrow_def read_binder_def read_three_def)
next
  case (3 d a b)
  then obtain k' where "k = Suc k'" by (cases k) auto
  with 3 show ?case
    by (simp add: read_inner_def product_head_def left_angle_def right_angle_def lean_arrow_def read_binder_def read_three_def)
next
  case (4 d a b)
  then obtain k' where "k = Suc k'" by (cases k) auto
  with 4 show ?case
    by (simp add: read_inner_def product_head_def left_angle_def right_angle_def lean_arrow_def read_binder_def read_three_def)
next
  case (5 d a b)
  then obtain k' where "k = Suc k'" by (cases k) auto
  with 5 show ?case
    by (simp add: read_inner_def product_head_def left_angle_def right_angle_def lean_arrow_def read_binder_def read_three_def)
next
  case (6 d a b)
  then obtain k' where "k = Suc k'" by (cases k) auto
  with 6 show ?case
    by (simp add: read_inner_def product_head_def left_angle_def right_angle_def lean_arrow_def read_binder_def read_three_def)
next
  case (8 d a b)
  then obtain k' where "k = Suc k'" by (cases k) auto
  with 8 show ?case
    by (simp add: read_inner_def product_head_def left_angle_def right_angle_def lean_arrow_def read_binder_def read_three_def)
next
  case (11 d a)
  then obtain k' where "k = Suc k'" by (cases k) auto
  with 11 show ?case
    by (simp add: read_inner_def product_head_def left_angle_def right_angle_def lean_arrow_def read_binder_def read_three_def)
next
  case (12 d a b c)
  then obtain k' where "k = Suc k'" by (cases k) auto
  with 12 show ?case
    by (simp add: read_inner_def product_head_def left_angle_def right_angle_def lean_arrow_def read_binder_def read_three_def)
next
  case (13 d a b c)
  then obtain k' where "k = Suc k'" by (cases k) auto
  with 13 show ?case
    by (simp add: read_inner_def product_head_def left_angle_def right_angle_def lean_arrow_def read_binder_def read_three_def)
next
  case (14 d a b c)
  then obtain k' where "k = Suc k'" by (cases k) auto
  with 14 show ?case
    by (simp add: read_inner_def product_head_def left_angle_def right_angle_def lean_arrow_def read_binder_def read_three_def)
qed simp_all

subsection \<open>Whole files\<close>

definition skip_universes :: "string \<Rightarrow> string" where
  "skip_universes s = (case strip ''universe'' s of None \<Rightarrow> s | Some s \<Rightarrow> tl (dropWhile (\<lambda>c. c \<noteq> CHR 0x0A) s))"

definition read_source :: "string \<Rightarrow> (tm \<times> tm) option" where
  "read_source s =
     Option.bind (strip LEAN_PRELUDE s) (\<lambda>s.
       Option.bind (strip ''def checked : '' (skip_universes s)) (\<lambda>s.
         Option.bind (read_term (length s) [] s) (\<lambda>(statement, s).
           Option.bind (strip '' :='' s) (\<lambda>s. Option.bind (strip newline s) (\<lambda>s.
             Option.bind (read_term (length s) [] s) (\<lambda>(t, s). Some (statement, t)))))))"

definition canonical :: "native_judgment \<Rightarrow> tm \<times> tm" where
  "canonical j =
     (let \<sigma> = numbering (grow [] (occurrences (j_statement j)))
      in (canonical_term \<sigma> (j_statement j), canonical_term \<sigma> (cert_term (j_certificate j))))"

lemma skip_universes_line:
  "skip_universes ((if n = 0 then [] else ''universe'' @ concat (map (\<lambda>i. '' w'' @ show_nat i) [0..<n]) @ newline) @
     ''def checked : '' @ s) = ''def checked : '' @ s"
proof (cases "n = 0")
  case True
  then show ?thesis by (simp add: skip_universes_def)
next
  case False
  let ?names = "concat (map (\<lambda>i. '' w'' @ show_nat i) [0..<n])"
  have "c \<noteq> CHR 0x0A" if "c \<in> set ?names" for c
  proof -
    have "c = CHR '' '' \<or> c = CHR ''w'' \<or> is_digit c" using that show_nat_is_digit by (auto split: if_splits)
    moreover have "\<not> is_digit (CHR 0x0A)" by (simp add: is_digit_def digit_value_def)
    ultimately show ?thesis by auto
  qed
  then have "dropWhile (\<lambda>c. c \<noteq> CHR 0x0A) (?names @ newline @ ''def checked : '' @ s) = newline @ ''def checked : '' @ s"
    by (subst dropWhile_append2) (simp_all add: newline_def)
  moreover have "skip_universes (''universe'' @ r) = tl (dropWhile (\<lambda>c. c \<noteq> CHR 0x0A) r)" for r
    by (simp add: skip_universes_def)
  ultimately show ?thesis using False by (simp only: if_False append_assoc) (simp add: newline_def)
qed

lemma read_term_all: "exports 0 t \<Longrightarrow> read_term (length (term_text \<sigma> 0 t @ s)) [] (term_text \<sigma> 0 t @ s) = Some (canonical_term \<sigma> t, s)"
  using read_term_text [of 0 t "length (term_text \<sigma> 0 t @ s)" \<sigma> s] weight_text [of t \<sigma> 0]
  by (simp del: read_term.simps)

lemma read_source_text:
  assumes "exports 0 a" and "exports 0 b"
  shows "read_source (lean_text n (term_text \<sigma> 0 a) (term_text \<sigma> 0 b)) = Some (canonical_term \<sigma> a, canonical_term \<sigma> b)"
  by (simp only: read_source_def lean_text_def append_assoc strip_append bind.bind_lunit skip_universes_line
      read_term_all [OF assms(1)] read_term_all [OF assms(2)] prod.case)

subsection \<open>Properties\<close>

text \<open>C31: The Lean source determines the judgment: reading the text of an exported judgment back, with
  variables resolved by the names of the binders they stand under, gives its statement and proof with
  universes numbered in order of occurrence and every successor written as an offset by one. So two
  judgments with the same source are the same up to the names of universes and the two spellings of a
  successor, which denote the same level.\<close>

theorem export_faithful:
  assumes "decode_judgment decode ci bytes Intensional default_admission = Ok j" and "lean_source decode ci bytes = Ok s"
  shows "read_source s = Some (canonical j) \<and>
    (decode_judgment decode ci bytes' Intensional default_admission = Ok j' \<and> lean_source decode ci bytes' = Ok s \<longrightarrow>
       canonical j' = canonical j)"
proof -
  have read: "read_source s = Some (canonical j)"
    if "decode_judgment decode ci bytes Intensional default_admission = Ok j" "lean_source decode ci bytes = Ok s" for bytes j
    using that(2) decoded_scoped [OF that(1)]
    unfolding lean_source_iff [OF that(1)] exportable_def judgment_text_def Let_def canonical_def
    by (auto simp: read_source_text exports_iff simp del: term_text.simps)
  show ?thesis using read [OF assms] read [of bytes' j'] by auto
qed

theorem export_faithful_witness:
  "\<exists>s. lean_source (\<lambda>_. Some identity_judgment) ''id'' [open_brace, close_brace] = Ok s \<and>
     read_source s = Some (cert_claimed_type identity_certificate, cert_term identity_certificate)"
proof -
  have "exportable identity_judgment"
    by (simp add: exportable_def identity_judgment_def identity_certificate_def)
  then have "lean_source (\<lambda>_. Some identity_judgment) ''id'' [open_brace, close_brace] = Ok (judgment_text identity_judgment)"
    using lean_source_iff [OF identity_decoded] by blast
  with export_faithful [OF identity_decoded this] show ?thesis
    by (simp add: canonical_def identity_judgment_def identity_certificate_def)
qed

end
