(* ===== verification/Worker.thy ===== *)
theory Worker
  imports Admission
begin

section \<open>The isolated worker and its supervisor\<close>

text \<open>
  Models \<open>crates/verum_proof/src/process.rs\<close>: the operating-system ceilings of the worker, the worker
  itself, the supervisor's polling loop and the validation of the worker's report.

  The operating system is an argument. \<open>getrlimit\<close> and \<open>setrlimit\<close> (package \<open>nix\<close>) act on a state of
  any type \<open>'os\<close>. What the supervisor observes of one launched process is a \<open>session\<close>: whether each
  file operation and the start succeeded, one \<open>poll\<close> per turn of the loop (clock, exit status, clock
  again, resident memory) and the bytes left in the output file. Clocks count nanoseconds. The serde
  codecs of reports and policies are arguments too. An \<open>io::Result\<close> is a \<open>run\<close> with errors of type
  \<open>io_error\<close>.
\<close>

subsection \<open>Failures\<close>

definition WORKER_ARG :: string where
  "WORKER_ARG = ''--internal-native-proof-worker''"

definition EXTENSIONAL_WORKER_ARG :: string where
  "EXTENSIONAL_WORKER_ARG = ''--internal-native-funext-proof-worker''"

definition POLICY_ARG :: string where
  "POLICY_ARG = ''--resource-policy''"

definition WALL_LIMIT :: nat where
  "WALL_LIMIT = wall_time_ms default_process * 1000000"

record worker_failure =
  wf_outcome :: replay_outcome
  wf_diagnostic :: diagnostic

definition failure :: "replay_outcome \<Rightarrow> string \<Rightarrow> string \<Rightarrow> worker_failure" where
  "failure outcome code message =
     \<lparr>wf_outcome = outcome, wf_diagnostic = \<lparr>d_code = code, d_stage = ''process'', d_message = message\<rparr>\<rparr>"

definition inconclusive :: "string \<Rightarrow> string \<Rightarrow> worker_failure" where
  "inconclusive code message = failure Inconclusive code message"

definition exhausted :: "string \<Rightarrow> string \<Rightarrow> worker_failure" where
  "exhausted code message = failure ResourceExhausted code message"

definition process_report_failure :: "string \<Rightarrow> foundation \<Rightarrow> replay_limits \<Rightarrow> worker_failure \<Rightarrow> report" where
  "process_report_failure checker_identity f lim e =
     (refusal checker_identity f (rl_admission lim) (wf_outcome e) (d_stage (wf_diagnostic e))
        (d_code (wf_diagnostic e)) (d_message (wf_diagnostic e)))
     \<lparr>r_worker := Some \<lparr>wr_requested = lim, wr_installed = None\<rparr>\<rparr>"

definition default_replay :: replay_limits where
  "default_replay = \<lparr>rl_admission = default_admission, rl_process = default_process\<rparr>"

definition wall_limit_failure :: worker_failure where
  "wall_limit_failure = exhausted ''wall_limit'' ''The isolated checker exhausted its wall-clock budget.''"

definition invalid_limits_failure :: worker_failure where
  "invalid_limits_failure = inconclusive ''invalid_limits'' ''The resource policy cannot be represented safely.''"

subsection \<open>Operating-system ceilings\<close>

datatype platform = MacOs | OtherUnix | NonUnix

datatype resource = RLIMIT_CORE | RLIMIT_CPU | RLIMIT_STACK | RLIMIT_FSIZE | RLIMIT_AS

datatype io_error = OsError | UnsupportedKind | InvalidInputKind | OtherKind

type_synonym 'os getrlimit = "'os \<Rightarrow> resource \<Rightarrow> (nat \<times> nat) option"
type_synonym 'os setrlimit = "resource \<Rightarrow> nat \<Rightarrow> nat \<Rightarrow> 'os \<Rightarrow> 'os option"

definition rlimit_bound :: "(resource \<Rightarrow> (nat \<times> nat) option) \<Rightarrow> resource \<Rightarrow> nat \<Rightarrow> (io_error, nat) run" where
  "rlimit_bound current resource requested =
     run_bind (ok_or (current resource) OsError) (\<lambda>(soft, hard). Ok (min (min requested hard) soft))"

definition effective_limits ::
  "platform \<Rightarrow> (resource \<Rightarrow> (nat \<times> nat) option) \<Rightarrow> process_limits \<Rightarrow> (io_error, installed_limits) run" where
  "effective_limits platform current lim =
     (if platform = NonUnix then Err UnsupportedKind
      else run_bind (rlimit_bound current RLIMIT_CPU (cpu_seconds lim)) (\<lambda>cpu.
        run_bind (if platform = MacOs then Ok None
                  else run_bind (rlimit_bound current RLIMIT_AS (memory_bytes lim)) (\<lambda>n. Ok (Some n))) (\<lambda>address_space.
        run_bind (rlimit_bound current RLIMIT_STACK (stack_bytes lim)) (\<lambda>stack.
        run_bind (rlimit_bound current RLIMIT_FSIZE (output_bytes lim)) (\<lambda>out.
          Ok \<lparr>inst_cpu_seconds = cpu, inst_address_space = address_space, inst_stack_bytes = stack,
              inst_output_bytes = out\<rparr>)))))"

definition limit_requests :: "installed_limits \<Rightarrow> (resource \<times> nat) list" where
  "limit_requests installed =
     [(RLIMIT_CORE, 0), (RLIMIT_CPU, inst_cpu_seconds installed), (RLIMIT_STACK, inst_stack_bytes installed),
      (RLIMIT_FSIZE, inst_output_bytes installed)] @
     (case inst_address_space installed of None \<Rightarrow> [] | Some bytes \<Rightarrow> [(RLIMIT_AS, bytes)])"

fun set_limits :: "'os setrlimit \<Rightarrow> (resource \<times> nat) list \<Rightarrow> 'os \<Rightarrow> (io_error, unit) run \<times> 'os" where
  "set_limits setrlimit [] os = (Ok (), os)"
| "set_limits setrlimit ((resource, bound) # rest) os =
     (case setrlimit resource bound bound os of
        None \<Rightarrow> (Err OsError, os)
      | Some os \<Rightarrow> set_limits setrlimit rest os)"

definition install_limits ::
  "platform \<Rightarrow> 'os getrlimit \<Rightarrow> 'os setrlimit \<Rightarrow> process_limits \<Rightarrow> 'os \<Rightarrow> (io_error, installed_limits) run \<times> 'os" where
  "install_limits platform getrlimit setrlimit lim os =
     (case effective_limits platform (getrlimit os) lim of
        Err e \<Rightarrow> (Err e, os)
      | NoFuel \<Rightarrow> (NoFuel, os)
      | Ok installed \<Rightarrow>
          (case set_limits setrlimit (limit_requests installed) os of
             (result, os) \<Rightarrow> (run_bind result (\<lambda>_. Ok installed), os)))"

definition install_worker_limits_with_policy ::
  "platform \<Rightarrow> 'os getrlimit \<Rightarrow> 'os setrlimit \<Rightarrow> process_limits \<Rightarrow> 'os \<Rightarrow> (io_error, installed_limits) run \<times> 'os" where
  "install_worker_limits_with_policy platform getrlimit setrlimit lim os =
     (if \<not> process_valid lim then (Err InvalidInputKind, os)
      else install_limits platform getrlimit setrlimit lim os)"

definition install_worker_limits ::
  "platform \<Rightarrow> 'os getrlimit \<Rightarrow> 'os setrlimit \<Rightarrow> 'os \<Rightarrow> (io_error, unit) run \<times> 'os" where
  "install_worker_limits platform getrlimit setrlimit os =
     (case install_worker_limits_with_policy platform getrlimit setrlimit default_process os of
        (result, os) \<Rightarrow> (run_bind result (\<lambda>_. Ok ()), os))"

subsection \<open>The worker\<close>

text \<open>\<open>input\<close> is what standard input delivers, \<open>None\<close> when reading fails; the result is the report that
  is written to standard output. \<open>pipe\<close> is the in-process pipeline.\<close>

type_synonym pipeline = "byte list \<Rightarrow> foundation \<Rightarrow> admission_limits \<Rightarrow> (unit, report) run"

definition worker_with_limits ::
  "platform \<Rightarrow> 'os getrlimit \<Rightarrow> 'os setrlimit \<Rightarrow> 'os \<Rightarrow> string \<Rightarrow> pipeline \<Rightarrow> byte list option \<Rightarrow>
   foundation \<Rightarrow> replay_limits \<Rightarrow> (io_error, report) run" where
  "worker_with_limits platform getrlimit setrlimit os checker_identity pipe input f lim =
     (let finish = (\<lambda>report installed. report\<lparr>r_worker := Some \<lparr>wr_requested = lim, wr_installed = installed\<rparr>\<rparr>)
      in if \<not> replay_valid lim
         then Ok (finish (process_report_failure checker_identity f lim invalid_limits_failure) None)
         else case fst (install_limits platform getrlimit setrlimit (rl_process lim) os) of
           Ok actual \<Rightarrow>
             run_bind (ok_or input OsError) (\<lambda>bytes.
               case pipe (take (the (read_limit (rl_admission lim))) bytes) f (rl_admission lim) of
                 Ok report \<Rightarrow> Ok (finish report (Some actual))
               | _ \<Rightarrow> NoFuel)
         | _ \<Rightarrow> Ok (finish (process_report_failure checker_identity f lim (inconclusive ''sandbox_unavailable''
                  ''The worker could not install its required process limits.'')) None))"

definition worker_with_foundation where
  "worker_with_foundation platform getrlimit setrlimit os checker_identity pipe input f =
     worker_with_limits platform getrlimit setrlimit os checker_identity pipe input f default_replay"

definition worker where
  "worker platform getrlimit setrlimit os checker_identity pipe input =
     worker_with_foundation platform getrlimit setrlimit os checker_identity pipe input Intensional"

subsection \<open>Running a worker\<close>

datatype signal = SIGXCPU | SIGXFSZ | OtherSignal nat

datatype exit_status = Exited int | Signaled signal

fun status_success :: "exit_status \<Rightarrow> bool" where
  "status_success (Exited code) = (code = 0)"
| "status_success (Signaled _) = False"

fun status_signal :: "exit_status \<Rightarrow> signal option" where
  "status_signal (Exited _) = None"
| "status_signal (Signaled s) = Some s"

record poll =
  po_elapsed :: nat
  po_status :: "exit_status option option"
  po_elapsed_after :: nat
  po_memory :: "nat option"

record session =
  se_input :: bool
  se_write :: bool
  se_rewind :: bool
  se_output :: bool
  se_clone :: bool
  se_spawn :: bool
  se_polls :: "nat \<Rightarrow> poll"
  se_reread :: bool
  se_response :: "byte list option"

datatype monitor_end = Completed | Stopped worker_failure | IoFailed

definition exit_failure :: "platform \<Rightarrow> exit_status \<Rightarrow> worker_failure" where
  "exit_failure platform status =
     (let failed = inconclusive ''worker_failed''
        ''The isolated checker exited without a valid result; a resource limit or runtime failure may have interrupted it.''
      in if platform = NonUnix then failed
         else case status_signal status of
           Some SIGXCPU \<Rightarrow> exhausted ''cpu_limit'' ''The worker exhausted its CPU budget.''
         | Some SIGXFSZ \<Rightarrow> exhausted ''output_limit'' ''The worker exhausted its output budget.''
         | _ \<Rightarrow> failed)"

text \<open>One turn of the loop: \<open>None\<close> is the sleep at its end.\<close>

definition poll_once :: "platform \<Rightarrow> process_limits \<Rightarrow> poll \<Rightarrow> monitor_end option" where
  "poll_once platform lim p =
     (if wall_time_ms lim * 1000000 \<le> po_elapsed p then Some (Stopped wall_limit_failure)
      else case po_status p of
        None \<Rightarrow> Some IoFailed
      | Some (Some status) \<Rightarrow>
          (if \<not> status_success status then Some (Stopped (exit_failure platform status))
           else if wall_time_ms lim * 1000000 \<le> po_elapsed_after p then Some (Stopped wall_limit_failure)
           else Some Completed)
      | Some None \<Rightarrow>
          (if (case po_memory p of None \<Rightarrow> False | Some bytes \<Rightarrow> memory_bytes lim < bytes)
           then Some (Stopped (exhausted ''memory_limit''
             ''The isolated checker exceeded its resident-memory termination threshold.''))
           else None))"

partial_function (option) monitor ::
  "platform \<Rightarrow> process_limits \<Rightarrow> (nat \<Rightarrow> poll) \<Rightarrow> nat \<Rightarrow> monitor_end option" where
  "monitor platform lim polls k =
     (case poll_once platform lim (polls k) of
        Some result \<Rightarrow> Some result
      | None \<Rightarrow> monitor platform lim polls (Suc k))"

definition started :: "session \<Rightarrow> bool" where
  "started s \<longleftrightarrow> se_input s \<and> se_write s \<and> se_rewind s \<and> se_output s \<and> se_clone s \<and> se_spawn s"

definition read_response :: "session \<Rightarrow> process_limits \<Rightarrow> (io_error, byte list) run" where
  "read_response s lim =
     (if \<not> se_reread s then Err OsError
      else run_bind (ok_or (se_response s) OsError) (\<lambda>out. Ok (take (output_bytes lim + 1) out)))"

type_synonym launcher = "string list \<Rightarrow> byte list \<Rightarrow> session"

text \<open>\<open>NoFuel\<close>: the loop never ends.\<close>

definition run_worker_command ::
  "platform \<Rightarrow> launcher \<Rightarrow> string list \<Rightarrow> byte list \<Rightarrow> replay_limits \<Rightarrow> (worker_failure, byte list) run" where
  "run_worker_command platform launch args bytes lim =
     (let unavailable = Err (inconclusive ''worker_unavailable''
            ''The isolated checker could not be started or its response could not be read.'');
          s = launch args bytes
      in if max_bytes (rl_admission lim) < length bytes
         then Err (exhausted ''byte_limit'' ''Proof input exceeds the input byte budget.'')
         else if wall_time_ms (rl_process lim) = 0 then Err wall_limit_failure
         else if \<not> started s then unavailable
         else case monitor platform (rl_process lim) (se_polls s) 0 of
           None \<Rightarrow> NoFuel
         | Some (Stopped e) \<Rightarrow> Err e
         | Some IoFailed \<Rightarrow> unavailable
         | Some Completed \<Rightarrow>
             (case read_response s (rl_process lim) of
                Ok response \<Rightarrow>
                  if output_bytes (rl_process lim) < length response
                  then Err (exhausted ''output_limit'' ''The worker exceeded its output budget.'')
                  else Ok response
              | _ \<Rightarrow> unavailable))"

definition run_worker_with_limits ::
  "platform \<Rightarrow> launcher \<Rightarrow> string \<Rightarrow> byte list \<Rightarrow> replay_limits \<Rightarrow> (diagnostic, byte list) run" where
  "run_worker_with_limits platform launch arg bytes lim =
     (if \<not> replay_valid lim then Err (wf_diagnostic invalid_limits_failure)
      else map_err wf_diagnostic (run_worker_command platform launch [arg] bytes lim))"

text \<open>A deadline is a \<open>Duration\<close> in nanoseconds; it is only ever lowered.\<close>

definition deadline_limits :: "nat \<Rightarrow> replay_limits" where
  "deadline_limits wall = default_replay
     \<lparr>rl_process := default_process\<lparr>wall_time_ms := min wall WALL_LIMIT div 1000000 mod 2 ^ 64\<rparr>\<rparr>"

definition run_worker_with_deadline where
  "run_worker_with_deadline platform launch arg bytes wall =
     run_worker_with_limits platform launch arg bytes (deadline_limits wall)"

definition run_worker where
  "run_worker platform launch arg bytes = run_worker_with_deadline platform launch arg bytes WALL_LIMIT"

subsection \<open>The supervisor\<close>

definition installed_matches :: "report \<Rightarrow> replay_limits \<Rightarrow> installed_limits \<Rightarrow> bool" where
  "installed_matches report lim expected =
     (case r_worker report of
        Some receipt \<Rightarrow>
          if wr_requested receipt = lim
          then case wr_installed receipt of
                 Some installed \<Rightarrow> installed = expected
               | None \<Rightarrow>
                   r_outcome report = Inconclusive \<and>
                   (case r_diagnostic report of
                      None \<Rightarrow> False
                    | Some d \<Rightarrow> d_stage d = ''process'' \<and> d_code d = ''sandbox_unavailable'')
          else False
      | None \<Rightarrow> False)"

definition validate_worker_report ::
  "(byte list \<Rightarrow> report option) \<Rightarrow> string \<Rightarrow> byte list \<Rightarrow> foundation \<Rightarrow> replay_limits \<Rightarrow> installed_limits \<Rightarrow>
   (worker_failure, report) run" where
  "validate_worker_report decode_report checker_identity response f lim expected =
     run_bind (ok_or (decode_report response)
         (inconclusive ''worker_protocol'' ''The worker returned an invalid response.'')) (\<lambda>report.
       if r_profile report \<noteq> profile_for f \<or> r_checker report \<noteq> checker_identity \<or>
          r_limits report \<noteq> rl_admission lim \<or> \<not> is_consistent report \<or> \<not> installed_matches report lim expected
       then Err (inconclusive ''worker_protocol''
         ''The worker returned a different checker, foundation, resource policy or inconsistent outcome.'')
       else Ok report)"

definition worker_arg :: "foundation \<Rightarrow> string" where
  "worker_arg f = (case f of Intensional \<Rightarrow> WORKER_ARG | FunctionExtensionality \<Rightarrow> EXTENSIONAL_WORKER_ARG)"

record codecs =
  encode_policy :: "replay_limits \<Rightarrow> string"
  decode_policy :: "string \<Rightarrow> replay_limits option"
  encode_report :: "report \<Rightarrow> byte list"
  decode_report :: "byte list \<Rightarrow> report option"

definition supervise ::
  "platform \<Rightarrow> (resource \<Rightarrow> (nat \<times> nat) option) \<Rightarrow> codecs \<Rightarrow> string \<Rightarrow> launcher \<Rightarrow>
   byte list \<Rightarrow> foundation \<Rightarrow> replay_limits \<Rightarrow> (unit, report) run" where
  "supervise platform current codecs checker_identity launch bytes f lim =
     (let refuse = (\<lambda>e. Ok (process_report_failure checker_identity f lim e))
      in if \<not> replay_valid lim then refuse invalid_limits_failure
         else case effective_limits platform current (rl_process lim) of
           Ok expected \<Rightarrow>
             (case run_worker_command platform launch [worker_arg f, POLICY_ARG, encode_policy codecs lim] bytes lim of
                Ok response \<Rightarrow>
                  (case validate_worker_report (decode_report codecs) checker_identity response f lim expected of
                     Ok report \<Rightarrow> Ok report
                   | Err e \<Rightarrow> refuse e
                   | NoFuel \<Rightarrow> NoFuel)
              | Err e \<Rightarrow> refuse e
              | NoFuel \<Rightarrow> NoFuel)
         | _ \<Rightarrow> refuse (inconclusive ''sandbox_unavailable''
                  (''The supervisor could not determine the worker'' @ [CHR 0x27] @ ''s inherited limits.'')))"

definition supervise_with_foundation where
  "supervise_with_foundation platform current codecs checker_identity launch bytes f =
     supervise platform current codecs checker_identity launch bytes f default_replay"

definition supervise_with_deadline where
  "supervise_with_deadline platform current codecs checker_identity launch bytes wall =
     supervise platform current codecs checker_identity launch bytes Intensional (deadline_limits wall)"

definition supervise_intensional where
  "supervise_intensional platform current codecs checker_identity launch bytes =
     supervise_with_foundation platform current codecs checker_identity launch bytes Intensional"

subsection \<open>What the loop decides\<close>

lemma monitor_step:
  "monitor pl lim polls k = (case poll_once pl lim (polls k) of Some r \<Rightarrow> Some r | None \<Rightarrow> monitor pl lim polls (Suc k))"
  by (rule monitor.simps)

lemma monitor_from:
  "k \<le> n \<Longrightarrow> (\<forall>j. k \<le> j \<and> j < n \<longrightarrow> poll_once pl lim (polls j) = None) \<Longrightarrow>
   monitor pl lim polls k = monitor pl lim polls n"
proof (induction rule: dec_induct)
  case (step n)
  then show ?case using monitor_step [of pl lim polls n] by simp
qed simp

lemma monitor_SomeD:
  "monitor pl lim polls k = Some r \<Longrightarrow>
   \<exists>n \<ge> k. (\<forall>j. k \<le> j \<and> j < n \<longrightarrow> poll_once pl lim (polls j) = None) \<and> poll_once pl lim (polls n) = Some r"
proof (induction rule: monitor.raw_induct [rotated, consumes 1])
  case (1 mon pl lim polls k r)
  show ?case
  proof (cases "poll_once pl lim (polls k)")
    case None
    with 1(2) have "mon pl lim polls (Suc k) = Some r" by simp
    from 1(1) [OF this] obtain n where n: "Suc k \<le> n" "poll_once pl lim (polls n) = Some r"
      and before: "\<forall>j. Suc k \<le> j \<and> j < n \<longrightarrow> poll_once pl lim (polls j) = None"
      by (elim exE conjE)
    moreover have "poll_once pl lim (polls j) = None" if "k \<le> j" "j < n" for j
      using before None that by (cases "j = k") auto
    ultimately show ?thesis by (intro exI [of _ n]) auto
  next
    case (Some e)
    with 1(2) show ?thesis by (intro exI [of _ k]) auto
  qed
qed

lemma monitor_Some_iff:
  "monitor pl lim polls k = Some r \<longleftrightarrow>
   (\<exists>n \<ge> k. (\<forall>j. k \<le> j \<and> j < n \<longrightarrow> poll_once pl lim (polls j) = None) \<and> poll_once pl lim (polls n) = Some r)"
proof (safe dest!: monitor_SomeD)
  fix n
  assume "k \<le> n" "\<forall>j. k \<le> j \<and> j < n \<longrightarrow> poll_once pl lim (polls j) = None" "poll_once pl lim (polls n) = Some r"
  then show "monitor pl lim polls k = Some r"
    using monitor_from [of k n pl lim polls] monitor_step [of pl lim polls n] by simp
qed

lemma monitor_returns:
  assumes "poll_once pl lim (polls n) \<noteq> None"
  shows "\<exists>r. monitor pl lim polls 0 = Some r"
proof -
  let ?P = "\<lambda>n. poll_once pl lim (polls n) \<noteq> None"
  have "?P (LEAST n. ?P n)" by (rule LeastI [of ?P, OF assms])
  moreover have "\<forall>j. j < (LEAST n. ?P n) \<longrightarrow> poll_once pl lim (polls j) = None" using not_less_Least by blast
  ultimately show ?thesis unfolding monitor_Some_iff by blast
qed

text \<open>The turns of the loop are separated by a sleep of at least five milliseconds.\<close>

definition sleeps :: "(nat \<Rightarrow> poll) \<Rightarrow> bool" where
  "sleeps polls \<longleftrightarrow> (\<forall>k. 5000000 * k \<le> po_elapsed (polls k))"

lemma poll_deadline: "wall_time_ms lim * 1000000 \<le> po_elapsed p \<Longrightarrow> poll_once pl lim p = Some (Stopped wall_limit_failure)"
  by (simp add: poll_once_def)

lemma sleeps_monitor_returns:
  assumes "sleeps polls"
  shows "\<exists>r. monitor pl lim polls 0 = Some r"
proof (rule monitor_returns)
  have "wall_time_ms lim * 1000000 \<le> 5000000 * wall_time_ms lim" by simp
  also have "\<dots> \<le> po_elapsed (polls (wall_time_ms lim))" using assms by (simp add: sleeps_def)
  finally show "poll_once pl lim (polls (wall_time_ms lim)) \<noteq> None" by (simp add: poll_deadline)
qed

lemma poll_once_Completed:
  "poll_once pl lim p = Some Completed \<longleftrightarrow>
     po_elapsed p < wall_time_ms lim * 1000000 \<and> po_status p = Some (Some (Exited 0)) \<and>
     po_elapsed_after p < wall_time_ms lim * 1000000"
  by (auto simp: poll_once_def split: option.splits if_splits elim: status_success.elims)

lemma poll_once_None:
  "poll_once pl lim p = None \<longleftrightarrow>
     po_elapsed p < wall_time_ms lim * 1000000 \<and> po_status p = Some None \<and>
     (\<forall>bytes. po_memory p = Some bytes \<longrightarrow> bytes \<le> memory_bytes lim)"
  by (auto simp: poll_once_def not_le split: option.splits if_splits)

subsection \<open>Process failures are not verdicts\<close>

definition operational :: "worker_failure \<Rightarrow> bool" where
  "operational e \<longleftrightarrow> wf_outcome e \<in> {ResourceExhausted, Inconclusive} \<and> d_stage (wf_diagnostic e) = ''process''"

lemma operational_failures [simp, intro]:
  "operational (inconclusive code msg)" "operational (exhausted code msg)" "operational wall_limit_failure"
  "operational invalid_limits_failure" "operational (exit_failure pl st)"
  by (auto simp: operational_def inconclusive_def exhausted_def failure_def wall_limit_failure_def
      invalid_limits_failure_def exit_failure_def Let_def split: option.splits signal.splits)

lemma poll_once_operational: "poll_once pl lim p = Some (Stopped e) \<Longrightarrow> operational e"
  by (auto simp: poll_once_def split: option.splits if_splits)

lemma run_worker_command_operational: "run_worker_command pl launch args bytes lim = Err e \<Longrightarrow> operational e"
  by (auto simp: run_worker_command_def Let_def monitor_Some_iff poll_once_operational
      split: if_splits option.splits monitor_end.splits run.splits)

lemma validate_operational: "validate_worker_report dec ci resp f lim inst = Err e \<Longrightarrow> operational e"
  by (auto simp: validate_worker_report_def ok_or_def run_bind_def split: option.splits if_splits)

lemma validate_neq_NoFuel: "validate_worker_report dec ci resp f lim inst \<noteq> NoFuel"
  by (auto simp: validate_worker_report_def ok_or_def split: option.splits)

lemma process_report_failure_fields [simp]:
  "r_profile (process_report_failure ci f lim e) = profile_for f"
  "r_checker (process_report_failure ci f lim e) = ci"
  "r_accepted (process_report_failure ci f lim e) = False"
  "r_outcome (process_report_failure ci f lim e) = wf_outcome e"
  "r_limits (process_report_failure ci f lim e) = rl_admission lim"
  "r_worker (process_report_failure ci f lim e) = Some \<lparr>wr_requested = lim, wr_installed = None\<rparr>"
  "r_diagnostic (process_report_failure ci f lim e) = Some (wf_diagnostic e)"
  by (simp_all add: process_report_failure_def refusal_def)

subsection \<open>Accepted reports\<close>

lemma run_worker_command_Ok:
  "run_worker_command pl launch args bytes lim = Ok out \<longleftrightarrow>
     length bytes \<le> max_bytes (rl_admission lim) \<and> wall_time_ms (rl_process lim) \<noteq> 0 \<and>
     started (launch args bytes) \<and> monitor pl (rl_process lim) (se_polls (launch args bytes)) 0 = Some Completed \<and>
     se_reread (launch args bytes) \<and> se_response (launch args bytes) = Some out \<and>
     length out \<le> output_bytes (rl_process lim)"
  by (auto simp: run_worker_command_def read_response_def ok_or_def Let_def
      split: if_splits option.splits monitor_end.splits run.splits)

lemma validate_Ok:
  "validate_worker_report dec ci resp f lim inst = Ok r \<longleftrightarrow>
     dec resp = Some r \<and> r_profile r = profile_for f \<and> r_checker r = ci \<and> r_limits r = rl_admission lim \<and>
     is_consistent r \<and> installed_matches r lim inst"
  by (auto simp: validate_worker_report_def ok_or_def split: option.splits)

lemma installed_matches_requested:
  "installed_matches r lim inst \<Longrightarrow> \<exists>receipt. r_worker r = Some receipt \<and> wr_requested receipt = lim"
  by (auto simp: installed_matches_def split: option.splits if_splits)

lemma installed_matches_accepting:
  "installed_matches r lim inst \<Longrightarrow> r_outcome r \<noteq> Inconclusive \<Longrightarrow>
   r_worker r = Some \<lparr>wr_requested = lim, wr_installed = Some inst\<rparr>"
  by (auto simp: installed_matches_def split: option.splits if_splits)

text \<open>The supervisor answers with a validated response or with a failure of its own.\<close>

lemma supervise_cases:
  assumes "supervise pl current cod ci launch bytes f lim = Ok r"
  obtains (failed) e where "r = process_report_failure ci f lim e" "operational e"
  | (response) inst out where "replay_valid lim" "effective_limits pl current (rl_process lim) = Ok inst"
      "run_worker_command pl launch [worker_arg f, POLICY_ARG, encode_policy cod lim] bytes lim = Ok out"
      "validate_worker_report (decode_report cod) ci out f lim inst = Ok r"
  using assms run_worker_command_operational validate_operational
  by (auto simp: supervise_def Let_def split: if_splits run.splits)

lemma supervise_Ok_iff:
  "(\<exists>r. supervise pl current cod ci launch bytes f lim = Ok r) \<longleftrightarrow>
   supervise pl current cod ci launch bytes f lim \<noteq> NoFuel"
  by (auto simp: supervise_def Let_def validate_neq_NoFuel split: run.splits)

lemma supervise_accepted:
  assumes "supervise pl current cod ci launch bytes f lim = Ok r" and "r_accepted r"
  obtains inst n out where "replay_valid lim" "effective_limits pl current (rl_process lim) = Ok inst"
    "run_worker_command pl launch [worker_arg f, POLICY_ARG, encode_policy cod lim] bytes lim = Ok out"
    "\<forall>j < n. poll_once pl (rl_process lim) (se_polls (launch [worker_arg f, POLICY_ARG, encode_policy cod lim] bytes) j) = None"
    "poll_once pl (rl_process lim) (se_polls (launch [worker_arg f, POLICY_ARG, encode_policy cod lim] bytes) n) = Some Completed"
    "validate_worker_report (decode_report cod) ci out f lim inst = Ok r" "r_outcome r = Accepted"
    "r_worker r = Some \<lparr>wr_requested = lim, wr_installed = Some inst\<rparr>"
  using assms(1)
proof (cases rule: supervise_cases)
  case (failed e)
  with assms(2) show ?thesis by simp
next
  case (response inst out)
  note val = response(4) [unfolded validate_Ok]
  have acc: "r_outcome r = Accepted" using val assms(2) by (simp add: is_consistent_def)
  then have "r_worker r = Some \<lparr>wr_requested = lim, wr_installed = Some inst\<rparr>"
    using val installed_matches_accepting by simp
  moreover obtain n where
    "\<forall>j < n. poll_once pl (rl_process lim) (se_polls (launch [worker_arg f, POLICY_ARG, encode_policy cod lim] bytes) j) = None"
    "poll_once pl (rl_process lim) (se_polls (launch [worker_arg f, POLICY_ARG, encode_policy cod lim] bytes) n) = Some Completed"
    using response(3) unfolding run_worker_command_Ok monitor_Some_iff by auto
  ultimately show ?thesis using response acc by (intro that)
qed

subsection \<open>The ceilings of the operating system\<close>

text \<open>What POSIX promises of the two calls: a process may lower a limit it can read, the new limit is
  then in force, and no other limit changes.\<close>

definition posix_rlimits :: "'os getrlimit \<Rightarrow> 'os setrlimit \<Rightarrow> bool" where
  "posix_rlimits getrlimit setrlimit \<longleftrightarrow>
     (\<forall>os r s h s0 h0. getrlimit os r = Some (s0, h0) \<longrightarrow> s \<le> h \<longrightarrow> h \<le> h0 \<longrightarrow>
        (\<exists>os'. setrlimit r s h os = Some os' \<and> getrlimit os' = (getrlimit os)(r \<mapsto> (s, h))))"

lemma set_limits_lowers:
  assumes "posix_rlimits getrlimit setrlimit" and "distinct (map fst requests)"
    and "\<And>r b. (r, b) \<in> set requests \<Longrightarrow> \<exists>s h. getrlimit os r = Some (s, h) \<and> b \<le> h"
  shows "\<exists>os'. set_limits setrlimit requests os = (Ok (), os') \<and>
    getrlimit os' = getrlimit os ++ map_of (map (\<lambda>(r, b). (r, (b, b))) requests)"
  using assms(2,3)
proof (induction requests arbitrary: os)
  case (Cons x rest)
  obtain r b where x: "x = (r, b)" by fastforce
  then obtain s h where "getrlimit os r = Some (s, h)" "b \<le> h" using Cons.prems(2) [of r b] by auto
  with assms(1) obtain os1 where os1: "setrlimit r b b os = Some os1"
    and get: "getrlimit os1 = (getrlimit os)(r \<mapsto> (b, b))"
    unfolding posix_rlimits_def by (metis le_refl)
  have fresh: "r \<notin> fst ` set rest" using Cons.prems(1) x by auto
  have "\<exists>s h. getrlimit os1 r' = Some (s, h) \<and> b' \<le> h" if "(r', b') \<in> set rest" for r' b'
    using Cons.prems(2) [of r' b'] that fresh by (force simp: get)
  with Cons.IH [of os1] Cons.prems(1) x obtain os' where "set_limits setrlimit rest os1 = (Ok (), os')"
    and "getrlimit os' = getrlimit os1 ++ map_of (map (\<lambda>(r, b). (r, (b, b))) rest)" by auto
  moreover have "map_of (map (\<lambda>(r, b). (r, (b, b))) rest) r = None"
    using fresh by (induction rest) auto
  ultimately show ?case by (auto simp: x os1 get map_add_def fun_eq_iff split: option.splits)
qed simp

lemma rlimit_bound_Ok:
  "rlimit_bound current r n = Ok b \<longleftrightarrow> (\<exists>s h. current r = Some (s, h) \<and> b = min (min n h) s)"
  by (auto simp: rlimit_bound_def ok_or_def split: option.splits)

lemma effective_limits_Ok:
  "effective_limits pl current lim = Ok inst \<Longrightarrow>
     pl \<noteq> NonUnix \<and> rlimit_bound current RLIMIT_CPU (cpu_seconds lim) = Ok (inst_cpu_seconds inst) \<and>
     rlimit_bound current RLIMIT_STACK (stack_bytes lim) = Ok (inst_stack_bytes inst) \<and>
     rlimit_bound current RLIMIT_FSIZE (output_bytes lim) = Ok (inst_output_bytes inst) \<and>
     (case inst_address_space inst of None \<Rightarrow> pl = MacOs
      | Some n \<Rightarrow> pl = OtherUnix \<and> rlimit_bound current RLIMIT_AS (memory_bytes lim) = Ok n)"
  by (cases pl) (auto simp: effective_limits_def split: if_splits)

lemma install_limits_Ok:
  assumes "posix_rlimits getrlimit setrlimit" and "effective_limits pl (getrlimit os) lim = Ok inst"
    and "getrlimit os RLIMIT_CORE \<noteq> None"
  shows "\<exists>os'. install_limits pl getrlimit setrlimit lim os = (Ok inst, os') \<and>
    getrlimit os' = getrlimit os ++ map_of (map (\<lambda>(r, b). (r, (b, b))) (limit_requests inst))"
proof -
  note eff = effective_limits_Ok [OF assms(2), unfolded rlimit_bound_Ok]
  have "distinct (map fst (limit_requests inst))"
    by (auto simp: limit_requests_def split: option.splits)
  moreover have "\<exists>s h. getrlimit os r = Some (s, h) \<and> b \<le> h" if "(r, b) \<in> set (limit_requests inst)" for r b
  proof -
    have core: "\<exists>s h. getrlimit os RLIMIT_CORE = Some (s, h)" using assms(3) by auto
    have "(\<exists>n. r = RLIMIT_AS \<and> inst_address_space inst = Some n \<and> b = n) \<or> r = RLIMIT_CORE \<and> b = 0 \<or>
        r = RLIMIT_CPU \<and> b = inst_cpu_seconds inst \<or> r = RLIMIT_STACK \<and> b = inst_stack_bytes inst \<or>
        r = RLIMIT_FSIZE \<and> b = inst_output_bytes inst"
      using that by (auto simp: limit_requests_def split: option.splits)
    then show ?thesis using eff core by (elim disjE exE conjE) (auto simp: min_le_iff_disj)
  qed
  ultimately show ?thesis
    using set_limits_lowers [OF assms(1), of "limit_requests inst" os] assms(2)
    by (auto simp: install_limits_def)
qed

lemma limit_requests_map:
  "map_of (map (\<lambda>(r, b). (r, (b, b))) (limit_requests inst)) =
     [RLIMIT_CORE \<mapsto> (0, 0), RLIMIT_CPU \<mapsto> (inst_cpu_seconds inst, inst_cpu_seconds inst),
      RLIMIT_STACK \<mapsto> (inst_stack_bytes inst, inst_stack_bytes inst),
      RLIMIT_FSIZE \<mapsto> (inst_output_bytes inst, inst_output_bytes inst)] ++
     (case inst_address_space inst of None \<Rightarrow> Map.empty | Some n \<Rightarrow> [RLIMIT_AS \<mapsto> (n, n)])"
  by (rule ext) (auto simp: limit_requests_def map_add_def split: option.splits)

subsection \<open>Properties\<close>

text \<open>C30: A worker that installs its ceilings runs under them: with system calls that lower limits as
  POSIX says, installation succeeds with exactly the ceilings the supervisor computed before the
  launch, each is in force as soft and hard limit and at most the request, core dumps are off, and
  computing the ceilings again in the restricted process gives the same.\<close>

theorem install_limits_enforced:
  assumes "posix_rlimits getrlimit setrlimit" and "effective_limits pl (getrlimit os) lim = Ok inst"
    and "getrlimit os RLIMIT_CORE \<noteq> None"
  shows "\<exists>os'. install_limits pl getrlimit setrlimit lim os = (Ok inst, os') \<and>
    effective_limits pl (getrlimit os') lim = Ok inst \<and> getrlimit os' RLIMIT_CORE = Some (0, 0) \<and>
    (\<exists>n \<le> cpu_seconds lim. getrlimit os' RLIMIT_CPU = Some (n, n)) \<and>
    (\<exists>n \<le> stack_bytes lim. getrlimit os' RLIMIT_STACK = Some (n, n)) \<and>
    (\<exists>n \<le> output_bytes lim. getrlimit os' RLIMIT_FSIZE = Some (n, n)) \<and>
    (pl = OtherUnix \<longrightarrow> (\<exists>n \<le> memory_bytes lim. getrlimit os' RLIMIT_AS = Some (n, n)))"
proof -
  obtain os' where os': "install_limits pl getrlimit setrlimit lim os = (Ok inst, os')"
    and get: "getrlimit os' = getrlimit os ++ map_of (map (\<lambda>(r, b). (r, (b, b))) (limit_requests inst))"
    using install_limits_Ok [OF assms] by blast
  note eff = effective_limits_Ok [OF assms(2), unfolded rlimit_bound_Ok]
  have force: "getrlimit os' RLIMIT_CORE = Some (0, 0)"
    "getrlimit os' RLIMIT_CPU = Some (inst_cpu_seconds inst, inst_cpu_seconds inst)"
    "getrlimit os' RLIMIT_STACK = Some (inst_stack_bytes inst, inst_stack_bytes inst)"
    "getrlimit os' RLIMIT_FSIZE = Some (inst_output_bytes inst, inst_output_bytes inst)"
    "\<And>n. inst_address_space inst = Some n \<Longrightarrow> getrlimit os' RLIMIT_AS = Some (n, n)"
    unfolding get limit_requests_map by (auto split: option.splits)
  have le: "inst_cpu_seconds inst \<le> cpu_seconds lim" "inst_stack_bytes inst \<le> stack_bytes lim"
    "inst_output_bytes inst \<le> output_bytes lim" "\<And>n. inst_address_space inst = Some n \<Longrightarrow> n \<le> memory_bytes lim"
    using eff by auto
  have "effective_limits pl (getrlimit os') lim = Ok inst"
    using eff force le
    by (cases "inst_address_space inst") (auto simp: effective_limits_def rlimit_bound_def ok_or_def min_def)
  moreover have "\<exists>n \<le> memory_bytes lim. getrlimit os' RLIMIT_AS = Some (n, n)" if "pl = OtherUnix"
    using that eff force(5) le(4) by (auto split: option.splits)
  ultimately show ?thesis using os' force le by blast
qed

definition table_set :: "(resource \<Rightarrow> (nat \<times> nat) option) setrlimit" where
  "table_set r s h table =
     (case table r of None \<Rightarrow> None | Some (s0, h0) \<Rightarrow> if s \<le> h \<and> h \<le> h0 then Some (table(r \<mapsto> (s, h))) else None)"

lemma posix_table: "posix_rlimits id table_set"
  by (auto simp: posix_rlimits_def table_set_def)

theorem install_limits_enforced_witness:
  "\<exists>os'. install_limits OtherUnix id table_set default_process (\<lambda>_. Some (1000, 2000)) =
     (Ok \<lparr>inst_cpu_seconds = 3, inst_address_space = Some 1000, inst_stack_bytes = 1000, inst_output_bytes = 1000\<rparr>, os') \<and>
   os' RLIMIT_CORE = Some (0, 0)"
proof -
  have "effective_limits OtherUnix (id (\<lambda>_. Some (1000, 2000))) default_process =
      Ok \<lparr>inst_cpu_seconds = 3, inst_address_space = Some 1000, inst_stack_bytes = 1000, inst_output_bytes = 1000\<rparr>"
    by (simp add: effective_limits_def rlimit_bound_def ok_or_def default_process_def)
  then show ?thesis
    using install_limits_enforced [OF posix_table, of OtherUnix "\<lambda>_. Some (1000, 2000)" default_process] by auto
qed

text \<open>C9: What an accepting report of the supervisor rests on: a valid policy with time to spend, input
  and output within their budgets, a worker that exited with status zero before the deadline and had
  been within its memory threshold at every earlier poll, and a response that decodes to this report,
  made by this checker for the requested foundation and policy, under exactly the ceilings the
  supervisor had computed.\<close>

theorem supervisor_accepts:
  assumes "supervise pl current cod ci launch bytes f lim = Ok r" and "r_accepted r"
  shows "replay_valid lim \<and> 0 < wall_time_ms (rl_process lim) \<and> length bytes \<le> max_bytes (rl_admission lim) \<and>
    (\<exists>inst s n out. effective_limits pl current (rl_process lim) = Ok inst \<and>
       s = launch [worker_arg f, POLICY_ARG, encode_policy cod lim] bytes \<and>
       po_status (se_polls s n) = Some (Some (Exited 0)) \<and>
       po_elapsed_after (se_polls s n) < wall_time_ms (rl_process lim) * 1000000 \<and>
       (\<forall>j < n. \<forall>m. po_memory (se_polls s j) = Some m \<longrightarrow> m \<le> memory_bytes (rl_process lim)) \<and>
       se_response s = Some out \<and> length out \<le> output_bytes (rl_process lim) \<and> decode_report cod out = Some r \<and>
       r_profile r = profile_for f \<and> r_checker r = ci \<and> r_limits r = rl_admission lim \<and> r_outcome r = Accepted \<and>
       r_worker r = Some \<lparr>wr_requested = lim, wr_installed = Some inst\<rparr>)"
proof (rule supervise_accepted [OF assms])
  fix inst n out
  let ?s = "launch [worker_arg f, POLICY_ARG, encode_policy cod lim] bytes"
  assume "\<forall>j < n. poll_once pl (rl_process lim) (se_polls ?s j) = None"
    and "poll_once pl (rl_process lim) (se_polls ?s n) = Some Completed"
    and "replay_valid lim" "effective_limits pl current (rl_process lim) = Ok inst"
    and "run_worker_command pl launch [worker_arg f, POLICY_ARG, encode_policy cod lim] bytes lim = Ok out"
    and "validate_worker_report (decode_report cod) ci out f lim inst = Ok r" "r_outcome r = Accepted"
    and "r_worker r = Some \<lparr>wr_requested = lim, wr_installed = Some inst\<rparr>"
  then show ?thesis
    unfolding poll_once_None poll_once_Completed run_worker_command_Ok validate_Ok by fastforce
qed

definition sample_report :: report where
  "sample_report = (accepted_report ''id'' Intensional default_admission)
     \<lparr>r_worker := Some \<lparr>wr_requested = default_replay, wr_installed = Some \<lparr>inst_cpu_seconds = 3,
        inst_address_space = None, inst_stack_bytes = 1000, inst_output_bytes = 1000\<rparr>\<rparr>\<rparr>"

definition sample_session :: session where
  "sample_session = \<lparr>se_input = True, se_write = True, se_rewind = True, se_output = True, se_clone = True,
     se_spawn = True, se_polls = (\<lambda>k. \<lparr>po_elapsed = 5000000 * k, po_status = Some (if k = 0 then None else Some (Exited 0)),
       po_elapsed_after = 5000000 * k + 1, po_memory = Some 1000\<rparr>), se_reread = True, se_response = Some [1]\<rparr>"

definition sample_codecs :: codecs where
  "sample_codecs = \<lparr>encode_policy = (\<lambda>lim. if lim = default_replay then ''1'' else ''0''),
     decode_policy = (\<lambda>s. if s = ''1'' then Some default_replay else None),
     encode_report = (\<lambda>r. if r = sample_report then [1] else [0]),
     decode_report = (\<lambda>bytes. if bytes = [1] then Some sample_report else None)\<rparr>"

lemma sample_monitor: "monitor pl default_process (se_polls sample_session) 0 = Some Completed"
  by (subst monitor_step, simp add: sample_session_def poll_once_def default_process_def,
      subst monitor_step, simp add: poll_once_def)

lemma default_replay_valid: "replay_valid default_replay"
  by (simp add: replay_valid_def default_replay_def default_admission_def default_process_def admission_valid_iff
      process_valid_def checked_add_nat_def word_limit_def)

lemma sample_supervised:
  assumes "launch [worker_arg Intensional, POLICY_ARG, ''1''] [open_brace, close_brace] = sample_session"
  shows "supervise MacOs (\<lambda>_. Some (1000, 2000)) sample_codecs ''id'' launch [open_brace, close_brace]
     Intensional default_replay = Ok sample_report"
proof -
  let ?inst = "\<lparr>inst_cpu_seconds = 3, inst_address_space = None, inst_stack_bytes = 1000, inst_output_bytes = 1000\<rparr>"
  have "effective_limits MacOs (\<lambda>_. Some (1000, 2000)) (rl_process default_replay) = Ok ?inst"
    by (simp add: effective_limits_def rlimit_bound_def ok_or_def default_process_def default_replay_def)
  moreover have "run_worker_command MacOs launch
      [worker_arg Intensional, POLICY_ARG, encode_policy sample_codecs default_replay] [open_brace, close_brace] default_replay = Ok [1]"
    unfolding run_worker_command_Ok
    using sample_monitor [of MacOs]
    by (simp add: sample_codecs_def assms)
      (simp add: sample_session_def default_replay_def default_admission_def default_process_def started_def)
  moreover have "validate_worker_report (decode_report sample_codecs) ''id'' [1] Intensional default_replay ?inst = Ok sample_report"
    unfolding validate_Ok
    by (simp add: sample_codecs_def sample_report_def accepted_report_def is_consistent_def installed_matches_def
        default_replay_def)
  ultimately show ?thesis by (simp add: supervise_def default_replay_valid)
qed

theorem supervisor_accepts_witness:
  "\<exists>n. po_status (se_polls sample_session n) = Some (Some (Exited 0)) \<and>
     po_elapsed_after (se_polls sample_session n) < wall_time_ms default_process * 1000000"
  using supervisor_accepts [OF sample_supervised [of "\<lambda>_ _. sample_session", OF refl]]
  by (auto simp: sample_report_def accepted_report_def default_replay_def)

text \<open>C28: Every report of the supervisor is consistent and carries the requested foundation, limits and
  policy. It is either the worker's validated response or a failure of the process stage, and such
  a failure is never a verdict on the proof: it is resource exhaustion or inconclusive. Reaching the
  deadline is resource exhaustion.\<close>

theorem supervisor_reports:
  assumes "supervise pl current cod ci launch bytes f lim = Ok r"
  shows "is_consistent r \<and> r_profile r = profile_for f \<and> r_checker r = ci \<and> r_limits r = rl_admission lim \<and>
    (\<exists>receipt. r_worker r = Some receipt \<and> wr_requested receipt = lim) \<and>
    ((\<exists>out. decode_report cod out = Some r \<and>
        se_response (launch [worker_arg f, POLICY_ARG, encode_policy cod lim] bytes) = Some out) \<or>
     r_outcome r \<in> {ResourceExhausted, Inconclusive} \<and> (\<exists>d. r_diagnostic r = Some d \<and> d_stage d = ''process'')) \<and>
    (replay_valid lim \<and> effective_limits pl current (rl_process lim) = Ok inst \<and>
       length bytes \<le> max_bytes (rl_admission lim) \<and>
       s = launch [worker_arg f, POLICY_ARG, encode_policy cod lim] bytes \<and> started s \<and>
       (\<forall>j < n. poll_once pl (rl_process lim) (se_polls s j) = None) \<and>
       wall_time_ms (rl_process lim) * 1000000 \<le> po_elapsed (se_polls s n) \<longrightarrow>
     r = process_report_failure ci f lim wall_limit_failure \<and> r_outcome r = ResourceExhausted)"
proof (intro conjI impI)
  show "is_consistent r" "r_profile r = profile_for f" "r_checker r = ci" "r_limits r = rl_admission lim"
    and "\<exists>receipt. r_worker r = Some receipt \<and> wr_requested receipt = lim"
    and "(\<exists>out. decode_report cod out = Some r \<and>
        se_response (launch [worker_arg f, POLICY_ARG, encode_policy cod lim] bytes) = Some out) \<or>
     r_outcome r \<in> {ResourceExhausted, Inconclusive} \<and> (\<exists>d. r_diagnostic r = Some d \<and> d_stage d = ''process'')"
    using assms by (cases rule: supervise_cases;
        auto simp: validate_Ok run_worker_command_Ok operational_def is_consistent_def
          dest: installed_matches_requested)+
next
  assume late: "replay_valid lim \<and> effective_limits pl current (rl_process lim) = Ok inst \<and>
       length bytes \<le> max_bytes (rl_admission lim) \<and>
       s = launch [worker_arg f, POLICY_ARG, encode_policy cod lim] bytes \<and> started s \<and>
       (\<forall>j < n. poll_once pl (rl_process lim) (se_polls s j) = None) \<and>
       wall_time_ms (rl_process lim) * 1000000 \<le> po_elapsed (se_polls s n)"
  then have "monitor pl (rl_process lim) (se_polls s) 0 = Some (Stopped wall_limit_failure)"
    unfolding monitor_Some_iff by (intro exI [of _ n]) (auto simp: poll_deadline)
  with late have "run_worker_command pl launch [worker_arg f, POLICY_ARG, encode_policy cod lim] bytes lim = Err wall_limit_failure"
    by (auto simp: run_worker_command_def Let_def)
  with late assms show "r = process_report_failure ci f lim wall_limit_failure" by (auto simp: supervise_def)
  then show "r_outcome r = ResourceExhausted" by (simp add: wall_limit_failure_def exhausted_def failure_def)
qed

theorem supervisor_reports_witness: "is_consistent sample_report \<and> r_checker sample_report = ''id''"
  using supervisor_reports [OF sample_supervised [of "\<lambda>_ _. sample_session", OF refl]] by blast

text \<open>C29: The supervisor always answers: when its turns are separated by the five millisecond sleep,
  it returns a report whatever the worker does, also when the worker never ends, and never accepts
  with a wall-clock budget of zero.\<close>

theorem supervisor_returns:
  assumes "sleeps (se_polls (launch [worker_arg f, POLICY_ARG, encode_policy cod lim] bytes))"
  shows "\<exists>r. supervise pl current cod ci launch bytes f lim = Ok r \<and>
    (wall_time_ms (rl_process lim) = 0 \<longrightarrow> \<not> r_accepted r)"
proof -
  obtain e where "monitor pl (rl_process lim) (se_polls (launch [worker_arg f, POLICY_ARG, encode_policy cod lim] bytes)) 0 = Some e"
    using sleeps_monitor_returns [OF assms] by blast
  then have "run_worker_command pl launch [worker_arg f, POLICY_ARG, encode_policy cod lim] bytes lim \<noteq> NoFuel"
    by (auto simp: run_worker_command_def Let_def split: monitor_end.splits run.splits)
  then have "supervise pl current cod ci launch bytes f lim \<noteq> NoFuel"
    by (auto simp: supervise_def Let_def validate_neq_NoFuel split: run.splits)
  then obtain r where r: "supervise pl current cod ci launch bytes f lim = Ok r"
    using supervise_Ok_iff [THEN iffD2] by blast
  moreover have "\<not> r_accepted r" if "wall_time_ms (rl_process lim) = 0"
    using r that by (cases rule: supervise_cases) (auto simp: run_worker_command_Ok)
  ultimately show ?thesis by (intro exI [of _ r] conjI impI)
qed

definition endless_session :: session where
  "endless_session = sample_session\<lparr>se_polls := \<lambda>k. \<lparr>po_elapsed = 5000000 * k, po_status = Some None,
     po_elapsed_after = 5000000 * k, po_memory = None\<rparr>\<rparr>"

theorem supervisor_returns_witness:
  "\<exists>r. supervise OtherUnix (\<lambda>_. Some (1000, 2000)) sample_codecs ''id'' (\<lambda>_ _. endless_session) [] Intensional default_replay = Ok r"
  using supervisor_returns [of "\<lambda>_ _. endless_session" Intensional sample_codecs default_replay "[]"
      OtherUnix "\<lambda>_. Some (1000, 2000)" "''id''"]
  by (auto simp: sleeps_def endless_session_def)

end
