(* ===== verification/CommandLine.thy ===== *)
theory CommandLine
  imports Worker LeanExport
begin

section \<open>The command line\<close>

text \<open>
  Models \<open>crates/verum_proof/src/main.rs\<close>: the option parser and the four modes of the program (help,
  export, worker, supervised check) with their exit status.

  The surroundings of one run are a \<open>host\<close>: the operating system of \<open>Worker\<close>, what standard input
  delivers, whether standard output can be written and how the program's own executable behaves when it
  is launched. A run ends with \<open>Ok (status, output)\<close>, or with \<open>Err\<close> when \<open>main\<close> returns an I/O error.
\<close>

subsection \<open>Options\<close>

definition set_number :: "string \<Rightarrow> nat \<Rightarrow> replay_limits \<Rightarrow> (string, replay_limits) run" where
  "set_number flag number lim =
     (let size = (\<lambda>set. if number < word_limit then Ok (lim\<lparr>rl_admission := set (rl_admission lim)\<rparr>)
                     else Err (''value for '' @ flag @ '' exceeds addressable size''));
          process = (\<lambda>set. Ok (lim\<lparr>rl_process := set (rl_process lim)\<rparr>))
      in if flag = ''--max-bytes'' then size (\<lambda>a. a\<lparr>max_bytes := number\<rparr>)
         else if flag = ''--max-nodes'' then size (\<lambda>a. a\<lparr>max_nodes := number\<rparr>)
         else if flag = ''--max-depth'' then size (\<lambda>a. a\<lparr>max_depth := number\<rparr>)
         else if flag = ''--wall-ms'' then process (\<lambda>p. p\<lparr>wall_time_ms := number\<rparr>)
         else if flag = ''--cpu-seconds'' then process (\<lambda>p. p\<lparr>cpu_seconds := number\<rparr>)
         else if flag = ''--memory-bytes'' then process (\<lambda>p. p\<lparr>memory_bytes := number\<rparr>)
         else if flag = ''--stack-bytes'' then process (\<lambda>p. p\<lparr>stack_bytes := number\<rparr>)
         else if flag = ''--output-bytes'' then process (\<lambda>p. p\<lparr>output_bytes := number\<rparr>)
         else Err (''unknown option: '' @ flag))"

definition set_option :: "string \<Rightarrow> string \<Rightarrow> foundation \<times> replay_limits \<Rightarrow> (string, foundation \<times> replay_limits) run" where
  "set_option flag val = (\<lambda>(f, lim).
     if flag = ''--foundation''
     then if val = ''intensional'' then Ok (Intensional, lim)
          else if val = ''function-extensionality'' then Ok (FunctionExtensionality, lim)
          else Err ''unsupported foundation''
     else run_bind (ok_or (parse_u64 val) (''invalid nonnegative integer for '' @ flag)) (\<lambda>number.
            run_bind (set_number flag number lim) (\<lambda>lim. Ok (f, lim))))"

fun options_loop ::
  "string list \<Rightarrow> string list \<Rightarrow> foundation \<times> replay_limits \<Rightarrow> (string, foundation \<times> replay_limits) run" where
  "options_loop [] seen st = Ok st"
| "options_loop [flag] seen st =
     (if flag \<in> set seen then Err (''duplicate option: '' @ flag) else Err (''missing value for '' @ flag))"
| "options_loop (flag # val # args) seen st =
     (if flag \<in> set seen then Err (''duplicate option: '' @ flag)
      else run_bind (set_option flag val st) (options_loop args (flag # seen)))"

definition options :: "string list \<Rightarrow> (string, foundation \<times> replay_limits) run" where
  "options args =
     run_bind (options_loop args [] (Intensional, default_replay)) (\<lambda>(f, lim).
       if \<not> replay_valid lim then Err ''resource limits cannot be represented safely'' else Ok (f, lim))"

subsection \<open>The program\<close>

definition text_bytes :: "string \<Rightarrow> byte list" where
  "text_bytes s = map of_char s"

definition USAGE :: string where
  "USAGE = ''usage: verum-proof [--foundation function-extensionality] [--max-bytes N] [--max-nodes N] [--max-depth N] [--wall-ms N] [--cpu-seconds N] [--memory-bytes N] [--stack-bytes N] [--output-bytes N] < judgment.json'' @
     newline @ ''       verum-proof export-lean < judgment.json > Proof.lean''"

record 'os host =
  h_platform :: platform
  h_getrlimit :: "'os getrlimit"
  h_setrlimit :: "'os setrlimit"
  h_os :: 'os
  h_stdin :: "byte list option"
  h_stdout :: bool
  h_current_exe :: "launcher option"

definition write_out :: "'os host \<Rightarrow> byte list \<Rightarrow> (io_error, int \<times> byte list) run" where
  "write_out h out = (if h_stdout h then Ok (0, out) else Err OsError)"

definition outcome_status :: "replay_outcome \<Rightarrow> int" where
  "outcome_status outcome = (case outcome of Accepted \<Rightarrow> 0 | Rejected \<Rightarrow> 1 | Unsupported \<Rightarrow> 2
     | ResourceExhausted \<Rightarrow> 3 | Inconclusive \<Rightarrow> 4)"

definition worker_foundation :: "string \<Rightarrow> foundation option" where
  "worker_foundation arg =
     (if arg = WORKER_ARG then Some Intensional
      else if arg = EXTENSIONAL_WORKER_ARG then Some FunctionExtensionality else None)"

definition main_help :: "'os host \<Rightarrow> (io_error, int \<times> byte list) run" where
  "main_help h = (if h_stdout h then Ok (0, text_bytes (USAGE @ newline)) else Ok (101, []))"

definition main_export :: "decoder \<Rightarrow> string \<Rightarrow> 'os host \<Rightarrow> (io_error, int \<times> byte list) run" where
  "main_export decode checker_identity h =
     run_bind (ok_or (h_stdin h) OsError) (\<lambda>input.
       case lean_source decode checker_identity (take (max_bytes default_admission + 1) input) of
         Ok lean \<Rightarrow> write_out h (text_bytes lean)
       | Err reason \<Rightarrow> Ok (2, [])
       | NoFuel \<Rightarrow> NoFuel)"

definition worker_policy :: "codecs \<Rightarrow> string list \<Rightarrow> (io_error, replay_limits) run" where
  "worker_policy cod args =
     (case args of
        [_] \<Rightarrow> Ok default_replay
      | [_, flag, policy] \<Rightarrow>
          if flag = POLICY_ARG then ok_or (decode_policy cod policy) OtherKind else Err InvalidInputKind
      | _ \<Rightarrow> Err InvalidInputKind)"

definition main_worker ::
  "codecs \<Rightarrow> string \<Rightarrow> pipeline \<Rightarrow> 'os host \<Rightarrow> foundation \<Rightarrow> string list \<Rightarrow> (io_error, int \<times> byte list) run" where
  "main_worker cod checker_identity pipe h f args =
     run_bind (worker_policy cod args) (\<lambda>lim.
       run_bind (worker_with_limits (h_platform h) (h_getrlimit h) (h_setrlimit h) (h_os h) checker_identity pipe (h_stdin h) f lim)
         (\<lambda>report. write_out h (encode_report cod report)))"

definition main_check ::
  "codecs \<Rightarrow> string \<Rightarrow> 'os host \<Rightarrow> string list \<Rightarrow> (io_error, int \<times> byte list) run" where
  "main_check cod checker_identity h args =
     (case options args of
        Err _ \<Rightarrow> Ok (2, [])
      | NoFuel \<Rightarrow> NoFuel
      | Ok (f, lim) \<Rightarrow>
          run_bind (ok_or (h_stdin h) OsError) (\<lambda>input.
            run_bind (ok_or (h_current_exe h) OsError) (\<lambda>launch.
              case supervise (h_platform h) (h_getrlimit h (h_os h)) cod checker_identity launch
                     (take (the (read_limit (rl_admission lim))) input) f lim of
                Ok report \<Rightarrow>
                  run_bind (write_out h (encode_report cod report @ text_bytes newline)) (\<lambda>(_, out).
                    Ok (outcome_status (r_outcome report), out))
              | _ \<Rightarrow> NoFuel)))"

definition main ::
  "decoder \<Rightarrow> codecs \<Rightarrow> string \<Rightarrow> pipeline \<Rightarrow> 'os host \<Rightarrow> string list \<Rightarrow> (io_error, int \<times> byte list) run" where
  "main decode cod checker_identity pipe h args =
     (if args = [''--help''] then main_help h
      else if args = [''export-lean''] then main_export decode checker_identity h
      else case (case args of [] \<Rightarrow> None | first # _ \<Rightarrow> worker_foundation first) of
        Some f \<Rightarrow> main_worker cod checker_identity pipe h f args
      | None \<Rightarrow> main_check cod checker_identity h args)"

text \<open>The status the caller sees: an error from \<open>main\<close> is status 1.\<close>

definition exit_code :: "(io_error, int \<times> byte list) run \<Rightarrow> int option" where
  "exit_code r = (case r of Ok (status, _) \<Rightarrow> Some status | Err _ \<Rightarrow> Some 1 | NoFuel \<Rightarrow> None)"

subsection \<open>What the options mean\<close>

definition number_flags :: "string list" where
  "number_flags = [''--max-bytes'', ''--max-nodes'', ''--max-depth'', ''--wall-ms'', ''--cpu-seconds'', ''--memory-bytes'',
     ''--stack-bytes'', ''--output-bytes'']"

definition get_number :: "string \<Rightarrow> replay_limits \<Rightarrow> nat" where
  "get_number flag lim =
     (if flag = ''--max-bytes'' then max_bytes (rl_admission lim)
      else if flag = ''--max-nodes'' then max_nodes (rl_admission lim)
      else if flag = ''--max-depth'' then max_depth (rl_admission lim)
      else if flag = ''--wall-ms'' then wall_time_ms (rl_process lim)
      else if flag = ''--cpu-seconds'' then cpu_seconds (rl_process lim)
      else if flag = ''--memory-bytes'' then memory_bytes (rl_process lim)
      else if flag = ''--stack-bytes'' then stack_bytes (rl_process lim)
      else output_bytes (rl_process lim))"

fun flags :: "string list \<Rightarrow> string list" where
  "flags (flag # val # args) = flag # flags args"
| "flags args = args"

fun settings :: "string list \<Rightarrow> (string \<times> string) list" where
  "settings (flag # val # args) = (flag, val) # settings args"
| "settings args = []"

definition chosen_number :: "string list \<Rightarrow> string \<Rightarrow> nat \<Rightarrow> nat" where
  "chosen_number args flag fallback = (case map_of (settings args) flag of None \<Rightarrow> fallback | Some val \<Rightarrow> the (parse_u64 val))"

definition chosen_foundation :: "string list \<Rightarrow> foundation \<Rightarrow> foundation" where
  "chosen_foundation args fallback =
     (case map_of (settings args) ''--foundation'' of None \<Rightarrow> fallback
      | Some val \<Rightarrow> if val = ''intensional'' then Intensional else FunctionExtensionality)"

lemma set_number_get:
  assumes "set_number flag n lim = Ok lim'"
  shows "flag \<in> set number_flags \<and>
    (\<forall>flag' \<in> set number_flags. get_number flag' lim' = (if flag' = flag then n else get_number flag' lim))"
proof -
  consider "flag = ''--max-bytes''" | "flag = ''--max-nodes''" | "flag = ''--max-depth''" | "flag = ''--wall-ms''"
    | "flag = ''--cpu-seconds''" | "flag = ''--memory-bytes''" | "flag = ''--stack-bytes''" | "flag = ''--output-bytes''"
    using assms by (auto simp: set_number_def Let_def split: if_splits)
  then show ?thesis
    using assms by cases (auto simp: set_number_def get_number_def number_flags_def split: if_splits)
qed

lemma set_option_get:
  assumes "set_option flag val (f, lim) = Ok (f', lim')"
  shows "flag \<in> set (''--foundation'' # number_flags) \<and>
    f' = (if flag = ''--foundation'' then if val = ''intensional'' then Intensional else FunctionExtensionality else f) \<and>
    (\<forall>flag' \<in> set number_flags. get_number flag' lim' = (if flag' = flag then the (parse_u64 val) else get_number flag' lim))"
proof (cases "flag = ''--foundation''")
  case True
  moreover have "''--foundation'' \<notin> set number_flags" by (simp add: number_flags_def)
  ultimately show ?thesis using assms by (auto simp: set_option_def split: if_splits)
next
  case False
  then obtain n where "parse_u64 val = Some n" "set_number flag n lim = Ok lim'" "f' = f"
    using assms by (auto simp: set_option_def ok_or_def split: option.splits)
  with False set_number_get [of flag n lim lim'] show ?thesis by auto
qed

lemma set_settings: "fst ` set (settings args) \<subseteq> set (flags args)"
  by (induction args rule: flags.induct) auto

lemma options_loop_OkD:
  assumes "options_loop args seen st = Ok st'"
  shows "even (length args) \<and> distinct (flags args) \<and> set (flags args) \<inter> set seen = {} \<and>
    set (flags args) \<subseteq> set (''--foundation'' # number_flags) \<and> fst st' = chosen_foundation args (fst st) \<and>
    (\<forall>flag \<in> set number_flags. get_number flag (snd st') = chosen_number args flag (get_number flag (snd st)))"
  using assms
proof (induction args seen st arbitrary: st' rule: options_loop.induct)
  case (3 flag val args seen st)
  then obtain st1 where fresh: "flag \<notin> set seen" and st1: "set_option flag val st = Ok st1"
    and rest: "options_loop args (flag # seen) st1 = Ok st'" by (auto split: if_splits)
  note IH = 3(1) [OF fresh st1 rest] and here = set_option_get [of flag val "fst st" "snd st" "fst st1" "snd st1"]
  have "flag \<notin> set (flags args)" using IH by auto
  then have "map_of (settings args) flag = None" using set_settings [of args] by (auto simp: map_of_eq_None_iff)
  then show ?case
    using IH here st1 fresh by (auto simp: chosen_foundation_def chosen_number_def split: option.splits)
qed (auto simp: chosen_foundation_def chosen_number_def split: if_splits)

definition render_options :: "foundation \<Rightarrow> replay_limits \<Rightarrow> string list" where
  "render_options f lim =
     [''--foundation'', case f of Intensional \<Rightarrow> ''intensional'' | FunctionExtensionality \<Rightarrow> ''function-extensionality''] @
     concat (map (\<lambda>flag. [flag, show_nat (get_number flag lim)]) number_flags)"

lemma set_option_show:
  "flag \<in> set number_flags \<Longrightarrow> n < word_limit \<Longrightarrow>
   set_option flag (show_nat n) (f, lim) = run_bind (set_number flag n lim) (\<lambda>lim. Ok (f, lim))"
  by (auto simp: set_option_def parse_u64_show ok_or_def number_flags_def)

subsection \<open>From the exit status to the pipeline\<close>

text \<open>What is documented of the packages around the program: a decoded message is the one that was encoded,
  and when a launched executable is seen to exit with status zero, its output file holds what this
  program writes for the same arguments and input, under the limits it inherits.\<close>

definition faithful_codecs :: "codecs \<Rightarrow> bool" where
  "faithful_codecs cod \<longleftrightarrow>
     (\<forall>lim lim'. decode_policy cod (encode_policy cod lim) = Some lim' \<longrightarrow> lim' = lim) \<and>
     (\<forall>r r'. decode_report cod (encode_report cod r) = Some r' \<longrightarrow> r' = r)"

definition runs_itself :: "decoder \<Rightarrow> codecs \<Rightarrow> string \<Rightarrow> pipeline \<Rightarrow> 'os host \<Rightarrow> bool" where
  "runs_itself decode cod ci pipe h \<longleftrightarrow>
     (\<forall>launch args bytes n out. h_current_exe h = Some launch \<longrightarrow>
        po_status (se_polls (launch args bytes) n) = Some (Some (Exited 0)) \<longrightarrow> se_response (launch args bytes) = Some out \<longrightarrow>
        main decode cod ci pipe (h\<lparr>h_stdin := Some bytes, h_stdout := True\<rparr>) args = Ok (0, out))"

definition checks :: "string list \<Rightarrow> bool" where
  "checks args \<longleftrightarrow> args \<noteq> [''--help''] \<and> args \<noteq> [''export-lean''] \<and>
     (case args of [] \<Rightarrow> True | first # _ \<Rightarrow> worker_foundation first = None)"

lemma main_checks: "checks args \<Longrightarrow> main decode cod ci pipe h args = main_check cod ci h args"
  by (auto simp: main_def checks_def split: list.splits)

lemma main_as_worker:
  "main decode cod ci pipe h [worker_arg f, POLICY_ARG, policy] = main_worker cod ci pipe h f [worker_arg f, POLICY_ARG, policy]"
  by (cases f) (simp_all add: main_def worker_arg_def worker_foundation_def WORKER_ARG_def EXTENSIONAL_WORKER_ARG_def)

lemma outcome_status_inject: "outcome_status a = outcome_status b \<longleftrightarrow> a = b"
  by (cases a; cases b) (simp_all add: outcome_status_def)

lemma main_check_zero:
  assumes "main_check cod ci h args = Ok (0, out)"
  obtains f lim input launch r where "options args = Ok (f, lim)" "h_stdin h = Some input" "h_current_exe h = Some launch"
    "supervise (h_platform h) (h_getrlimit h (h_os h)) cod ci launch (take (the (read_limit (rl_admission lim))) input) f lim = Ok r"
    "r_outcome r = Accepted" "out = encode_report cod r @ text_bytes newline"
  using assms outcome_status_inject [of _ Accepted]
  by (auto simp: main_check_def write_out_def ok_or_def outcome_status_def [of Accepted]
      split: run.splits option.splits if_splits)

lemma main_worker_zero:
  assumes "main_worker cod ci pipe h f [worker_arg f, POLICY_ARG, encode_policy cod lim] = Ok (0, out)"
    and "faithful_codecs cod"
  obtains r where "worker_with_limits (h_platform h) (h_getrlimit h) (h_setrlimit h) (h_os h) ci pipe (h_stdin h) f lim = Ok r"
    "out = encode_report cod r"
proof -
  obtain lim' r where "decode_policy cod (encode_policy cod lim) = Some lim'"
    and r: "worker_with_limits (h_platform h) (h_getrlimit h) (h_setrlimit h) (h_os h) ci pipe (h_stdin h) f lim' = Ok r"
    "out = encode_report cod r"
    using assms(1) by (auto simp: main_worker_def worker_policy_def ok_or_def write_out_def split: option.splits if_splits)
  then have "lim' = lim" using assms(2) by (auto simp: faithful_codecs_def)
  with r that show thesis by blast
qed

lemma worker_accepting:
  assumes "worker_with_limits pl getrl setrl os ci pipe (Some bytes) f lim = Ok r" and "r_outcome r = Accepted"
  obtains r' where "pipe (take (the (read_limit (rl_admission lim))) bytes) f (rl_admission lim) = Ok r'" "r_outcome r' = Accepted"
  using assms
  by (auto simp: worker_with_limits_def Let_def ok_or_def invalid_limits_failure_def inconclusive_def failure_def
      split: if_splits run.splits)

text \<open>Status zero of a check: the in-process pipeline, run by the worker on the whole input, accepted.\<close>

lemma checked_by_pipeline:
  assumes "main decode cod ci pipe h args = Ok (0, out)" and "checks args"
    and "runs_itself decode cod ci pipe h" and "faithful_codecs cod"
  obtains f lim input r where "options args = Ok (f, lim)" "h_stdin h = Some input"
    "length input \<le> max_bytes (rl_admission lim)" "pipe input f (rl_admission lim) = Ok r" "r_outcome r = Accepted"
proof -
  obtain f lim input launch r where *: "options args = Ok (f, lim)" "h_stdin h = Some input" "h_current_exe h = Some launch"
    and sup: "supervise (h_platform h) (h_getrlimit h (h_os h)) cod ci launch (take (the (read_limit (rl_admission lim))) input) f lim = Ok r"
    and acc: "r_outcome r = Accepted"
    using assms(1) unfolding main_checks [OF assms(2)] by (rule main_check_zero)
  let ?bytes = "take (the (read_limit (rl_admission lim))) input"
  have "r_accepted r" using sup acc by (cases rule: supervise_cases) (auto simp: validate_Ok is_consistent_def operational_def)
  with sup obtain n out' where valid: "replay_valid lim"
    and run: "run_worker_command (h_platform h) launch [worker_arg f, POLICY_ARG, encode_policy cod lim] ?bytes lim = Ok out'"
    and exit: "poll_once (h_platform h) (rl_process lim) (se_polls (launch [worker_arg f, POLICY_ARG, encode_policy cod lim] ?bytes) n) = Some Completed"
    and dec: "decode_report cod out' = Some r" by (rule supervise_accepted) (auto simp: validate_Ok)
  have "main decode cod ci pipe (h\<lparr>h_stdin := Some ?bytes, h_stdout := True\<rparr>) [worker_arg f, POLICY_ARG, encode_policy cod lim] = Ok (0, out')"
    using assms(3) *(3) run exit unfolding runs_itself_def run_worker_command_Ok poll_once_Completed by blast
  then obtain r0 where w: "worker_with_limits (h_platform h) (h_getrlimit h) (h_setrlimit h) (h_os h) ci pipe (Some ?bytes) f lim = Ok r0"
    and "out' = encode_report cod r0"
    unfolding main_as_worker by (elim main_worker_zero [OF _ assms(4)]) simp
  with dec assms(4) have "r0 = r" by (auto simp: faithful_codecs_def)
  have limit: "the (read_limit (rl_admission lim)) = max_bytes (rl_admission lim) + 1"
    using valid by (auto simp: replay_valid_def admission_valid_def read_limit_def checked_add_nat_def split: if_splits)
  have "length ?bytes \<le> max_bytes (rl_admission lim)" using run by (simp add: run_worker_command_Ok)
  then have "length input \<le> max_bytes (rl_admission lim)" by (simp add: limit)
  moreover obtain r' where "pipe (take (the (read_limit (rl_admission lim))) ?bytes) f (rl_admission lim) = Ok r'" "r_outcome r' = Accepted"
    using w acc \<open>r0 = r\<close> by (auto elim: worker_accepting)
  ultimately show thesis using * that by (simp add: limit)
qed

subsection \<open>Properties\<close>

text \<open>What an accepted command line means: options come in pairs, each at most once and all known;
  the foundation and every number of the policy are the value given for their option or else the
  default; and the policy is valid.\<close>

theorem options_meaning:
  assumes "options args = Ok (f, lim)"
  shows "replay_valid lim \<and> even (length args) \<and> distinct (flags args) \<and>
    set (flags args) \<subseteq> set (''--foundation'' # number_flags) \<and> f = chosen_foundation args Intensional \<and>
    (\<forall>flag \<in> set number_flags. get_number flag lim = chosen_number args flag (get_number flag default_replay))"
proof -
  have "options_loop args [] (Intensional, default_replay) = Ok (f, lim)" and "replay_valid lim"
    using assms by (auto simp: options_def split: if_splits)
  with options_loop_OkD [of args "[]" "(Intensional, default_replay)" "(f, lim)"] show ?thesis by simp
qed

theorem options_meaning_witness:
  "\<exists>lim. options [''--wall-ms'', ''+0100''] = Ok (Intensional, lim) \<and> get_number ''--wall-ms'' lim = 100"
proof -
  have p: "parse_u64 ''+0100'' = Some 100"
    by (simp add: parse_u64_def digit_value_def checked_mul_nat_def checked_add_nat_def word_limit_def)
  have "options [''--wall-ms'', ''+0100''] = Ok (Intensional, default_replay\<lparr>rl_process := default_process\<lparr>wall_time_ms := 100\<rparr>\<rparr>)"
    using default_replay_valid
    by (simp add: options_def set_option_def p ok_or_def set_number_def default_replay_def replay_valid_def process_valid_def)
  from options_meaning [OF this] this show ?thesis
    by (auto simp: number_flags_def chosen_number_def p)
qed

text \<open>Every valid policy can be written on the command line: printing a foundation and the eight
  numbers of a policy as options and parsing them gives them back.\<close>

theorem options_round_trip:
  assumes "replay_valid lim" and "\<forall>flag \<in> set number_flags. get_number flag lim < 2 ^ 64"
  shows "options (render_options f lim) = Ok (f, lim)"
proof -
  have "get_number flag lim < word_limit" if "flag \<in> set number_flags" for flag
    using assms(2) that by (simp add: word_limit_def)
  then have bound: "\<And>flag. flag \<in> set number_flags \<Longrightarrow> get_number flag lim < word_limit"
    and step: "\<And>flag st. flag \<in> set number_flags \<Longrightarrow> set_option flag (show_nat (get_number flag lim)) st =
      run_bind (set_number flag (get_number flag lim) (snd st)) (\<lambda>lim. Ok (fst st, lim))"
    using set_option_show by auto
  have lim: "lim = \<lparr>rl_admission = \<lparr>max_bytes = get_number ''--max-bytes'' lim, max_nodes = get_number ''--max-nodes'' lim,
      max_depth = get_number ''--max-depth'' lim\<rparr>, rl_process = \<lparr>wall_time_ms = get_number ''--wall-ms'' lim,
      cpu_seconds = get_number ''--cpu-seconds'' lim, memory_bytes = get_number ''--memory-bytes'' lim,
      stack_bytes = get_number ''--stack-bytes'' lim, output_bytes = get_number ''--output-bytes'' lim\<rparr>\<rparr>"
    by (cases lim; cases "rl_admission lim"; cases "rl_process lim") (simp add: get_number_def)
  have "options_loop (render_options f lim) [] (Intensional, default_replay) = Ok (f, lim)"
    by (cases f; subst lim, simp add: render_options_def number_flags_def set_option_def [of "''--foundation''"]
        step bound set_number_def default_replay_def default_admission_def default_process_def)
  with assms(1) show ?thesis by (simp add: options_def)
qed

theorem options_round_trip_witness: "options (render_options FunctionExtensionality default_replay) = Ok (FunctionExtensionality, default_replay)"
  using options_round_trip [of default_replay FunctionExtensionality] default_replay_valid
  by (simp add: number_flags_def get_number_def default_replay_def default_admission_def default_process_def)

subsection \<open>A run of the program\<close>

text \<open>A host on which the program checks the identity judgment.\<close>

definition sample_launch :: launcher where
  "sample_launch args bytes =
     (if args = [worker_arg Intensional, POLICY_ARG, ''1''] \<and> bytes = [open_brace, close_brace]
      then sample_session else endless_session)"

definition sample_host :: "(resource \<Rightarrow> (nat \<times> nat) option) host" where
  "sample_host = \<lparr>h_platform = MacOs, h_getrlimit = id, h_setrlimit = table_set, h_os = (\<lambda>_. Some (1000, 2000)),
     h_stdin = Some [open_brace, close_brace], h_stdout = True, h_current_exe = Some sample_launch\<rparr>"

lemma sample_codecs_faithful: "faithful_codecs sample_codecs"
  by (simp add: faithful_codecs_def sample_codecs_def)

lemma sample_read_limit: "read_limit default_admission = Some 1048577"
  by (simp add: read_limit_def default_admission_def checked_add_nat_def word_limit_def)

lemma sample_worker:
  assumes "pipe [open_brace, close_brace] Intensional default_admission = Ok (accepted_report ''id'' Intensional default_admission)"
  shows "worker_with_limits MacOs id table_set (\<lambda>_. Some (1000, 2000)) ''id'' pipe (Some [open_brace, close_brace])
    Intensional default_replay = Ok sample_report"
proof -
  have "fst (install_limits MacOs id table_set default_process (\<lambda>_. Some (1000, 2000))) =
      Ok \<lparr>inst_cpu_seconds = 3, inst_address_space = None, inst_stack_bytes = 1000, inst_output_bytes = 1000\<rparr>"
    by (simp add: install_limits_def effective_limits_def rlimit_bound_def ok_or_def default_process_def limit_requests_def
        table_set_def)
  then show ?thesis
    using default_replay_valid assms
    by (simp add: worker_with_limits_def default_replay_def ok_or_def sample_read_limit sample_report_def)
qed

lemma sample_runs_itself:
  assumes "pipe [open_brace, close_brace] Intensional default_admission = Ok (accepted_report ''id'' Intensional default_admission)"
  shows "runs_itself decode sample_codecs ''id'' pipe sample_host"
proof -
  have "main decode sample_codecs ''id'' pipe (sample_host\<lparr>h_stdin := Some [open_brace, close_brace], h_stdout := True\<rparr>)
      [worker_arg Intensional, POLICY_ARG, ''1''] = Ok (0, [1])"
    unfolding main_as_worker
    using sample_worker [of pipe, OF assms]
    by (simp add: main_worker_def worker_policy_def sample_codecs_def ok_or_def sample_host_def write_out_def)
  then show ?thesis
    by (auto simp: runs_itself_def sample_host_def sample_launch_def endless_session_def sample_session_def split: if_splits)
qed

lemma sample_check:
  "main decode sample_codecs ''id'' pipe sample_host [] = Ok (0, [1] @ text_bytes newline)"
proof -
  have "supervise MacOs (\<lambda>_. Some (1000, 2000)) sample_codecs ''id'' sample_launch [open_brace, close_brace] Intensional default_replay =
      Ok sample_report"
    by (rule sample_supervised) (simp add: sample_launch_def)
  moreover have "options [] = Ok (Intensional, default_replay)" by (simp add: options_def default_replay_valid)
  ultimately show ?thesis
    by (simp add: main_checks checks_def main_check_def sample_host_def ok_or_def default_replay_def sample_read_limit write_out_def
        outcome_status_def sample_report_def accepted_report_def sample_codecs_def)
qed

end
