(* ===== verification/Ordinals.thy ===== *)
theory Ordinals
  imports Decimal
begin

section \<open>Ordinals of the rule-based kernel\<close>

text \<open>
  Models \<open>crates/verum_kernel/src/ordinal.rs\<close>: ordinals in Cantor normal form below \<open>\<omega>\<^sup>3\<close>, powers of \<open>\<omega>\<close>,
  inaccessible cardinals and suprema, with successor, comparison, normalisation and the
  classification the universe rules use. The specification is the value of an ordinal, a list of
  five coefficients compared lexicographically.
\<close>

subsection \<open>The data and its operations\<close>

datatype ordinal =
    Finite u32
  | Omega
  | OmegaPlus u32
  | OmegaTimes u32
  | OmegaTimesPlus u32 u32
  | OmegaSquared
  | OmegaSquaredPlus ordinal
  | OmegaPow u32
  | Kappa u32
  | OSup "ordinal list"

fun ord_succ :: "ordinal \<Rightarrow> ordinal" where
  "ord_succ (Finite n) = (case checked_add n 1 of Some m \<Rightarrow> Finite m | None \<Rightarrow> Omega)"
| "ord_succ Omega = OmegaPlus 1"
| "ord_succ (OmegaPlus n) = OmegaPlus (saturating_add n 1)"
| "ord_succ (OmegaTimes k) = OmegaTimesPlus k 1"
| "ord_succ (OmegaTimesPlus k n) = OmegaTimesPlus k (saturating_add n 1)"
| "ord_succ OmegaSquared = OmegaSquaredPlus (Finite 1)"
| "ord_succ (OmegaSquaredPlus inner) = OmegaSquaredPlus (ord_succ inner)"
| "ord_succ (OmegaPow e) = OSup [OmegaPow e, Finite 1]"
| "ord_succ (Kappa n) = OSup [Kappa n, Finite 1]"
| "ord_succ (OSup parts) = OSup (parts @ [Finite 1])"

fun ord_normalize :: "ordinal \<Rightarrow> ordinal" where
  "ord_normalize (OmegaPow e) =
     (if e = 0 then Finite 1 else if e = 1 then Omega else if e = 2 then OmegaSquared else OmegaPow e)"
| "ord_normalize (OmegaTimes k) = (if k = 0 then Finite 0 else if k = 1 then Omega else OmegaTimes k)"
| "ord_normalize (OmegaPlus n) = (if n = 0 then Omega else OmegaPlus n)"
| "ord_normalize (OmegaTimesPlus k n) =
     (if k = 0 \<and> n = 0 then Finite 0 else if k = 0 then Finite n
      else if k = 1 \<and> n = 0 then Omega else if k = 1 then OmegaPlus n
      else if n = 0 then OmegaTimes k else OmegaTimesPlus k n)"
| "ord_normalize (OmegaSquaredPlus inner) =
     (let inner_norm = ord_normalize inner
      in if inner_norm = Finite 0 then OmegaSquared else OmegaSquaredPlus inner_norm)"
| "ord_normalize (OSup parts) =
     (case parts of [] \<Rightarrow> Finite 0 | [p] \<Rightarrow> ord_normalize p | _ \<Rightarrow> OSup (map ord_normalize parts))"
| "ord_normalize (Finite n) = Finite n"
| "ord_normalize Omega = Omega"
| "ord_normalize OmegaSquared = OmegaSquared"
| "ord_normalize (Kappa n) = Kappa n"

lemma size_list_normalize:
  "(\<And>p. p \<in> set ps \<Longrightarrow> size (ord_normalize p) \<le> size p) \<Longrightarrow> size_list size (map ord_normalize ps) \<le> size_list size ps"
  by (induction ps) (auto intro: add_mono)

lemma ord_normalize_size: "size (ord_normalize a) \<le> size a"
proof (induction a)
  case (OSup parts)
  have "size_list size (map ord_normalize parts) \<le> size_list size parts"
    by (rule size_list_normalize) (use OSup in blast)
  then show ?case using OSup by (auto simp: comp_def split: list.splits)
qed (auto simp: Let_def)

text \<open>Comparison without normalising; the inner ordinals of \<open>\<omega>\<^sup>2 + \<alpha>\<close> are normalised again.\<close>

function lt_raw :: "ordinal \<Rightarrow> ordinal \<Rightarrow> bool" where
  "lt_raw a b =
     (case a of OSup parts \<Rightarrow> list_all (\<lambda>p. lt_raw p b) parts | _ \<Rightarrow>
     (case b of OSup parts \<Rightarrow> list_ex (\<lambda>p. lt_raw a p \<or> a = p) parts | _ \<Rightarrow>
     (case a of
        Finite x \<Rightarrow> (case b of Finite y \<Rightarrow> x < y | _ \<Rightarrow> True)
      | Omega \<Rightarrow> (case b of Finite _ \<Rightarrow> False | Omega \<Rightarrow> False | OmegaTimes k \<Rightarrow> 2 \<le> k | _ \<Rightarrow> True)
      | OmegaPlus x \<Rightarrow> (case b of Finite _ \<Rightarrow> False | Omega \<Rightarrow> False | OmegaPlus y \<Rightarrow> x < y | OmegaTimes k \<Rightarrow> 2 \<le> k
          | OmegaTimesPlus k _ \<Rightarrow> 2 \<le> k | _ \<Rightarrow> True)
      | OmegaTimes x \<Rightarrow> (case b of Finite _ \<Rightarrow> False | Omega \<Rightarrow> False | OmegaPlus _ \<Rightarrow> x < 2 | OmegaTimes y \<Rightarrow> x < y
          | OmegaTimesPlus k _ \<Rightarrow> x \<le> k | _ \<Rightarrow> True)
      | OmegaTimesPlus k n \<Rightarrow> (case b of Finite _ \<Rightarrow> False | Omega \<Rightarrow> False | OmegaPlus _ \<Rightarrow> k < 2 | OmegaTimes y \<Rightarrow> k < y
          | OmegaTimesPlus k' n' \<Rightarrow> k < k' \<or> k = k' \<and> n < n' | _ \<Rightarrow> True)
      | OmegaSquared \<Rightarrow> (case b of OmegaSquaredPlus _ \<Rightarrow> True | OmegaPow _ \<Rightarrow> True | Kappa _ \<Rightarrow> True | _ \<Rightarrow> False)
      | OmegaSquaredPlus x \<Rightarrow> (case b of OmegaSquaredPlus y \<Rightarrow> lt_raw (ord_normalize x) (ord_normalize y)
          | OmegaPow e \<Rightarrow> 3 \<le> e | Kappa _ \<Rightarrow> True | _ \<Rightarrow> False)
      | OmegaPow x \<Rightarrow> (case b of OmegaPow y \<Rightarrow> x < y | Kappa _ \<Rightarrow> True | _ \<Rightarrow> False)
      | Kappa x \<Rightarrow> (case b of Kappa y \<Rightarrow> x < y | _ \<Rightarrow> False)
      | OSup _ \<Rightarrow> False)))"
  by pat_completeness auto
termination
  by (relation "measure (\<lambda>(a, b). size a + size b)")
    (auto simp: size_list_estimation less_Suc_eq_le intro: le_SucI add_mono ord_normalize_size
      dest: size_list_estimation' [OF _ order_refl])

declare lt_raw.simps [simp del]

definition ord_lt :: "ordinal \<Rightarrow> ordinal \<Rightarrow> bool" where
  "ord_lt a b = lt_raw (ord_normalize a) (ord_normalize b)"

definition ord_le :: "ordinal \<Rightarrow> ordinal \<Rightarrow> bool" where
  "ord_le a b \<longleftrightarrow> ord_lt a b \<or> a = b"

fun is_limit :: "ordinal \<Rightarrow> bool" where
  "is_limit (Finite _) = False"
| "is_limit Omega = True"
| "is_limit (OmegaPlus _) = False"
| "is_limit (OmegaTimes _) = True"
| "is_limit (OmegaTimesPlus _ _) = False"
| "is_limit OmegaSquared = True"
| "is_limit (OmegaSquaredPlus inner) = is_limit inner"
| "is_limit (OmegaPow _) = True"
| "is_limit (Kappa _) = True"
| "is_limit (OSup _) = True"

fun is_regular :: "ordinal \<Rightarrow> bool" where
  "is_regular (Finite n) = (0 < n)"
| "is_regular Omega = True"
| "is_regular (Kappa _) = True"
| "is_regular (OmegaPlus _) = True"
| "is_regular (OmegaTimesPlus _ _) = True"
| "is_regular (OmegaSquaredPlus _) = True"
| "is_regular (OmegaTimes _) = False"
| "is_regular OmegaSquared = False"
| "is_regular (OmegaPow _) = False"
| "is_regular (OSup _) = False"

fun is_inaccessible :: "ordinal \<Rightarrow> bool" where
  "is_inaccessible (Kappa _) = True"
| "is_inaccessible _ = False"

fun best_kappa :: "u32 option \<Rightarrow> ordinal list \<Rightarrow> u32 option" where
  "best_kappa best [] = best"
| "best_kappa best (p # ps) =
     best_kappa (case p of Kappa k \<Rightarrow> Some (case best of None \<Rightarrow> k | Some b \<Rightarrow> max b k) | _ \<Rightarrow> best) ps"

fun next_inaccessible :: "ordinal \<Rightarrow> ordinal" where
  "next_inaccessible (Kappa n) = Kappa (saturating_add n 1)"
| "next_inaccessible (OSup parts) =
     (case best_kappa None parts of Some k \<Rightarrow> Kappa (saturating_add k 1) | None \<Rightarrow> Kappa 0)"
| "next_inaccessible _ = Kappa 0"

definition omega_plus :: "u32 \<Rightarrow> ordinal" where
  "omega_plus k = (if k = 0 then Omega else OmegaPlus k)"

definition omega_times :: "u32 \<Rightarrow> ordinal" where
  "omega_times k = (if k = 0 then Finite 0 else if k = 1 then Omega else OmegaTimes k)"

text \<open>\<open>None\<close> is the failed assertion.\<close>

definition kappa :: "u32 \<Rightarrow> ordinal option" where
  "kappa n = (if 1 \<le> n then Some (Kappa n) else None)"

subsection \<open>Values\<close>

text \<open>The ordinals without suprema whose \<open>\<omega>\<^sup>2 + \<alpha>\<close> have \<open>\<alpha> < \<omega>\<^sup>2\<close>, and their values: the index of an
  inaccessible, an exponent from three on, and the coefficients of \<open>\<omega>\<^sup>2\<close>, \<open>\<omega>\<close> and 1.\<close>

fun ord_value :: "ordinal \<Rightarrow> nat list" where
  "ord_value (Finite n) = [0, 0, 0, 0, unat n]"
| "ord_value Omega = [0, 0, 0, 1, 0]"
| "ord_value (OmegaPlus n) = [0, 0, 0, 1, unat n]"
| "ord_value (OmegaTimes k) = [0, 0, 0, unat k, 0]"
| "ord_value (OmegaTimesPlus k n) = [0, 0, 0, unat k, unat n]"
| "ord_value OmegaSquared = [0, 0, 1, 0, 0]"
| "ord_value (OmegaSquaredPlus a) = [0, 0, 1, ord_value a ! 3, ord_value a ! 4]"
| "ord_value (OmegaPow e) =
     (if e = 0 then [0, 0, 0, 0, 1] else if e = 1 then [0, 0, 0, 1, 0] else if e = 2 then [0, 0, 1, 0, 0]
      else [0, unat e, 0, 0, 0])"
| "ord_value (Kappa n) = [unat n + 1, 0, 0, 0, 0]"
| "ord_value (OSup _) = []"

fun cantor :: "ordinal \<Rightarrow> bool" where
  "cantor (OmegaSquaredPlus a) = (cantor a \<and> take 3 (ord_value a) = [0, 0, 0])"
| "cantor (OSup _) = False"
| "cantor _ = True"

fun normal :: "ordinal \<Rightarrow> bool" where
  "normal (OmegaPlus n) = (n \<noteq> 0)"
| "normal (OmegaTimes k) = (2 \<le> k)"
| "normal (OmegaTimesPlus k n) = (2 \<le> k \<and> n \<noteq> 0)"
| "normal (OmegaSquaredPlus a) = (normal a \<and> a \<noteq> Finite 0)"
| "normal (OmegaPow e) = (3 \<le> e)"
| "normal (OSup _) = False"
| "normal _ = True"

lemma ord_value_coefficients:
  assumes "cantor a"
  obtains p q r s t where "ord_value a = [p, q, r, s, t]"
proof -
  have "length (ord_value a) = 5" using assms by (cases a) auto
  then show thesis using that by (auto simp: length_Suc_conv numeral_eq_Suc)
qed

lemma u32_ge [simp]: "2 \<le> (n :: u32) \<longleftrightarrow> n \<noteq> 0 \<and> n \<noteq> 1" "3 \<le> n \<longleftrightarrow> n \<noteq> 0 \<and> n \<noteq> 1 \<and> n \<noteq> 2"
  by unat_arith+

lemma normalize_normal: "cantor a \<Longrightarrow> normal (ord_normalize a)"
  by (induction a) (auto simp: Let_def)

lemma normalize_value: "cantor a \<Longrightarrow> ord_value (ord_normalize a) = ord_value a"
proof (induction a)
  case (OmegaSquaredPlus a)
  then have "ord_value (ord_normalize a) = ord_value a" by simp
  then show ?case by (auto simp: Let_def dest: arg_cong [of _ _ "\<lambda>v. v ! 3"] arg_cong [of _ _ "\<lambda>v. v ! 4"])
qed auto

lemma normalize_cantor: "cantor a \<Longrightarrow> cantor (ord_normalize a)"
  using normalize_value by (induction a) (auto simp: Let_def)

lemma normalize_of_normal: "normal a \<Longrightarrow> ord_normalize a = a"
  by (induction a) auto

lemma u32_unat [simp]:
  "unat (n :: u32) = Suc 0 \<longleftrightarrow> n = 1" "unat (m :: u32) = unat n \<longleftrightarrow> m = n" "unat m < unat n \<longleftrightarrow> m < n"
  "Suc 0 < unat n \<longleftrightarrow> n \<noteq> 0 \<and> n \<noteq> 1" "unat n < Suc 0 \<longleftrightarrow> n = 0" "0 < unat n \<longleftrightarrow> n \<noteq> 0" "n < 2 \<longleftrightarrow> n = 0 \<or> n = 1"
  by unat_arith+

lemma low_value:
  assumes "cantor a" and "take 3 (ord_value a) = [0, 0, 0]"
  obtains m n where "ord_value a = [0, 0, 0, m, n]"
proof -
  obtain p q r s t where "ord_value a = [p, q, r, s, t]" using assms(1) by (rule ord_value_coefficients)
  with assms(2) show thesis by (auto intro: that)
qed

lemma low_value_nonzero:
  "normal a \<Longrightarrow> cantor a \<Longrightarrow> a \<noteq> Finite 0 \<Longrightarrow> take 3 (ord_value a) = [0, 0, 0] \<Longrightarrow> ord_value a ! 3 \<noteq> 0 \<or> ord_value a ! 4 \<noteq> 0"
  by (cases a) (auto split: if_splits)

lemma lt_raw_value:
  "normal a \<Longrightarrow> cantor a \<Longrightarrow> normal b \<Longrightarrow> cantor b \<Longrightarrow> lt_raw a b \<longleftrightarrow> ord_value a < ord_value b"
proof (induction a arbitrary: b)
  case (OmegaSquaredPlus x)
  show ?case
  proof (cases b)
    case b: (OmegaSquaredPlus y)
    obtain m n where x: "ord_value x = [0, 0, 0, m, n]" using OmegaSquaredPlus.prems by (auto elim: low_value)
    obtain m' n' where y: "ord_value y = [0, 0, 0, m', n']" using OmegaSquaredPlus.prems b by (auto elim: low_value)
    have "lt_raw x y \<longleftrightarrow> ord_value x < ord_value y" using OmegaSquaredPlus b by simp
    then show ?thesis using OmegaSquaredPlus.prems b
      by (subst lt_raw.simps) (simp add: normalize_of_normal x y)
  qed (use OmegaSquaredPlus.prems in \<open>simp add: lt_raw.simps\<close>)+
next
  case OmegaSquared
  then show ?case using low_value_nonzero by (cases b) (force simp: lt_raw.simps)+
next
  case (OSup parts)
  then show ?case by simp
next
  case (Finite n)
  then show ?case by (cases b; subst lt_raw.simps; auto simp: le_less)
next
  case Omega
  then show ?case by (cases b; subst lt_raw.simps; auto simp: le_less)
next
  case (OmegaPlus n)
  then show ?case by (cases b; subst lt_raw.simps; auto simp: le_less)
next
  case (OmegaTimes k)
  then show ?case by (cases b; subst lt_raw.simps; auto simp: le_less)
next
  case (OmegaTimesPlus k n)
  then show ?case by (cases b; subst lt_raw.simps; auto simp: le_less)
next
  case (OmegaPow e)
  then have "e \<noteq> 0" "e \<noteq> 1" "e \<noteq> 2" by auto
  then show ?case using OmegaPow.prems(3) by (cases b; subst lt_raw.simps; simp)
next
  case (Kappa n)
  then show ?case by (cases b; subst lt_raw.simps; auto simp: le_less)
qed

text \<open>A normal form is determined by its value.\<close>

definition low_of :: "nat \<Rightarrow> nat \<Rightarrow> ordinal" where
  "low_of m n = (if m = 0 then Finite (of_nat n) else if m = 1 then omega_plus (of_nat n)
     else if n = 0 then OmegaTimes (of_nat m) else OmegaTimesPlus (of_nat m) (of_nat n))"

definition ord_of :: "nat list \<Rightarrow> ordinal" where
  "ord_of v =
     (if v ! 0 \<noteq> 0 then Kappa (of_nat (v ! 0 - 1)) else if v ! 1 \<noteq> 0 then OmegaPow (of_nat (v ! 1))
      else if v ! 2 = 0 then low_of (v ! 3) (v ! 4)
      else if v ! 3 = 0 \<and> v ! 4 = 0 then OmegaSquared else OmegaSquaredPlus (low_of (v ! 3) (v ! 4)))"

lemma low_of_value:
  "normal a \<Longrightarrow> cantor a \<Longrightarrow> take 3 (ord_value a) = [0, 0, 0] \<Longrightarrow> low_of (ord_value a ! 3) (ord_value a ! 4) = a"
  by (cases a) (auto simp: low_of_def omega_plus_def numeral_eq_Suc split: if_splits)

lemma ord_of_value: "normal a \<Longrightarrow> cantor a \<Longrightarrow> ord_of (ord_value a) = a"
proof (cases a)
  case (OmegaSquaredPlus x)
  assume "normal a" "cantor a"
  then have "low_of (ord_value x ! 3) (ord_value x ! 4) = x" "x \<noteq> Finite 0"
    using OmegaSquaredPlus low_of_value by auto
  moreover have "low_of 0 0 = Finite 0" by (simp add: low_of_def)
  ultimately show ?thesis unfolding OmegaSquaredPlus by (cases "ord_value x ! 3 = 0"; cases "ord_value x ! 4 = 0") (simp_all add: ord_of_def)
qed (auto simp: ord_of_def low_of_def omega_plus_def)

lemma ord_lt_value: "cantor a \<Longrightarrow> cantor b \<Longrightarrow> ord_lt a b \<longleftrightarrow> ord_value a < ord_value b"
  unfolding ord_lt_def by (subst lt_raw_value) (simp_all add: normalize_normal normalize_cantor normalize_value)

subsection \<open>Properties\<close>

text \<open>C35: Comparison decides the order of ordinals: on ordinals without suprema \<open>lt\<close> holds exactly when
  the value of the first is smaller, so it is a strict linear order up to normalisation, and two
  ordinals have the same value exactly when they normalise alike.\<close>

theorem ordinal_lt_decides:
  assumes "cantor a" and "cantor b"
  shows "(ord_lt a b \<longleftrightarrow> ord_value a < ord_value b) \<and>
    (ord_normalize a = ord_normalize b \<longleftrightarrow> ord_value a = ord_value b) \<and> \<not> ord_lt a a \<and>
    (ord_lt a b \<or> ord_normalize a = ord_normalize b \<or> ord_lt b a) \<and>
    ord_normalize (ord_normalize a) = ord_normalize a \<and> ord_value (ord_normalize a) = ord_value a"
proof -
  note facts = normalize_normal normalize_cantor normalize_value
  have eq: "ord_normalize a = ord_normalize b \<longleftrightarrow> ord_value a = ord_value b"
    using assms facts ord_of_value by metis
  show ?thesis
    using ord_lt_value assms eq facts normalize_of_normal linorder_less_linear [of "ord_value a" "ord_value b"] by auto
qed

theorem ordinal_lt_decides_witness:
  "ord_lt (OmegaTimesPlus 3 5) (OmegaSquaredPlus (Finite 7)) \<and> \<not> ord_lt (OmegaPow 2) OmegaSquared"
  using ordinal_lt_decides [of "OmegaTimesPlus 3 5" "OmegaSquaredPlus (Finite 7)"] ordinal_lt_decides [of "OmegaPow 2" OmegaSquared]
  by simp

text \<open>The ordinals whose successor stays in Cantor normal form.\<close>

fun succ_domain :: "ordinal \<Rightarrow> bool" where
  "succ_domain (OmegaSquaredPlus a) = succ_domain a"
| "succ_domain (OmegaPow _) = False"
| "succ_domain (Kappa _) = False"
| "succ_domain (OSup _) = False"
| "succ_domain _ = True"

lemma succ_value:
  "cantor a \<Longrightarrow> succ_domain a \<Longrightarrow> ord_value a = [p, q, r, s, t] \<Longrightarrow> t < 2 ^ 32 - 1 \<Longrightarrow>
   cantor (ord_succ a) \<and> ord_value (ord_succ a) = [p, q, r, s, t + 1] \<and> \<not> is_limit (ord_succ a)"
proof (induction a arbitrary: p q r)
  case (OmegaSquaredPlus a)
  obtain m n where low: "ord_value a = [0, 0, 0, m, n]" using OmegaSquaredPlus.prems by (auto elim: low_value)
  then have "m = s" "n = t" "p = 0" "q = 0" "r = 1" using OmegaSquaredPlus.prems by auto
  then show ?case using OmegaSquaredPlus.IH [of 0 0 0] OmegaSquaredPlus.prems low by simp
next
  case (Finite n)
  then have "checked_add n 1 = Some (n + 1)" "unat (n + 1) = unat n + 1"
    by (auto simp: checked_add_def unat_word_ariths)
  then show ?case using Finite by simp
qed (auto simp: unat_saturating_add)

lemma value_gap:
  "[p, q, r, s, t] < [p, q, r, s, Suc t]"
  "[p, q, r, s, t] < [p', q', r', s', t'] \<Longrightarrow> \<not> [p', q', r', s', t'] < [p, q, r, s, Suc t :: nat]"
  by auto

text \<open>The successor adds one: below \<open>\<omega>\<^sup>3\<close>, when no power of \<open>\<omega>\<close> is written as such and the finite
  part is below its 32-bit maximum, the value of the successor is the value plus one, the successor
  is larger and no limit, and no ordinal without suprema lies between.\<close>

theorem ordinal_succ_next:
  assumes "cantor a" and "succ_domain a" and "ord_value a = [p, q, r, s, t]" and "t < 2 ^ 32 - 1"
  shows "ord_value (ord_succ a) = [p, q, r, s, t + 1] \<and> ord_lt a (ord_succ a) \<and>
    \<not> is_limit (ord_succ a) \<and> (\<forall>b. cantor b \<longrightarrow> \<not> (ord_lt a b \<and> ord_lt b (ord_succ a)))"
proof -
  note succ = succ_value [OF assms]
  have "\<not> (ord_lt a b \<and> ord_lt b (ord_succ a))" if b: "cantor b" for b
  proof -
    obtain p' q' r' s' t' where "ord_value b = [p', q', r', s', t']" using b by (rule ord_value_coefficients)
    then show ?thesis
      using value_gap(2) [of p q r s t p' q' r' s' t'] ord_lt_value [OF assms(1) b] ord_lt_value [OF b] succ assms(3)
      by (metis Suc_eq_plus1)
  qed
  moreover have "ord_lt a (ord_succ a)"
    using value_gap(1) [of p q r s t] ord_lt_value [OF assms(1)] succ assms(3) by (metis Suc_eq_plus1)
  ultimately show ?thesis using succ by blast
qed

theorem ordinal_succ_next_witness: "ord_lt (OmegaTimesPlus 3 5) (OmegaTimesPlus 3 6)"
  using ordinal_succ_next [of "OmegaTimesPlus 3 5" 0 0 0 3 5] by (simp add: saturating_add_def)

text \<open>Where the ordinals are not an order: the successor of an inaccessible is a supremum with it
  and 1, which is smaller than itself and counts as a limit; the successor of \<open>\<omega>\<close> plus the largest
  32-bit number is that ordinal again, and of the largest finite one is \<open>\<omega>\<close>; and two spellings of
  \<open>\<omega>\<^sup>2\<close> are neither smaller nor below or equal to each other.\<close>

theorem ordinal_anomalies:
  "ord_lt (ord_succ (Kappa n)) (ord_succ (Kappa n)) \<and> is_limit (ord_succ (Kappa n)) \<and>
   ord_succ (OmegaPlus (- 1)) = OmegaPlus (- 1) \<and> ord_succ (Finite (- 1)) = Omega \<and>
   ord_value (OmegaPow 2) = ord_value OmegaSquared \<and> \<not> ord_le (OmegaPow 2) OmegaSquared \<and> \<not> ord_le OmegaSquared (OmegaPow 2)"
proof -
  have "lt_raw (Finite 1) (Kappa n)" "lt_raw (Kappa n) (OSup [Kappa n, Finite 1])"
    by (subst lt_raw.simps, simp)+
  moreover have "lt_raw (Finite 1) (OSup [Kappa n, Finite 1])" by (subst lt_raw.simps) simp
  ultimately have "lt_raw (OSup [Kappa n, Finite 1]) (OSup [Kappa n, Finite 1])" by (subst lt_raw.simps) simp
  then have "ord_lt (ord_succ (Kappa n)) (ord_succ (Kappa n))" by (simp add: ord_lt_def)
  moreover have "\<not> lt_raw OmegaSquared OmegaSquared" by (subst lt_raw.simps) simp
  moreover have "saturating_add (- 1) (1 :: u32) = - 1" "checked_add (- 1) (1 :: u32) = None"
    by (simp_all add: saturating_add_def checked_add_def unat_max_word)
  ultimately show ?thesis by (simp add: ord_le_def ord_lt_def)
qed

end
