(* ===== verification/UniverseAscent.thy ===== *)
theory UniverseAscent
  imports Ordinals
begin

section \<open>The universe-ascent rule of the kernel\<close>

text \<open>
  Models \<open>crates/verum_kernel/src/universe_ascent.rs\<close> and the audit trail of \<open>diakrisis_bridge.rs\<close> that it
  writes: the three-tier rule, the rule over all inaccessible tiers that extends it, and the embedding
  of tiers into the ordinals.
\<close>

subsection \<open>Three tiers\<close>

datatype universe_tier = Truncated | Kappa1 | Kappa2

record universe_tier_meta =
  ut_name :: string
  ut_rank :: nat
  ut_successor_rank :: nat

definition kappa_glyph :: string where
  "kappa_glyph = [CHR 0xCE, CHR 0xBA]"

fun tier_meta :: "universe_tier \<Rightarrow> universe_tier_meta" where
  "tier_meta Truncated = \<lparr>ut_name = ''truncated'', ut_rank = 0, ut_successor_rank = 1\<rparr>"
| "tier_meta Kappa1 = \<lparr>ut_name = kappa_glyph @ ''_1'', ut_rank = 1, ut_successor_rank = 2\<rparr>"
| "tier_meta Kappa2 = \<lparr>ut_name = kappa_glyph @ ''_2'', ut_rank = 2, ut_successor_rank = 2\<rparr>"

definition ALL_TIERS :: "universe_tier list" where
  "ALL_TIERS = [Truncated, Kappa1, Kappa2]"

definition tier_as_str :: "universe_tier \<Rightarrow> string" where
  "tier_as_str t = ut_name (tier_meta t)"

definition tier_from_str :: "string \<Rightarrow> universe_tier option" where
  "tier_from_str s = List.find (\<lambda>v. ut_name (tier_meta v) = s) ALL_TIERS"

definition tier_rank :: "universe_tier \<Rightarrow> nat" where
  "tier_rank t = ut_rank (tier_meta t)"

definition tier_lt :: "universe_tier \<Rightarrow> universe_tier \<Rightarrow> bool" where
  "tier_lt s t \<longleftrightarrow> tier_rank s < tier_rank t"

definition tier_succ :: "universe_tier \<Rightarrow> universe_tier" where
  "tier_succ t = (case List.find (\<lambda>v. tier_rank v = ut_successor_rank (tier_meta t)) ALL_TIERS of
     Some v \<Rightarrow> v | None \<Rightarrow> t)"

datatype kernel_error = UniverseAscentInvalid string string string

definition check_universe_ascent :: "universe_tier \<Rightarrow> universe_tier \<Rightarrow> string \<Rightarrow> (kernel_error, unit) run" where
  "check_universe_ascent source target context_text =
     (let invalid = Err (UniverseAscentInvalid context_text (tier_as_str source) (tier_as_str target))
      in if source = Truncated \<and> target = Truncated then Ok ()
         else if source = Truncated \<and> target \<noteq> Truncated then invalid
         else if source = Kappa1 \<and> target = Kappa2 then Ok ()
         else if source = Kappa2 \<and> target = Kappa2 then Ok ()
         else if source = Kappa1 \<and> target = Kappa1 then Ok ()
         else invalid)"

subsection \<open>The audit trail\<close>

datatype bridge_id = ConfluenceOfModalRewrite | QuotientCanonicalRepresentative | CohesiveAdjunctionUnitCounit
  | EpsMuTauWitness | DrakeReflectionExtended

record bridge_admit =
  ba_bridge :: bridge_id
  ba_context :: string

type_synonym bridge_audit = "bridge_admit list"

definition audit_record :: "bridge_id \<Rightarrow> string \<Rightarrow> bridge_audit \<Rightarrow> bridge_audit" where
  "audit_record bridge ctx admits =
     (if list_ex (\<lambda>a. ba_bridge a = bridge \<and> ba_context a = ctx) admits then admits
      else admits @ [\<lparr>ba_bridge = bridge, ba_context = ctx\<rparr>])"

definition audit_new :: bridge_audit where
  "audit_new = []"

fun as_audit_str :: "bridge_id \<Rightarrow> string" where
  "as_audit_str ConfluenceOfModalRewrite = ''diakrisis-16.10''"
| "as_audit_str QuotientCanonicalRepresentative = ''diakrisis-16.7''"
| "as_audit_str CohesiveAdjunctionUnitCounit = ''diakrisis-14.3''"
| "as_audit_str EpsMuTauWitness = ''diakrisis-A-3''"
| "as_audit_str DrakeReflectionExtended = ''diakrisis-131.L4''"

definition audit_is_decidable :: "bridge_audit \<Rightarrow> bool" where
  "audit_is_decidable admits = (admits = [])"

definition audit_bridges :: "bridge_audit \<Rightarrow> string list" where
  "audit_bridges admits = dedup (sort_by cmp (map (\<lambda>a. as_audit_str (ba_bridge a)) admits))"

text \<open>The four admits that pass a term of the rule-based kernel through; the term is an argument of any type.\<close>

definition admit_confluence_of_modal_rewrite :: "bridge_audit \<Rightarrow> string \<Rightarrow> 't \<Rightarrow> bridge_audit \<times> 't" where
  "admit_confluence_of_modal_rewrite admits ctx t = (audit_record ConfluenceOfModalRewrite ctx admits, t)"

definition admit_quotient_canonical_representative :: "bridge_audit \<Rightarrow> string \<Rightarrow> 't \<Rightarrow> bridge_audit \<times> 't" where
  "admit_quotient_canonical_representative admits ctx t =
     (audit_record QuotientCanonicalRepresentative ctx admits, t)"

definition admit_cohesive_adjunction_unit_counit :: "bridge_audit \<Rightarrow> string \<Rightarrow> 't \<Rightarrow> bridge_audit \<times> 't" where
  "admit_cohesive_adjunction_unit_counit admits ctx t =
     (audit_record CohesiveAdjunctionUnitCounit ctx admits, t)"

definition admit_eps_mu_tau_witness :: "bridge_audit \<Rightarrow> string \<Rightarrow> 't \<Rightarrow> bridge_audit \<times> 't" where
  "admit_eps_mu_tau_witness admits ctx t = (audit_record EpsMuTauWitness ctx admits, t)"

definition admit_drake_reflection_extended :: "bridge_audit \<Rightarrow> string \<Rightarrow> bridge_audit" where
  "admit_drake_reflection_extended audit ctx = audit_record DrakeReflectionExtended ctx audit"

subsection \<open>All inaccessible tiers\<close>

datatype kappa_tier = KTruncated | KappaN u32

fun kappa_render :: "kappa_tier \<Rightarrow> string" where
  "kappa_render KTruncated = ''truncated''"
| "kappa_render (KappaN n) = kappa_glyph @ ''_'' @ show_nat (unat n)"

fun kappa_lt :: "kappa_tier \<Rightarrow> kappa_tier \<Rightarrow> bool" where
  "kappa_lt KTruncated (KappaN _) = True"
| "kappa_lt KTruncated KTruncated = False"
| "kappa_lt (KappaN _) KTruncated = False"
| "kappa_lt (KappaN a) (KappaN b) = (a < b)"

fun kappa_succ :: "kappa_tier \<Rightarrow> kappa_tier" where
  "kappa_succ KTruncated = KappaN 1"
| "kappa_succ (KappaN n) = KappaN (saturating_add n 1)"

fun to_ordinal :: "kappa_tier \<Rightarrow> ordinal" where
  "to_ordinal KTruncated = Finite 0"
| "to_ordinal (KappaN n) = Kappa n"

definition from_ordinal :: "ordinal \<Rightarrow> kappa_tier option" where
  "from_ordinal a = (case ord_normalize a of
     Finite n \<Rightarrow> if n = 0 then Some KTruncated else None
   | Kappa n \<Rightarrow> Some (KappaN n)
   | _ \<Rightarrow> None)"

fun kappa_is_regular :: "kappa_tier \<Rightarrow> bool" where
  "kappa_is_regular KTruncated = False"
| "kappa_is_regular (KappaN _) = True"

fun kappa_is_inaccessible :: "kappa_tier \<Rightarrow> bool" where
  "kappa_is_inaccessible KTruncated = False"
| "kappa_is_inaccessible (KappaN _) = True"

fun kappa_of_tier :: "universe_tier \<Rightarrow> kappa_tier" where
  "kappa_of_tier Truncated = KTruncated"
| "kappa_of_tier Kappa1 = KappaN 1"
| "kappa_of_tier Kappa2 = KappaN 2"

definition check_universe_ascent_v2 ::
  "kappa_tier \<Rightarrow> kappa_tier \<Rightarrow> bridge_audit \<Rightarrow> string \<Rightarrow> (kernel_error, unit) run \<times> bridge_audit" where
  "check_universe_ascent_v2 source target audit context_text =
     (let invalid = (Err (UniverseAscentInvalid context_text (kappa_render source) (kappa_render target)), audit)
      in if source = KTruncated \<and> target = KTruncated then (Ok (), audit)
         else case source of
           KTruncated \<Rightarrow> invalid
         | KappaN s \<Rightarrow>
             (case target of
                KTruncated \<Rightarrow> invalid
              | KappaN t \<Rightarrow>
                  if t < s then invalid
                  else if (s, t) \<in> {(1, 2), (2, 2), (1, 1)} then (Ok (), audit)
                  else (Ok (), admit_drake_reflection_extended audit context_text)))"

subsection \<open>Properties\<close>

lemma audit_record_member: "\<exists>a \<in> set (audit_record b c admits). ba_bridge a = b \<and> ba_context a = c"
  by (auto simp: audit_record_def list_ex_iff)

lemma audit_record_subset: "set admits \<subseteq> set (audit_record b c admits)"
  by (auto simp: audit_record_def)

text \<open>
  The report of an audit: recording only ever adds, an entry is recorded once, and the list of bridges
  is sorted, free of duplicates and names exactly the bridges that were used.
\<close>

lemma audit_record_distinct: "distinct admits \<Longrightarrow> distinct (audit_record b c admits)"
  by (auto simp: audit_record_def list_ex_iff)

lemma strict_sorted_dedup: "sorted (xs :: 'a::linorder list) \<Longrightarrow> sorted_wrt (<) (dedup xs)"
  by (induction xs rule: remdups_adj.induct) (auto simp: order_less_le)

lemma audit_bridges_report:
  "sorted_wrt (<) (audit_bridges admits) \<and>
   set (audit_bridges admits) = as_audit_str ` ba_bridge ` set admits \<and>
   (audit_bridges admits = []) = audit_is_decidable admits"
proof -
  have "audit_bridges admits = remdups_adj (sort (map (\<lambda>a. as_audit_str (ba_bridge a)) admits))"
    unfolding audit_bridges_def by (subst sort_by_sort) simp_all
  moreover have "(sort (map (\<lambda>a. as_audit_str (ba_bridge a)) admits) = []) = (admits = [])"
    by (metis length_0_conv length_map length_sort)
  ultimately show ?thesis
    by (auto simp: audit_is_decidable_def strict_sorted_dedup)
qed

lemma show_small [simp]: "show_nat (Suc 0) = ''1''" "show_nat 2 = ''2''"
proof -
  have "digit_char 1 = CHR ''1''" "digit_char 2 = CHR ''2''" by code_simp+
  then show "show_nat (Suc 0) = ''1''" "show_nat 2 = ''2''" by (simp_all add: show_nat.simps)
qed

lemma decided_ascents:
  assumes "(s, t) \<in> {(KTruncated, KTruncated), (KappaN 1, KappaN 2), (KappaN 2, KappaN 2), (KappaN 1, KappaN 1)}"
  shows "\<exists>u w. s = kappa_of_tier u \<and> t = kappa_of_tier w \<and> check_universe_ascent u w ctx = Ok ()"
proof -
  have "check_universe_ascent Truncated Truncated ctx = Ok ()" "check_universe_ascent Kappa1 Kappa2 ctx = Ok ()"
    "check_universe_ascent Kappa2 Kappa2 ctx = Ok ()" "check_universe_ascent Kappa1 Kappa1 ctx = Ok ()"
    by (simp_all add: check_universe_ascent_def)
  with assms show ?thesis by (metis Pair_inject insertE empty_iff kappa_of_tier.simps)
qed

text \<open>C36: The extended rule is conservative: on the three tiers it decides, with the same errors and an
  untouched audit trail, exactly what the three-tier rule decides. Beyond them it never accepts an
  inversion of tiers, keeps what the trail holds, and accepts without an entry for the extended
  reflection only the identity of the base and the three decided ascents.\<close>

theorem universe_ascent_conservative:
  "check_universe_ascent_v2 (kappa_of_tier u) (kappa_of_tier w) audit ctx = (check_universe_ascent u w ctx, audit) \<and>
   (check_universe_ascent_v2 s t audit ctx = (Ok (), audit') \<longrightarrow>
      \<not> kappa_lt t s \<and> (s = KTruncated \<longleftrightarrow> t = KTruncated) \<and> set audit \<subseteq> set audit' \<and>
      ((\<exists>a \<in> set audit'. ba_bridge a = DrakeReflectionExtended \<and> ba_context a = ctx) \<or>
       (\<exists>u w. s = kappa_of_tier u \<and> t = kappa_of_tier w \<and> check_universe_ascent u w ctx = Ok ())))"
proof (intro conjI impI)
  show "check_universe_ascent_v2 (kappa_of_tier u) (kappa_of_tier w) audit ctx = (check_universe_ascent u w ctx, audit)"
    by (cases u; cases w) (simp_all add: check_universe_ascent_v2_def check_universe_ascent_def Let_def tier_as_str_def)
next
  assume ok: "check_universe_ascent_v2 s t audit ctx = (Ok (), audit')"
  show "\<not> kappa_lt t s" "s = KTruncated \<longleftrightarrow> t = KTruncated" "set audit \<subseteq> set audit'"
    using ok audit_record_subset [of audit]
    by (cases s; cases t; auto simp: check_universe_ascent_v2_def Let_def admit_drake_reflection_extended_def split: if_splits)+
  show "(\<exists>a \<in> set audit'. ba_bridge a = DrakeReflectionExtended \<and> ba_context a = ctx) \<or>
       (\<exists>u w. s = kappa_of_tier u \<and> t = kappa_of_tier w \<and> check_universe_ascent u w ctx = Ok ())"
  proof (rule disjCI)
    assume "\<not> (\<exists>u w. s = kappa_of_tier u \<and> t = kappa_of_tier w \<and> check_universe_ascent u w ctx = Ok ())"
    then have "(s, t) \<notin> {(KTruncated, KTruncated), (KappaN 1, KappaN 2), (KappaN 2, KappaN 2), (KappaN 1, KappaN 1)}"
      using decided_ascents by metis
    then show "\<exists>a \<in> set audit'. ba_bridge a = DrakeReflectionExtended \<and> ba_context a = ctx"
      using ok audit_record_member [of DrakeReflectionExtended ctx audit]
      by (cases s; cases t) (auto simp: check_universe_ascent_v2_def Let_def admit_drake_reflection_extended_def split: if_splits)
  qed
qed

theorem universe_ascent_conservative_witness:
  "check_universe_ascent_v2 (KappaN 1) (KappaN 2) [] ''x'' = (Ok (), []) \<and>
   check_universe_ascent_v2 (KappaN 2) (KappaN 3) [] ''x'' =
     (Ok (), [\<lparr>ba_bridge = DrakeReflectionExtended, ba_context = ''x''\<rparr>])"
  using universe_ascent_conservative [of Kappa1 Kappa2 "[]" "''x''"]
  by (simp add: check_universe_ascent_def check_universe_ascent_v2_def admit_drake_reflection_extended_def audit_record_def)

text \<open>Tiers are ordinals: the order of tiers is the order of the ordinals they stand for, the way
  back recovers the tier, and below the 32-bit maximum the successor of an inaccessible tier is the
  next inaccessible ordinal.\<close>

theorem kappa_tier_embeds:
  "(kappa_lt s t \<longleftrightarrow> ord_lt (to_ordinal s) (to_ordinal t)) \<and> from_ordinal (to_ordinal t) = Some t \<and>
   to_ordinal (kappa_succ (KappaN n)) = next_inaccessible (Kappa n) \<and>
   (kappa_is_inaccessible t \<longleftrightarrow> is_inaccessible (to_ordinal t)) \<and> (kappa_is_regular t \<longleftrightarrow> is_regular (to_ordinal t))"
proof -
  have "kappa_lt s t \<longleftrightarrow> ord_lt (to_ordinal s) (to_ordinal t)"
    by (cases s; cases t) (simp_all add: ord_lt_value)
  then show ?thesis by (cases t) (simp_all add: from_ordinal_def)
qed

end
