(* ===== verification/Bytecode.thy ===== *)
theory Bytecode
  imports Prelude
begin

section \<open>Binary encoding of the bytecode\<close>

text \<open>
  The primitives of \<open>crates/verum_vbc/src/encoding.rs\<close>, from which every section of a bytecode
  module is written and read: variable-length integers and their zigzag form, fixed-width
  little-endian integers, registers, register ranges and length-prefixed strings.

  An encoder takes the output vector and returns it extended. A decoder takes the data and the
  offset and returns its result together with the offset it leaves behind, also when it fails,
  because the code advances \<open>*offset\<close> before it looks at a byte. A slice and an offset into it are
  a list and a natural number; \<open>usize\<close> has the width \<open>w\<close> of a pointer where a length is converted
  to it. A floating-point number is its bit pattern, which is what \<open>to_le_bytes\<close> writes. A
  \<open>String\<close> is its bytes, checked by \<open>from_utf8\<close> of the standard library.

  After the definitions: the reference reading of a group of seven-bit digits, that the decoder
  computes it, and what the encoder writes and how many bytes. \<open>BytecodeCodecs\<close> states the
  contract of the pairs.
\<close>

unbundle bit_operations_syntax

type_synonym u8 = "8 word"
type_synonym u16 = "16 word"
type_synonym i64 = "64 word"

subsection \<open>Errors and decoders\<close>

record utf8_error =
  valid_up_to :: nat
  error_len :: "nat option"

datatype vbc_error =
  UnexpectedEof nat nat
| VarIntOverflow nat
| InvalidUtf8 u32 "u8 list" utf8_error

abbreviation eof :: "nat \<Rightarrow> nat \<Rightarrow> vbc_error" where
  "eof \<equiv> UnexpectedEof"

type_synonym 'a byte_decoder = "u8 list \<Rightarrow> nat \<Rightarrow> (vbc_error, 'a) run \<times> nat"

text \<open>The question mark inside a function that also carries a state: the state survives an error.\<close>

definition state_bind ::
    "('e, 'a) run \<times> 's \<Rightarrow> ('a \<Rightarrow> 's \<Rightarrow> ('e, 'b) run \<times> 's) \<Rightarrow> ('e, 'b) run \<times> 's" where
  "state_bind r f =
     (case r of (Ok x, s) \<Rightarrow> f x s | (Err e, s) \<Rightarrow> (Err e, s) | (NoFuel, s) \<Rightarrow> (NoFuel, s))"

lemma state_bind_simps [simp]:
  "state_bind (Ok x, s) f = f x s"
  "state_bind (Err e, s) f = (Err e, s)"
  "state_bind (NoFuel, s) f = (NoFuel, s)"
  by (simp_all add: state_bind_def)

lemma state_bind_fundef_cong [fundef_cong]:
  "r = r' \<Longrightarrow> (\<And>x s. r' = (Ok x, s) \<Longrightarrow> f x s = g x s) \<Longrightarrow> state_bind r f = state_bind r' g"
  by (cases r'; cases "fst r'") auto

subsection \<open>Variable-length integers\<close>

lemma drop_seven_less:
  assumes "0x80 \<le> (v :: u64)"
  shows "unat (drop_bit 7 v) < unat v"
proof -
  have "unat v div 2 ^ 7 < unat v"
    using assms by (simp add: word_le_nat_alt)
  then show ?thesis
    by (simp add: unat_drop_bit_eq drop_bit_eq_div unat_div)
qed

function encode_varint_loop :: "u64 \<Rightarrow> u8 list \<Rightarrow> u8 list" where
  "encode_varint_loop v out =
     (if 0x80 \<le> v then encode_varint_loop (drop_bit 7 v) (out @ [ucast v OR 0x80])
      else out @ [ucast v])"
  by pat_completeness auto
termination
  by (relation "measure (\<lambda>(v, out). unat v)") (auto simp: drop_seven_less)

definition encode_varint :: "u64 \<Rightarrow> u8 list \<Rightarrow> u8 list \<times> nat" where
  "encode_varint value out =
     (let out' = encode_varint_loop value out in (out', length out' - length out))"

function decode_varint_loop :: "nat \<Rightarrow> u64 \<Rightarrow> nat \<Rightarrow> u64 byte_decoder" where
  "decode_varint_loop start res shift data off =
     (if length data \<le> off then (Err (eof off 1), off)
      else
        let b = data ! off; off' = off + 1 in
        if shift = 63 \<and> b AND 0x7E \<noteq> 0 then (Err (VarIntOverflow start), off')
        else
          let res' = res OR push_bit shift (ucast (b AND 0x7F)) in
          if b AND 0x80 = 0 then (Ok res', off')
          else if 64 \<le> shift + 7 then (Err (VarIntOverflow start), off')
          else decode_varint_loop start res' (shift + 7) data off')"
  by pat_completeness auto
termination
  by (relation "measure (\<lambda>(start, res, shift, data, off). length data - off)") auto

definition decode_varint :: "u64 byte_decoder" where
  "decode_varint data off = decode_varint_loop off 0 0 data off"

declare encode_varint_loop.simps [simp del] decode_varint_loop.simps [simp del]

text \<open>
  The same two loops over a stream. A writer is the function \<open>write_all\<close> of its \<open>Write\<close>
  implementation, a reader the function that fills a one-byte buffer by \<open>read_exact\<close>; both return
  the state of the stream also when they fail.
\<close>

datatype 'e stream_error = InvalidData string | StreamError 'e

function write_varint_loop ::
    "('w \<Rightarrow> u8 list \<Rightarrow> ('e, unit) run \<times> 'w) \<Rightarrow> u64 \<Rightarrow> nat \<Rightarrow> 'w \<Rightarrow> ('e, nat) run \<times> 'w" where
  "write_varint_loop write_all v n wr =
     (if 0x80 \<le> v
      then state_bind (write_all wr [ucast v OR 0x80])
             (\<lambda>_ wr'. write_varint_loop write_all (drop_bit 7 v) (n + 1) wr')
      else state_bind (write_all wr [ucast v]) (\<lambda>_ wr'. (Ok (n + 1), wr')))"
  by pat_completeness auto
termination
  by (relation "measure (\<lambda>(write_all, v, n, wr). unat v)") (auto simp: drop_seven_less)

definition write_varint ::
    "('w \<Rightarrow> u8 list \<Rightarrow> ('e, unit) run \<times> 'w) \<Rightarrow> u64 \<Rightarrow> 'w \<Rightarrow> ('e, nat) run \<times> 'w" where
  "write_varint write_all v wr = write_varint_loop write_all v 0 wr"

function read_varint_loop ::
    "('r \<Rightarrow> ('e stream_error, u8) run \<times> 'r) \<Rightarrow> u64 \<Rightarrow> nat \<Rightarrow> 'r \<Rightarrow>
     ('e stream_error, u64) run \<times> 'r" where
  "read_varint_loop read_byte res shift rd =
     state_bind (read_byte rd) (\<lambda>b rd'.
       if shift = 63 \<and> b AND 0x7E \<noteq> 0
       then (Err (InvalidData ''VarInt overflow: byte[9] bits 1..6 must be zero for u64''), rd')
       else
         let res' = res OR push_bit shift (ucast (b AND 0x7F)) in
         if b AND 0x80 = 0 then (Ok res', rd')
         else if 64 \<le> shift + 7 then (Err (InvalidData ''VarInt overflow''), rd')
         else read_varint_loop read_byte res' (shift + 7) rd')"
  by pat_completeness auto
termination
  by (relation "measure (\<lambda>(read_byte, res, shift, rd). 64 - shift)") auto

definition read_varint ::
    "('r \<Rightarrow> ('e stream_error, u8) run \<times> 'r) \<Rightarrow> 'r \<Rightarrow> ('e stream_error, u64) run \<times> 'r" where
  "read_varint read_byte rd = read_varint_loop read_byte 0 0 rd"

declare write_varint_loop.simps [simp del] read_varint_loop.simps [simp del]

subsection \<open>Signed integers\<close>

definition zigzag :: "i64 \<Rightarrow> u64" where
  "zigzag value = push_bit 1 value XOR signed_drop_bit 63 value"

definition encode_signed_varint :: "i64 \<Rightarrow> u8 list \<Rightarrow> u8 list \<times> nat" where
  "encode_signed_varint value out = encode_varint (zigzag value) out"

definition decode_signed_varint :: "i64 byte_decoder" where
  "decode_signed_varint data off =
     state_bind (decode_varint data off) (\<lambda>z off. (Ok (drop_bit 1 z XOR - (z AND 1)), off))"

subsection \<open>Fixed width\<close>

definition to_le_bytes :: "'a::len word \<Rightarrow> u8 list" where
  "to_le_bytes v = map (\<lambda>i. ucast (drop_bit (8 * i) v)) [0..<LENGTH('a) div 8]"

fun from_le_bytes :: "u8 list \<Rightarrow> 'a::len word" where
  "from_le_bytes [] = 0"
| "from_le_bytes (b # bs) = ucast b OR push_bit 8 (from_le_bytes bs)"

definition decode_fixed :: "nat \<Rightarrow> u8 list byte_decoder" where
  "decode_fixed n data off =
     (if off \<le> length data \<and> n \<le> length (drop off data)
      then (Ok (take n (drop off data)), off + n) else (Err (eof off n), off))"

definition encode_u16 :: "u16 \<Rightarrow> u8 list \<Rightarrow> u8 list" where
  "encode_u16 value out = out @ to_le_bytes value"

definition decode_u16 :: "u16 byte_decoder" where
  "decode_u16 data off = state_bind (decode_fixed 2 data off) (\<lambda>bs off. (Ok (from_le_bytes bs), off))"

definition encode_u32 :: "u32 \<Rightarrow> u8 list \<Rightarrow> u8 list" where
  "encode_u32 value out = out @ to_le_bytes value"

definition decode_u32 :: "u32 byte_decoder" where
  "decode_u32 data off = state_bind (decode_fixed 4 data off) (\<lambda>bs off. (Ok (from_le_bytes bs), off))"

definition encode_u64 :: "u64 \<Rightarrow> u8 list \<Rightarrow> u8 list" where
  "encode_u64 value out = out @ to_le_bytes value"

definition decode_u64 :: "u64 byte_decoder" where
  "decode_u64 data off = state_bind (decode_fixed 8 data off) (\<lambda>bs off. (Ok (from_le_bytes bs), off))"

definition encode_i64 :: "i64 \<Rightarrow> u8 list \<Rightarrow> u8 list" where
  "encode_i64 value out = out @ to_le_bytes value"

definition decode_i64 :: "i64 byte_decoder" where
  "decode_i64 data off = state_bind (decode_fixed 8 data off) (\<lambda>bs off. (Ok (from_le_bytes bs), off))"

definition encode_f64 :: "u64 \<Rightarrow> u8 list \<Rightarrow> u8 list" where
  "encode_f64 bits out = out @ to_le_bytes bits"

definition decode_f64 :: "u64 byte_decoder" where
  "decode_f64 data off = state_bind (decode_fixed 8 data off) (\<lambda>bs off. (Ok (from_le_bytes bs), off))"

definition decode_f32 :: "u32 byte_decoder" where
  "decode_f32 data off = state_bind (decode_fixed 4 data off) (\<lambda>bs off. (Ok (from_le_bytes bs), off))"

definition decode_u8 :: "u8 byte_decoder" where
  "decode_u8 data off =
     (if length data \<le> off then (Err (eof off 1), off) else (Ok (data ! off), off + 1))"

subsection \<open>Registers\<close>

datatype reg = Reg (reg_index: u16)

record reg_range =
  range_start :: reg
  range_count :: u8

definition REG_MAX :: u16 where
  "REG_MAX = 16383"

definition is_short :: "reg \<Rightarrow> bool" where
  "is_short r = (reg_index r < 128)"

definition encode_reg :: "reg \<Rightarrow> u8 list \<Rightarrow> u8 list" where
  "encode_reg r out =
     (if reg_index r < 128 then out @ [ucast (reg_index r)]
      else out @ [0x80 OR ucast (drop_bit 8 (reg_index r))] @ [ucast (reg_index r)])"

definition decode_reg :: "reg byte_decoder" where
  "decode_reg data off =
     state_bind (decode_u8 data off) (\<lambda>b off.
       if b AND 0x80 = 0 then (Ok (Reg (ucast b)), off)
       else
         let high = push_bit 8 (ucast (b AND 0x7F)) in
         state_bind (decode_u8 data off) (\<lambda>low off. (Ok (Reg (high OR ucast low)), off)))"

definition encode_reg_range :: "reg_range \<Rightarrow> u8 list \<Rightarrow> u8 list" where
  "encode_reg_range r out = encode_reg (range_start r) out @ [range_count r]"

definition decode_reg_range :: "reg_range byte_decoder" where
  "decode_reg_range data off =
     state_bind (decode_reg data off) (\<lambda>start off.
       state_bind (decode_u8 data off) (\<lambda>n off.
         (Ok \<lparr>range_start = start, range_count = n\<rparr>, off)))"

subsection \<open>Strings\<close>

text \<open>
  \<open>String::from_utf8\<close>: the length of the character at the head, or the length of the error
  (\<open>None\<close> when the bytes end inside a character), by the table of well-formed byte sequences.
\<close>

definition is_continuation :: "u8 \<Rightarrow> bool" where
  "is_continuation b = (0x80 \<le> b \<and> b \<le> 0xBF)"

definition char_width :: "u8 \<Rightarrow> nat" where
  "char_width b =
     (if b < 0x80 then 1 else if 0xC2 \<le> b \<and> b \<le> 0xDF then 2
      else if 0xE0 \<le> b \<and> b \<le> 0xEF then 3 else if 0xF0 \<le> b \<and> b \<le> 0xF4 then 4 else 0)"

definition second_ok :: "u8 \<Rightarrow> u8 \<Rightarrow> bool" where
  "second_ok b c =
     (if b = 0xE0 then 0xA0 \<le> c \<and> c \<le> 0xBF else if b = 0xED then 0x80 \<le> c \<and> c \<le> 0x9F
      else if b = 0xF0 then 0x90 \<le> c \<and> c \<le> 0xBF else if b = 0xF4 then 0x80 \<le> c \<and> c \<le> 0x8F
      else is_continuation c)"

fun tail_error :: "nat \<Rightarrow> nat \<Rightarrow> u8 list \<Rightarrow> nat option option" where
  "tail_error k 0 bs = None"
| "tail_error k (Suc n) [] = Some None"
| "tail_error k (Suc n) (b # bs) = (if is_continuation b then tail_error (k + 1) n bs else Some (Some k))"

definition head_error :: "u8 \<Rightarrow> u8 list \<Rightarrow> nat option option" where
  "head_error b bs =
     (if char_width b = 1 then None
      else if char_width b = 0 then Some (Some 1)
      else case bs of [] \<Rightarrow> Some None
           | c # cs \<Rightarrow> if second_ok b c then tail_error 2 (char_width b - 2) cs else Some (Some 1))"

function utf8_check :: "nat \<Rightarrow> u8 list \<Rightarrow> utf8_error option" where
  "utf8_check pos [] = None"
| "utf8_check pos (b # bs) =
     (case head_error b bs of
        Some e \<Rightarrow> Some \<lparr>valid_up_to = pos, error_len = e\<rparr>
      | None \<Rightarrow> utf8_check (pos + char_width b) (drop (char_width b - 1) bs))"
  by pat_completeness auto
termination
  by (relation "measure (\<lambda>(pos, bs). length bs)") auto

definition from_utf8 :: "u8 list \<Rightarrow> utf8_error + u8 list" where
  "from_utf8 bs = (case utf8_check 0 bs of None \<Rightarrow> Inr bs | Some e \<Rightarrow> Inl e)"

definition usize_try_from :: "nat \<Rightarrow> u64 \<Rightarrow> nat option" where
  "usize_try_from w n = (if unat n < 2 ^ w then Some (unat n) else None)"

definition encode_string :: "u8 list \<Rightarrow> u8 list \<Rightarrow> u8 list" where
  "encode_string s out = fst (encode_varint (of_nat (length s)) out) @ s"

definition decode_payload_range :: "nat \<Rightarrow> (nat \<times> nat) byte_decoder" where
  "decode_payload_range w data off =
     state_bind (decode_varint data off) (\<lambda>encoded_len start.
       case usize_try_from w encoded_len of
         None \<Rightarrow> (Err (eof start (2 ^ w - 1)), start)
       | Some len \<Rightarrow>
           if length data - start < len then (Err (eof start len), start)
           else (Ok (start, start + len), start + len))"

definition decode_string :: "nat \<Rightarrow> u8 list byte_decoder" where
  "decode_string w data off =
     state_bind (decode_payload_range w data off) (\<lambda>(start, stop) off.
       let bytes = take (stop - start) (drop start data) in
       case from_utf8 bytes of
         Inr s \<Rightarrow> (Ok s, off)
       | Inl e \<Rightarrow> (Err (InvalidUtf8 (of_nat start) bytes e), off))"

definition decode_bytes :: "nat \<Rightarrow> u8 list byte_decoder" where
  "decode_bytes w data off =
     state_bind (decode_payload_range w data off) (\<lambda>(start, stop) off.
       (Ok (take (stop - start) (drop start data)), off))"

subsection \<open>Sizes\<close>

definition leading_zeros :: "u64 \<Rightarrow> nat" where
  "leading_zeros v = length (takeWhile (\<lambda>i. \<not> bit v i) (rev [0..<64]))"

definition varint_size :: "u64 \<Rightarrow> nat" where
  "varint_size value =
     (if value = 0 then 1
      else let bits = 64 - leading_zeros value in (bits + 6) div 7)"

definition signed_varint_size :: "i64 \<Rightarrow> nat" where
  "signed_varint_size value = varint_size (zigzag value)"

definition reg_size :: "reg \<Rightarrow> nat" where
  "reg_size r = (if reg_index r < 128 then 1 else 2)"

subsection \<open>Bits of a byte\<close>

lemma or_push_bit_nat:
  fixes a b :: nat
  assumes "a < 2 ^ n"
  shows "a OR push_bit n b = a + b * 2 ^ n"
proof -
  have "a AND push_bit n b = take_bit n a AND push_bit n b"
    using assms by (simp add: take_bit_nat_eq_self)
  also have "\<dots> = 0"
    by (rule bit_eqI) (auto simp: bit_simps)
  finally show ?thesis
    by (simp add: disjunctive_add_eq_or [symmetric] push_bit_eq_mult)
qed

lemma unat_or_push_bit:
  fixes a b :: "'a::len word"
  assumes "unat a < 2 ^ n" "unat a + unat b * 2 ^ n < 2 ^ LENGTH('a)"
  shows "unat (a OR push_bit n b) = unat a + unat b * 2 ^ n"
proof -
  have "unat b * 2 ^ n < 2 ^ LENGTH('a)"
    using assms(2) by simp
  then have "unat (push_bit n b) = push_bit n (unat b)"
    unfolding unsigned_push_bit_eq by (simp add: push_bit_eq_mult take_bit_nat_eq_self)
  then show ?thesis
    using or_push_bit_nat [OF assms(1), of "unat b"] by (simp add: unsigned_or_eq)
qed

lemma unat_and_mask: "unat (a AND mask n :: 'a::len word) = unat a mod 2 ^ n"
  by (simp flip: take_bit_eq_mask take_bit_eq_mod add: unsigned_take_bit_eq)

lemma low_bits: "unat (b AND 0x7F :: u8) = unat b mod 128"
  using unat_and_mask [of b 7] by (simp add: mask_eq_exp_minus_1)

lemma bit_test: "(a AND 2 ^ n = (0 :: 'a::len word)) = (\<not> bit a n)"
  by (simp add: and_exp_eq_0_iff_not_bit)

lemma bit_unsigned_nat: "bit (unat a) n = bit (a :: 'a::len word) n"
  by (auto simp: bit_unsigned_iff possible_bit_def dest: bit_imp_le_length)

lemma high_bit: "(b AND 0x80 = (0 :: u8)) = (unat b < 128)"
proof -
  have "bit b 7 = odd (unat b div 2 ^ 7)"
    unfolding bit_unsigned_nat [symmetric] by (simp add: bit_iff_odd)
  moreover have "unat b div 2 ^ 7 < 2"
    using unat_bound [of b] by simp
  ultimately show ?thesis
    using bit_test [of b 7] by (auto simp: less_2_cases_iff div_eq_0_iff)
qed

lemma middle_bits: "(b AND 0x7E = (0 :: u8)) = (unat b mod 128 < 2)"
proof -
  have "unat (b AND 0x7E) = unat b AND 126"
    by (simp add: unsigned_and_eq)
  also have "\<dots> = 2 * (unat b div 2 AND mask 6)"
    by (subst and_rec) (simp add: mask_eq_exp_minus_1)
  also have "\<dots> = 2 * (unat b div 2 mod 64)"
    by (simp flip: take_bit_eq_mask add: take_bit_eq_mod)
  finally have "unat (b AND 0x7E) = 2 * (unat b div 2 mod 64)" .
  then have "(b AND 0x7E = 0) = (unat b div 2 mod 64 = 0)"
    unfolding unat_eq_0 [symmetric] by simp
  also have "\<dots> = (unat b mod 128 < 2)"
    using mod_mult2_eq [of "unat b" 2 64] by (auto simp: less_2_cases_iff)
  finally show ?thesis .
qed

subsection \<open>The reference: a group of seven-bit digits\<close>

text \<open>
  A group is a run of bytes with the high bit set and the byte that ends it; its value is the number
  whose digits in base 128 are the low seven bits, least significant first, in unbounded arithmetic.
\<close>

definition continues :: "u8 \<Rightarrow> bool" where
  "continues b = (128 \<le> unat b)"

fun varint_value :: "u8 list \<Rightarrow> nat" where
  "varint_value [] = 0"
| "varint_value (b # bs) = unat b mod 128 + 128 * varint_value bs"

definition read_group :: "nat \<Rightarrow> nat \<Rightarrow> nat \<Rightarrow> u64 byte_decoder" where
  "read_group start i acc data off =
     (let rest = drop off data; k = length (takeWhile continues rest); v = acc + 128 ^ i * varint_value (take (k + 1) rest)
      in if 10 \<le> i + k then (Err (VarIntOverflow start), off + (10 - i))
         else if length rest = k then (Err (eof (off + k) 1), off + k)
         else if v < 2 ^ 64 then (Ok (of_nat v), off + (k + 1))
         else (Err (VarIntOverflow start), off + (k + 1)))"

lemma payload_bits [simp]:
  "(b AND 0x80 = (0 :: u8)) = (\<not> continues b)"
  by (simp add: high_bit continues_def not_le)

lemma decode_step:
  fixes res :: u64 and b :: u8
  assumes "unat res < 128 ^ i" "i \<le> 9" "i = 9 \<Longrightarrow> unat b mod 128 < 2"
  shows "unat (res OR push_bit (7 * i) (ucast (b AND 0x7F))) = unat res + 128 ^ i * (unat b mod 128)"
    and "unat res + 128 ^ i * (unat b mod 128) < 2 ^ 64"
proof -
  have pow: "(2 :: nat) ^ (7 * i) = 128 ^ i"
    by (simp add: power_mult)
  have payload: "unat (ucast (b AND 0x7F) :: u64) = unat b mod 128"
    by (simp add: unsigned_ucast_eq low_bits take_bit_nat_eq_self)
  have "unat res + 128 ^ i * (unat b mod 128) < 128 ^ i * (unat b mod 128 + 1)"
    using assms(1) by simp
  also have "\<dots> \<le> 2 ^ 64"
  proof (cases "i = 9")
    case True
    then show ?thesis
      using assms(3) by simp
  next
    case False
    then have "(128 :: nat) ^ i \<le> 128 ^ 8"
      using assms(2) by (intro power_increasing) auto
    then have "128 ^ i * (unat b mod 128 + 1) \<le> 128 ^ 8 * 128"
      by (intro mult_mono) auto
    then show ?thesis
      by simp
  qed
  finally show bound: "unat res + 128 ^ i * (unat b mod 128) < 2 ^ 64" .
  then show "unat (res OR push_bit (7 * i) (ucast (b AND 0x7F))) = unat res + 128 ^ i * (unat b mod 128)"
    using assms(1) unat_or_push_bit [of res "7 * i" "ucast (b AND 0x7F)"]
    by (simp add: payload pow mult.commute [of "128 ^ i"])
qed


lemma read_group_Cons:
  assumes "off < length data"
  shows "read_group start i acc data off =
    (let b = data ! off in
     if \<not> continues b
     then (if 10 \<le> i then (Err (VarIntOverflow start), off + (10 - i))
           else if acc + 128 ^ i * (unat b mod 128) < 2 ^ 64
           then (Ok (of_nat (acc + 128 ^ i * (unat b mod 128))), off + 1)
           else (Err (VarIntOverflow start), off + 1))
     else if 10 \<le> i + 1 then (Err (VarIntOverflow start), off + (10 - i))
     else read_group start (i + 1) (acc + 128 ^ i * (unat b mod 128)) data (off + 1))"
proof -
  have rest: "drop off data = data ! off # drop (off + 1) data"
    using assms by (simp add: Cons_nth_drop_Suc)
  show ?thesis
    unfolding read_group_def rest Let_def
    by (auto simp: algebra_simps)
qed

lemma read_group_end: "length data \<le> off \<Longrightarrow> i \<le> 9 \<Longrightarrow> read_group start i acc data off = (Err (eof off 1), off)"
  by (simp add: read_group_def)

lemma decode_varint_loop_step:
  fixes res :: u64
  assumes "off < length data" "unat res < 128 ^ i" "i \<le> 9"
  defines "b \<equiv> data ! off"
  defines "v \<equiv> unat res + 128 ^ i * (unat b mod 128)"
  shows "decode_varint_loop start res (7 * i) data off =
    (if i = 9 \<and> 2 \<le> unat b mod 128 then (Err (VarIntOverflow start), off + 1)
     else if \<not> continues b then (Ok (of_nat v), off + 1)
     else if 9 \<le> i then (Err (VarIntOverflow start), off + 1)
     else decode_varint_loop start (of_nat v) (7 * (i + 1)) data (off + 1))"
proof -
  have "of_nat v = res OR push_bit (7 * i) (ucast (b AND 0x7F))" if "\<not> (i = 9 \<and> 2 \<le> unat b mod 128)"
  proof -
    have "unat (res OR push_bit (7 * i) (ucast (b AND 0x7F))) = v"
      using decode_step(1) [OF assms(2,3), of b] that by (auto simp: v_def)
    then show ?thesis
      by auto
  qed
  then show ?thesis
    using assms(1,3)
    by (subst decode_varint_loop.simps)
      (auto simp: Let_def b_def [symmetric] middle_bits algebra_simps)
qed

lemma decode_varint_loop_exact:
  "unat res < 128 ^ i \<Longrightarrow> i \<le> 9 \<Longrightarrow>
   decode_varint_loop start res (7 * i) data off = read_group start i (unat res) data off"
proof (induction "9 - i" arbitrary: i res off rule: less_induct)
  case less
  show ?case
  proof (cases "length data \<le> off")
    case True
    then show ?thesis
      using less.prems by (simp add: decode_varint_loop.simps read_group_end)
  next
    case False
    define b where "b = data ! off"
    define v where "v = unat res + 128 ^ i * (unat b mod 128)"
    have large: "i = 9 \<Longrightarrow> 2 \<le> unat b mod 128 \<Longrightarrow> 2 ^ 64 \<le> v"
      by (simp add: v_def)
    have small: "v < 2 ^ 64" if "\<not> (i = 9 \<and> 2 \<le> unat b mod 128)"
      using decode_step(2) [OF less.prems, of b] that by (auto simp: v_def)
    have "v < 128 ^ i * (unat b mod 128 + 1)"
      using less.prems(1) by (simp add: v_def)
    also have "\<dots> \<le> 128 ^ i * 128"
      by (intro mult_le_mono2) (simp add: Suc_le_eq)
    finally have "decode_varint_loop start (of_nat v) (7 * (i + 1)) data (off + 1) =
        read_group start (i + 1) v data (off + 1)" if "i < 9"
      using less.hyps [of "i + 1" "of_nat v" "off + 1"] small that
      by (simp add: unat_of_nat)
    then show ?thesis
      using False less.prems large small
      by (auto simp: decode_varint_loop_step read_group_Cons Let_def b_def [symmetric] v_def [symmetric])
  qed
qed

subsection \<open>What the encoders write\<close>

lemma encode_varint_loop_append:
  "encode_varint_loop v out = out @ encode_varint_loop v []"
proof (induction "unat v" arbitrary: v out rule: less_induct)
  case less
  show ?case
  proof (cases "0x80 \<le> v")
    case True
    then have step: "encode_varint_loop v o' =
        (o' @ [ucast v OR 0x80]) @ encode_varint_loop (drop_bit 7 v) []" for o'
      using less [of "drop_bit 7 v" "o' @ [ucast v OR 0x80]"] drop_seven_less [of v]
      by (simp add: encode_varint_loop.simps [of v o'])
    show ?thesis
      by (simp add: step)
  qed (simp add: encode_varint_loop.simps)
qed

definition varint_bytes :: "u64 \<Rightarrow> u8 list" where
  "varint_bytes v = encode_varint_loop v []"

lemma varint_bytes_rec:
  "varint_bytes v =
     (if 0x80 \<le> v then (ucast v OR 0x80) # varint_bytes (drop_bit 7 v) else [ucast v])"
  using encode_varint_loop_append [of "drop_bit 7 v" "[ucast v OR 0x80]"]
  by (simp add: varint_bytes_def encode_varint_loop.simps [of v])

lemma marked_byte:
  fixes a :: u8
  shows "continues (a OR 0x80)" "unat (a OR 0x80) mod 128 = unat a mod 128"
proof -
  have "(a OR 0x80) AND 0x80 = 0x80"
    by (simp add: bit.conj_disj_distrib2)
  then show "continues (a OR 0x80)"
    using payload_bits [of "a OR 0x80"] by auto
  have "(a OR 0x80) AND 0x7F = a AND 0x7F"
    by (simp add: bit.conj_disj_distrib2)
  then show "unat (a OR 0x80) mod 128 = unat a mod 128"
    by (metis low_bits)
qed

lemma bit_zigzag:
  "n < 64 \<Longrightarrow> bit (zigzag v) n = (if n = 0 then bit v 63 else bit v (n - 1) \<noteq> bit v 63)"
  unfolding zigzag_def bit_xor_iff bit_push_bit_iff bit_signed_drop_bit_iff
  by (cases n) (auto simp: possible_bit_def)

lemma zigzag_sign: "- (zigzag v AND 1) = (if bit v 63 then - 1 else 0)"
  using bit_zigzag [of 0 v] by (auto simp: and_one_eq bit_0 even_iff_mod_2_eq_zero odd_iff_mod_2_eq_one)

lemma zigzag_inverse:
  "drop_bit 1 (zigzag v) XOR - (zigzag v AND 1) = v"
proof (rule bit_word_eqI)
  fix n
  assume n: "n < LENGTH(64)"
  have "bit (drop_bit 1 (zigzag v)) n = (n < 63 \<and> bit v n \<noteq> bit v 63)"
    using n bit_zigzag [of "n + 1" v]
    by (cases "n = 63") (auto simp: bit_drop_bit_eq dest: bit_imp_le_length)
  then show "bit (drop_bit 1 (zigzag v) XOR - (zigzag v AND 1)) n = bit v n"
    using n unfolding zigzag_sign bit_xor_iff by (cases "n = 63") auto
qed

lemma zigzag_cases: "zigzag v = (if sint v < 0 then of_int (- 2 * sint v - 1) else of_int (2 * sint v))"
proof -
  have "zigzag v = (if bit v 63 then NOT (push_bit 1 v) else push_bit 1 v)"
  proof (rule bit_word_eqI)
    fix n
    assume "n < LENGTH(64)"
    then show "bit (zigzag v) n = bit (if bit v 63 then NOT (push_bit 1 v) else push_bit 1 v) n"
      unfolding if_distrib [of "\<lambda>x. bit x n"] bit_not_iff bit_push_bit_iff
      by (auto simp: bit_zigzag possible_bit_def)
  qed
  moreover have "push_bit 1 v = of_int (2 * sint v)"
    by simp
  ultimately show ?thesis
    using bit_last_iff [of v] by (simp add: not_eq_complement)
qed

lemma unat_zigzag:
  "int (unat (zigzag v)) = (if sint v < 0 then - 2 * sint v - 1 else 2 * sint v)"
proof -
  have "- (2 ^ 63) \<le> sint v" "sint v < 2 ^ 63"
    using sint_greater_eq [of v] sint_less [of v] by simp_all
  moreover have "uint (of_int x :: u64) = x" if "0 \<le> x" "x < 2 ^ 64" for x
    using that by (simp add: uint_word_of_int)
  ultimately show ?thesis
    by (simp add: zigzag_cases del: of_int_diff of_int_mult of_int_minus)
qed

lemma from_le_bytes_slices:
  "from_le_bytes (map (\<lambda>i. ucast (drop_bit (8 * i) v)) [0..<n]) = take_bit (8 * n) (v :: 'a::len word)"
proof (induction n arbitrary: v)
  case (Suc n)
  have "from_le_bytes (map (\<lambda>i. ucast (drop_bit (8 * i) v)) [0..<Suc n]) =
      ucast (ucast v :: u8) OR push_bit 8 (from_le_bytes (map (\<lambda>i. ucast (drop_bit (8 * i) (drop_bit 8 v))) [0..<n]))"
    by (simp add: upt_conv_Cons map_Suc_upt [symmetric] drop_bit_drop_bit o_def add.commute del: upt_Suc)
  also have "\<dots> = ucast (ucast v :: u8) OR push_bit 8 (take_bit (8 * n) (drop_bit 8 v))"
    by (simp only: Suc.IH)
  also have "\<dots> = take_bit (8 * Suc n) v"
    by (rule bit_word_eqI) (auto simp: bit_simps)
  finally show ?case .
qed simp

lemma unat_low_byte: "unat (ucast (v :: u64) :: u8) mod 128 = unat v mod 128"
  by (simp add: unsigned_ucast_eq take_bit_eq_mod mod_mod_cancel)

lemma varint_bytes_shape:
  "\<exists>bs b. varint_bytes v = bs @ [b] \<and> (\<forall>x \<in> set bs. continues x) \<and> \<not> continues b \<and>
     varint_value (bs @ [b]) = unat v \<and> (\<forall>n > 0. unat v < 128 ^ n \<longrightarrow> length bs < n)"
proof (induction "unat v" arbitrary: v rule: less_induct)
  case less
  show ?case
  proof (cases "0x80 \<le> v")
    case True
    then obtain bs b where IH: "varint_bytes (drop_bit 7 v) = bs @ [b]" "\<forall>x \<in> set bs. continues x"
        "\<not> continues b" "varint_value (bs @ [b]) = unat (drop_bit 7 v)"
        "\<forall>n > 0. unat (drop_bit 7 v) < 128 ^ n \<longrightarrow> length bs < n"
      using less [OF drop_seven_less] by blast
    have div: "unat (drop_bit 7 v) = unat v div 128"
      by (simp add: unat_drop_bit_eq drop_bit_eq_div unat_div)
    have "Suc (length bs) < n" if "0 < n" "unat v < 128 ^ n" for n
    proof -
      have "128 \<le> unat v"
        using True by (simp add: word_le_nat_alt)
      then have "n \<noteq> 1"
        using that(2) by auto
      then have m: "n = Suc (Suc (n - 2))"
        using that(1) by simp
      then have "unat v < 128 ^ Suc (n - 2) * 128"
        using that(2) by (metis power_Suc2)
      then have "unat v div 128 < 128 ^ Suc (n - 2)"
        by (rule less_mult_imp_div_less)
      then have "length bs < Suc (n - 2)"
        using IH(5) div by simp
      then show ?thesis
        using m by simp
    qed
    then have "varint_bytes v = ((ucast v OR 0x80) # bs) @ [b] \<and>
        (\<forall>x \<in> set ((ucast v OR 0x80) # bs). continues x) \<and> \<not> continues b \<and>
        varint_value (((ucast v OR 0x80) # bs) @ [b]) = unat v \<and>
        (\<forall>n > 0. unat v < 128 ^ n \<longrightarrow> length ((ucast v OR 0x80) # bs) < n)"
      using True IH(1-4) by (auto simp: varint_bytes_rec [of v] marked_byte unat_low_byte div)
    then show ?thesis
      by blast
  next
    case False
    then have small: "unat v < 128"
      by (simp add: word_le_nat_alt)
    then have "unat (ucast v :: u8) = unat v"
      by (simp add: unsigned_ucast_eq take_bit_nat_eq_self)
    then show ?thesis
      using False small
      by (intro exI [of _ "[]"] exI [of _ "ucast v"]) (auto simp: varint_bytes_rec [of v] continues_def)
  qed
qed

lemma decode_varint_exact:
  "decode_varint data off =
     (let rest = drop off data; k = length (takeWhile continues rest);
          v = varint_value (take (k + 1) rest)
      in if 10 \<le> k then (Err (VarIntOverflow off), off + 10)
         else if length rest = k then (Err (eof (off + k) 1), off + k)
         else if v < 2 ^ 64 then (Ok (of_nat v), off + (k + 1))
         else (Err (VarIntOverflow off), off + (k + 1)))"
  using decode_varint_loop_exact [of 0 0 off data off]
  by (simp add: decode_varint_def read_group_def Let_def)

lemma decode_varint_bytes:
  "decode_varint (out @ varint_bytes v @ post) (length out) =
     (Ok v, length (out @ varint_bytes v))"
proof -
  obtain bs b where bs: "varint_bytes v = bs @ [b]" "\<forall>x \<in> set bs. continues x" "\<not> continues b"
      "varint_value (bs @ [b]) = unat v" "\<forall>n > 0. unat v < 128 ^ n \<longrightarrow> length bs < n"
    using varint_bytes_shape by blast
  have "unat v < 128 ^ 10"
    using unat_bound [of v] by simp
  then have "length bs < 10"
    using bs(5) by simp
  moreover have "takeWhile continues (bs @ b # post) = bs"
    using bs(2,3) by (simp add: takeWhile_append)
  moreover have "unat v < 2 ^ 64"
    using unat_bound [of v] by simp
  ultimately show ?thesis
    using bs(1,4) by (simp add: decode_varint_exact Let_def)
qed

lemma leading_run:
  fixes v :: u64
  shows "n \<le> m \<Longrightarrow>
    (m - length (takeWhile (\<lambda>i. \<not> bit v i) (rev [0..<m])) \<le> n) = (take_bit m (unat v) < 2 ^ n)"
proof (induction m)
  case (Suc m)
  have top: "take_bit (Suc m) (unat v) = 2 ^ m * of_bool (bit v m) + take_bit m (unat v)"
    by (simp add: take_bit_Suc_from_most bit_unsigned_nat)
  have low: "take_bit m (unat v) < 2 ^ m"
    by simp
  show ?case
  proof (cases "n = Suc m")
    case True
    have "take_bit (Suc m) (unat v) < 2 ^ Suc m"
      by (rule take_bit_nat_less_exp)
    then show ?thesis
      using True by simp
  next
    case False
    then have n: "n \<le> m"
      using Suc.prems by simp
    then have pow: "(2 :: nat) ^ n \<le> 2 ^ m"
      by (intro power_increasing) auto
    show ?thesis
    proof (cases "bit v m")
      case True
      then have "2 ^ n \<le> take_bit (Suc m) (unat v)"
        using pow top by (auto intro: trans_le_add1)
      then show ?thesis
        using True n by simp
    next
      case False
      then show ?thesis
        using Suc.IH [OF n] by (simp add: top)
    qed
  qed
qed simp

lemma bit_length: "n \<le> 64 \<Longrightarrow> (64 - leading_zeros v \<le> n) = (unat v < 2 ^ n)"
  using leading_run [of n 64 v] unat_bound [of v]
  by (simp add: leading_zeros_def take_bit_nat_eq_self)

lemma varint_value_bound: "varint_value bs < 128 ^ length bs"
proof (induction bs)
  case (Cons b bs)
  have "unat b mod 128 + 128 * varint_value bs < 128 * (varint_value bs + 1)"
    by simp
  also have "\<dots> \<le> 128 * 128 ^ length bs"
    using Cons.IH by (intro mult_le_mono2) simp
  finally show ?case
    by simp
qed simp

lemma bit_length_div:
  assumes "0 < n"
  shows "(64 - leading_zeros v + 6) div 7 \<le> n \<longleftrightarrow> unat v < 128 ^ n"
proof (cases "n \<le> 9")
  case True
  have "(64 - leading_zeros v + 6) div 7 \<le> n \<longleftrightarrow> 64 - leading_zeros v \<le> 7 * n"
    by linarith
  then show ?thesis
    using True by (simp add: bit_length power_mult)
next
  case False
  then have "(128 :: nat) ^ 10 \<le> 128 ^ n"
    by (intro power_increasing) auto
  then have "unat v < 128 ^ n"
    using unat_bound [of v] by simp
  then show ?thesis
    using False by auto
qed

lemma varint_bytes_least:
  assumes "0 < n"
  shows "length (varint_bytes v) \<le> n \<longleftrightarrow> unat v < 128 ^ n"
proof -
  obtain bs b where bs: "varint_bytes v = bs @ [b]" "varint_value (bs @ [b]) = unat v"
      "\<forall>n > 0. unat v < 128 ^ n \<longrightarrow> length bs < n"
    using varint_bytes_shape by blast
  show ?thesis
  proof
    assume "length (varint_bytes v) \<le> n"
    then have "(128 :: nat) ^ length (varint_bytes v) \<le> 128 ^ n"
      by (intro power_increasing) auto
    then show "unat v < 128 ^ n"
      using varint_value_bound [of "bs @ [b]"] bs(1,2) by simp
  qed (use bs assms in \<open>simp add: Suc_le_eq\<close>)
qed

lemma varint_bytes_nonempty: "0 < length (varint_bytes v)"
  by (subst varint_bytes_rec) simp

lemma length_varint_bytes: "length (varint_bytes v) = varint_size v"
proof (cases "v = 0")
  case True
  then show ?thesis
    by (simp add: varint_bytes_rec varint_size_def)
next
  case False
  then have "0 < (64 - leading_zeros v + 6) div 7"
    using bit_length [of 0 v] by (cases "64 - leading_zeros v") (auto simp: unat_eq_0)
  then have "length (varint_bytes v) = (64 - leading_zeros v + 6) div 7"
    using varint_bytes_least [of _ v] varint_bytes_nonempty [of v] bit_length_div [of _ v]
    by (metis order_refl order_antisym)
  then show ?thesis
    using False by (simp add: varint_size_def Let_def)
qed

lemma varint_size_least: "0 < n \<Longrightarrow> varint_size v \<le> n \<longleftrightarrow> unat v < 128 ^ n"
  using varint_bytes_least [of n v] by (simp add: length_varint_bytes)

lemma varint_size_pos: "0 < varint_size v"
  using varint_bytes_nonempty [of v] by (simp add: length_varint_bytes)

lemma varint_size_range: "1 \<le> varint_size v \<and> varint_size v \<le> 10"
  using varint_size_pos [of v] varint_size_least [of 10 v] unat_bound [of v] by simp

end
