(* ===== verification/BytecodeCodecs.thy ===== *)
theory BytecodeCodecs
  imports Bytecode
begin

section \<open>Encoders and decoders of the bytecode as a contract\<close>

text \<open>
  The pairs of \<open>crates/verum_vbc/src/encoding.rs\<close> under the interface \<open>codec\<close>, its stream variants
  under the interfaces \<open>byte_sink\<close> and \<open>byte_source\<close>, and what the decoders do on hostile input.
\<close>

unbundle bit_operations_syntax

subsection \<open>The contract of an encoder and its decoder\<close>

fun decode_many :: "'a byte_decoder \<Rightarrow> nat \<Rightarrow> 'a list byte_decoder" where
  "decode_many dec 0 data off = (Ok [], off)"
| "decode_many dec (Suc n) data off =
     state_bind (dec data off) (\<lambda>x off. state_bind (decode_many dec n data off) (\<lambda>xs off. (Ok (x # xs), off)))"

locale codec =
  fixes enc :: "'a \<Rightarrow> u8 list \<Rightarrow> u8 list"
    and dec :: "'a byte_decoder"
    and ok :: "'a \<Rightarrow> bool"
  assumes appends: "enc x out = out @ enc x []"
    and dec_enc: "ok x \<Longrightarrow> dec (enc x out @ post) (length out) = (Ok x, length (enc x out))"
begin

lemma prefix_free:
  assumes "ok x" "ok y" "enc x [] @ p = enc y [] @ q"
  shows "x = y \<and> p = q"
proof -
  have "x = y"
    using dec_enc [OF assms(1), of "[]" p] dec_enc [OF assms(2), of "[]" q] assms(3) by simp
  then show ?thesis
    using assms(3) by simp
qed

lemma sequence_round_trip:
  "\<forall>x \<in> set xs. ok x \<Longrightarrow>
   decode_many dec (length xs) (fold enc xs out @ post) (length out) = (Ok xs, length (fold enc xs out))"
proof (induction xs arbitrary: out)
  case (Cons x xs)
  have rest: "fold enc ys o' = o' @ fold enc ys []" for ys o'
    by (induction ys arbitrary: o') (simp, metis appends append.assoc fold_simps(2))
  have "dec (fold enc (x # xs) out @ post) (length out) = (Ok x, length (enc x out))"
    using Cons.prems rest [of xs "enc x out"] dec_enc [of x out] by simp
  moreover have "decode_many dec (length xs) (fold enc xs (enc x out) @ post) (length (enc x out)) =
      (Ok xs, length (fold enc xs (enc x out)))"
    using Cons by simp
  ultimately show ?case
    by simp
qed simp

end

lemma varint_appends: "fst (encode_varint v out) = out @ varint_bytes v"
  by (simp add: encode_varint_def varint_bytes_def encode_varint_loop_append [of v out])

lemma encode_varint_exact: "encode_varint v out = (out @ varint_bytes v, varint_size v)"
  using encode_varint_loop_append [of v out] length_varint_bytes [of v]
  by (simp add: encode_varint_def varint_bytes_def)

interpretation varint: codec "\<lambda>v out. fst (encode_varint v out)" decode_varint "\<lambda>_. True"
  by unfold_locales (simp_all add: encode_varint_exact decode_varint_bytes [simplified])

interpretation signed_varint: codec "\<lambda>v out. fst (encode_signed_varint v out)" decode_signed_varint "\<lambda>_. True"
  by unfold_locales
    (simp_all add: encode_signed_varint_def decode_signed_varint_def encode_varint_exact
      decode_varint_bytes [simplified] zigzag_inverse [simplified])

lemma from_to_le_bytes:
  fixes v :: "'a::len word"
  assumes "8 dvd LENGTH('a)"
  shows "from_le_bytes (to_le_bytes v) = v"
  using assms by (simp add: to_le_bytes_def from_le_bytes_slices)

lemma decode_fixed_append:
  "decode_fixed (length bs) (out @ bs @ post) (length out) = (Ok bs, length out + length bs)"
  by (simp add: decode_fixed_def)

lemma decode_fixed_word:
  fixes v :: "'a::len word"
  assumes "n = LENGTH('a) div 8"
  shows "decode_fixed n (out @ to_le_bytes v @ post) (length out) = (Ok (to_le_bytes v), length out + n)"
  using decode_fixed_append [of "to_le_bytes v" out post] assms by (simp add: to_le_bytes_def)

interpretation word16: codec encode_u16 decode_u16 "\<lambda>_. True"
  by unfold_locales (simp_all add: encode_u16_def decode_u16_def decode_fixed_word from_to_le_bytes, simp add: to_le_bytes_def)

interpretation word32: codec encode_u32 decode_u32 "\<lambda>_. True"
  by unfold_locales (simp_all add: encode_u32_def decode_u32_def decode_fixed_word from_to_le_bytes, simp add: to_le_bytes_def)

interpretation word64: codec encode_u64 decode_u64 "\<lambda>_. True"
  by unfold_locales (simp_all add: encode_u64_def decode_u64_def decode_fixed_word from_to_le_bytes, simp add: to_le_bytes_def)

interpretation int64: codec encode_i64 decode_i64 "\<lambda>_. True"
  by unfold_locales (simp_all add: encode_i64_def decode_i64_def decode_fixed_word from_to_le_bytes, simp add: to_le_bytes_def)

interpretation float64: codec encode_f64 decode_f64 "\<lambda>_. True"
  by unfold_locales (simp_all add: encode_f64_def decode_f64_def decode_fixed_word from_to_le_bytes, simp add: to_le_bytes_def)

lemma decode_u8_append: "decode_u8 (out @ b # post) (length out) = (Ok b, length out + 1)"
  by (simp add: decode_u8_def)

lemma reg_short:
  fixes v :: u16
  assumes "v < 128"
  shows "(ucast v :: u8) AND 0x80 = 0" "ucast (ucast v :: u8) = v"
proof -
  have small: "unat v < 128"
    using assms by (simp add: word_less_nat_alt)
  then show "(ucast v :: u8) AND 0x80 = 0"
    by (simp add: continues_def unsigned_ucast_eq take_bit_nat_eq_self)
  have "unat (take_bit 8 v) = unat v"
    using small by (simp only: unsigned_take_bit_eq) (simp add: take_bit_nat_eq_self)
  then have "take_bit 8 v = v"
    by (rule unsigned_word_eqI)
  then show "ucast (ucast v :: u8) = v"
    by (simp add: unsigned_ucast_eq)
qed

lemma reg_long:
  fixes v :: u16
  shows "push_bit 8 (ucast ((0x80 OR ucast (drop_bit 8 v) :: u8) AND 0x7F)) OR ucast (ucast v :: u8) =
    v AND 0x7FFF"
proof -
  have "(0x80 OR ucast (drop_bit 8 v) :: u8) AND 0x7F = ucast (drop_bit 8 v) AND 0x7F"
    by (simp add: bit.conj_disj_distrib2)
  moreover have masks: "(0x7F :: u8) = mask 7" "(0x7FFF :: u16) = mask 15"
    by (simp_all add: mask_eq_exp_minus_1)
  ultimately show ?thesis
    by (simp only: masks) (rule bit_word_eqI, auto simp: bit_simps possible_bit_def)
qed

lemma reg_index_fits: "(v AND 0x7FFF = v) = (v < (0x8000 :: u16))"
proof -
  have "unat (v AND 0x7FFF) = unat v mod 2 ^ 15"
    using unat_and_mask [of v 15] by (simp add: mask_eq_exp_minus_1)
  then have "(v AND 0x7FFF = v) = (unat v mod 2 ^ 15 = unat v)"
    by (metis unsigned_word_eqI)
  also have "\<dots> = (unat v < 2 ^ 15)"
    by (metis mod_less mod_less_divisor zero_less_power zero_less_numeral)
  finally show ?thesis
    by (simp add: word_less_nat_alt)
qed

lemma decode_encode_reg:
  "decode_reg (encode_reg r out @ post) (length out) =
     (Ok (if reg_index r < 128 then r else Reg (reg_index r AND 0x7FFF)), length (encode_reg r out))"
proof (cases "reg_index r < 128")
  case True
  then show ?thesis
    using reg_short [OF True] by (cases r) (simp add: encode_reg_def decode_reg_def decode_u8_append)
next
  case False
  have "continues (0x80 OR ucast (drop_bit 8 (reg_index r)))"
    using marked_byte(1) by (metis or.commute)
  then show ?thesis
    using False reg_long [of "reg_index r"] decode_u8_append [of "out @ [0x80 OR ucast (drop_bit 8 (reg_index r))]"]
    by (simp add: encode_reg_def decode_reg_def decode_u8_append Let_def)
qed

lemma encode_reg_appends: "encode_reg r out = out @ encode_reg r []"
  by (simp add: encode_reg_def)

lemma decode_reg_fits:
  "reg_index r < 0x8000 \<Longrightarrow>
   decode_reg (encode_reg r out @ post) (length out) = (Ok r, length (encode_reg r out))"
  by (cases r) (auto simp: decode_encode_reg reg_index_fits [THEN iffD2])

interpretation register: codec encode_reg decode_reg "\<lambda>r. reg_index r < 0x8000"
  by unfold_locales (rule encode_reg_appends, erule decode_reg_fits)

interpretation register_range: codec encode_reg_range decode_reg_range "\<lambda>r. reg_index (range_start r) < 0x8000"
proof unfold_locales
  fix r out post
  show "encode_reg_range r out = out @ encode_reg_range r []"
    by (simp add: encode_reg_range_def encode_reg_appends [of _ out])
  assume "reg_index (range_start r) < 0x8000"
  then show "decode_reg_range (encode_reg_range r out @ post) (length out) =
      (Ok r, length (encode_reg_range r out))"
    using decode_reg_fits [of "range_start r" out "range_count r # post"]
      decode_u8_append [of "encode_reg (range_start r) out" "range_count r" post]
    by (simp add: encode_reg_range_def decode_reg_range_def)
qed

lemma payload_round_trip:
  assumes "length s < 2 ^ w" "length s < 2 ^ 64"
  shows "decode_payload_range w (encode_string s out @ post) (length out) =
    (let start = length out + varint_size (of_nat (length s))
     in (Ok (start, start + length s), start + length s))"
proof -
  have "unat (of_nat (length s) :: u64) = length s"
    using assms(2) by (simp add: unat_of_nat)
  then show ?thesis
    using assms(1) decode_varint_bytes [of out "of_nat (length s)" "s @ post"]
    by (simp add: decode_payload_range_def encode_string_def encode_varint_exact usize_try_from_def
        length_varint_bytes Let_def)
qed

lemma payload_slice:
  "take (length s) (drop (length out + varint_size (of_nat (length s))) (encode_string s out @ post)) = s"
  by (simp add: encode_string_def encode_varint_exact flip: length_varint_bytes)

lemma length_encode_string:
  "length (encode_string s out) = length out + varint_size (of_nat (length s)) + length s"
  by (simp add: encode_string_def encode_varint_exact flip: length_varint_bytes)

lemma encode_string_appends: "encode_string s out = out @ encode_string s []"
  by (simp add: encode_string_def encode_varint_exact)

interpretation string_codec: codec encode_string "decode_string w"
    "\<lambda>s. length s < 2 ^ w \<and> length s < 2 ^ 64 \<and> from_utf8 s = Inr s" for w
proof unfold_locales
  fix s out post :: "u8 list"
  assume "length s < 2 ^ w \<and> length s < 2 ^ 64 \<and> from_utf8 s = Inr s"
  then show "decode_string w (encode_string s out @ post) (length out) = (Ok s, length (encode_string s out))"
    using payload_round_trip [of s w out post] payload_slice [of s out post]
    by (simp add: decode_string_def length_encode_string Let_def)
qed (rule encode_string_appends)

interpretation bytes_codec: codec encode_string "decode_bytes w"
    "\<lambda>s. length s < 2 ^ w \<and> length s < 2 ^ 64" for w
proof unfold_locales
  fix s out post :: "u8 list"
  assume "length s < 2 ^ w \<and> length s < 2 ^ 64"
  then show "decode_bytes w (encode_string s out @ post) (length out) = (Ok s, length (encode_string s out))"
    using payload_round_trip [of s w out post] payload_slice [of s out post]
    by (simp add: decode_bytes_def length_encode_string Let_def)
qed (rule encode_string_appends)

subsection \<open>Streams\<close>

text \<open>
  What the code relies on of a stream: a sink that accepts every write appends the bytes to what
  it holds; a source serves its remaining bytes in order and fails once they are used up.
\<close>

locale byte_sink =
  fixes write_all :: "'w \<Rightarrow> u8 list \<Rightarrow> ('e, unit) run \<times> 'w"
    and contents :: "'w \<Rightarrow> u8 list"
  assumes write_ok: "\<exists>wr'. write_all wr bs = (Ok (), wr') \<and> contents wr' = contents wr @ bs"
begin

lemma writes_varint_loop:
  "\<exists>wr'. write_varint_loop write_all v n wr = (Ok (n + length (varint_bytes v)), wr') \<and>
     contents wr' = contents wr @ varint_bytes v"
proof (induction "unat v" arbitrary: v n wr rule: less_induct)
  case less
  obtain b where b: "b = (if 0x80 \<le> v then ucast v OR 0x80 else ucast v :: u8)"
    by blast
  obtain wr1 where wr1: "write_all wr [b] = (Ok (), wr1)" "contents wr1 = contents wr @ [b]"
    using write_ok by blast
  show ?case
  proof (cases "0x80 \<le> v")
    case True
    then show ?thesis
      using less [OF drop_seven_less [OF True], of "n + 1" wr1] wr1 b
      by (auto simp: write_varint_loop.simps [of _ v] varint_bytes_rec [of v])
  next
    case False
    then show ?thesis
      using wr1 b by (simp add: write_varint_loop.simps [of _ v] varint_bytes_rec [of v])
  qed
qed

lemma writes_varint:
  "\<exists>wr'. write_varint write_all v wr = (Ok (varint_size v), wr') \<and>
     contents wr' = contents wr @ varint_bytes v"
  using writes_varint_loop [of v 0 wr] by (simp add: write_varint_def length_varint_bytes)

end

fun same_outcome ::
    "'e stream_error \<Rightarrow> (vbc_error, 'a) run \<Rightarrow> ('e stream_error, 'a) run \<Rightarrow> bool" where
  "same_outcome e (Ok x) (Ok y) = (x = y)"
| "same_outcome e (Err (UnexpectedEof off n)) (Err e') = (e' = e)"
| "same_outcome e (Err (VarIntOverflow off)) (Err (InvalidData msg)) = True"
| "same_outcome e r r' = False"

locale byte_source =
  fixes read_byte :: "'r \<Rightarrow> ('e stream_error, u8) run \<times> 'r"
    and remaining :: "'r \<Rightarrow> u8 list"
    and at_end :: "'e stream_error"
  assumes read_more: "remaining rd = b # bs \<Longrightarrow> \<exists>rd'. read_byte rd = (Ok b, rd') \<and> remaining rd' = bs"
    and read_end: "remaining rd = [] \<Longrightarrow> \<exists>rd'. read_byte rd = (Err at_end, rd') \<and> remaining rd' = []"
begin

lemma reads_varint_loop:
  "remaining rd = drop off data \<Longrightarrow> shift < 64 \<Longrightarrow>
   \<exists>r rd'. read_varint_loop read_byte res shift rd = (r, rd') \<and>
     same_outcome at_end (fst (decode_varint_loop start res shift data off)) r \<and>
     remaining rd' = drop (snd (decode_varint_loop start res shift data off)) data"
proof (induction start res shift data off arbitrary: rd rule: decode_varint_loop.induct)
  case (1 start res shift data off)
  show ?case
  proof (cases "length data \<le> off")
    case True
    then obtain rd' where "read_byte rd = (Err at_end, rd')" "remaining rd' = []"
      using 1(2) read_end [of rd] by auto
    then show ?thesis
      using True by (simp add: read_varint_loop.simps [of _ _ _ rd] decode_varint_loop.simps [of _ _ _ _ off])
  next
    case False
    then obtain rd' where rd': "read_byte rd = (Ok (data ! off), rd')" "remaining rd' = drop (off + 1) data"
      using 1(2) read_more [of rd "data ! off"] by (auto simp: Cons_nth_drop_Suc [symmetric])
    show ?thesis
      using False rd' 1(1) [OF False refl refl _ refl _ _ rd'(2)] 1(3)
      by (auto simp: read_varint_loop.simps [of _ _ _ rd] decode_varint_loop.simps [of _ _ _ _ off] Let_def)
  qed
qed

lemma reads_varint:
  assumes "remaining rd = drop off data"
  shows "\<exists>r rd'. read_varint read_byte rd = (r, rd') \<and>
     same_outcome at_end (fst (decode_varint data off)) r \<and>
     remaining rd' = drop (snd (decode_varint data off)) data"
  using reads_varint_loop [OF assms, of 0 0 off] by (simp add: read_varint_def decode_varint_def)

end

text \<open>The two streams of the standard library over memory: a vector and a slice.\<close>

definition vec_write_all :: "u8 list \<Rightarrow> u8 list \<Rightarrow> ('e, unit) run \<times> u8 list" where
  "vec_write_all out bs = (Ok (), out @ bs)"

fun slice_read_byte :: "u8 list \<Rightarrow> (unit stream_error, u8) run \<times> u8 list" where
  "slice_read_byte [] = (Err (StreamError ()), [])"
| "slice_read_byte (b # bs) = (Ok b, bs)"

interpretation vec_sink: byte_sink vec_write_all "\<lambda>out. out"
  by unfold_locales (simp add: vec_write_all_def)

interpretation slice_source: byte_source slice_read_byte "\<lambda>bs. bs" "StreamError ()"
  by unfold_locales simp_all

subsection \<open>Hostile input\<close>

text \<open>A decoder stays inside when it leaves an offset between the one it was given and the end.\<close>

definition stays_inside :: "'a byte_decoder \<Rightarrow> bool" where
  "stays_inside d =
     (\<forall>data off. off \<le> length data \<longrightarrow>
        fst (d data off) \<noteq> NoFuel \<and> off \<le> snd (d data off) \<and> snd (d data off) \<le> length data)"

lemma stays_insideD:
  "stays_inside d \<Longrightarrow> off \<le> length data \<Longrightarrow> d data off = (r, off') \<Longrightarrow>
   r \<noteq> NoFuel \<and> off \<le> off' \<and> off' \<le> length data"
  by (auto simp: stays_inside_def dest!: spec [of _ data] spec [of _ off])

lemma stays_inside_bind:
  assumes "stays_inside d" "\<And>x. stays_inside (f x)"
  shows "stays_inside (\<lambda>data off. state_bind (d data off) (\<lambda>x off. f x data off))"
  unfolding stays_inside_def
proof (intro allI impI)
  fix data :: "u8 list" and off
  assume off: "off \<le> length data"
  obtain r off1 where d: "d data off = (r, off1)"
    by (cases "d data off")
  have inside: "r \<noteq> NoFuel \<and> off \<le> off1 \<and> off1 \<le> length data"
    by (rule stays_insideD [OF assms(1) off d])
  show "fst (state_bind (d data off) (\<lambda>x off. f x data off)) \<noteq> NoFuel \<and>
      off \<le> snd (state_bind (d data off) (\<lambda>x off. f x data off)) \<and>
      snd (state_bind (d data off) (\<lambda>x off. f x data off)) \<le> length data"
  proof (cases r)
    case (Ok x)
    then show ?thesis
      using inside stays_insideD [OF assms(2) _ prod.collapse [symmetric], of off1 data x]
      by (simp add: d)
  qed (use inside d in auto)
qed

lemma stays_inside_pure: "stays_inside (\<lambda>data off. (if c data off then Ok (x data off) else Err (e data off), off))"
  by (simp add: stays_inside_def)

lemma stays_inside_return: "stays_inside (\<lambda>data off. (Ok (x data off), off))"
  by (simp add: stays_inside_def)

lemma decode_varint_inside: "stays_inside decode_varint"
  unfolding stays_inside_def
proof (intro allI impI)
  fix data :: "u8 list" and off
  assume "off \<le> length data"
  moreover have "length (takeWhile continues (drop off data)) \<le> length (drop off data)"
    by (rule length_takeWhile_le)
  ultimately show "fst (decode_varint data off) \<noteq> NoFuel \<and> off \<le> snd (decode_varint data off) \<and>
      snd (decode_varint data off) \<le> length data"
    by (auto simp: decode_varint_exact Let_def)
qed

lemma decode_fixed_inside: "stays_inside (decode_fixed n)"
  by (auto simp: stays_inside_def decode_fixed_def)

lemma decode_u8_inside: "stays_inside decode_u8"
  by (auto simp: stays_inside_def decode_u8_def)

lemma decode_reg_inside: "stays_inside decode_reg"
proof -
  have "stays_inside (\<lambda>data off.
      if b AND 0x80 = 0 then (Ok (Reg (ucast b)), off)
      else state_bind (decode_u8 data off)
        (\<lambda>low off. (Ok (Reg (push_bit 8 (ucast (b AND 0x7F)) OR ucast low)), off)))" for b :: u8
    using stays_inside_return [of "\<lambda>_ _. Reg (ucast b)"]
      stays_inside_bind [OF decode_u8_inside stays_inside_return]
    by (cases "b AND 0x80 = 0") (simp_all del: payload_bits)
  from stays_inside_bind [OF decode_u8_inside this] show ?thesis
    unfolding stays_inside_def decode_reg_def Let_def by simp
qed

lemma decode_reg_range_inside: "stays_inside decode_reg_range"
proof -
  have "stays_inside (\<lambda>data off. state_bind (decode_u8 data off)
      (\<lambda>n off. (Ok \<lparr>range_start = s, range_count = n\<rparr>, off)))" for s
    by (rule stays_inside_bind [OF decode_u8_inside stays_inside_return])
  from stays_inside_bind [OF decode_reg_inside this] show ?thesis
    by (simp add: stays_inside_def decode_reg_range_def)
qed

lemma decode_payload_range_inside: "stays_inside (decode_payload_range w)"
proof -
  have "stays_inside (\<lambda>data start.
      case usize_try_from w n of None \<Rightarrow> (Err (eof start (2 ^ w - 1)), start)
      | Some len \<Rightarrow>
          if length data - start < len then (Err (eof start len), start)
          else (Ok (start, start + len), start + len))" for n
    by (auto simp: stays_inside_def split: option.split)
  from stays_inside_bind [OF decode_varint_inside this] show ?thesis
    by (simp add: stays_inside_def decode_payload_range_def)
qed

lemma payload_range_slice:
  assumes "off \<le> length data" "decode_payload_range w data off = (Ok (start, stop), off')"
  shows "off \<le> start \<and> start \<le> stop \<and> stop \<le> length data \<and> off' = stop"
proof -
  obtain n where n: "decode_varint data off = (Ok n, start)"
    using assms(2)
    by (auto simp: decode_payload_range_def state_bind_def split: prod.splits run.splits option.splits if_splits)
  then have "off \<le> start \<and> start \<le> length data"
    using stays_insideD [OF decode_varint_inside assms(1) n] by simp
  then show ?thesis
    using assms(2) n by (auto simp: decode_payload_range_def split: option.splits if_splits)
qed

lemma decode_string_inside: "stays_inside (decode_string w)"
proof -
  have "decode_string w = (\<lambda>data off. state_bind (decode_payload_range w data off) (\<lambda>p off.
      let bytes = take (snd p - fst p) (drop (fst p) data) in
      case from_utf8 bytes of Inr s \<Rightarrow> (Ok s, off)
      | Inl e \<Rightarrow> (Err (InvalidUtf8 (of_nat (fst p)) bytes e), off)))"
    by (simp add: fun_eq_iff decode_string_def case_prod_unfold)
  moreover have "stays_inside \<dots>"
    by (intro stays_inside_bind decode_payload_range_inside)
      (auto simp: stays_inside_def Let_def split: sum.split)
  ultimately show ?thesis
    by simp
qed

lemma decode_bytes_inside: "stays_inside (decode_bytes w)"
proof -
  have "decode_bytes w = (\<lambda>data off. state_bind (decode_payload_range w data off) (\<lambda>p off.
      (Ok (take (snd p - fst p) (drop (fst p) data)), off)))"
    by (simp add: fun_eq_iff decode_bytes_def case_prod_unfold)
  moreover have "stays_inside \<dots>"
    by (intro stays_inside_bind decode_payload_range_inside) (auto simp: stays_inside_def)
  ultimately show ?thesis
    by simp
qed

lemma from_utf8_same: "from_utf8 bs = Inr s \<Longrightarrow> s = bs"
  by (auto simp: from_utf8_def split: option.splits)

lemma decode_bytes_slice:
  assumes "off \<le> length data" "decode_bytes w data off = (Ok s, off')"
  shows "s = take (length s) (drop (off' - length s) data) \<and> off + length s \<le> off'"
proof -
  obtain start stop where p: "decode_payload_range w data off = (Ok (start, stop), off')"
      "s = take (stop - start) (drop start data)"
    using assms(2) by (auto simp: decode_bytes_def state_bind_def split: prod.splits run.splits)
  then show ?thesis
    using payload_range_slice [OF assms(1) p(1)] by auto
qed

lemma decode_string_bytes:
  "decode_string w data off = (Ok s, off') \<Longrightarrow> decode_bytes w data off = (Ok s, off') \<and> from_utf8 s = Inr s"
  by (auto simp: decode_string_def decode_bytes_def state_bind_def Let_def
      split: prod.splits run.splits sum.splits dest: from_utf8_same)

lemma word_decoders_inside:
  "stays_inside decode_signed_varint" "stays_inside decode_u16" "stays_inside decode_u32"
  "stays_inside decode_u64" "stays_inside decode_i64" "stays_inside decode_f64" "stays_inside decode_f32"
  using stays_inside_bind [OF decode_varint_inside stays_inside_return]
    stays_inside_bind [OF decode_fixed_inside stays_inside_return]
  by (simp_all add: stays_inside_def decode_signed_varint_def decode_u16_def decode_u32_def decode_u64_def
      decode_i64_def decode_f64_def decode_f32_def)
subsection \<open>Properties\<close>

text \<open>C13: The decoder of variable-length integers agrees with the reading of a group in unbounded
  arithmetic, on every input and at every offset: it returns the value exactly when the group ends
  within ten bytes and its value fits 64 bits, reports an overflow of anything larger at the offset
  where the group starts and the end of the data otherwise, and leaves the offset behind the last
  byte it looked at. In particular no value is truncated.\<close>

theorem varint_decoder_exact:
  "decode_varint data off =
     (let rest = drop off data; k = length (takeWhile continues rest);
          v = varint_value (take (k + 1) rest)
      in if 10 \<le> k then (Err (VarIntOverflow off), off + 10)
         else if length rest = k then (Err (eof (off + k) 1), off + k)
         else if v < 2 ^ 64 then (Ok (of_nat v), off + (k + 1))
         else (Err (VarIntOverflow off), off + (k + 1)))"
  by (rule decode_varint_exact)

text \<open>C14: Whatever an encoder appends to the output, its decoder reads back from that place, whatever
  follows, and stops where the encoding ends: integers of variable length, signed, and of fixed
  width, floating-point numbers by their bits, registers below 2 to the 15th, register ranges,
  strings that are UTF-8 and byte strings whose length fits the platform.\<close>

theorem bytecode_round_trip:
  "decode_varint (fst (encode_varint v out) @ post) (length out) = (Ok v, length (fst (encode_varint v out))) \<and>
   decode_signed_varint (fst (encode_signed_varint i out) @ post) (length out) =
     (Ok i, length (fst (encode_signed_varint i out))) \<and>
   decode_u16 (encode_u16 h out @ post) (length out) = (Ok h, length (encode_u16 h out)) \<and>
   decode_u32 (encode_u32 d out @ post) (length out) = (Ok d, length (encode_u32 d out)) \<and>
   decode_u64 (encode_u64 v out @ post) (length out) = (Ok v, length (encode_u64 v out)) \<and>
   decode_i64 (encode_i64 i out @ post) (length out) = (Ok i, length (encode_i64 i out)) \<and>
   decode_f64 (encode_f64 x out @ post) (length out) = (Ok x, length (encode_f64 x out)) \<and>
   (reg_index r < 0x8000 \<longrightarrow>
     decode_reg (encode_reg r out @ post) (length out) = (Ok r, length (encode_reg r out))) \<and>
   (reg_index (range_start g) < 0x8000 \<longrightarrow>
     decode_reg_range (encode_reg_range g out @ post) (length out) =
       (Ok g, length (encode_reg_range g out))) \<and>
   (length s < 2 ^ w \<and> length s < 2 ^ 64 \<longrightarrow>
     decode_bytes w (encode_string s out @ post) (length out) = (Ok s, length (encode_string s out)) \<and>
     (from_utf8 s = Inr s \<longrightarrow>
       decode_string w (encode_string s out @ post) (length out) = (Ok s, length (encode_string s out))))"
  by (intro conjI impI varint.dec_enc signed_varint.dec_enc word16.dec_enc word32.dec_enc word64.dec_enc
      int64.dec_enc float64.dec_enc register.dec_enc register_range.dec_enc bytes_codec.dec_enc
      string_codec.dec_enc TrueI; simp)

theorem bytecode_round_trip_witness:
  "decode_reg (encode_reg (Reg 300) [7] @ [9]) 1 = (Ok (Reg 300), length (encode_reg (Reg 300) [7])) \<and>
   decode_string 64 (encode_string [65, 0xC3, 0xA4] [7] @ [9]) 1 =
     (Ok [65, 0xC3, 0xA4], length (encode_string [65, 0xC3, 0xA4] [7]))"
  using bytecode_round_trip [where r = "Reg 300" and s = "[65, 0xC3, 0xA4]" and w = 64 and out = "[7]"
      and post = "[9]"]
  by (simp add: from_utf8_def head_error_def char_width_def second_ok_def is_continuation_def)

text \<open>C15: No decoder reads or moves past the end of the data, on any bytes: every decoder returns, leaves
  an offset between the one it was given and the end, and a string or byte string it returns is the
  slice of the data that ends there, so a hostile length prefix never makes it longer than the data.\<close>

theorem decoders_stay_inside:
  "stays_inside decode_varint \<and> stays_inside decode_signed_varint \<and> stays_inside (decode_fixed n) \<and>
   stays_inside decode_u16 \<and> stays_inside decode_u32 \<and> stays_inside decode_u64 \<and> stays_inside decode_i64 \<and>
   stays_inside decode_f64 \<and> stays_inside decode_f32 \<and> stays_inside decode_u8 \<and> stays_inside decode_reg \<and>
   stays_inside decode_reg_range \<and> stays_inside (decode_string w) \<and> stays_inside (decode_bytes w) \<and>
   (off \<le> length data \<and>
      (decode_bytes w data off = (Ok s, stop) \<or> decode_string w data off = (Ok s, stop)) \<longrightarrow>
    off + length s \<le> stop \<and> stop \<le> length data \<and> s = take (length s) (drop (stop - length s) data))"
proof -
  have "off + length s \<le> stop \<and> stop \<le> length data \<and> s = take (length s) (drop (stop - length s) data)"
    if "off \<le> length data" "decode_bytes w data off = (Ok s, stop)"
    using decode_bytes_slice [OF that] stays_insideD [OF decode_bytes_inside that] by blast
  then show ?thesis
    using decode_varint_inside decode_fixed_inside decode_u8_inside decode_reg_inside decode_reg_range_inside
      decode_string_inside decode_bytes_inside decode_string_bytes by (auto simp: word_decoders_inside)
qed

theorem decoders_stay_inside_witness:
  "decode_bytes 64 [9, 2, 65, 66, 7] 1 = (Ok [65, 66], 4) \<and>
   [65, 66] = take 2 (drop (4 - 2) [9, 2, 65, 66, 7 :: u8])"
proof -
  have "decode_bytes 64 [9, 2, 65, 66, 7] 1 = (Ok [65, 66], 4)"
    by (simp add: decode_bytes_def decode_payload_range_def decode_varint_def decode_varint_loop.simps
        usize_try_from_def continues_def)
  then show ?thesis
    using decoders_stay_inside [where off = 1 and data = "[9, 2, 65, 66, 7]" and s = "[65, 66]" and stop = 4
        and w = 64] by simp
qed

text \<open>The size functions give the number of bytes written, which the encoder also returns: between one
  and ten for an integer, as many as seven-bit digits are needed, and one or two for a register. A signed
  integer is written as the zigzag number of its value, so that the size depends on its magnitude only.\<close>

theorem sizes_exact:
  "encode_varint v out = (out @ fst (encode_varint v []), varint_size v) \<and>
   length (fst (encode_varint v [])) = varint_size v \<and>
   1 \<le> varint_size v \<and> varint_size v \<le> 10 \<and> unat v < 128 ^ varint_size v \<and>
   (varint_size v = 1 \<or> 128 ^ (varint_size v - 1) \<le> unat v) \<and>
   snd (encode_signed_varint i out) = signed_varint_size i \<and>
   int (unat (zigzag i)) = (if sint i < 0 then - 2 * sint i - 1 else 2 * sint i) \<and>
   length (encode_reg r []) = reg_size r"
proof -
  have "varint_size v = 1 \<or> 128 ^ (varint_size v - 1) \<le> unat v"
    using varint_size_least [of "varint_size v - 1" v] varint_size_pos [of v]
    by (cases "varint_size v - 1 = 0") (auto simp: not_less)
  moreover have "unat v < 128 ^ varint_size v"
    using varint_size_least [OF varint_size_pos [of v], of v] by simp
  ultimately show ?thesis
    using varint_size_range [of v] unat_zigzag [of i]
    by (simp add: encode_varint_exact length_varint_bytes encode_signed_varint_def signed_varint_size_def
        encode_reg_def reg_size_def)
qed

text \<open>A register survives encoding and decoding exactly when its index is below 2 to the 15th: any
  other is read back as the register whose index lacks the highest bit. The decoder does not enforce
  the documented maximum: it returns registers beyond \<open>Reg::MAX\<close>.\<close>

theorem reg_round_trip_iff:
  "(fst (decode_reg (encode_reg r []) 0) = Ok r) = (reg_index r < 0x8000) \<and>
   fst (decode_reg (encode_reg (Reg (0x8000 OR i)) []) 0) = Ok (Reg (i AND 0x7FFF)) \<and>
   fst (decode_reg (encode_reg (Reg 0x7FFF) []) 0) = Ok (Reg 0x7FFF) \<and> REG_MAX < 0x7FFF"
proof (intro conjI)
  have dec: "fst (decode_reg (encode_reg q []) 0) =
      Ok (if reg_index q < 128 then q else Reg (reg_index q AND 0x7FFF))" for q
    using decode_encode_reg [of q "[]" "[]"] by simp
  show "(fst (decode_reg (encode_reg r []) 0) = Ok r) = (reg_index r < 0x8000)"
    using reg_index_fits [of "reg_index r"] by (cases r) (auto simp: dec word_less_nat_alt)
  have "(0x8000 OR i) AND 0x7FFF = i AND 0x7FFF"
    by (simp add: bit.conj_disj_distrib2)
  moreover have "\<not> 0x8000 OR i < 128"
  proof
    assume "0x8000 OR i < 128"
    then have "(0x8000 OR i) AND 0x7FFF = 0x8000 OR i"
      using reg_index_fits [of "0x8000 OR i"] by (auto simp: word_less_nat_alt)
    then have "bit ((0x8000 OR i) AND 0x7FFF) 15"
      by (simp add: bit_simps)
    then show False
      by (simp add: bit_simps)
  qed
  ultimately show "fst (decode_reg (encode_reg (Reg (0x8000 OR i)) []) 0) = Ok (Reg (i AND 0x7FFF))"
    by (simp add: dec)
  show "fst (decode_reg (encode_reg (Reg 0x7FFF) []) 0) = Ok (Reg 0x7FFF)" "REG_MAX < 0x7FFF"
    by (simp_all add: dec REG_MAX_def)
qed

text \<open>The stream variants do the same as the variants on memory: writing to a vector appends what the
  encoder appends and returns the same count, and reading from a slice returns what the decoder returns,
  a failure where it fails, and leaves the bytes behind the decoder's offset.\<close>

theorem streams_agree:
  "write_varint vec_write_all v out = (Ok (snd (encode_varint v out)), fst (encode_varint v out)) \<and>
   same_outcome (StreamError ()) (fst (decode_varint data off)) (fst (read_varint slice_read_byte (drop off data))) \<and>
   snd (read_varint slice_read_byte (drop off data)) = drop (snd (decode_varint data off)) data"
  using vec_sink.writes_varint [of v out] slice_source.reads_varint [of "drop off data" off data]
  by (auto simp: encode_varint_exact)

end
