(* ===== verification/Cbgr.thy ===== *)
theory Cbgr
  imports Prelude
begin

section \<open>Generational references: the headers\<close>

text \<open>
  \<open>crates/verum_common/src/cbgr.rs\<close>: every allocation carries a header with a generation and an
  epoch, a reference remembers the pair it was made with, and a dereference compares the two.

  Two headers: \<open>CbgrHeader\<close> of the interpreter, a single atomic word with generation, epoch and
  capabilities packed, and \<open>AllocationHeader\<close> of the runtime, a record with separate atomic
  fields. The global epoch is a 64-bit counter that every operation takes and returns.

  An operation on an atomic field is a step of its own. \<open>increment_generation\<close>, the only operation
  with several of them and a retry, and the three loads of \<open>AllocationHeader::validate\<close> are given
  as programs over program counters, \<open>machine_step\<close> interleaves any number of threads that run
  them on one header, and the sequential functions are what a thread computes that runs alone. The
  interleaving is sequentially consistent: the effects of weaker orderings are not modelled.
\<close>

unbundle bit_operations_syntax

subsection \<open>Constants\<close>

definition GEN_UNALLOCATED :: u32 where "GEN_UNALLOCATED = 0"
definition GEN_INITIAL :: u32 where "GEN_INITIAL = 1"
definition GEN_MAX :: u32 where "GEN_MAX = 0xFFFFFFFE"
definition GEN_PERMANENT :: u32 where "GEN_PERMANENT = - 1"

lemmas gen_defs = GEN_UNALLOCATED_def GEN_INITIAL_def GEN_MAX_def GEN_PERMANENT_def

definition CAP_READ :: u32 where "CAP_READ = push_bit 0 1"
definition CAP_WRITE :: u32 where "CAP_WRITE = push_bit 1 1"
definition CAP_EXECUTE :: u32 where "CAP_EXECUTE = push_bit 2 1"
definition CAP_DELEGATE :: u32 where "CAP_DELEGATE = push_bit 3 1"
definition CAP_REVOKE :: u32 where "CAP_REVOKE = push_bit 4 1"
definition CAP_BORROWED :: u32 where "CAP_BORROWED = push_bit 5 1"
definition CAP_MUTABLE :: u32 where "CAP_MUTABLE = push_bit 6 1"
definition CAP_NO_ESCAPE :: u32 where "CAP_NO_ESCAPE = push_bit 7 1"
definition CAP_ALL :: u32 where "CAP_ALL = push_bit 8 1 - 1"
definition CAP_MASK :: u32 where "CAP_MASK = 0xFFFF"
definition CAP_READ_ONLY :: u32 where "CAP_READ_ONLY = CAP_READ OR CAP_BORROWED"
definition CAP_READ_WRITE :: u32 where "CAP_READ_WRITE = CAP_READ OR CAP_WRITE"
definition CAP_EXCLUSIVE :: u32 where "CAP_EXCLUSIVE = CAP_READ OR CAP_WRITE OR CAP_MUTABLE"
definition CAP_OWNER :: u32 where
  "CAP_OWNER = CAP_READ OR CAP_WRITE OR CAP_MUTABLE OR CAP_DELEGATE OR CAP_REVOKE"

lemmas cap_defs =
  CAP_READ_def CAP_WRITE_def CAP_EXECUTE_def CAP_DELEGATE_def CAP_REVOKE_def CAP_BORROWED_def
  CAP_MUTABLE_def CAP_NO_ESCAPE_def CAP_ALL_def CAP_MASK_def CAP_READ_ONLY_def CAP_READ_WRITE_def
  CAP_EXCLUSIVE_def CAP_OWNER_def

subsection \<open>Capability presets and error codes\<close>

datatype capability = CapNone | CapReadOnly | CapReadWrite | CapExclusive | CapOwner | CapAll

fun capability_bits :: "capability \<Rightarrow> u32" where
  "capability_bits CapNone = 0"
| "capability_bits CapReadOnly = CAP_READ_ONLY"
| "capability_bits CapReadWrite = CAP_READ_WRITE"
| "capability_bits CapExclusive = CAP_EXCLUSIVE"
| "capability_bits CapOwner = CAP_OWNER"
| "capability_bits CapAll = CAP_ALL"

definition is_present :: "capability \<Rightarrow> u32 \<Rightarrow> bool" where
  "is_present c bitfield = (let m = capability_bits c in bitfield AND m = m)"

definition has_flag :: "u32 \<Rightarrow> u32 \<Rightarrow> bool" where
  "has_flag bitfield flag = (bitfield AND flag \<noteq> 0)"

definition capability_from_bits :: "u32 \<Rightarrow> capability" where
  "capability_from_bits bits =
     (let x = bits AND CAP_MASK in
      if x = 0 then CapNone else if x = CAP_READ_ONLY then CapReadOnly
      else if x = CAP_READ_WRITE then CapReadWrite else if x = CAP_EXCLUSIVE then CapExclusive
      else if x = CAP_OWNER then CapOwner else if x = CAP_ALL then CapAll else CapNone)"

datatype cbgr_error_code =
  Success | GenerationMismatch | EpochMismatch | ExpiredReference | NullPointer | OutOfBounds
| AllocationFailed | InvalidAlignment

fun error_code_u32 :: "cbgr_error_code \<Rightarrow> u32" where
  "error_code_u32 Success = 0"
| "error_code_u32 GenerationMismatch = 1"
| "error_code_u32 EpochMismatch = 2"
| "error_code_u32 ExpiredReference = 3"
| "error_code_u32 NullPointer = 4"
| "error_code_u32 OutOfBounds = 5"
| "error_code_u32 AllocationFailed = 6"
| "error_code_u32 InvalidAlignment = 7"

definition is_success :: "cbgr_error_code \<Rightarrow> bool" where
  "is_success e = (e = Success)"

subsection \<open>The global epoch\<close>

definition advance_epoch :: "u64 \<Rightarrow> u64" where
  "advance_epoch global = global + 1"

definition current_epoch_u16 :: "u64 \<Rightarrow> 16 word" where
  "current_epoch_u16 global = ucast (global AND 0xFFFF)"

subsection \<open>The packed header\<close>

type_synonym cbgr_header = u64

definition pack :: "u32 \<Rightarrow> u32 \<Rightarrow> cbgr_header" where
  "pack generation epoch_caps = push_bit 32 (ucast generation) OR ucast epoch_caps"

definition unpack_generation :: "cbgr_header \<Rightarrow> u32" where
  "unpack_generation packed = ucast (drop_bit 32 packed)"

definition unpack_epoch_caps :: "cbgr_header \<Rightarrow> u32" where
  "unpack_epoch_caps packed = ucast packed"

definition header_with_generation :: "u32 \<Rightarrow> u32 \<Rightarrow> u32 \<Rightarrow> cbgr_header" where
  "header_with_generation epoch generation capabilities =
     pack generation (push_bit 16 epoch OR (capabilities AND CAP_MASK))"

definition header_new :: "u32 \<Rightarrow> cbgr_header" where
  "header_new epoch = pack GEN_INITIAL (push_bit 16 epoch OR CAP_READ_WRITE)"

definition header_epoch :: "cbgr_header \<Rightarrow> u32" where
  "header_epoch h = drop_bit 16 (unpack_epoch_caps h)"

definition header_capabilities :: "cbgr_header \<Rightarrow> u32" where
  "header_capabilities h = unpack_epoch_caps h AND CAP_MASK"

definition header_validate :: "cbgr_header \<Rightarrow> u32 \<Rightarrow> u32 \<Rightarrow> cbgr_error_code" where
  "header_validate h expected_gen expected_epoch =
     (let actual_gen = unpack_generation h in
      if actual_gen = GEN_UNALLOCATED then ExpiredReference
      else if actual_gen \<noteq> expected_gen then GenerationMismatch
      else
        let epoch_caps = unpack_epoch_caps h; actual_epoch = drop_bit 16 epoch_caps in
        if actual_epoch \<noteq> expected_epoch then EpochMismatch else Success)"

definition header_invalidate :: "cbgr_header \<Rightarrow> cbgr_header" where
  "header_invalidate h = pack GEN_UNALLOCATED (unpack_epoch_caps h)"

definition header_is_valid :: "cbgr_header \<Rightarrow> bool" where
  "header_is_valid h = (unpack_generation h \<noteq> GEN_UNALLOCATED)"

text \<open>
  \<open>CbgrHeader::increment_generation\<close> between two atomic operations. \<open>HLoad\<close> is the top of the loop,
  \<open>HBump\<close> and \<open>HReset\<close> are before the two exchanges, \<open>HEpoch\<close> before the load of the global epoch,
  \<open>HAdvance\<close> before the epoch is advanced.
\<close>

datatype header_pc =
  HLoad | HBump cbgr_header | HEpoch cbgr_header | HReset cbgr_header cbgr_header | HAdvance | HDone u32

fun header_step :: "header_pc \<Rightarrow> cbgr_header \<times> u64 \<Rightarrow> header_pc \<times> cbgr_header \<times> u64" where
  "header_step HLoad (h, global) =
     (if GEN_MAX \<le> unpack_generation h then HEpoch h else HBump h, h, global)"
| "header_step (HBump old) (h, global) =
     (if h = old then (HDone (unpack_generation old + 1), old + push_bit 32 1, global)
      else (HLoad, h, global))"
| "header_step (HEpoch old) (h, global) =
     (let capabilities = unpack_epoch_caps old AND CAP_MASK;
          new_epoch = ucast (global AND 0xFFFF);
          new_epoch_caps = push_bit 16 new_epoch OR capabilities
      in (HReset old (pack GEN_INITIAL new_epoch_caps), h, global))"
| "header_step (HReset old new) (h, global) =
     (if h = old then (HAdvance, new, global) else (HDone GEN_INITIAL, h, global))"
| "header_step HAdvance (h, global) = (HDone GEN_INITIAL, h, advance_epoch global)"
| "header_step (HDone r) s = (HDone r, s)"

definition header_increment :: "cbgr_header \<times> u64 \<Rightarrow> header_pc \<times> cbgr_header \<times> u64" where
  "header_increment s = ((\<lambda>(pc, s). header_step pc s) ^^ 4) (HLoad, s)"

subsection \<open>The allocation header\<close>

record allocation_header =
  ah_size :: u32
  ah_alignment :: "16 word"
  ah_base_offset :: "16 word"
  ah_generation :: u32
  ah_epoch :: "16 word"
  ah_capabilities :: "16 word"
  ah_type_id :: u32
  ah_flags :: u32
  ah_ref_count :: u32
  ah_total :: u32

definition alloc_header_new :: "u64 \<Rightarrow> u32 \<Rightarrow> u32 \<Rightarrow> u32 \<Rightarrow> 16 word \<Rightarrow> allocation_header" where
  "alloc_header_new global sz alignment type_id capabilities =
     \<lparr>ah_size = sz, ah_alignment = ucast alignment, ah_base_offset = 0,
      ah_generation = GEN_INITIAL, ah_epoch = current_epoch_u16 global,
      ah_capabilities = capabilities, ah_type_id = type_id, ah_flags = 0, ah_ref_count = 1, ah_total = 0\<rparr>"

definition alloc_header_with_capability ::
    "u64 \<Rightarrow> u32 \<Rightarrow> u32 \<Rightarrow> u32 \<Rightarrow> capability \<Rightarrow> allocation_header" where
  "alloc_header_with_capability global sz alignment type_id c =
     alloc_header_new global sz alignment type_id (ucast (capability_bits c))"

definition alloc_invalidate :: "allocation_header \<Rightarrow> allocation_header" where
  "alloc_invalidate h = h\<lparr>ah_generation := GEN_UNALLOCATED\<rparr>"

definition alloc_store_generation :: "u32 \<Rightarrow> allocation_header \<Rightarrow> allocation_header" where
  "alloc_store_generation generation h = h\<lparr>ah_generation := generation\<rparr>"

definition alloc_store_epoch :: "16 word \<Rightarrow> allocation_header \<Rightarrow> allocation_header" where
  "alloc_store_epoch epoch h = h\<lparr>ah_epoch := epoch\<rparr>"

definition alloc_store_capabilities :: "16 word \<Rightarrow> allocation_header \<Rightarrow> allocation_header" where
  "alloc_store_capabilities caps h = h\<lparr>ah_capabilities := caps\<rparr>"

definition alloc_load_generation_epoch_fast :: "allocation_header \<Rightarrow> u32 \<times> 16 word" where
  "alloc_load_generation_epoch_fast h = (ah_generation h, ah_epoch h)"

definition alloc_is_valid :: "allocation_header \<Rightarrow> bool" where
  "alloc_is_valid h = (ah_generation h \<noteq> GEN_UNALLOCATED)"

definition alloc_total_size :: "allocation_header \<Rightarrow> nat" where
  "alloc_total_size h = 32 + unat (ah_size h)"

datatype inc_pc = ILoad | IBump u32 | IReset u32 | IAdvance | IEpoch | IStore "16 word" | IDone u32

fun inc_step :: "inc_pc \<Rightarrow> allocation_header \<times> u64 \<Rightarrow> inc_pc \<times> allocation_header \<times> u64" where
  "inc_step ILoad (h, global) =
     (if GEN_MAX \<le> ah_generation h then IReset (ah_generation h) else IBump (ah_generation h), h, global)"
| "inc_step (IBump old) (h, global) =
     (let new = old + 1 in
      if ah_generation h = old then (IDone new, h\<lparr>ah_generation := new\<rparr>, global)
      else (ILoad, h, global))"
| "inc_step (IReset old) (h, global) =
     (if ah_generation h = old then (IAdvance, h\<lparr>ah_generation := GEN_INITIAL\<rparr>, global)
      else (IDone GEN_INITIAL, h, global))"
| "inc_step IAdvance (h, global) = (IEpoch, h, advance_epoch global)"
| "inc_step IEpoch (h, global) = (IStore (current_epoch_u16 global), h, global)"
| "inc_step (IStore e) (h, global) = (IDone GEN_INITIAL, h\<lparr>ah_epoch := e\<rparr>, global)"
| "inc_step (IDone r) s = (IDone r, s)"

definition alloc_increment :: "allocation_header \<times> u64 \<Rightarrow> inc_pc \<times> allocation_header \<times> u64" where
  "alloc_increment s = ((\<lambda>(pc, s). inc_step pc s) ^^ 5) (ILoad, s)"

datatype val_pc = VGeneration | VEpoch u32 | VRecheck u32 | VDone cbgr_error_code

fun val_step :: "u32 \<Rightarrow> 16 word \<Rightarrow> val_pc \<Rightarrow> allocation_header \<Rightarrow> val_pc" where
  "val_step expected_gen expected_epoch VGeneration h =
     (if ah_generation h = GEN_UNALLOCATED then VDone ExpiredReference
      else if ah_generation h \<noteq> expected_gen then VDone GenerationMismatch
      else VEpoch (ah_generation h))"
| "val_step expected_gen expected_epoch (VEpoch actual_gen) h =
     (if ah_epoch h \<noteq> expected_epoch then VDone EpochMismatch else VRecheck actual_gen)"
| "val_step expected_gen expected_epoch (VRecheck actual_gen) h =
     (if ah_generation h \<noteq> actual_gen then VDone GenerationMismatch else VDone Success)"
| "val_step expected_gen expected_epoch (VDone r) h = VDone r"

definition alloc_validate :: "allocation_header \<Rightarrow> u32 \<Rightarrow> 16 word \<Rightarrow> val_pc" where
  "alloc_validate h expected_gen expected_epoch =
     ((\<lambda>pc. val_step expected_gen expected_epoch pc h) ^^ 3) VGeneration"

subsection \<open>Threads on one header\<close>

datatype thread = Incrementing inc_pc | Validating u32 "16 word" val_pc

fun thread_step :: "thread \<Rightarrow> allocation_header \<times> u64 \<Rightarrow> thread \<times> allocation_header \<times> u64" where
  "thread_step (Incrementing pc) s = (case inc_step pc s of (pc', s') \<Rightarrow> (Incrementing pc', s'))"
| "thread_step (Validating g e pc) (h, global) = (Validating g e (val_step g e pc h), h, global)"

inductive machine_step ::
    "thread list \<times> allocation_header \<times> u64 \<Rightarrow> thread list \<times> allocation_header \<times> u64 \<Rightarrow> bool" where
  schedule: "i < length ts \<Longrightarrow> thread_step (ts ! i) s = (t', s') \<Longrightarrow>
    machine_step (ts, s) (ts[i := t'], s')"

inductive_cases machine_stepE: "machine_step (ts, s) x"

subsection \<open>Packing\<close>

lemma unpack_generation_pack [simp]: "unpack_generation (pack g ec) = g"
  by (rule bit_word_eqI)
    (auto simp: pack_def unpack_generation_def bit_simps dest: bit_imp_le_length)

lemma unpack_epoch_caps_pack [simp]: "unpack_epoch_caps (pack g ec) = ec"
  by (rule bit_word_eqI) (auto simp: pack_def unpack_epoch_caps_def bit_simps)

lemma pack_unpack [simp]: "pack (unpack_generation h) (unpack_epoch_caps h) = h"
  by (rule bit_word_eqI) (auto simp: pack_def unpack_generation_def unpack_epoch_caps_def bit_simps)

lemma cap_mask: "CAP_MASK = mask 16"
  by (simp add: cap_defs mask_eq_exp_minus_1)

lemma epoch_caps_fields:
  "drop_bit 16 (push_bit 16 e OR (c AND CAP_MASK) :: u32) = take_bit 16 e"
  "(push_bit 16 e OR (c AND CAP_MASK)) AND CAP_MASK = (c AND CAP_MASK :: u32)"
  by (rule bit_word_eqI, auto simp: cap_mask bit_simps)+

lemma epoch_caps_split:
  "push_bit 16 (drop_bit 16 ec) OR (ec AND CAP_MASK) = (ec :: u32)"
  by (rule bit_word_eqI) (auto simp: cap_mask bit_simps)

lemma read_write_masked: "CAP_READ_WRITE = CAP_READ_WRITE AND CAP_MASK"
  by (simp add: cap_defs)

lemma header_new_eq: "header_new e = header_with_generation e GEN_INITIAL CAP_READ_WRITE"
  using read_write_masked by (simp add: header_new_def header_with_generation_def)

lemma with_generation_fields:
  "unpack_generation (header_with_generation e g c) = g"
  "header_epoch (header_with_generation e g c) = take_bit 16 e"
  "header_capabilities (header_with_generation e g c) = c AND CAP_MASK"
  unfolding header_with_generation_def header_epoch_def header_capabilities_def unpack_generation_pack
    unpack_epoch_caps_pack epoch_caps_fields by (rule refl)+

lemma header_ext:
  "unpack_generation h = unpack_generation h' \<Longrightarrow> header_epoch h = header_epoch h' \<Longrightarrow>
   header_capabilities h = header_capabilities h' \<Longrightarrow> h = h'"
  by (metis epoch_caps_split header_capabilities_def header_epoch_def pack_unpack)

lemma header_validate_Success:
  "header_validate h g e = Success \<longleftrightarrow> g \<noteq> GEN_UNALLOCATED \<and> unpack_generation h = g \<and> header_epoch h = e"
  by (auto simp: header_validate_def header_epoch_def Let_def)

lemma pack_add: "pack g ec = push_bit 32 (ucast g) + ucast ec"
proof -
  have "push_bit 32 (ucast g) AND ucast ec = (0 :: u64)"
    by (rule bit_word_eqI) (auto simp: bit_simps dest: bit_imp_le_length)
  then show ?thesis
    by (simp add: pack_def disjunctive_add_eq_or)
qed

lemma ucast_bump:
  assumes "g < GEN_MAX"
  shows "(ucast (g + 1) :: u64) = ucast g + 1"
proof -
  have "unat (g + 1) = unat g + 1"
    using assms by (simp add: gen_defs word_less_nat_alt unat_word_ariths)
  then have "unat (ucast (g + 1) :: u64) = unat (ucast g + 1 :: u64)"
    using unat_bound [of g] by (simp add: unsigned_ucast_eq unat_word_ariths take_bit_nat_eq_self)
  then show ?thesis
    by (rule unsigned_word_eqI)
qed

lemma bump_packed:
  assumes "unpack_generation h < GEN_MAX"
  shows "h + push_bit 32 1 = pack (unpack_generation h + 1) (unpack_epoch_caps h)"
proof -
  have "pack (unpack_generation h + 1) (unpack_epoch_caps h) =
      pack (unpack_generation h) (unpack_epoch_caps h) + push_bit 32 1"
    unfolding pack_add ucast_bump [OF assms] push_bit_eq_mult by (simp add: algebra_simps)
  then show ?thesis
    by simp
qed

subsection \<open>Sequential behaviour\<close>

lemma header_increment_cases:
  "header_increment (h, global) =
     (if GEN_MAX \<le> unpack_generation h
      then (HDone GEN_INITIAL,
            pack GEN_INITIAL (push_bit 16 (ucast (global AND 0xFFFF)) OR header_capabilities h), advance_epoch global)
      else (HDone (unpack_generation h + 1), h + push_bit 32 1, global))"
  by (simp add: header_increment_def numeral_eq_Suc header_capabilities_def Let_def)

lemma alloc_increment_cases:
  "alloc_increment (h, global) =
     (if GEN_MAX \<le> ah_generation h
      then (IDone GEN_INITIAL,
            h\<lparr>ah_generation := GEN_INITIAL, ah_epoch := current_epoch_u16 (advance_epoch global)\<rparr>, advance_epoch global)
      else (IDone (ah_generation h + 1), h\<lparr>ah_generation := ah_generation h + 1\<rparr>, global))"
  by (simp add: alloc_increment_def numeral_eq_Suc Let_def)

lemma alloc_validate_cases:
  "alloc_validate h g e =
     VDone (if ah_generation h = GEN_UNALLOCATED then ExpiredReference
            else if ah_generation h \<noteq> g then GenerationMismatch
            else if ah_epoch h \<noteq> e then EpochMismatch else Success)"
  by (simp add: alloc_validate_def numeral_eq_Suc)

subsection \<open>Histories of one header\<close>

text \<open>
  Everything that can happen to a header and the global epoch between two dereferences: any of the
  operations of \<open>AllocationHeader\<close> that change it, or another header wraps and advances the epoch.
  \<open>epoch_advances\<close> counts how often the epoch advances in a history.

  \<open>orderly\<close> histories are those of an owner who keeps to increments and invalidation: the
  generation and the epoch are not overwritten with an arbitrary value, and an invalidated header is
  not incremented any more. The operations themselves enforce neither.
\<close>

datatype event =
  Increment | ElsewhereWraps | Invalidate | StoreGeneration u32 | StoreEpoch "16 word" | StoreCapabilities "16 word"

fun alloc_event :: "event \<Rightarrow> allocation_header \<times> u64 \<Rightarrow> allocation_header \<times> u64" where
  "alloc_event Increment s = snd (alloc_increment s)"
| "alloc_event ElsewhereWraps (h, global) = (h, advance_epoch global)"
| "alloc_event Invalidate (h, global) = (alloc_invalidate h, global)"
| "alloc_event (StoreGeneration g) (h, global) = (alloc_store_generation g h, global)"
| "alloc_event (StoreEpoch e) (h, global) = (alloc_store_epoch e h, global)"
| "alloc_event (StoreCapabilities c) (h, global) = (alloc_store_capabilities c h, global)"

fun epoch_advances :: "allocation_header \<times> u64 \<Rightarrow> event list \<Rightarrow> nat" where
  "epoch_advances s [] = 0"
| "epoch_advances s (e # es) =
     (if e = ElsewhereWraps \<or> e = Increment \<and> GEN_MAX \<le> ah_generation (fst s) then 1 else 0) +
     epoch_advances (alloc_event e s) es"

fun is_store :: "event \<Rightarrow> bool" where
  "is_store (StoreGeneration _) = True"
| "is_store (StoreEpoch _) = True"
| "is_store _ = False"

fun orderly :: "event list \<Rightarrow> bool" where
  "orderly [] = True"
| "orderly (e # es) = (\<not> is_store e \<and> (e = Invalidate \<longrightarrow> Increment \<notin> set es) \<and> orderly es)"

lemmas alloc_store_defs = alloc_invalidate_def alloc_store_generation_def alloc_store_epoch_def alloc_store_capabilities_def

text \<open>The unbounded count of epochs behind a header: the epoch it was last set in, and the global one.\<close>

definition tracks :: "allocation_header \<times> u64 \<Rightarrow> nat \<Rightarrow> nat \<Rightarrow> bool" where
  "tracks s E G =
     (E \<le> G \<and> ah_epoch (fst s) = of_nat E \<and> snd s = of_nat G \<and>
      GEN_INITIAL \<le> ah_generation (fst s) \<and> ah_generation (fst s) \<le> GEN_MAX)"

lemma current_epoch_of_nat: "current_epoch_u16 (of_nat G) = of_nat G"
proof (rule unsigned_word_eqI)
  have "current_epoch_u16 (of_nat G) = ucast (take_bit 16 (of_nat G :: u64))"
    unfolding current_epoch_u16_def take_bit_eq_mask by (simp add: mask_eq_exp_minus_1)
  also have "unat \<dots> = unat (of_nat G :: 16 word)"
    unfolding unsigned_ucast_eq unsigned_take_bit_eq
    by (simp add: unat_of_nat take_bit_eq_mod mod_mod_cancel)
  finally show "unat (current_epoch_u16 (of_nat G)) = unat (of_nat G :: 16 word)" .
qed

lemma tracks_event:
  assumes "tracks s E G" and "\<not> is_store e" and "e \<noteq> Invalidate"
  shows "\<exists>E'. tracks (alloc_event e s) E' (G + epoch_advances s [e]) \<and> E \<le> E' \<and>
    (e \<noteq> Increment \<longrightarrow> E' = E \<and> ah_generation (fst (alloc_event e s)) = ah_generation (fst s)) \<and>
    (e = Increment \<longrightarrow> E < E' \<or> ah_generation (fst s) < ah_generation (fst (alloc_event e s)))"
proof (cases e)
  case ElsewhereWraps
  then show ?thesis
    using assms by (cases s) (auto simp: tracks_def advance_epoch_def)
next
  case (StoreCapabilities c)
  then show ?thesis
    using assms by (cases s) (auto simp: tracks_def alloc_store_defs)
next
  case Increment
  obtain h global where s: "s = (h, global)"
    by (cases s)
  show ?thesis
  proof (cases "GEN_MAX \<le> ah_generation h")
    case True
    then have "tracks (alloc_event e s) (Suc G) (G + epoch_advances s [e])"
      using assms Increment current_epoch_of_nat [of "Suc G"] add.commute [of 1 "of_nat G :: u64"]
      by (simp add: s tracks_def alloc_increment_cases advance_epoch_def gen_defs)
    then show ?thesis
      using assms Increment by (intro exI [of _ "Suc G"]) (simp add: tracks_def)
  next
    case False
    then have "unat (ah_generation h + 1) = unat (ah_generation h) + 1"
      by (simp add: gen_defs word_le_nat_alt unat_word_ariths)
    then show ?thesis
      using assms Increment False
      by (intro exI [of _ E])
        (auto simp: s tracks_def alloc_increment_cases gen_defs word_le_nat_alt word_less_nat_alt)
  qed
qed (use assms in auto)

lemma tracks_history:
  "tracks s E G \<Longrightarrow> orderly es \<Longrightarrow> Invalidate \<notin> set es \<Longrightarrow>
   \<exists>E'. tracks (fold alloc_event es s) E' (G + epoch_advances s es) \<and>
     (E < E' \<or> E = E' \<and> ah_generation (fst s) \<le> ah_generation (fst (fold alloc_event es s))) \<and>
     (Increment \<in> set es \<longrightarrow>
        E < E' \<or> E = E' \<and> ah_generation (fst s) < ah_generation (fst (fold alloc_event es s))) \<and>
     (Increment \<notin> set es \<longrightarrow> E = E' \<and> ah_generation (fst s) = ah_generation (fst (fold alloc_event es s)))"
proof (induction es arbitrary: s E G)
  case Nil
  then show ?case by auto
next
  case (Cons e es)
  obtain E1 where E1: "tracks (alloc_event e s) E1 (G + epoch_advances s [e])" "E \<le> E1"
      "e \<noteq> Increment \<longrightarrow> E1 = E \<and> ah_generation (fst (alloc_event e s)) = ah_generation (fst s)"
      "e = Increment \<longrightarrow> E < E1 \<or> ah_generation (fst s) < ah_generation (fst (alloc_event e s))"
    using tracks_event [OF Cons.prems(1), of e] Cons.prems(2,3) by auto
  have "G + epoch_advances s (e # es) = (G + epoch_advances s [e]) + epoch_advances (alloc_event e s) es"
    by simp
  then show ?case
    using Cons.IH [OF E1(1)] E1(2-) Cons.prems(2,3) by (cases "e = Increment") fastforce+
qed

text \<open>An invalidated header stays invalid while nothing increments it or stores a generation.\<close>

lemma invalid_history:
  "ah_generation (fst s) = GEN_UNALLOCATED \<Longrightarrow> Increment \<notin> set es \<Longrightarrow> \<forall>e \<in> set es. \<not> is_store e \<Longrightarrow>
   ah_generation (fst (fold alloc_event es s)) = GEN_UNALLOCATED"
proof (induction es arbitrary: s)
  case (Cons e es)
  have "ah_generation (fst (alloc_event e s)) = GEN_UNALLOCATED"
    using Cons.prems by (cases e; cases s) (auto simp: alloc_store_defs)
  then show ?case using Cons by simp
qed simp

lemma orderly_no_store: "orderly es \<Longrightarrow> \<forall>e \<in> set es. \<not> is_store e"
  by (induction es) auto

lemma orderly_append: "orderly (xs @ Invalidate # ys) \<Longrightarrow> Increment \<notin> set ys \<and> orderly ys"
  by (induction xs) auto

lemma orderly_invalidated:
  assumes "orderly es" and "Invalidate \<in> set es"
  shows "ah_generation (fst (fold alloc_event es s)) = GEN_UNALLOCATED"
proof -
  obtain xs ys where es: "es = xs @ Invalidate # ys" using split_list [OF assms(2)] by blast
  define r where "r = fold alloc_event xs s"
  have "Increment \<notin> set ys" "\<forall>e \<in> set ys. \<not> is_store e"
    using orderly_append [of xs ys] orderly_no_store [of ys] assms(1) es by auto
  moreover have "ah_generation (fst (alloc_event Invalidate r)) = GEN_UNALLOCATED"
    by (cases r) (simp add: alloc_store_defs)
  ultimately show ?thesis using invalid_history by (simp add: es r_def)
qed

lemma of_nat_u16_eq:
  assumes "E \<le> E'" "E' - E < 2 ^ 16" "(of_nat E :: 16 word) = of_nat E'"
  shows "E = E'"
proof -
  have "E mod 2 ^ 16 = E' mod 2 ^ 16"
    using arg_cong [OF assms(3), of unat] by (simp add: unat_of_nat)
  then have "2 ^ 16 dvd E' - E"
    using mod_eq_dvd_iff_nat [OF assms(1), of "2 ^ 16"] by simp
  then show ?thesis
    using assms(1,2) by (auto dest: dvd_imp_le)
qed

text \<open>C10: A stale reference is always detected: after any orderly history of a header that was in step with
  the global epoch, a reference made before it validates exactly when the header was neither
  incremented nor invalidated in between, as long as the epoch has advanced fewer than 65536 times,
  whatever wraps here or elsewhere. Orderly means that nobody overwrites the generation or the epoch and
  that an invalidated header is not incremented again; \<open>invalidated_header_counts_again\<close> shows that
  the latter is needed.\<close>

theorem stale_reference_detected:
  assumes "GEN_INITIAL \<le> ah_generation h" "ah_generation h \<le> GEN_MAX"
    and "ah_epoch h = current_epoch_u16 global"
    and "orderly es" and "epoch_advances (h, global) es < 2 ^ 16"
  shows "(alloc_validate (fst (fold alloc_event es (h, global))) (ah_generation h) (ah_epoch h) = VDone Success) =
    (Increment \<notin> set es \<and> Invalidate \<notin> set es)"
proof (cases "Invalidate \<in> set es")
  case True
  then show ?thesis
    using orderly_invalidated [OF assms(4) True, of "(h, global)"] by (simp add: alloc_validate_cases)
next
  case False
  obtain G where G: "global = of_nat G"
    using that [of "unat global"] by simp
  then have "tracks (h, global) G G"
    using assms(1-3) by (simp add: tracks_def current_epoch_of_nat)
  define H where "H = fold alloc_event es (h, global)"
  from tracks_history [OF \<open>tracks (h, global) G G\<close> assms(4) False] obtain E' where E':
    "tracks H E' (G + epoch_advances (h, global) es)"
    "G < E' \<or> G = E' \<and> ah_generation h \<le> ah_generation (fst H)"
    "Increment \<in> set es \<longrightarrow> G < E' \<or> G = E' \<and> ah_generation h < ah_generation (fst H)"
    "Increment \<notin> set es \<longrightarrow> G = E' \<and> ah_generation h = ah_generation (fst H)"
    unfolding H_def by auto
  have "E' - G < 2 ^ 16"
    using E'(1) assms(5) by (auto simp: tracks_def)
  then have epoch: "ah_epoch (fst H) = ah_epoch h \<longleftrightarrow> G = E'"
    using E'(1,2) of_nat_u16_eq [of G E'] assms(3) G by (auto simp: tracks_def current_epoch_of_nat)
  have "ah_generation h \<noteq> GEN_UNALLOCATED"
    using assms(1) by (auto simp: gen_defs)
  then have "alloc_validate (fst H) (ah_generation h) (ah_epoch h) = VDone Success \<longleftrightarrow>
      ah_generation (fst H) = ah_generation h \<and> ah_epoch (fst H) = ah_epoch h"
    by (simp add: alloc_validate_cases)
  then show ?thesis
    unfolding H_def [symmetric] epoch using E'(3,4) False by (metis less_irrefl)
qed

theorem stale_reference_detected_witness:
  "alloc_validate (fst (fold alloc_event [ElsewhereWraps, Increment] (alloc_header_new 7 64 8 1 3, 7)))
     GEN_INITIAL (current_epoch_u16 7) \<noteq> VDone Success \<and>
   alloc_validate (fst (fold alloc_event [ElsewhereWraps, Invalidate] (alloc_header_new 7 64 8 1 3, 7)))
     GEN_INITIAL (current_epoch_u16 7) \<noteq> VDone Success"
  using stale_reference_detected [of "alloc_header_new 7 64 8 1 3" 7 "[ElsewhereWraps, Increment]"]
    stale_reference_detected [of "alloc_header_new 7 64 8 1 3" 7 "[ElsewhereWraps, Invalidate]"]
  by (simp add: alloc_header_new_def gen_defs)

lemma counting_history:
  "\<forall>e \<in> set es. \<not> is_store e \<and> e \<noteq> Invalidate \<Longrightarrow> unat (ah_generation (fst s)) + count_list es Increment \<le> unat GEN_MAX \<Longrightarrow>
   ah_generation (fst (fold alloc_event es s)) = ah_generation (fst s) + of_nat (count_list es Increment) \<and>
   ah_epoch (fst (fold alloc_event es s)) = ah_epoch (fst s)"
proof (induction es arbitrary: s)
  case (Cons e es)
  obtain h global where s: "s = (h, global)" by (cases s)
  show ?case
  proof (cases "e = Increment")
    case True
    then have less: "ah_generation h < GEN_MAX" using Cons.prems(2) by (simp add: s word_less_nat_alt)
    then have step: "snd (alloc_increment (h, global)) = (h\<lparr>ah_generation := ah_generation h + 1\<rparr>, global)"
      by (auto simp: alloc_increment_cases)
    have "unat (ah_generation h + 1) = unat (ah_generation h) + 1"
      using less by (simp add: gen_defs word_less_nat_alt unat_word_ariths)
    then show ?thesis
      using Cons.IH [of "alloc_event e s"] Cons.prems True by (simp add: s step algebra_simps)
  next
    case False
    then have "ah_generation (fst (alloc_event e s)) = ah_generation h \<and> ah_epoch (fst (alloc_event e s)) = ah_epoch h"
      using Cons.prems(1) by (cases e) (auto simp: s alloc_store_defs)
    then show ?thesis
      using Cons.IH [of "alloc_event e s"] Cons.prems False by (simp add: s)
  qed
qed simp

text \<open>C39: Invalidation is not for good: \<open>increment_generation\<close> does not look at whether a header is valid, so
  an invalidated header counts again from zero. After an invalidation and any events that store no
  generation or epoch and do not invalidate again, with at most \<open>GEN_MAX\<close> increments among them, a
  reference from before validates exactly when the increments are as many as its generation says.\<close>

theorem invalidated_header_counts_again:
  assumes "ah_generation h \<noteq> GEN_UNALLOCATED"
    and "\<forall>e \<in> set es. \<not> is_store e \<and> e \<noteq> Invalidate" and "count_list es Increment \<le> unat GEN_MAX"
  shows "alloc_validate (fst (fold alloc_event (Invalidate # es) (h, global))) (ah_generation h) (ah_epoch h) = VDone Success \<longleftrightarrow>
    count_list es Increment = unat (ah_generation h)"
proof -
  define k and s where "k = count_list es Increment" and "s = fold alloc_event (Invalidate # es) (h, global)"
  have k: "unat (of_nat k :: u32) = k" using assms(3) unfolding k_def by (rule le_unat_uoi)
  have "ah_generation (fst s) = of_nat k \<and> ah_epoch (fst s) = ah_epoch h"
    using counting_history [OF assms(2), of "(alloc_invalidate h, global)"] assms(3)
    by (simp add: k_def s_def alloc_invalidate_def GEN_UNALLOCATED_def)
  moreover have "of_nat k = ah_generation h \<longleftrightarrow> k = unat (ah_generation h)" using k by auto
  ultimately show ?thesis
    using assms(1) unfolding s_def [symmetric] k_def [symmetric] by (simp add: alloc_validate_cases)
qed

theorem invalidated_header_counts_again_witness:
  "alloc_validate (fst (fold alloc_event [Invalidate, ElsewhereWraps, Increment] (alloc_header_new 7 64 8 1 3, 7)))
     GEN_INITIAL (current_epoch_u16 7) = VDone Success"
  using invalidated_header_counts_again [of "alloc_header_new 7 64 8 1 3" "[ElsewhereWraps, Increment]" 7]
  by (simp add: alloc_header_new_def gen_defs)

subsection \<open>The packed header wraps in place\<close>

lemma low16: "(global AND 0xFFFF :: u64) = take_bit 16 global"
  by (simp add: take_bit_eq_mask mask_eq_exp_minus_1)

lemma header_increments:
  "n < 2 ^ 32 - 2 \<Longrightarrow>
   ((\<lambda>s. snd (header_increment s)) ^^ n) (pack GEN_INITIAL ec, global) =
     (pack (of_nat (Suc n)) ec, global)"
proof (induction n)
  case 0
  then show ?case by (simp add: gen_defs)
next
  case (Suc n)
  define g :: u32 where "g = of_nat (Suc n)"
  have small: "g < GEN_MAX"
    using Suc.prems by (simp add: g_def gen_defs word_less_nat_alt unat_of_nat del: of_nat_Suc)
  have "snd (header_increment (pack g ec, global)) = (pack (g + 1) ec, global)"
    using bump_packed [of "pack g ec"] small by (auto simp: header_increment_cases dest: leD)
  moreover have "((\<lambda>s. snd (header_increment s)) ^^ n) (pack GEN_INITIAL ec, global) =
      (pack (of_nat (Suc n)) ec, global)"
    using Suc by simp
  ultimately show ?case
    by (simp add: g_def add.commute)
qed

lemma wrap_same_epoch:
  assumes "GEN_MAX \<le> unpack_generation h" "header_epoch h = ucast (global AND 0xFFFF)"
  shows "snd (header_increment (h, global)) = (pack GEN_INITIAL (unpack_epoch_caps h), advance_epoch global)"
proof -
  have "push_bit 16 (header_epoch h) OR header_capabilities h = unpack_epoch_caps h"
    unfolding header_epoch_def header_capabilities_def by (rule epoch_caps_split)
  then show ?thesis
    using assms by (simp add: header_increment_cases)
qed

text \<open>C37: The packed header comes back bit for bit: a header made in the current epoch is, after 2 to the
  32nd minus 2 increments, the header it was at first, because the wrap stores the epoch it read before
  advancing it. A reference from before the first increment then validates again.\<close>

theorem packed_header_wraps_in_place:
  assumes "e = ucast (global AND 0xFFFF)"
  shows "((\<lambda>s. snd (header_increment s)) ^^ (2 ^ 32 - 2)) (header_new e, global) =
      (header_new e, advance_epoch global) \<and>
    header_validate (header_new e) GEN_INITIAL e = Success"
proof -
  let ?f = "\<lambda>s. snd (header_increment s)"
  define ec where "ec = unpack_epoch_caps (header_new e)"
  have new: "header_new e = pack GEN_INITIAL ec"
    by (simp add: header_new_def ec_def)
  have "take_bit 16 e = e"
    unfolding assms low16 by (rule bit_word_eqI) (auto simp: bit_simps)
  then have epoch: "header_epoch (header_new e) = e" "unpack_generation (header_new e) = GEN_INITIAL"
    by (simp_all add: header_new_eq with_generation_fields)
  have "header_epoch (pack GEN_MAX ec) = e"
    using epoch(1) by (simp add: ec_def header_epoch_def)
  then have "header_epoch (pack GEN_MAX ec) = ucast (global AND 0xFFFF)"
    by (simp only: assms)
  then have "?f (pack GEN_MAX ec, global) = (header_new e, advance_epoch global)"
    unfolding new by (subst wrap_same_epoch) simp_all
  moreover have "(?f ^^ (2 ^ 32 - 3)) (header_new e, global) = (pack GEN_MAX ec, global)"
    using header_increments [of "2 ^ 32 - 3" ec global] by (simp add: new gen_defs)
  moreover have "(2 ^ 32 - 2 :: nat) = Suc (2 ^ 32 - 3)"
    by simp
  ultimately have "(?f ^^ (2 ^ 32 - 2)) (header_new e, global) = (header_new e, advance_epoch global)"
    by (simp only: funpow.simps o_apply)
  then show ?thesis
    using epoch by (simp add: header_validate_Success gen_defs)
qed

theorem packed_header_wraps_in_place_witness:
  "((\<lambda>s. snd (header_increment s)) ^^ (2 ^ 32 - 2)) (header_new 7, 7) = (header_new 7, 8) \<and>
   header_validate (fst (((\<lambda>s. snd (header_increment s)) ^^ (2 ^ 32 - 2)) (header_new 7, 7))) GEN_INITIAL 7 = Success"
  using packed_header_wraps_in_place [of 7 7] by (simp add: advance_epoch_def)

subsection \<open>Interleaved threads\<close>

definition next_generation :: "u32 \<Rightarrow> u32" where
  "next_generation g = (if g = GEN_MAX then GEN_INITIAL else g + 1)"

fun pc_ok :: "thread \<Rightarrow> bool" where
  "pc_ok (Incrementing (IBump old)) = (old < GEN_MAX)"
| "pc_ok (Incrementing (IReset old)) = (GEN_MAX \<le> old)"
| "pc_ok _ = True"

definition machine_inv :: "thread list \<times> allocation_header \<times> u64 \<Rightarrow> bool" where
  "machine_inv x =
     (case x of (ts, h, _) \<Rightarrow>
        (\<forall>t \<in> set ts. pc_ok t) \<and> GEN_INITIAL \<le> ah_generation h \<and> ah_generation h \<le> GEN_MAX)"

lemma next_generation_range:
  assumes "GEN_INITIAL \<le> g" "g \<le> GEN_MAX"
  shows "GEN_INITIAL \<le> next_generation g \<and> next_generation g \<le> GEN_MAX"
proof (cases "g = GEN_MAX")
  case False
  then have "unat g < unat GEN_MAX"
    using assms(2) by (simp add: word_less_nat_alt [symmetric])
  then have "unat (g + 1) = unat g + 1"
    by (simp add: gen_defs unat_word_ariths)
  then show ?thesis
    using False \<open>unat g < unat GEN_MAX\<close> by (simp add: next_generation_def word_le_nat_alt gen_defs)
qed (simp add: next_generation_def gen_defs)

lemma inc_step_generation:
  assumes "inc_step pc (h, global) = (pc', h', global')" "pc_ok (Incrementing pc)"
    "GEN_INITIAL \<le> ah_generation h" "ah_generation h \<le> GEN_MAX"
  shows "pc_ok (Incrementing pc') \<and>
    (ah_generation h' = ah_generation h \<or> ah_generation h' = next_generation (ah_generation h))"
  using assms
  by (cases pc) (auto simp: next_generation_def Let_def split: if_splits)

lemma machine_step_inv:
  assumes "machine_step (ts, h, global) (ts', h', global')" "machine_inv (ts, h, global)"
  shows "machine_inv (ts', h', global') \<and>
    (ah_generation h' = ah_generation h \<or> ah_generation h' = next_generation (ah_generation h))"
  using assms(1)
proof (rule machine_stepE)
  fix i t' s'
  assume step: "(ts', h', global') = (ts[i := t'], s')" "i < length ts" "thread_step (ts ! i) (h, global) = (t', s')"
  have inv: "\<forall>t \<in> set ts. pc_ok t" "GEN_INITIAL \<le> ah_generation h" "ah_generation h \<le> GEN_MAX"
    using assms(2) by (auto simp: machine_inv_def)
  have "pc_ok t' \<and> (ah_generation h' = ah_generation h \<or> ah_generation h' = next_generation (ah_generation h))"
  proof (cases "ts ! i")
    case (Incrementing pc)
    have "pc_ok (ts ! i)"
      using inv(1) step(2) by simp
    then show ?thesis
      using Incrementing step inv(2,3) inc_step_generation [of pc h global] by (auto split: prod.splits)
  next
    case (Validating g e pc)
    then show ?thesis
      using step by auto
  qed
  moreover have "\<forall>t \<in> set (ts[i := t']). t = t' \<or> t \<in> set ts"
    using set_update_subset_insert [of ts i t'] by auto
  ultimately show ?thesis
    using step(1) inv next_generation_range [OF inv(2,3)] by (auto simp: machine_inv_def)
qed

lemma machine_steps_inv:
  assumes "machine_step\<^sup>*\<^sup>* x y" "machine_inv x"
  shows "machine_inv y"
  using assms
proof (induction rule: rtranclp_induct)
  case (step y z)
  then show ?case
    using machine_step_inv by (cases y, cases z) blast
qed

text \<open>A run under a given schedule: the list of threads that move, in order.\<close>

fun run_schedule ::
    "nat list \<Rightarrow> thread list \<times> allocation_header \<times> u64 \<Rightarrow> thread list \<times> allocation_header \<times> u64" where
  "run_schedule [] x = x"
| "run_schedule (i # is) (ts, s) =
     (if i < length ts
      then case thread_step (ts ! i) s of (t', s') \<Rightarrow> run_schedule is (ts[i := t'], s')
      else run_schedule is (ts, s))"

lemma run_schedule_steps: "machine_step\<^sup>*\<^sup>* x (run_schedule sched x)"
proof (induction sched x rule: run_schedule.induct)
  case (2 i sched ts s)
  then show ?case
    using schedule [of i ts s]
    by (auto split: prod.splits intro: converse_rtranclp_into_rtranclp)
qed simp

text \<open>C21: However many threads increment and validate, in whatever order their atomic operations interleave,
  the generation stays between 1 and \<open>GEN_MAX\<close>, so it is never that of unallocated or permanent memory,
  and every step leaves it alone or takes it to the next one: the exchanges refine one atomic counter.\<close>

theorem generation_counter_refined:
  assumes "machine_step\<^sup>*\<^sup>* (replicate m (Incrementing ILoad) @ map (\<lambda>(g, e). Validating g e VGeneration) vs, h, global)
      (ts, h1, global1)"
    and "GEN_INITIAL \<le> ah_generation h" "ah_generation h \<le> GEN_MAX"
  shows "GEN_INITIAL \<le> ah_generation h1 \<and> ah_generation h1 \<le> GEN_MAX \<and>
    (\<forall>ts2 h2 global2. machine_step (ts, h1, global1) (ts2, h2, global2) \<longrightarrow>
       ah_generation h2 = ah_generation h1 \<or> ah_generation h2 = next_generation (ah_generation h1))"
proof -
  have "machine_inv (replicate m (Incrementing ILoad) @ map (\<lambda>(g, e). Validating g e VGeneration) vs, h, global)"
    using assms(2,3) by (auto simp: machine_inv_def)
  then have inv: "machine_inv (ts, h1, global1)"
    by (rule machine_steps_inv [OF assms(1)])
  then show ?thesis
    using machine_step_inv [OF _ inv] by (auto simp: machine_inv_def)
qed

theorem generation_counter_refined_witness:
  "case run_schedule [0, 1, 0, 1, 1] ([Incrementing ILoad, Incrementing ILoad], alloc_header_new 7 64 8 1 3, 7)
     of (ts, h1, global1) \<Rightarrow> ah_generation h1 \<le> GEN_MAX \<and> ah_generation h1 = 2"
proof -
  define x where "x = run_schedule [0, 1, 0, 1, 1]
      ([Incrementing ILoad, Incrementing ILoad], alloc_header_new 7 64 8 1 3, 7)"
  have "machine_step\<^sup>*\<^sup>* ([Incrementing ILoad, Incrementing ILoad], alloc_header_new 7 64 8 1 3, 7) x"
    unfolding x_def by (rule run_schedule_steps)
  moreover have "replicate 2 (Incrementing ILoad) = [Incrementing ILoad, Incrementing ILoad]"
    by (simp add: numeral_2_eq_2)
  moreover have "ah_generation (alloc_header_new 7 64 8 1 3) = GEN_INITIAL" "GEN_INITIAL \<le> GEN_MAX"
    by (simp_all add: alloc_header_new_def gen_defs)
  ultimately have "ah_generation (fst (snd x)) \<le> GEN_MAX"
    using generation_counter_refined [of 2 "[]" "alloc_header_new 7 64 8 1 3" 7 "fst x" "fst (snd x)" "snd (snd x)"]
    by simp
  moreover have "ah_generation (fst (snd x)) = 2"
    by (simp add: x_def alloc_header_new_def gen_defs Let_def word_le_nat_alt)
  ultimately show ?thesis
    unfolding x_def [symmetric] by (simp add: case_prod_unfold)
qed

lemma next_epoch_differs: "current_epoch_u16 (advance_epoch global) \<noteq> current_epoch_u16 global"
proof -
  obtain G where G: "global = of_nat G"
    using that [of "unat global"] by simp
  have "advance_epoch global = of_nat (Suc G)"
    by (simp add: G advance_epoch_def add.commute)
  then show ?thesis
    using of_nat_u16_eq [of G "Suc G"] by (auto simp: G current_epoch_of_nat simp del: of_nat_Suc)
qed

text \<open>C38: The wrap of an allocation header is not atomic: between the exchange that resets the generation and
  the store of the new epoch a concurrent validation of a reference from the previous cycle succeeds,
  although it is refused once the increment has finished.\<close>

theorem wrap_window_accepts_stale:
  assumes "ah_generation h = GEN_MAX" "ah_epoch h = current_epoch_u16 global"
  shows "machine_step\<^sup>*\<^sup>*
      ([Incrementing ILoad, Validating GEN_INITIAL (ah_epoch h) VGeneration], h, global)
      ([Incrementing (IDone GEN_INITIAL), Validating GEN_INITIAL (ah_epoch h) (VDone Success)],
       snd (alloc_increment (h, global))) \<and>
    alloc_validate (fst (snd (alloc_increment (h, global)))) GEN_INITIAL (ah_epoch h) = VDone EpochMismatch"
proof -
  have max: "ah_generation h = GEN_MAX \<Longrightarrow> GEN_MAX \<le> ah_generation h" "GEN_INITIAL \<noteq> GEN_UNALLOCATED"
    by (simp_all add: gen_defs)
  have "run_schedule [0, 0, 1, 1, 1, 0, 0, 0]
      ([Incrementing ILoad, Validating GEN_INITIAL (ah_epoch h) VGeneration], h, global) =
      ([Incrementing (IDone GEN_INITIAL), Validating GEN_INITIAL (ah_epoch h) (VDone Success)],
       snd (alloc_increment (h, global)))"
    using assms(1) max by (simp add: alloc_increment_cases)
  moreover have "alloc_validate (fst (snd (alloc_increment (h, global)))) GEN_INITIAL (ah_epoch h) = VDone EpochMismatch"
    using assms max next_epoch_differs [of global] by (simp add: alloc_increment_cases alloc_validate_cases)
  ultimately show ?thesis
    using run_schedule_steps by metis
qed
theorem wrap_window_accepts_stale_witness:
  "\<exists>h. ah_generation h = GEN_MAX \<and>
     machine_step\<^sup>*\<^sup>* ([Incrementing ILoad, Validating GEN_INITIAL (ah_epoch h) VGeneration], h, 7)
       ([Incrementing (IDone GEN_INITIAL), Validating GEN_INITIAL (ah_epoch h) (VDone Success)],
        snd (alloc_increment (h, 7)))"
  using wrap_window_accepts_stale [of "(alloc_header_new 7 64 8 1 3)\<lparr>ah_generation := GEN_MAX\<rparr>" 7]
  by (intro exI [of _ "(alloc_header_new 7 64 8 1 3)\<lparr>ah_generation := GEN_MAX\<rparr>"])
    (simp add: alloc_header_new_def)

subsection \<open>The contract of a header\<close>

text \<open>
  What the two headers promise alike to whoever dereferences through them: validation compares the
  generation and the epoch, and an invalidated header refuses everything.
\<close>

locale generational =
  fixes gen :: "'h \<Rightarrow> u32"
    and epo :: "'h \<Rightarrow> 'e"
    and validate :: "'h \<Rightarrow> u32 \<Rightarrow> 'e \<Rightarrow> cbgr_error_code"
    and invalidate :: "'h \<Rightarrow> 'h"
  assumes validate_spec: "validate h g e =
      (if gen h = GEN_UNALLOCATED then ExpiredReference
       else if gen h \<noteq> g then GenerationMismatch
       else if epo h \<noteq> e then EpochMismatch else Success)"
    and gen_invalidate: "gen (invalidate h) = GEN_UNALLOCATED"
    and epo_invalidate: "epo (invalidate h) = epo h"
begin

lemma validate_Success: "validate h g e = Success \<longleftrightarrow> gen h \<noteq> GEN_UNALLOCATED \<and> g = gen h \<and> e = epo h"
  by (auto simp: validate_spec)

lemma validate_invalidated: "validate (invalidate h) g e = ExpiredReference"
  by (simp add: validate_spec gen_invalidate)

lemma validate_errors: "validate h g e \<in> {Success, ExpiredReference, GenerationMismatch, EpochMismatch}"
  by (simp add: validate_spec)

end

definition alloc_validate_code :: "allocation_header \<Rightarrow> u32 \<Rightarrow> 16 word \<Rightarrow> cbgr_error_code" where
  "alloc_validate_code h g e = (case alloc_validate h g e of VDone c \<Rightarrow> c | _ \<Rightarrow> Success)"

interpretation packed: generational unpack_generation header_epoch header_validate header_invalidate
  by unfold_locales
    (simp_all add: header_validate_def header_epoch_def header_invalidate_def Let_def)

interpretation runtime: generational ah_generation ah_epoch alloc_validate_code alloc_invalidate
  by unfold_locales
    (simp_all add: alloc_validate_code_def alloc_validate_cases alloc_invalidate_def)

text \<open>Both headers read back what was stored and decide validation alike: a new header carries the
  given generation, the low 16 bits of the epoch and the capabilities; validation succeeds exactly on the
  generation and epoch of a header that is allocated, and reports expiry before a wrong generation before
  a wrong epoch; an invalidated header refuses every reference.\<close>

theorem headers_validate:
  "unpack_generation (header_with_generation e g c) = g \<and>
   header_epoch (header_with_generation e g c) = take_bit 16 e \<and>
   header_capabilities (header_with_generation e g c) = c AND CAP_MASK \<and>
   (header_validate h g e = Success) =
     (unpack_generation h \<noteq> GEN_UNALLOCATED \<and> g = unpack_generation h \<and> e = header_epoch h) \<and>
   (alloc_validate a g x = VDone Success) =
     (ah_generation a \<noteq> GEN_UNALLOCATED \<and> g = ah_generation a \<and> x = ah_epoch a) \<and>
   header_validate (header_invalidate h) g e = ExpiredReference \<and>
   alloc_validate (alloc_invalidate a) g x = VDone ExpiredReference \<and>
   header_epoch (header_invalidate h) = header_epoch h"
  using with_generation_fields packed.validate_Success packed.validate_invalidated packed.epo_invalidate
  by (auto simp: alloc_validate_cases alloc_invalidate_def)

end
