(* ===== verification/CbgrHeap.thy ===== *)
theory CbgrHeap
  imports Cbgr
begin

section \<open>Generational references: the heap of the interpreter\<close>

text \<open>
  \<open>crates/verum_vbc/src/interpreter/cbgr_heap.rs\<close> on top of the tracked allocations of
  \<open>crates/verum_common/src/cbgr.rs\<close>. An object is the address of its metadata, the pointer that
  \<open>TrackedAllocation\<close> holds: the packed header lies eight bytes before it, the user data
  sixteen bytes after it. The memory maps these addresses to the header, the metadata and the
  data. The allocator of the standard library is a function from the requested size and alignment
  to an address, zero when it fails; what it returns at a call is given with the call.

  The build is a release build for a 64-bit target: arithmetic on \<open>usize\<close> wraps. The byte counts and
  event counters of the heap are natural numbers: bytes are only counted once they are allocated,
  so these sums stay within the address space.
\<close>

unbundle bit_operations_syntax

subsection \<open>Tracked allocations\<close>

definition is_power_of_two :: "u64 \<Rightarrow> bool" where
  "is_power_of_two n = (n \<noteq> 0 \<and> n AND (n - 1) = 0)"

definition layout_ok :: "u64 \<Rightarrow> u64 \<Rightarrow> bool" where
  "layout_ok sz align = (is_power_of_two align \<and> unat sz + (unat align - 1) \<le> 2 ^ 63 - 1)"

record object_meta =
  om_type_id :: u32
  om_flags :: "16 word"
  om_refcount :: "16 word"
  om_size :: u32

record memory =
  headers :: "nat \<Rightarrow> cbgr_header option"
  metas :: "nat \<Rightarrow> object_meta option"
  contents :: "nat \<Rightarrow> 8 word list option"

type_synonym allocator = "u64 \<Rightarrow> u64 \<Rightarrow> nat"

definition tracked_alloc_zeroed ::
    "allocator \<Rightarrow> u64 \<Rightarrow> u64 \<Rightarrow> memory \<Rightarrow> (cbgr_error_code, nat) run \<times> memory" where
  "tracked_alloc_zeroed alloc sz align mem =
     (if \<not> is_power_of_two align \<or> align = 0 then (Err InvalidAlignment, mem)
      else
        let total_size = 8 + sz; actual_align = max align 8 in
        if \<not> layout_ok total_size actual_align then (Err AllocationFailed, mem)
        else
          let base = alloc total_size actual_align in
          if base = 0 then (Err AllocationFailed, mem)
          else (Ok (base + 8), mem\<lparr>headers := (headers mem)(base + 8 \<mapsto> header_new 0)\<rparr>))"

definition update_header :: "nat \<Rightarrow> (cbgr_header \<Rightarrow> cbgr_header) \<Rightarrow> memory \<Rightarrow> memory" where
  "update_header p f mem = mem\<lparr>headers := (headers mem)(p := map_option f (headers mem p))\<rparr>"

definition tracked_dealloc :: "nat \<Rightarrow> memory \<Rightarrow> memory" where
  "tracked_dealloc p mem = update_header p header_invalidate mem"

subsection \<open>Objects\<close>

definition FLAG_FREED :: "16 word" where "FLAG_FREED = 0x20"

definition meta_new :: "u32 \<Rightarrow> u32 \<Rightarrow> object_meta" where
  "meta_new type_id sz = \<lparr>om_type_id = type_id, om_flags = 0, om_refcount = 1, om_size = sz\<rparr>"

definition meta_is_valid :: "object_meta \<Rightarrow> bool" where
  "meta_is_valid m = (om_flags m AND FLAG_FREED \<noteq> FLAG_FREED)"

definition incref :: "object_meta \<Rightarrow> object_meta" where
  "incref m = m\<lparr>om_refcount := saturating_add (om_refcount m) 1\<rparr>"

definition decref :: "object_meta \<Rightarrow> bool \<times> object_meta" where
  "decref m = (let m' = m\<lparr>om_refcount := saturating_sub (om_refcount m) 1\<rparr> in (om_refcount m' = 0, m'))"

text \<open>
  \<open>CbgrViolationKind\<close>; its \<open>GenerationMismatch\<close>, \<open>NullPointer\<close> and \<open>OutOfBounds\<close> have names of their own
  here, because the error code of a header has constructors of these names too.
\<close>

datatype violation_kind =
  UseAfterFree | DoubleFree | StaleGeneration | EpochExpired | CapabilityDenied | InvalidReference
| NullViolation | BoundsViolation

datatype heap_error = OutOfMemory nat nat | CbgrViolation violation_kind nat

definition object_validate :: "memory \<Rightarrow> nat \<Rightarrow> u32 \<Rightarrow> u32 \<Rightarrow> (heap_error, unit) run" where
  "object_validate mem p expected_gen expected_epoch =
     (case header_validate (the (headers mem p)) expected_gen expected_epoch of
        Success \<Rightarrow> Ok ()
      | GenerationMismatch \<Rightarrow> Err (CbgrViolation StaleGeneration p)
      | EpochMismatch \<Rightarrow> Err (CbgrViolation EpochExpired p)
      | ExpiredReference \<Rightarrow> Err (CbgrViolation UseAfterFree p)
      | _ \<Rightarrow> Err (CbgrViolation InvalidReference p))"

definition object_increment :: "nat \<Rightarrow> memory \<times> u64 \<Rightarrow> header_pc \<times> memory \<times> u64" where
  "object_increment p s =
     (case s of (mem, global) \<Rightarrow>
        (case header_increment (the (headers mem p), global) of
           (r, h, global') \<Rightarrow> (r, update_header p (\<lambda>_. h) mem, global')))"

subsection \<open>The heap\<close>

definition OBJECT_META_SIZE :: nat where "OBJECT_META_SIZE = 16"
definition MIN_ALIGNMENT :: u64 where "MIN_ALIGNMENT = 8"
definition MAX_ALLOCATION_SIZE :: nat where "MAX_ALLOCATION_SIZE = 2 ^ 30"
definition DEFAULT_CBGR_HEAP_SIZE :: nat where "DEFAULT_CBGR_HEAP_SIZE = 2 ^ 24"

record heap_stats =
  total_allocs :: nat
  total_frees :: nat
  total_bytes :: nat
  peak_bytes :: nat
  collections :: nat
  cbgr_validations :: nat
  cbgr_failures :: nat

record cbgr_heap =
  objects :: "nat list"
  allocated :: nat
  threshold :: nat
  stats :: heap_stats

definition heap_with_threshold :: "nat \<Rightarrow> cbgr_heap" where
  "heap_with_threshold t =
     \<lparr>objects = [], allocated = 0, threshold = t,
      stats = \<lparr>total_allocs = 0, total_frees = 0, total_bytes = 0, peak_bytes = 0, collections = 0,
        cbgr_validations = 0, cbgr_failures = 0\<rparr>\<rparr>"

definition heap_new :: cbgr_heap where
  "heap_new = heap_with_threshold DEFAULT_CBGR_HEAP_SIZE"

definition alloc_with_init ::
    "allocator \<Rightarrow> u32 \<Rightarrow> u64 \<Rightarrow> (8 word list \<Rightarrow> 8 word list) \<Rightarrow> cbgr_heap \<times> memory \<Rightarrow>
     (heap_error, nat) run \<times> cbgr_heap \<times> memory" where
  "alloc_with_init alloc type_id sz init s =
     (case s of (hp, mem) \<Rightarrow>
        if MAX_ALLOCATION_SIZE < unat sz
        then (Err (OutOfMemory (unat sz) (threshold hp - allocated hp)), hp, mem)
        else
          let total_size = OBJECT_META_SIZE + unat sz;
              hp1 = (if threshold hp < allocated hp + total_size
                     then hp\<lparr>threshold := max (threshold hp * 2) (allocated hp + total_size)\<rparr> else hp)
          in
          case tracked_alloc_zeroed alloc (of_nat total_size) MIN_ALIGNMENT mem of
            (Ok p, mem1) \<Rightarrow>
              (Ok p,
               hp1\<lparr>objects := objects hp1 @ [p], allocated := allocated hp1 + total_size,
                 stats := (stats hp1)\<lparr>total_allocs := total_allocs (stats hp1) + 1,
                   total_bytes := total_bytes (stats hp1) + unat sz,
                   peak_bytes := max (peak_bytes (stats hp1)) (allocated hp1 + total_size)\<rparr>\<rparr>,
               mem1\<lparr>metas := (metas mem1)(p \<mapsto> meta_new type_id (ucast sz)),
                 contents := (contents mem1)(p \<mapsto> init (replicate (unat sz) 0))\<rparr>)
          | (_, mem1) \<Rightarrow> (Err (OutOfMemory total_size (threshold hp1 - allocated hp1)), hp1, mem1))"

definition heap_alloc ::
    "allocator \<Rightarrow> u32 \<Rightarrow> u64 \<Rightarrow> cbgr_heap \<times> memory \<Rightarrow> (heap_error, nat) run \<times> cbgr_heap \<times> memory" where
  "heap_alloc alloc type_id sz s = alloc_with_init alloc type_id sz (\<lambda>bytes. bytes) s"

definition alloc_array ::
    "allocator \<Rightarrow> u32 \<Rightarrow> u64 \<Rightarrow> cbgr_heap \<times> memory \<Rightarrow> (heap_error, nat) run \<times> cbgr_heap \<times> memory" where
  "alloc_array alloc element_type len s = heap_alloc alloc element_type (len * 8) s"

definition alloc_token_stream ::
    "allocator \<Rightarrow> 8 word list \<Rightarrow> cbgr_heap \<times> memory \<Rightarrow> (heap_error, nat) run \<times> cbgr_heap \<times> memory" where
  "alloc_token_stream alloc data s = alloc_with_init alloc 256 (of_nat (length data)) (\<lambda>_. data) s"

definition heap_free :: "nat \<Rightarrow> cbgr_heap \<times> memory \<Rightarrow> cbgr_heap \<times> memory" where
  "heap_free p s =
     (case s of (hp, mem) \<Rightarrow>
        let meta = the (metas mem p);
            total_size = OBJECT_META_SIZE + unat (om_size meta);
            mem1 = mem\<lparr>metas := (metas mem)(p \<mapsto> meta\<lparr>om_flags := om_flags meta OR FLAG_FREED\<rparr>)\<rparr>
        in (hp\<lparr>allocated := allocated hp - total_size,
              stats := (stats hp)\<lparr>total_frees := total_frees (stats hp) + 1\<rparr>\<rparr>,
            tracked_dealloc p mem1))"

definition validate_reference ::
    "nat \<Rightarrow> u32 \<Rightarrow> u32 \<Rightarrow> cbgr_heap \<times> memory \<Rightarrow> (heap_error, unit) run \<times> cbgr_heap \<times> memory" where
  "validate_reference p expected_gen expected_epoch s =
     (case s of (hp, mem) \<Rightarrow>
        let hp1 = hp\<lparr>stats := (stats hp)\<lparr>cbgr_validations := cbgr_validations (stats hp) + 1\<rparr>\<rparr> in
        case object_validate mem p expected_gen expected_epoch of
          Err e \<Rightarrow>
            (Err e, hp1\<lparr>stats := (stats hp1)\<lparr>cbgr_failures := cbgr_failures (stats hp1) + 1\<rparr>\<rparr>, mem)
        | r \<Rightarrow> (r, hp1, mem))"

definition object_count :: "cbgr_heap \<Rightarrow> nat" where
  "object_count hp = length (objects hp)"

definition clear_object :: "nat \<Rightarrow> cbgr_heap \<times> memory \<Rightarrow> cbgr_heap \<times> memory" where
  "clear_object p s =
     (case s of (hp, mem) \<Rightarrow>
        (hp\<lparr>stats := (stats hp)\<lparr>total_frees := total_frees (stats hp) + 1\<rparr>\<rparr>, tracked_dealloc p mem))"

definition heap_clear :: "cbgr_heap \<times> memory \<Rightarrow> cbgr_heap \<times> memory" where
  "heap_clear s =
     (case s of (hp, mem) \<Rightarrow>
        case fold clear_object (objects hp) (hp\<lparr>objects := []\<rparr>, mem) of
          (hp1, mem1) \<Rightarrow> (hp1\<lparr>allocated := 0\<rparr>, mem1))"

definition next_generation_number :: "u64 \<Rightarrow> cbgr_heap \<Rightarrow> u32 \<times> cbgr_heap" where
  "next_generation_number global hp = (ucast global + of_nat (total_allocs (stats hp)), hp)"

definition get_object :: "nat \<Rightarrow> cbgr_heap \<Rightarrow> nat option" where
  "get_object data_ptr hp =
     (if data_ptr = 0 then None
      else
        let meta_ptr = data_ptr - OBJECT_META_SIZE in
        if meta_ptr = 0 then None
        else if meta_ptr \<in> set (objects hp) then Some meta_ptr else None)"

subsection \<open>Who owns an object\<close>

text \<open>
  The handle \<open>CbgrObject\<close> is not copyable: \<open>free\<close> consumes it and an increment needs it. The last
  component of a state is the set of objects whose handle is still held. Memory is never given back
  to the allocator, so every address it returns is new.
\<close>

type_synonym heap_state = "cbgr_heap \<times> memory \<times> u64 \<times> nat set"

inductive heap_step :: "heap_state \<Rightarrow> heap_state \<Rightarrow> bool" where
  allocates: "alloc_with_init alloc type_id sz init (hp, mem) = (Ok p, hp', mem') \<Longrightarrow> headers mem p = None \<Longrightarrow>
    heap_step (hp, mem, global, own) (hp', mem', global, insert p own)"
| refuses: "alloc_with_init alloc type_id sz init (hp, mem) = (Err e, hp', mem') \<Longrightarrow>
    heap_step (hp, mem, global, own) (hp', mem', global, own)"
| frees: "p \<in> own \<Longrightarrow> heap_free p (hp, mem) = (hp', mem') \<Longrightarrow>
    heap_step (hp, mem, global, own) (hp', mem', global, own - {p})"
| validates: "headers mem p \<noteq> None \<Longrightarrow> validate_reference p g e (hp, mem) = (r, hp', mem') \<Longrightarrow>
    heap_step (hp, mem, global, own) (hp', mem', global, own)"
| increments: "p \<in> own \<Longrightarrow> object_increment p (mem, global) = (r, mem', global') \<Longrightarrow>
    heap_step (hp, mem, global, own) (hp, mem', global', own)"
| elsewhere: "heap_step (hp, mem, global, own) (hp, mem, advance_epoch global, own)"
| clears: "heap_clear (hp, mem) = (hp', mem') \<Longrightarrow> heap_step (hp, mem, global, own) (hp', mem', global, {})"

definition empty_memory :: memory where
  "empty_memory = \<lparr>headers = (\<lambda>_. None), metas = (\<lambda>_. None), contents = (\<lambda>_. None)\<rparr>"

definition object_bytes :: "memory \<Rightarrow> nat \<Rightarrow> nat" where
  "object_bytes mem p = OBJECT_META_SIZE + unat (om_size (the (metas mem p)))"

definition memory_ok :: "memory \<Rightarrow> nat set \<Rightarrow> bool" where
  "memory_ok mem own =
     (finite own \<and> dom (metas mem) = dom (headers mem) \<and> own \<subseteq> dom (headers mem) \<and>
      (\<forall>p h. headers mem p = Some h \<longrightarrow> (unpack_generation h \<noteq> GEN_UNALLOCATED) = (p \<in> own)))"

definition counters_ok :: "cbgr_heap \<Rightarrow> memory \<Rightarrow> nat set \<Rightarrow> bool" where
  "counters_ok hp mem own =
     (own \<subseteq> set (objects hp) \<and> set (objects hp) \<subseteq> dom (headers mem) \<and>
      allocated hp = (\<Sum>p \<in> own. object_bytes mem p) \<and>
      allocated hp \<le> threshold hp \<and> allocated hp \<le> peak_bytes (stats hp) \<and>
      length (objects hp) \<le> total_allocs (stats hp) \<and> cbgr_failures (stats hp) \<le> cbgr_validations (stats hp))"

definition heap_inv :: "heap_state \<Rightarrow> bool" where
  "heap_inv s = (case s of (hp, mem, global, own) \<Rightarrow> memory_ok mem own \<and> counters_ok hp mem own)"

lemma alloc_OkD:
  assumes "alloc_with_init alloc type_id sz init (hp, mem) = (Ok p, hp', mem')"
  shows "unat sz \<le> MAX_ALLOCATION_SIZE" and
    "headers mem' = (headers mem)(p \<mapsto> header_new 0)"
    "metas mem' = (metas mem)(p \<mapsto> meta_new type_id (ucast sz))"
    "contents mem' = (contents mem)(p \<mapsto> init (replicate (unat sz) 0))"
    "objects hp' = objects hp @ [p]" "allocated hp' = allocated hp + (OBJECT_META_SIZE + unat sz)"
    "allocated hp \<le> threshold hp \<Longrightarrow> allocated hp' \<le> threshold hp'"
    "stats hp' = (stats hp)\<lparr>total_allocs := total_allocs (stats hp) + 1,
        total_bytes := total_bytes (stats hp) + unat sz,
        peak_bytes := max (peak_bytes (stats hp)) (allocated hp')\<rparr>"
  using assms
  by (auto simp: alloc_with_init_def tracked_alloc_zeroed_def Let_def split: if_splits run.splits prod.splits)

lemma alloc_ErrD:
  assumes "alloc_with_init alloc type_id sz init (hp, mem) = (Err e, hp', mem')"
  shows "mem' = mem \<and> objects hp' = objects hp \<and> allocated hp' = allocated hp \<and> stats hp' = stats hp \<and>
    threshold hp \<le> threshold hp'"
  using assms
  by (auto simp: alloc_with_init_def tracked_alloc_zeroed_def Let_def split: if_splits run.splits prod.splits)

lemma header_new_generation: "unpack_generation (header_new e) = GEN_INITIAL"
  by (simp add: header_new_eq with_generation_fields)

lemma initial_allocated: "GEN_INITIAL \<noteq> GEN_UNALLOCATED"
  by (simp add: gen_defs)

lemma alloc_size_exact:
  assumes "unat (sz :: u64) \<le> MAX_ALLOCATION_SIZE"
  shows "unat (ucast sz :: u32) = unat sz"
  using assms by (simp add: MAX_ALLOCATION_SIZE_def unsigned_ucast_eq take_bit_nat_eq_self)

lemma alloc_inv:
  assumes "alloc_with_init alloc type_id sz init (hp, mem) = (Ok p, hp', mem')" "headers mem p = None"
    "memory_ok mem own" "counters_ok hp mem own"
  shows "memory_ok mem' (insert p own) \<and> counters_ok hp' mem' (insert p own)"
proof -
  note d = alloc_OkD [OF assms(1)]
  have "p \<notin> dom (headers mem)"
    using assms(2) by (simp add: domIff)
  then have new: "p \<notin> own" "finite own" "p \<notin> set (objects hp)"
    using assms(3,4) unfolding memory_ok_def counters_ok_def by blast+
  have bytes: "object_bytes mem' p = OBJECT_META_SIZE + unat sz"
    using alloc_size_exact [OF d(1)] by (simp add: object_bytes_def d(3) meta_new_def)
  have old: "(\<Sum>q \<in> own. object_bytes mem' q) = (\<Sum>q \<in> own. object_bytes mem q)"
    using new by (intro sum.cong) (auto simp: object_bytes_def d(3))
  have "memory_ok mem' (insert p own)"
    using assms(2,3) by (auto simp: memory_ok_def d(2,3) header_new_generation initial_allocated)
  moreover have "counters_ok hp' mem' (insert p own)"
    using assms(4) new d(7) bytes old by (auto simp: counters_ok_def d(2,5,6,8))
  ultimately show ?thesis ..
qed

lemma refuse_inv:
  assumes "alloc_with_init alloc type_id sz init (hp, mem) = (Err e, hp', mem')"
    "memory_ok mem own" "counters_ok hp mem own"
  shows "memory_ok mem' own \<and> counters_ok hp' mem' own"
  using alloc_ErrD [OF assms(1)] assms(2,3) by (auto simp: counters_ok_def)

lemma update_header_simps [simp]:
  "headers (update_header p f mem) = (headers mem)(p := map_option f (headers mem p))"
  "metas (update_header p f mem) = metas mem" "contents (update_header p f mem) = contents mem"
  "object_bytes (update_header p f mem) = object_bytes mem"
  by (auto simp: update_header_def object_bytes_def)

lemma dom_update_header [simp]: "dom (headers (update_header p f mem)) = dom (headers mem)"
  by (auto split: if_splits)

lemma dealloc_memory_ok:
  assumes "memory_ok mem own"
  shows "memory_ok (tracked_dealloc p mem) (own - {p})"
  using assms
  by (auto simp: memory_ok_def tracked_dealloc_def packed.gen_invalidate split: if_splits)

lemma free_inv:
  assumes "p \<in> own" "heap_free p (hp, mem) = (hp', mem')" "memory_ok mem own" "counters_ok hp mem own"
  shows "memory_ok mem' (own - {p}) \<and> counters_ok hp' mem' (own - {p})"
proof -
  define mem1 where "mem1 = mem\<lparr>metas := (metas mem)
      (p \<mapsto> (the (metas mem p))\<lparr>om_flags := om_flags (the (metas mem p)) OR FLAG_FREED\<rparr>)\<rparr>"
  have h: "hp' = hp\<lparr>allocated := allocated hp - object_bytes mem p,
        stats := (stats hp)\<lparr>total_frees := total_frees (stats hp) + 1\<rparr>\<rparr>" "mem' = tracked_dealloc p mem1"
    using assms(2) by (auto simp: heap_free_def Let_def mem1_def object_bytes_def)
  have "p \<in> dom (metas mem)"
    using assms(1,3) by (auto simp: memory_ok_def)
  then have mem1: "dom (metas mem1) = dom (metas mem)" "headers mem1 = headers mem" "object_bytes mem1 = object_bytes mem"
    by (auto simp: mem1_def object_bytes_def)
  have "finite own"
    using assms(3) by (simp add: memory_ok_def)
  then have "(\<Sum>q \<in> own. object_bytes mem q) = object_bytes mem p + (\<Sum>q \<in> own - {p}. object_bytes mem q)"
    using assms(1) by (rule sum.remove)
  then have "counters_ok hp' mem' (own - {p})"
    using assms(4) by (auto simp: counters_ok_def h tracked_dealloc_def mem1)
  moreover have "memory_ok mem1 own"
    using assms(3) by (simp add: memory_ok_def mem1)
  ultimately show ?thesis
    using dealloc_memory_ok by (simp add: h)
qed

lemma validate_inv:
  assumes "validate_reference p g e (hp, mem) = (r, hp', mem')" "counters_ok hp mem own"
  shows "mem' = mem \<and> counters_ok hp' mem' own"
  using assms by (auto simp: validate_reference_def counters_ok_def Let_def split: run.splits)

lemma increment_generation_nonzero:
  assumes "unpack_generation h \<noteq> GEN_UNALLOCATED"
  shows "unpack_generation (fst (snd (header_increment (h, global)))) \<noteq> GEN_UNALLOCATED"
proof (cases "GEN_MAX \<le> unpack_generation h")
  case True
  then show ?thesis
    by (simp add: header_increment_cases initial_allocated)
next
  case False
  then have small: "unpack_generation h < GEN_MAX"
    by simp
  then have "unat (unpack_generation h + 1) = unat (unpack_generation h) + 1"
    by (simp add: gen_defs word_less_nat_alt unat_word_ariths)
  then have "unpack_generation h + 1 \<noteq> GEN_UNALLOCATED"
    by (auto simp: gen_defs)
  then show ?thesis
    using False bump_packed [OF small] by (simp add: header_increment_cases)
qed

lemma increment_inv:
  assumes "p \<in> own" "object_increment p (mem, global) = (r, mem', global')" "memory_ok mem own"
  shows "memory_ok mem' own \<and> (counters_ok hp mem own \<longrightarrow> counters_ok hp mem' own)"
proof -
  obtain h where h: "headers mem p = Some h"
    using assms(1,3) by (auto simp: memory_ok_def)
  define h' where "h' = fst (snd (header_increment (h, global)))"
  have mem': "mem' = update_header p (\<lambda>_. h') mem"
    using assms(2) h by (auto simp: object_increment_def h'_def split: prod.splits)
  have "unpack_generation h' \<noteq> GEN_UNALLOCATED"
    using assms(1,3) h increment_generation_nonzero [of h global] by (auto simp: memory_ok_def h'_def)
  then have "memory_ok mem' own"
    using assms(1,3) h by (auto simp: memory_ok_def mem' split: if_splits)
  then show ?thesis
    by (auto simp: counters_ok_def mem' simp del: update_header_simps(1))
qed

lemma fold_clear:
  "fold clear_object ps (hp, mem) =
     (hp\<lparr>stats := (stats hp)\<lparr>total_frees := total_frees (stats hp) + length ps\<rparr>\<rparr>, fold tracked_dealloc ps mem)"
  by (induction ps arbitrary: hp mem) (simp_all add: clear_object_def)

lemma heap_clear_eq:
  "heap_clear (hp, mem) =
     (hp\<lparr>objects := [], allocated := 0,
        stats := (stats hp)\<lparr>total_frees := total_frees (stats hp) + length (objects hp)\<rparr>\<rparr>,
      fold tracked_dealloc (objects hp) mem)"
  by (simp add: heap_clear_def fold_clear)

lemma fold_dealloc_ok: "memory_ok mem own \<Longrightarrow> memory_ok (fold tracked_dealloc ps mem) (own - set ps)"
proof (induction ps arbitrary: mem own)
  case (Cons p ps)
  have "own - set (p # ps) = own - {p} - set ps"
    by auto
  then show ?case
    using Cons.IH [OF dealloc_memory_ok [OF Cons.prems]] by simp
qed simp

lemma clear_inv:
  assumes "heap_clear (hp, mem) = (hp', mem')" "memory_ok mem own" "counters_ok hp mem own"
  shows "memory_ok mem' {} \<and> counters_ok hp' mem' {}"
proof -
  have none: "own - set (objects hp) = {}"
    using assms(3) by (auto simp: counters_ok_def)
  have "memory_ok (fold tracked_dealloc (objects hp) mem) {}"
    using fold_dealloc_ok [OF assms(2), of "objects hp"] unfolding none .
  then show ?thesis
    using assms(1,3) by (auto simp: heap_clear_eq counters_ok_def)
qed

lemma heap_step_inv: "heap_step x y \<Longrightarrow> heap_inv x \<Longrightarrow> heap_inv y"
proof (induction rule: heap_step.induct)
  case (validates mem p g e hp r hp' mem' global own)
  then show ?case
    using validate_inv by (fastforce simp: heap_inv_def)
next
  case (increments p own mem global r mem' global' hp)
  then show ?case
    using increment_inv by (fastforce simp: heap_inv_def)
qed (auto simp: heap_inv_def dest: alloc_inv refuse_inv free_inv clear_inv)

lemma heap_steps_inv: "heap_step\<^sup>*\<^sup>* x y \<Longrightarrow> heap_inv x \<Longrightarrow> heap_inv y"
  by (induction rule: rtranclp_induct) (auto intro: heap_step_inv)

lemma heap_start_inv: "heap_inv (heap_with_threshold t, empty_memory, global, {})"
  by (simp add: heap_inv_def memory_ok_def counters_ok_def heap_with_threshold_def empty_memory_def)

lemma validate_owned:
  assumes "memory_ok mem own" "headers mem p = Some h"
  shows "fst (validate_reference p g e (hp, mem)) =
    (if p \<notin> own then Err (CbgrViolation UseAfterFree p)
     else if g \<noteq> unpack_generation h then Err (CbgrViolation StaleGeneration p)
     else if e \<noteq> header_epoch h then Err (CbgrViolation EpochExpired p) else Ok ())"
proof -
  have "(unpack_generation h \<noteq> GEN_UNALLOCATED) = (p \<in> own)"
    using assms by (auto simp: memory_ok_def)
  then show ?thesis
    using assms(2)
    by (auto simp: validate_reference_def object_validate_def packed.validate_spec Let_def)
qed

lemma heap_step_dead:
  "heap_step (hp, mem, global, own) (hp', mem', global', own') \<Longrightarrow> heap_inv (hp, mem, global, own) \<Longrightarrow>
   p \<in> dom (headers mem) - own \<Longrightarrow> p \<in> dom (headers mem') - own'"
proof (induction "(hp, mem, global, own)" "(hp', mem', global', own')" rule: heap_step.induct)
  case (allocates alloc type_id sz init p')
  then show ?case
    by (auto simp: alloc_OkD(2) [OF allocates(1)])
next
  case (refuses alloc type_id sz init e)
  then show ?case
    using alloc_ErrD [OF refuses(1)] by auto
next
  case (validates p g e r)
  then show ?case
    by (auto simp: validate_reference_def Let_def split: run.splits)
next
  case (clears)
  have "dom (headers (fold tracked_dealloc ps m)) = dom (headers m)" for ps m
    by (induction ps arbitrary: m) (simp_all add: tracked_dealloc_def del: update_header_simps(1))
  then have "p \<in> dom (headers (fold tracked_dealloc (objects hp) mem))"
    using clears by simp
  then show ?case
    using clears by (simp add: heap_clear_eq)
qed (auto simp: heap_free_def tracked_dealloc_def object_increment_def Let_def split: prod.splits if_splits)

lemma heap_steps_dead:
  "heap_step\<^sup>*\<^sup>* x y \<Longrightarrow> heap_inv x \<Longrightarrow> p \<in> dom (headers (fst (snd x))) - snd (snd (snd x)) \<Longrightarrow>
   p \<in> dom (headers (fst (snd y))) - snd (snd (snd y))"
proof (induction rule: rtranclp_induct)
  case (step y z)
  then show ?case
    using heap_step_dead [of "fst y" "fst (snd y)" "fst (snd (snd y))" "snd (snd (snd y))"
        "fst z" "fst (snd z)" "fst (snd (snd z))" "snd (snd (snd z))" p] heap_steps_inv by simp
qed simp

subsection \<open>Properties of the heap\<close>

text \<open>C11: In every state the heap can reach, whatever is allocated, refused, freed, validated, incremented
  or cleared: the byte count is the size of the objects whose handle is held, with their metadata, and lies
  under the threshold and the recorded peak; failures never exceed validations; and a reference to any
  object ever allocated validates exactly when the handle is held and generation and epoch are those of
  the header, with the violation reported in that order.\<close>

theorem heap_invariant:
  assumes "heap_step\<^sup>*\<^sup>* (heap_with_threshold t, empty_memory, global0, {}) (hp, mem, global, own)"
  shows "allocated hp = (\<Sum>p \<in> own. object_bytes mem p) \<and> allocated hp \<le> threshold hp \<and>
    allocated hp \<le> peak_bytes (stats hp) \<and> cbgr_failures (stats hp) \<le> cbgr_validations (stats hp) \<and>
    own \<subseteq> set (objects hp) \<and>
    (\<forall>p h g e. headers mem p = Some h \<longrightarrow>
       fst (validate_reference p g e (hp, mem)) =
         (if p \<notin> own then Err (CbgrViolation UseAfterFree p)
          else if g \<noteq> unpack_generation h then Err (CbgrViolation StaleGeneration p)
          else if e \<noteq> header_epoch h then Err (CbgrViolation EpochExpired p) else Ok ()))"
proof -
  have "heap_inv (hp, mem, global, own)"
    by (rule heap_steps_inv [OF assms heap_start_inv])
  then have mem: "memory_ok mem own" and hp: "counters_ok hp mem own"
    by (simp_all add: heap_inv_def)
  show ?thesis
    using hp validate_owned [OF mem] by (auto simp: counters_ok_def)
qed

definition sample_alloc :: allocator where
  "sample_alloc sz align = 4096"

lemma sample_allocates:
  "alloc_with_init sample_alloc 42 64 (\<lambda>b. b) (heap_new, empty_memory) =
     (Ok 4104, fst (snd (alloc_with_init sample_alloc 42 64 (\<lambda>b. b) (heap_new, empty_memory))),
      snd (snd (alloc_with_init sample_alloc 42 64 (\<lambda>b. b) (heap_new, empty_memory))))"
  by (simp add: alloc_with_init_def tracked_alloc_zeroed_def sample_alloc_def layout_ok_def is_power_of_two_def
      MAX_ALLOCATION_SIZE_def MIN_ALIGNMENT_def OBJECT_META_SIZE_def heap_new_def heap_with_threshold_def
      DEFAULT_CBGR_HEAP_SIZE_def Let_def)

lemma sample_step:
  "heap_step\<^sup>*\<^sup>* (heap_new, empty_memory, 0, {})
     (fst (snd (alloc_with_init sample_alloc 42 64 (\<lambda>b. b) (heap_new, empty_memory))),
      snd (snd (alloc_with_init sample_alloc 42 64 (\<lambda>b. b) (heap_new, empty_memory))), 0, {4104})"
  by (rule r_into_rtranclp, rule allocates [OF sample_allocates]) (simp add: empty_memory_def)

theorem heap_invariant_witness:
  "fst (validate_reference 4104 GEN_INITIAL 0
     (snd (alloc_with_init sample_alloc 42 64 (\<lambda>b. b) (heap_new, empty_memory)))) = Ok ()"
proof -
  let ?s = "alloc_with_init sample_alloc 42 64 (\<lambda>b. b) (heap_new, empty_memory)"
  have "headers (snd (snd ?s)) 4104 = Some (header_new 0)"
    using alloc_OkD(2) [OF sample_allocates] by simp
  moreover have "header_epoch (header_new 0) = 0"
    by (simp add: header_new_eq with_generation_fields)
  ultimately show ?thesis
    using heap_invariant [OF sample_step [unfolded heap_new_def]]
    by (simp add: heap_new_def header_new_generation)
qed

text \<open>C12: Use after free is detected for good: once an object has been freed, every validation of a
  reference to it reports a use after free, whatever generation and epoch it carries and whatever
  happens to the heap afterwards.\<close>

theorem heap_use_after_free:
  assumes "heap_step\<^sup>*\<^sup>* (heap_with_threshold t, empty_memory, global0, {}) (hp0, mem0, global1, own0)"
    and "p \<in> own0"
    and "heap_step\<^sup>*\<^sup>* (fst (heap_free p (hp0, mem0)), snd (heap_free p (hp0, mem0)), global1, own0 - {p})
      (hp, mem, global, own)"
  shows "fst (validate_reference p g e (hp, mem)) = Err (CbgrViolation UseAfterFree p)"
proof -
  let ?y = "(fst (heap_free p (hp0, mem0)), snd (heap_free p (hp0, mem0)), global1, own0 - {p})"
  have inv: "heap_inv (hp0, mem0, global1, own0)"
    by (rule heap_steps_inv [OF assms(1) heap_start_inv])
  have step: "heap_step (hp0, mem0, global1, own0) ?y"
    by (rule frees [OF assms(2)]) simp
  have "p \<in> dom (headers (snd (heap_free p (hp0, mem0)))) - (own0 - {p})"
    using inv assms(2) by (auto simp: heap_inv_def memory_ok_def heap_free_def tracked_dealloc_def Let_def)
  then have dead: "p \<in> dom (headers mem) - own"
    using heap_steps_dead [OF assms(3)] heap_step_inv [OF step inv] by simp
  have "heap_inv (hp, mem, global, own)"
    by (rule heap_steps_inv [OF assms(3) heap_step_inv [OF step inv]])
  then show ?thesis
    using dead validate_owned [of mem own p] by (auto simp: heap_inv_def)
qed

theorem heap_use_after_free_witness:
  "fst (validate_reference 4104 1 0
     (heap_free 4104 (snd (alloc_with_init sample_alloc 42 64 (\<lambda>b. b) (heap_new, empty_memory))))) =
   Err (CbgrViolation UseAfterFree 4104)"
  using heap_use_after_free [OF sample_step [unfolded heap_new_def] _ rtranclp.rtrancl_refl, of 4104]
  by (simp add: heap_new_def)

text \<open>C40: Four things the heap does not do although its comments say so: a freed object still counts as
  live and is still found by its address, clearing the heap counts the objects freed before a second time,
  two calls for a unique generation number return the same one, and the size of an array of values wraps,
  so that an array of 2 to the 61st and n elements is allocated with room for n.\<close>

theorem heap_anomalies:
  "object_count (fst (heap_free p (hp, mem))) = object_count hp \<and>
   get_object d (fst (heap_free p (hp, mem))) = get_object d hp \<and>
   total_frees (stats (fst (heap_clear (heap_free p (hp, mem))))) =
     total_frees (stats hp) + 1 + object_count hp \<and>
   fst (next_generation_number global (snd (next_generation_number global hp))) =
     fst (next_generation_number global hp) \<and>
   alloc_array alloc ty (2 ^ 61 + n) s = alloc_array alloc ty n s"
proof -
  have "(2 ^ 61 + n) * 8 = n * (8 :: u64)"
    using word_exp_length_eq_0 [where 'a = 64] by (simp add: distrib_right)
  then have "alloc_array alloc ty (2 ^ 61 + n) s = alloc_array alloc ty n s"
    unfolding alloc_array_def by (rule arg_cong)
  then show ?thesis
    by (simp add: heap_free_def heap_clear_eq object_count_def get_object_def next_generation_number_def Let_def)
qed

end
