(* ===== verification/RuntimeValue.thy ===== *)
theory RuntimeValue
  imports Prelude "HOL-Library.Sublist"
begin

section \<open>Runtime values of the bytecode machine\<close>

text \<open>
  \<open>crates/verum_vbc/src/value.rs\<close>: every value of the machine is one 64-bit word. A word that is no
  quiet NaN is the floating-point number with these bits; in a quiet NaN, bits 48 to 50 are a tag
  and the bits below a payload. Payloads that do not fit, large integers and references, are kept
  in global tables and the word holds the index.

  A floating-point number is its bit pattern. The four tables are a record that the constructors
  take and return. The build is a release build: the debug assertions of the accessors are not
  there, so an accessor applied to a value of another kind returns what its bits say.
\<close>

unbundle bit_operations_syntax

type_synonym val64 = "64 word"

subsection \<open>Layout\<close>

definition NAN_BITS :: val64 where "NAN_BITS = 0x7FF8000000000000"
definition TAG_MASK :: val64 where "TAG_MASK = 0x0007000000000000"
definition PAYLOAD_MASK :: val64 where "PAYLOAD_MASK = 0x0000FFFFFFFFFFFF"

definition TAG_POINTER :: val64 where "TAG_POINTER = 0"
definition TAG_INTEGER :: val64 where "TAG_INTEGER = 1"
definition TAG_BOOLEAN :: val64 where "TAG_BOOLEAN = 2"
definition TAG_UNIT :: val64 where "TAG_UNIT = 3"
definition TAG_SMALL_STRING :: val64 where "TAG_SMALL_STRING = 4"
definition TAG_TYPE_REF :: val64 where "TAG_TYPE_REF = 5"
definition TAG_FUNC_REF :: val64 where "TAG_FUNC_REF = 6"
definition TAG_NAN :: val64 where "TAG_NAN = 7"

lemmas tag_defs = TAG_POINTER_def TAG_INTEGER_def TAG_BOOLEAN_def TAG_UNIT_def TAG_SMALL_STRING_def
  TAG_TYPE_REF_def TAG_FUNC_REF_def TAG_NAN_def

definition make_header :: "val64 \<Rightarrow> val64" where
  "make_header t = NAN_BITS OR push_bit 48 t"

definition MAX_SMALL_INT :: int where "MAX_SMALL_INT = 2 ^ 47 - 1"
definition MIN_SMALL_INT :: int where "MIN_SMALL_INT = - (2 ^ 47)"

definition SPECIAL_VALUE_MARKER :: val64 where "SPECIAL_VALUE_MARKER = push_bit 47 1"
definition GENERATOR_MARKER :: val64 where "GENERATOR_MARKER = SPECIAL_VALUE_MARKER"
definition BOXED_INT_SUB_MARKER :: val64 where "BOXED_INT_SUB_MARKER = push_bit 46 1"
definition BOXED_INT_MARKER :: val64 where "BOXED_INT_MARKER = SPECIAL_VALUE_MARKER OR BOXED_INT_SUB_MARKER"
definition GENERATOR_ID_MASK :: val64 where "GENERATOR_ID_MASK = push_bit 45 1 - 1"
definition BOXED_INT_INDEX_MASK :: val64 where "BOXED_INT_INDEX_MASK = push_bit 44 1 - 1"
definition BOXED_I128_WIDTH_BIT :: val64 where "BOXED_I128_WIDTH_BIT = push_bit 44 1"
definition THIN_REF_SUB_MARKER :: val64 where "THIN_REF_SUB_MARKER = push_bit 45 1"
definition THIN_REF_MARKER :: val64 where "THIN_REF_MARKER = SPECIAL_VALUE_MARKER OR THIN_REF_SUB_MARKER"
definition FAT_REF_SUB_MARKER :: val64 where "FAT_REF_SUB_MARKER = push_bit 45 1"
definition FAT_REF_MARKER :: val64 where
  "FAT_REF_MARKER = SPECIAL_VALUE_MARKER OR BOXED_INT_SUB_MARKER OR FAT_REF_SUB_MARKER"
definition REF_INDEX_MASK :: val64 where "REF_INDEX_MASK = push_bit 45 1 - 1"
definition SLOT_REF_BIT :: val64 where "SLOT_REF_BIT = push_bit 44 1"
definition THIN_INDEX_MASK :: val64 where "THIN_INDEX_MASK = SLOT_REF_BIT - 1"

lemmas marker_defs = GENERATOR_MARKER_def BOXED_INT_MARKER_def THIN_REF_MARKER_def FAT_REF_MARKER_def
  SPECIAL_VALUE_MARKER_def BOXED_INT_SUB_MARKER_def BOXED_I128_WIDTH_BIT_def THIN_REF_SUB_MARKER_def
  FAT_REF_SUB_MARKER_def SLOT_REF_BIT_def

definition CBGR_REGREF_MARKER :: val64 where "CBGR_REGREF_MARKER = push_bit 47 1"
definition CBGR_REGREF_MUT_BIT :: val64 where "CBGR_REGREF_MUT_BIT = push_bit 46 1"
definition CBGR_REGREF_ABS_MASK :: val64 where "CBGR_REGREF_ABS_MASK = push_bit 24 1 - 1"
definition CBGR_REGREF_GEN_MASK :: val64 where "CBGR_REGREF_GEN_MASK = push_bit 22 1 - 1"

subsection \<open>References\<close>

type_synonym capabilities = "16 word"

definition CAPS_READ :: "16 word" where "CAPS_READ = 0x0001"
definition CAPS_WRITE :: "16 word" where "CAPS_WRITE = 0x0002"
definition CAPS_ADD :: "16 word" where "CAPS_ADD = 0x0004"
definition CAPS_REMOVE :: "16 word" where "CAPS_REMOVE = 0x0008"
definition CAPS_EXCLUSIVE :: "16 word" where "CAPS_EXCLUSIVE = 0x0010"
definition CAPS_DELEGATE :: "16 word" where "CAPS_DELEGATE = 0x0020"
definition CAPS_ALIAS :: "16 word" where "CAPS_ALIAS = 0x0040"
definition CAPS_DROP :: "16 word" where "CAPS_DROP = 0x0080"
definition CAPS_FULL :: capabilities where "CAPS_FULL = 0x00FF"
definition CAPS_READ_ONLY :: capabilities where "CAPS_READ_ONLY = CAPS_READ OR CAPS_ALIAS"
definition CAPS_MUT_EXCLUSIVE :: capabilities where
  "CAPS_MUT_EXCLUSIVE = CAPS_READ OR CAPS_WRITE OR CAPS_ADD OR CAPS_REMOVE OR CAPS_EXCLUSIVE OR
     CAPS_DELEGATE OR CAPS_DROP"

definition caps_has :: "capabilities \<Rightarrow> 16 word \<Rightarrow> bool" where
  "caps_has c cap = (c AND cap \<noteq> 0)"

definition caps_attenuate :: "capabilities \<Rightarrow> 16 word \<Rightarrow> capabilities" where
  "caps_attenuate c remove = c AND NOT remove"

definition caps_intersect :: "capabilities \<Rightarrow> capabilities \<Rightarrow> capabilities" where
  "caps_intersect c d = c AND d"

record thin_ref =
  tr_ptr :: u64
  tr_generation :: u32
  tr_epoch_caps :: u32

definition thin_new :: "u64 \<Rightarrow> u32 \<Rightarrow> 16 word \<Rightarrow> capabilities \<Rightarrow> thin_ref" where
  "thin_new p generation epoch c =
     \<lparr>tr_ptr = p, tr_generation = generation, tr_epoch_caps = push_bit 16 (ucast epoch) OR ucast c\<rparr>"

definition thin_null :: thin_ref where
  "thin_null = \<lparr>tr_ptr = 0, tr_generation = 0, tr_epoch_caps = 0\<rparr>"

definition thin_epoch :: "thin_ref \<Rightarrow> 16 word" where
  "thin_epoch r = ucast (drop_bit 16 (tr_epoch_caps r))"

definition thin_capabilities :: "thin_ref \<Rightarrow> capabilities" where
  "thin_capabilities r = ucast (tr_epoch_caps r AND 0xFFFF)"

definition thin_is_null :: "thin_ref \<Rightarrow> bool" where
  "thin_is_null r = (tr_ptr r = 0)"

definition thin_attenuate :: "thin_ref \<Rightarrow> 16 word \<Rightarrow> thin_ref" where
  "thin_attenuate r remove =
     (let new_caps = caps_attenuate (thin_capabilities r) remove in
      \<lparr>tr_ptr = tr_ptr r, tr_generation = tr_generation r,
       tr_epoch_caps = push_bit 16 (ucast (thin_epoch r)) OR ucast new_caps\<rparr>)"

record fat_ref =
  fr_thin :: thin_ref
  fr_metadata :: u64
  fr_offset :: u32
  fr_reserved :: u32

definition fat_new :: "u64 \<Rightarrow> u32 \<Rightarrow> 16 word \<Rightarrow> capabilities \<Rightarrow> u64 \<Rightarrow> fat_ref" where
  "fat_new p generation epoch c metadata =
     \<lparr>fr_thin = thin_new p generation epoch c, fr_metadata = metadata, fr_offset = 0, fr_reserved = 0\<rparr>"

definition fat_slice :: "u64 \<Rightarrow> u32 \<Rightarrow> 16 word \<Rightarrow> capabilities \<Rightarrow> u64 \<Rightarrow> fat_ref" where
  "fat_slice p generation epoch c len = fat_new p generation epoch c len"

definition fat_null :: fat_ref where
  "fat_null = \<lparr>fr_thin = thin_null, fr_metadata = 0, fr_offset = 0, fr_reserved = 0\<rparr>"

definition fat_epoch :: "fat_ref \<Rightarrow> 16 word" where
  "fat_epoch r = thin_epoch (fr_thin r)"

definition fat_capabilities :: "fat_ref \<Rightarrow> capabilities" where
  "fat_capabilities r = thin_capabilities (fr_thin r)"

definition fat_is_empty :: "fat_ref \<Rightarrow> bool" where
  "fat_is_empty r = (fr_metadata r = 0)"

definition fat_is_null :: "fat_ref \<Rightarrow> bool" where
  "fat_is_null r = thin_is_null (fr_thin r)"

definition fat_attenuate :: "fat_ref \<Rightarrow> 16 word \<Rightarrow> fat_ref" where
  "fat_attenuate r remove =
     \<lparr>fr_thin = thin_attenuate (fr_thin r) remove, fr_metadata = fr_metadata r, fr_offset = fr_offset r,
      fr_reserved = fr_reserved r\<rparr>"

record value_tables =
  boxed_ints :: "64 word list"
  boxed_i128s :: "(128 word \<times> bool) list"
  thin_refs :: "thin_ref list"
  fat_refs :: "fat_ref list"

definition reset_global_value_tables :: "value_tables \<Rightarrow> value_tables" where
  "reset_global_value_tables tb = \<lparr>boxed_ints = [], boxed_i128s = [], thin_refs = [], fat_refs = []\<rparr>"

subsection \<open>Type checks\<close>

definition is_float :: "val64 \<Rightarrow> bool" where
  "is_float v = (v AND 0xFFF8000000000000 \<noteq> 0x7FF8000000000000)"

definition is_tagged :: "val64 \<Rightarrow> bool" where
  "is_tagged v = (\<not> is_float v)"

definition value_tag :: "val64 \<Rightarrow> 8 word option" where
  "value_tag v = (if is_float v then None else Some (ucast (drop_bit 48 (v AND TAG_MASK))))"

definition is_nan_float :: "val64 \<Rightarrow> bool" where
  "is_nan_float v = (value_tag v = Some (ucast TAG_NAN))"

definition is_inline_int :: "val64 \<Rightarrow> bool" where
  "is_inline_int v = (value_tag v = Some (ucast TAG_INTEGER))"

definition is_boxed_int :: "val64 \<Rightarrow> bool" where
  "is_boxed_int v =
     (value_tag v = Some (ucast TAG_POINTER) \<and> v AND BOXED_INT_MARKER = BOXED_INT_MARKER \<and>
      v AND FAT_REF_SUB_MARKER = 0 \<and> v AND BOXED_I128_WIDTH_BIT = 0)"

definition is_boxed_i128 :: "val64 \<Rightarrow> bool" where
  "is_boxed_i128 v =
     (value_tag v = Some (ucast TAG_POINTER) \<and> v AND BOXED_INT_MARKER = BOXED_INT_MARKER \<and>
      v AND FAT_REF_SUB_MARKER = 0 \<and> v AND BOXED_I128_WIDTH_BIT \<noteq> 0)"

definition is_int :: "val64 \<Rightarrow> bool" where
  "is_int v = (is_inline_int v \<or> is_boxed_int v \<or> is_boxed_i128 v)"

definition is_bool :: "val64 \<Rightarrow> bool" where
  "is_bool v = (value_tag v = Some (ucast TAG_BOOLEAN))"

definition is_unit :: "val64 \<Rightarrow> bool" where
  "is_unit v = (value_tag v = Some (ucast TAG_UNIT) \<and> v AND PAYLOAD_MASK = 0)"

definition is_cbgr_regref :: "val64 \<Rightarrow> bool" where
  "is_cbgr_regref v = (value_tag v = Some (ucast TAG_UNIT) \<and> v AND CBGR_REGREF_MARKER \<noteq> 0)"

definition is_small_string :: "val64 \<Rightarrow> bool" where
  "is_small_string v = (value_tag v = Some (ucast TAG_SMALL_STRING))"

definition is_type_ref :: "val64 \<Rightarrow> bool" where
  "is_type_ref v = (value_tag v = Some (ucast TAG_TYPE_REF))"

definition is_func_ref :: "val64 \<Rightarrow> bool" where
  "is_func_ref v = (value_tag v = Some (ucast TAG_FUNC_REF))"

definition is_generator :: "val64 \<Rightarrow> bool" where
  "is_generator v =
     (value_tag v = Some (ucast TAG_POINTER) \<and> v AND SPECIAL_VALUE_MARKER \<noteq> 0 \<and>
      v AND BOXED_INT_SUB_MARKER = 0 \<and> v AND THIN_REF_SUB_MARKER = 0)"

definition is_thin_ref :: "val64 \<Rightarrow> bool" where
  "is_thin_ref v =
     (value_tag v = Some (ucast TAG_POINTER) \<and> v AND THIN_REF_MARKER = THIN_REF_MARKER \<and>
      v AND BOXED_INT_SUB_MARKER = 0)"

definition is_projected_slot :: "val64 \<Rightarrow> bool" where
  "is_projected_slot v = (is_thin_ref v \<and> v AND SLOT_REF_BIT \<noteq> 0)"

definition is_fat_ref :: "val64 \<Rightarrow> bool" where
  "is_fat_ref v = (value_tag v = Some (ucast TAG_POINTER) \<and> v AND FAT_REF_MARKER = FAT_REF_MARKER)"

definition is_cbgr_ref :: "val64 \<Rightarrow> bool" where
  "is_cbgr_ref v = (is_thin_ref v \<or> is_fat_ref v)"

definition is_ptr :: "val64 \<Rightarrow> bool" where
  "is_ptr v =
     (value_tag v = Some (ucast TAG_POINTER) \<and> \<not> is_boxed_int v \<and> \<not> is_boxed_i128 v \<and> \<not> is_projected_slot v)"

definition is_nil :: "val64 \<Rightarrow> bool" where
  "is_nil v = (is_ptr v \<and> v AND PAYLOAD_MASK = 0)"

definition is_regular_ptr :: "val64 \<Rightarrow> bool" where
  "is_regular_ptr v =
     (value_tag v = Some (ucast TAG_POINTER) \<and> v AND SPECIAL_VALUE_MARKER = 0 \<and> \<not> is_nil v)"

subsection \<open>Constructors\<close>

definition from_f64 :: "u64 \<Rightarrow> val64" where
  "from_f64 bits =
     (if bits AND 0x7FF0000000000000 = 0x7FF0000000000000 \<and> bits AND 0x000FFFFFFFFFFFFF \<noteq> 0
      then NAN_BITS OR push_bit 48 TAG_NAN OR (bits AND PAYLOAD_MASK)
      else bits)"

definition from_i64_boxed :: "64 word \<Rightarrow> value_tables \<Rightarrow> val64 \<times> value_tables" where
  "from_i64_boxed i tb =
     (let index = of_nat (length (boxed_ints tb)) in
      if BOXED_INT_INDEX_MASK < index
      then (NAN_BITS OR push_bit 48 TAG_INTEGER OR (index AND BOXED_INT_INDEX_MASK), tb)
      else (NAN_BITS OR push_bit 48 TAG_POINTER OR BOXED_INT_MARKER OR index,
            tb\<lparr>boxed_ints := boxed_ints tb @ [i]\<rparr>))"

definition from_i64 :: "64 word \<Rightarrow> value_tables \<Rightarrow> val64 \<times> value_tables" where
  "from_i64 i tb =
     (if MIN_SMALL_INT \<le> sint i \<and> sint i \<le> MAX_SMALL_INT
      then (NAN_BITS OR push_bit 48 TAG_INTEGER OR (i AND PAYLOAD_MASK), tb)
      else from_i64_boxed i tb)"

definition from_i128_raw_signed :: "128 word \<Rightarrow> bool \<Rightarrow> value_tables \<Rightarrow> val64 \<times> value_tables" where
  "from_i128_raw_signed raw is_sgn tb =
     (let index = of_nat (length (boxed_i128s tb)) in
      if BOXED_INT_INDEX_MASK < index
      then (NAN_BITS OR push_bit 48 TAG_POINTER OR BOXED_INT_MARKER OR BOXED_I128_WIDTH_BIT OR
              (index AND BOXED_INT_INDEX_MASK), tb)
      else (NAN_BITS OR push_bit 48 TAG_POINTER OR BOXED_INT_MARKER OR BOXED_I128_WIDTH_BIT OR index,
            tb\<lparr>boxed_i128s := boxed_i128s tb @ [(raw, is_sgn)]\<rparr>))"

definition from_i128_raw :: "128 word \<Rightarrow> value_tables \<Rightarrow> val64 \<times> value_tables" where
  "from_i128_raw raw tb = from_i128_raw_signed raw True tb"

definition from_i128 :: "128 word \<Rightarrow> value_tables \<Rightarrow> val64 \<times> value_tables" where
  "from_i128 i tb = from_i128_raw_signed i True tb"

definition from_u128 :: "128 word \<Rightarrow> value_tables \<Rightarrow> val64 \<times> value_tables" where
  "from_u128 u tb = from_i128_raw_signed u False tb"

definition from_bool :: "bool \<Rightarrow> val64" where
  "from_bool b = NAN_BITS OR push_bit 48 TAG_BOOLEAN OR of_bool b"

definition value_unit :: val64 where
  "value_unit = NAN_BITS OR push_bit 48 TAG_UNIT"

definition from_char :: "u32 \<Rightarrow> value_tables \<Rightarrow> val64 \<times> value_tables" where
  "from_char c tb = from_i64 (ucast c) tb"

definition VACANT_HASH_KEY :: val64 where
  "VACANT_HASH_KEY = make_header TAG_UNIT OR 1"

definition is_vacant_hash_key :: "val64 \<Rightarrow> bool" where
  "is_vacant_hash_key v = (v = VACANT_HASH_KEY)"

definition from_ptr :: "u64 \<Rightarrow> val64" where
  "from_ptr addr = NAN_BITS OR push_bit 48 TAG_POINTER OR addr"

fun small_payload :: "nat \<Rightarrow> 8 word list \<Rightarrow> val64 \<Rightarrow> val64" where
  "small_payload i [] payload = payload"
| "small_payload i (b # bs) payload = small_payload (i + 1) bs (payload OR push_bit (i * 8) (ucast b))"

definition from_small_string :: "8 word list \<Rightarrow> val64 option" where
  "from_small_string bytes =
     (if 6 < length bytes \<or> 0 \<in> set bytes then None
      else Some (NAN_BITS OR push_bit 48 TAG_SMALL_STRING OR small_payload 0 bytes 0))"

definition from_type :: "u32 \<Rightarrow> val64" where
  "from_type type_id = NAN_BITS OR push_bit 48 TAG_TYPE_REF OR ucast type_id"

definition from_function :: "u32 \<Rightarrow> val64" where
  "from_function func_id = NAN_BITS OR push_bit 48 TAG_FUNC_REF OR ucast func_id"

definition value_nil :: val64 where
  "value_nil = from_ptr 0"

definition from_generator :: "u64 \<Rightarrow> val64" where
  "from_generator g =
     NAN_BITS OR push_bit 48 TAG_POINTER OR GENERATOR_MARKER OR (g AND GENERATOR_ID_MASK)"

definition from_thin_ref :: "thin_ref \<Rightarrow> value_tables \<Rightarrow> val64 \<times> value_tables" where
  "from_thin_ref r tb =
     (let index = of_nat (length (thin_refs tb)) in
      if THIN_INDEX_MASK < index then (value_nil, tb)
      else (NAN_BITS OR push_bit 48 TAG_POINTER OR THIN_REF_MARKER OR index,
            tb\<lparr>thin_refs := thin_refs tb @ [r]\<rparr>))"

definition projected_slot :: "u64 \<Rightarrow> val64 option" where
  "projected_slot slot =
     (if slot \<le> THIN_INDEX_MASK
      then Some (NAN_BITS OR push_bit 48 TAG_POINTER OR THIN_REF_MARKER OR SLOT_REF_BIT OR slot) else None)"

definition projection_id :: "val64 \<Rightarrow> u64 option" where
  "projection_id v = (if is_projected_slot v then Some (v AND THIN_INDEX_MASK) else None)"

definition from_fat_ref :: "fat_ref \<Rightarrow> value_tables \<Rightarrow> val64 \<times> value_tables" where
  "from_fat_ref r tb =
     (let index = of_nat (length (fat_refs tb)) in
      if REF_INDEX_MASK < index then (value_nil, tb)
      else (NAN_BITS OR push_bit 48 TAG_POINTER OR FAT_REF_MARKER OR index,
            tb\<lparr>fat_refs := fat_refs tb @ [r]\<rparr>))"

definition cbgr_regref :: "u32 \<Rightarrow> u32 \<Rightarrow> bool \<Rightarrow> val64" where
  "cbgr_regref abs_index generation mutable =
     (let abs = ucast abs_index AND CBGR_REGREF_ABS_MASK;
          gen_field = push_bit 24 (ucast generation AND CBGR_REGREF_GEN_MASK);
          mut_bit = (if mutable then CBGR_REGREF_MUT_BIT else 0)
      in NAN_BITS OR push_bit 48 TAG_UNIT OR CBGR_REGREF_MARKER OR mut_bit OR gen_field OR abs)"

subsection \<open>Accessors\<close>

definition cbgr_regref_abs :: "val64 \<Rightarrow> u32" where
  "cbgr_regref_abs v = ucast (v AND CBGR_REGREF_ABS_MASK)"

definition cbgr_regref_generation :: "val64 \<Rightarrow> u32" where
  "cbgr_regref_generation v = ucast (drop_bit 24 v AND CBGR_REGREF_GEN_MASK)"

definition cbgr_regref_is_mut :: "val64 \<Rightarrow> bool" where
  "cbgr_regref_is_mut v = (v AND CBGR_REGREF_MUT_BIT \<noteq> 0)"

definition table_get :: "'a list \<Rightarrow> u64 \<Rightarrow> 'a option" where
  "table_get xs i = (if unat i < length xs then Some (xs ! unat i) else None)"

definition as_i128_of_boxed :: "val64 \<Rightarrow> value_tables \<Rightarrow> 128 word" where
  "as_i128_of_boxed v tb =
     (case table_get (boxed_i128s tb) (v AND BOXED_INT_INDEX_MASK) of Some (raw, _) \<Rightarrow> raw | None \<Rightarrow> 0)"

definition as_i64 :: "val64 \<Rightarrow> value_tables \<Rightarrow> 64 word" where
  "as_i64 v tb =
     (if is_boxed_i128 v then ucast (as_i128_of_boxed v tb)
      else if is_boxed_int v
      then (case table_get (boxed_ints tb) (v AND BOXED_INT_INDEX_MASK) of Some i \<Rightarrow> i | None \<Rightarrow> 0)
      else signed_drop_bit 16 (push_bit 16 (v AND PAYLOAD_MASK)))"

definition as_i128_raw :: "val64 \<Rightarrow> value_tables \<Rightarrow> 128 word" where
  "as_i128_raw v tb =
     (if is_boxed_i128 v then as_i128_of_boxed v tb
      else if is_int v then scast (as_i64 v tb) else 0)"

definition boxed_i128_is_signed :: "val64 \<Rightarrow> value_tables \<Rightarrow> bool" where
  "boxed_i128_is_signed v tb =
     (if is_boxed_i128 v
      then (case table_get (boxed_i128s tb) (v AND BOXED_INT_INDEX_MASK) of Some (_, s) \<Rightarrow> s | None \<Rightarrow> True)
      else True)"

definition as_bool :: "val64 \<Rightarrow> bool" where
  "as_bool v = (v AND 1 \<noteq> 0)"

definition is_truthy :: "val64 \<Rightarrow> value_tables \<Rightarrow> bool" where
  "is_truthy v tb =
     (if is_bool v then v AND 1 \<noteq> 0
      else if is_int v then as_i64 v tb \<noteq> 0
      else \<not> (is_nil v \<or> is_unit v))"

definition as_ptr :: "val64 \<Rightarrow> u64" where
  "as_ptr v = v AND PAYLOAD_MASK"

definition as_small_string :: "val64 \<Rightarrow> 8 word list" where
  "as_small_string v =
     (let payload = v AND PAYLOAD_MASK;
          bytes = map (\<lambda>i. ucast (drop_bit (i * 8) payload AND 0xFF)) [0..<6];
          len = fold (\<lambda>i len. if bytes ! i \<noteq> 0 then i + 1 else len) [0..<6] 0
      in take len bytes)"

definition as_type_id :: "val64 \<Rightarrow> u32" where
  "as_type_id v = ucast (v AND PAYLOAD_MASK)"

definition as_func_id :: "val64 \<Rightarrow> u32" where
  "as_func_id v = ucast (v AND PAYLOAD_MASK)"

definition as_generator_id :: "val64 \<Rightarrow> u64" where
  "as_generator_id v = v AND GENERATOR_ID_MASK"

definition try_as_i64 :: "val64 \<Rightarrow> value_tables \<Rightarrow> 64 word option" where
  "try_as_i64 v tb = (if is_int v then Some (as_i64 v tb) else None)"

definition try_as_bool :: "val64 \<Rightarrow> bool option" where
  "try_as_bool v = (if is_bool v then Some (as_bool v) else None)"

definition try_as_generator_id :: "val64 \<Rightarrow> u64 option" where
  "try_as_generator_id v = (if is_generator v then Some (as_generator_id v) else None)"

definition try_as_thin_ref :: "val64 \<Rightarrow> value_tables \<Rightarrow> thin_ref option" where
  "try_as_thin_ref v tb =
     (if \<not> is_thin_ref v \<or> is_projected_slot v then None
      else table_get (thin_refs tb) (v AND THIN_INDEX_MASK))"

datatype operand_error = InvalidOperand string

definition raw_thin_ref :: "val64 \<Rightarrow> value_tables \<Rightarrow> operand_error + thin_ref" where
  "raw_thin_ref v tb =
     (case try_as_thin_ref v tb of
        Some r \<Rightarrow> Inr r
      | None \<Rightarrow> Inl (InvalidOperand ''managed slot requires a checked Value access''))"

text \<open>Indexing a table outside its range panics: the outer option of a fat reference is the panic.\<close>

definition as_fat_ref :: "val64 \<Rightarrow> value_tables \<Rightarrow> fat_ref option" where
  "as_fat_ref v tb = table_get (fat_refs tb) (v AND REF_INDEX_MASK)"

definition try_as_fat_ref :: "val64 \<Rightarrow> value_tables \<Rightarrow> fat_ref option option" where
  "try_as_fat_ref v tb = (if is_fat_ref v then map_option Some (as_fat_ref v tb) else Some None)"

definition try_as_f64 :: "val64 \<Rightarrow> u64 option" where
  "try_as_f64 v =
     (if value_tag v = Some (ucast TAG_NAN) then Some ((v AND PAYLOAD_MASK) OR 0x7FF8000000000000)
      else if is_float v then Some v else None)"

subsection \<open>The layout in terms of bits\<close>

lemma NAN_BITS_bits: "NAN_BITS = push_bit 51 (mask 12)"
  by (simp add: NAN_BITS_def mask_eq_exp_minus_1)

lemma PAYLOAD_MASK_bits: "PAYLOAD_MASK = mask 48"
  by (simp add: PAYLOAD_MASK_def mask_eq_exp_minus_1)

lemma TAG_MASK_bits: "TAG_MASK = push_bit 48 (mask 3)"
  by (simp add: TAG_MASK_def mask_eq_exp_minus_1)

lemma index_masks:
  "BOXED_INT_INDEX_MASK = mask 44" "THIN_INDEX_MASK = mask 44" "REF_INDEX_MASK = mask 45"
  "GENERATOR_ID_MASK = mask 45" "CBGR_REGREF_ABS_MASK = mask 24" "CBGR_REGREF_GEN_MASK = mask 22"
  by (simp_all add: BOXED_INT_INDEX_MASK_def THIN_INDEX_MASK_def REF_INDEX_MASK_def GENERATOR_ID_MASK_def
    CBGR_REGREF_ABS_MASK_def CBGR_REGREF_GEN_MASK_def SLOT_REF_BIT_def mask_eq_exp_minus_1)

definition boxed :: "val64 \<Rightarrow> val64 \<Rightarrow> val64" where
  "boxed t p = NAN_BITS OR push_bit 48 t OR p"

lemma is_float_bits: "is_float v \<longleftrightarrow> drop_bit 51 v \<noteq> mask 12"
proof -
  have m: "(0xFFF8000000000000 :: val64) = push_bit 51 (mask 13)"
    by (simp add: mask_eq_exp_minus_1)
  have "v AND 0xFFF8000000000000 = push_bit 51 (drop_bit 51 v)"
    unfolding m by (rule bit_word_eqI) (auto simp: bit_simps dest: bit_imp_le_length)
  moreover have "(0x7FF8000000000000 :: val64) = push_bit 51 (mask 12)"
    by (simp add: mask_eq_exp_minus_1)
  moreover have "drop_bit 51 (push_bit 51 (drop_bit 51 v)) = drop_bit 51 v"
    by (rule bit_word_eqI) (auto simp: bit_simps dest: bit_imp_le_length)
  moreover have "drop_bit 51 (push_bit 51 (mask 12 :: val64)) = mask 12"
    by (rule bit_word_eqI) (auto simp: bit_simps)
  ultimately show ?thesis
    by (metis is_float_def)
qed

lemma value_tag_bits:
  "value_tag v = (if drop_bit 51 v = mask 12 then Some (ucast (take_bit 3 (drop_bit 48 v))) else None)"
proof -
  have "drop_bit 48 (v AND TAG_MASK) = take_bit 3 (drop_bit 48 v)"
    unfolding TAG_MASK_bits by (rule bit_word_eqI) (auto simp: bit_simps)
  then show ?thesis
    by (simp add: value_tag_def is_float_bits)
qed

lemma value_tag_eq:
  assumes "take_bit 3 t = (t :: val64)"
  shows "value_tag v = Some (ucast t) \<longleftrightarrow> drop_bit 51 v = mask 12 \<and> take_bit 3 (drop_bit 48 v) = t"
proof -
  have "(ucast (take_bit 3 (drop_bit 48 v)) :: 8 word) = ucast t \<longleftrightarrow> take_bit 3 (drop_bit 48 v) = t"
  proof
    assume "(ucast (take_bit 3 (drop_bit 48 v)) :: 8 word) = ucast t"
    then have "take_bit 3 (ucast (take_bit 3 (drop_bit 48 v) :: val64) :: 8 word) = take_bit 3 (ucast t)"
      by simp
    then have *: "bit (v) (48 + n) = bit t n" if "n < 3" for n
      using that by (auto simp: bit_eq_iff bit_simps dest!: spec[of _ n])
    show "take_bit 3 (drop_bit 48 v) = t"
      by (subst assms [symmetric], rule bit_word_eqI) (auto simp: bit_simps *)
  qed simp
  then show ?thesis
    by (auto simp: value_tag_bits)
qed

lemma marker_bits:
  "v AND SPECIAL_VALUE_MARKER \<noteq> 0 \<longleftrightarrow> bit v 47" "v AND SPECIAL_VALUE_MARKER = 0 \<longleftrightarrow> \<not> bit v 47"
  "v AND BOXED_INT_SUB_MARKER = 0 \<longleftrightarrow> \<not> bit v 46"
  "v AND THIN_REF_SUB_MARKER = 0 \<longleftrightarrow> \<not> bit v 45" "v AND FAT_REF_SUB_MARKER = 0 \<longleftrightarrow> \<not> bit v 45"
  "v AND BOXED_I128_WIDTH_BIT = 0 \<longleftrightarrow> \<not> bit v 44" "v AND SLOT_REF_BIT = 0 \<longleftrightarrow> \<not> bit v 44"
  "v AND CBGR_REGREF_MARKER = 0 \<longleftrightarrow> \<not> bit v 47" "v AND CBGR_REGREF_MUT_BIT = 0 \<longleftrightarrow> \<not> bit v 46"
  unfolding marker_defs CBGR_REGREF_MARKER_def CBGR_REGREF_MUT_BIT_def
  by (auto simp: bit_iff_and_push_bit_not_eq_0)

lemma and_or_absorb: "v AND (x OR y) = x OR y \<longleftrightarrow> v AND x = x \<and> v AND y = (y :: val64)"
  by (auto simp: bit_eq_iff bit_simps)

lemma and_single_absorb: "m < 64 \<Longrightarrow> v AND push_bit m 1 = push_bit m (1 :: val64) \<longleftrightarrow> bit v m"
  by (subst bit_eq_iff) (auto simp: bit_simps)

lemma and_markers:
  "v AND BOXED_INT_MARKER = BOXED_INT_MARKER \<longleftrightarrow> bit v 47 \<and> bit v 46"
  "v AND THIN_REF_MARKER = THIN_REF_MARKER \<longleftrightarrow> bit v 47 \<and> bit v 45"
  "v AND FAT_REF_MARKER = FAT_REF_MARKER \<longleftrightarrow> bit v 47 \<and> bit v 46 \<and> bit v 45"
  unfolding marker_defs and_or_absorb
  by (simp_all only: and_single_absorb lessI numeral_less_iff less_num_simps)

lemma payload_mask_bits: "v AND PAYLOAD_MASK = take_bit 48 v"
  by (simp add: PAYLOAD_MASK_bits take_bit_eq_mask and.commute)

lemma tag_fits:
  "take_bit 3 TAG_POINTER = TAG_POINTER" "take_bit 3 TAG_INTEGER = TAG_INTEGER"
  "take_bit 3 TAG_BOOLEAN = TAG_BOOLEAN" "take_bit 3 TAG_UNIT = TAG_UNIT"
  "take_bit 3 TAG_SMALL_STRING = TAG_SMALL_STRING" "take_bit 3 TAG_TYPE_REF = TAG_TYPE_REF"
  "take_bit 3 TAG_FUNC_REF = TAG_FUNC_REF" "take_bit 3 TAG_NAN = TAG_NAN"
  by (simp_all add: tag_defs)

subsection \<open>The kinds of a value\<close>

text \<open>The three tag bits and the payload of a word.\<close>

definition tag_bits :: "val64 \<Rightarrow> val64" where
  "tag_bits v = take_bit 3 (drop_bit 48 v)"

definition quiet :: "val64 \<Rightarrow> bool" where
  "quiet v = (drop_bit 51 v = mask 12)"

lemmas tag_eqs = tag_fits [THEN value_tag_eq, folded tag_bits_def quiet_def]

lemma kind_bits:
  "is_float v \<longleftrightarrow> \<not> quiet v"
  "is_nan_float v \<longleftrightarrow> quiet v \<and> tag_bits v = TAG_NAN"
  "is_inline_int v \<longleftrightarrow> quiet v \<and> tag_bits v = TAG_INTEGER"
  "is_boxed_int v \<longleftrightarrow> quiet v \<and> tag_bits v = TAG_POINTER \<and> bit v 47 \<and> bit v 46 \<and> \<not> bit v 45 \<and> \<not> bit v 44"
  "is_boxed_i128 v \<longleftrightarrow> quiet v \<and> tag_bits v = TAG_POINTER \<and> bit v 47 \<and> bit v 46 \<and> \<not> bit v 45 \<and> bit v 44"
  "is_bool v \<longleftrightarrow> quiet v \<and> tag_bits v = TAG_BOOLEAN"
  "is_unit v \<longleftrightarrow> quiet v \<and> tag_bits v = TAG_UNIT \<and> take_bit 48 v = 0"
  "is_cbgr_regref v \<longleftrightarrow> quiet v \<and> tag_bits v = TAG_UNIT \<and> bit v 47"
  "is_small_string v \<longleftrightarrow> quiet v \<and> tag_bits v = TAG_SMALL_STRING"
  "is_type_ref v \<longleftrightarrow> quiet v \<and> tag_bits v = TAG_TYPE_REF"
  "is_func_ref v \<longleftrightarrow> quiet v \<and> tag_bits v = TAG_FUNC_REF"
  "is_generator v \<longleftrightarrow> quiet v \<and> tag_bits v = TAG_POINTER \<and> bit v 47 \<and> \<not> bit v 46 \<and> \<not> bit v 45"
  "is_thin_ref v \<longleftrightarrow> quiet v \<and> tag_bits v = TAG_POINTER \<and> bit v 47 \<and> bit v 45 \<and> \<not> bit v 46"
  "is_projected_slot v \<longleftrightarrow>
     quiet v \<and> tag_bits v = TAG_POINTER \<and> bit v 47 \<and> bit v 45 \<and> \<not> bit v 46 \<and> bit v 44"
  "is_fat_ref v \<longleftrightarrow> quiet v \<and> tag_bits v = TAG_POINTER \<and> bit v 47 \<and> bit v 46 \<and> bit v 45"
  unfolding is_nan_float_def is_inline_int_def is_boxed_int_def is_boxed_i128_def is_bool_def is_unit_def
    is_cbgr_regref_def is_small_string_def is_type_ref_def is_func_ref_def is_generator_def is_projected_slot_def
    is_thin_ref_def is_fat_ref_def tag_eqs marker_bits and_markers payload_mask_bits
  by (auto simp: is_float_bits quiet_def)

lemma payload_zero_bits: "take_bit 48 v = (0 :: val64) \<Longrightarrow> n < 48 \<Longrightarrow> \<not> bit v n"
  by (metis bit_0_eq bit_take_bit_iff bot_apply bot_bool_def)

lemma pointer_bits:
  "is_ptr v \<longleftrightarrow> quiet v \<and> tag_bits v = TAG_POINTER \<and>
     \<not> (bit v 47 \<and> bit v 46 \<and> \<not> bit v 45) \<and> \<not> (bit v 47 \<and> bit v 45 \<and> \<not> bit v 46 \<and> bit v 44)"
  "is_nil v \<longleftrightarrow> quiet v \<and> tag_bits v = TAG_POINTER \<and> take_bit 48 v = 0"
  "is_regular_ptr v \<longleftrightarrow> quiet v \<and> tag_bits v = TAG_POINTER \<and> \<not> bit v 47 \<and> take_bit 48 v \<noteq> 0"
  unfolding is_ptr_def is_nil_def is_regular_ptr_def tag_eqs marker_bits payload_mask_bits kind_bits
  using payload_zero_bits [of v 47] by auto

lemma unat_is: "unat w = k \<Longrightarrow> w = word_of_nat k"
  by auto

lemma tag_bits_cases:
  "tag_bits v = TAG_POINTER \<or> tag_bits v = TAG_INTEGER \<or> tag_bits v = TAG_BOOLEAN \<or> tag_bits v = TAG_UNIT \<or>
   tag_bits v = TAG_SMALL_STRING \<or> tag_bits v = TAG_TYPE_REF \<or> tag_bits v = TAG_FUNC_REF \<or> tag_bits v = TAG_NAN"
proof -
  have "unat (tag_bits v) < 2 ^ 3"
    unfolding tag_bits_def unsigned_take_bit_eq by (rule take_bit_nat_less_exp)
  moreover have "k < 2 ^ 3 \<Longrightarrow> k = 0 \<or> k = 1 \<or> k = 2 \<or> k = 3 \<or> k = 4 \<or> k = 5 \<or> k = 6 \<or> k = 7" for k :: nat
    by simp arith
  ultimately have "unat (tag_bits v) = 0 \<or> unat (tag_bits v) = 1 \<or> unat (tag_bits v) = 2 \<or> unat (tag_bits v) = 3 \<or>
    unat (tag_bits v) = 4 \<or> unat (tag_bits v) = 5 \<or> unat (tag_bits v) = 6 \<or> unat (tag_bits v) = 7"
    by blast
  then show ?thesis
    by (elim disjE) (drule unat_is, simp add: tag_defs)+
qed

text \<open>
  Words no constructor makes: the unit tag with a payload that is no register reference. The empty
  key of the hash tables is one of them.
\<close>

definition is_unassigned :: "val64 \<Rightarrow> bool" where
  "is_unassigned v = (value_tag v = Some (ucast TAG_UNIT) \<and> \<not> is_unit v \<and> \<not> is_cbgr_regref v)"

definition value_kinds :: "(val64 \<Rightarrow> bool) list" where
  "value_kinds =
     [is_float, is_nan_float, is_inline_int, is_boxed_int, is_boxed_i128, is_bool, is_unit, is_cbgr_regref,
      is_unassigned, is_small_string, is_type_ref, is_func_ref, is_generator, is_thin_ref, is_fat_ref,
      is_regular_ptr, is_nil]"

lemma one_kind: "length (filter (\<lambda>P. P v) value_kinds) = 1"
proof (cases "quiet v")
  case True
  have u: "is_unassigned v \<longleftrightarrow> tag_bits v = TAG_UNIT \<and> take_bit 48 v \<noteq> 0 \<and> \<not> bit v 47"
    by (auto simp: is_unassigned_def tag_eqs kind_bits True)
  note bits = value_kinds_def kind_bits pointer_bits u tag_defs True
  from tag_bits_cases [of v] show ?thesis
  proof (elim disjE)
    assume "tag_bits v = TAG_POINTER"
    then show ?thesis
      using payload_zero_bits [of v 47]
      by (cases "bit v 47"; cases "bit v 46"; cases "bit v 45"; cases "bit v 44"; cases "take_bit 48 v = 0")
        (simp_all add: bits)
  next
    assume "tag_bits v = TAG_UNIT"
    then show ?thesis
      using payload_zero_bits [of v 47]
      by (cases "bit v 47"; cases "take_bit 48 v = 0") (simp_all add: bits)
  qed (simp_all add: bits)
next
  case False
  then show ?thesis
    by (simp add: value_kinds_def kind_bits pointer_bits is_unassigned_def tag_eqs)
qed

subsection \<open>Boxing and unboxing\<close>

lemma take_bit_boxed: "n \<le> 48 \<Longrightarrow> take_bit n (boxed t p) = take_bit n p"
  unfolding boxed_def NAN_BITS_bits by (rule bit_word_eqI) (auto simp: bit_simps)

lemma boxed_bit: "n < 48 \<Longrightarrow> bit (boxed t p) n = bit p n"
  unfolding boxed_def NAN_BITS_bits by (simp add: bit_simps)

lemma fits_no_bit: "take_bit m w = w \<Longrightarrow> m \<le> n \<Longrightarrow> \<not> bit (w :: 'a :: len word) n"
  by (metis bit_take_bit_iff leD)

lemma boxed_quiet:
  assumes "take_bit 3 t = t" "take_bit 48 p = p"
  shows "quiet (boxed t p)" "tag_bits (boxed t p) = t"
proof -
  have nb: "\<not> bit p (51 + n)" "\<not> bit p (48 + n)" "\<not> bit t (3 + n)" for n
    by (rule fits_no_bit [OF assms(2)] fits_no_bit [OF assms(1)], simp)+
  show "quiet (boxed t p)"
    unfolding quiet_def boxed_def NAN_BITS_bits
    by (rule bit_word_eqI) (auto simp: bit_simps nb)
  have "take_bit 3 (drop_bit 48 (boxed t p)) = take_bit 3 t"
    unfolding boxed_def NAN_BITS_bits
    by (rule bit_word_eqI) (auto simp: bit_simps nb)
  then show "tag_bits (boxed t p) = t"
    by (simp add: tag_bits_def assms(1))
qed

lemma marker_bit:
  "bit SPECIAL_VALUE_MARKER n \<longleftrightarrow> n = 47" "bit BOXED_INT_SUB_MARKER n \<longleftrightarrow> n = 46"
  "bit BOXED_I128_WIDTH_BIT n \<longleftrightarrow> n = 44" "bit THIN_REF_SUB_MARKER n \<longleftrightarrow> n = 45"
  "bit FAT_REF_SUB_MARKER n \<longleftrightarrow> n = 45" "bit SLOT_REF_BIT n \<longleftrightarrow> n = 44"
  "bit CBGR_REGREF_MARKER n \<longleftrightarrow> n = 47" "bit CBGR_REGREF_MUT_BIT n \<longleftrightarrow> n = 46"
  unfolding SPECIAL_VALUE_MARKER_def BOXED_INT_SUB_MARKER_def BOXED_I128_WIDTH_BIT_def THIN_REF_SUB_MARKER_def
    FAT_REF_SUB_MARKER_def SLOT_REF_BIT_def CBGR_REGREF_MARKER_def CBGR_REGREF_MUT_BIT_def bit_push_bit_iff
  by (auto simp: bit_1_iff)

lemmas family_defs = GENERATOR_MARKER_def BOXED_INT_MARKER_def THIN_REF_MARKER_def FAT_REF_MARKER_def

lemma payload_fits:
  fixes p :: val64
  assumes "\<And>n. bit p n \<Longrightarrow> n < 48"
  shows "take_bit 48 p = p"
  by (rule bit_word_eqI) (auto simp: bit_simps dest: assms)

text \<open>What a word with the pointer tag is depends on the four bits below the tag.\<close>

lemma pointer_word:
  assumes "\<And>n. bit p n \<Longrightarrow> n < 48"
  shows "quiet (boxed TAG_POINTER p)" "tag_bits (boxed TAG_POINTER p) = TAG_POINTER"
  by (rule boxed_quiet, rule tag_fits, rule payload_fits, erule assms)+

subsection \<open>Tables\<close>

definition tables_extend :: "value_tables \<Rightarrow> value_tables \<Rightarrow> bool" where
  "tables_extend tb tb' =
     (prefix (boxed_ints tb) (boxed_ints tb') \<and> prefix (boxed_i128s tb) (boxed_i128s tb') \<and>
      prefix (thin_refs tb) (thin_refs tb') \<and> prefix (fat_refs tb) (fat_refs tb'))"

lemma tables_extend_refl [simp]: "tables_extend tb tb"
  by (simp add: tables_extend_def)

lemma tables_extend_trans: "tables_extend a b \<Longrightarrow> tables_extend b c \<Longrightarrow> tables_extend a c"
  unfolding tables_extend_def by (auto intro: prefix_order.trans)

lemma constructors_extend:
  "tables_extend tb (snd (from_i64 i tb))" "tables_extend tb (snd (from_i128_raw_signed raw s tb))"
  "tables_extend tb (snd (from_thin_ref r tb))" "tables_extend tb (snd (from_fat_ref f tb))"
  by (simp_all add: tables_extend_def from_i64_def from_i64_boxed_def from_i128_raw_signed_def from_thin_ref_def
    from_fat_ref_def Let_def)

lemma table_get_new:
  assumes "prefix (xs @ [x]) ys" "length xs < 2 ^ 64"
  shows "table_get ys (of_nat (length xs)) = Some x"
proof -
  obtain zs where "ys = xs @ x # zs"
    using assms(1) by (auto elim: prefixE)
  moreover have "unat (of_nat (length xs) :: u64) = length xs"
    using assms(2) by (simp add: unsigned_of_nat take_bit_nat_eq_self)
  ultimately show ?thesis
    by (simp add: table_get_def)
qed

lemma index_fits:
  assumes "k < 2 ^ n" "n \<le> 64"
  shows "take_bit n (of_nat k :: val64) = of_nat k" "\<not> mask n < (of_nat k :: val64)"
proof -
  have "k < 2 ^ 64"
    using assms by (metis less_le_trans one_le_numeral power_increasing)
  then have "unat (of_nat k :: val64) = k"
    by (simp add: unsigned_of_nat take_bit_nat_eq_self)
  then have "unat (take_bit n (of_nat k :: val64)) = unat (of_nat k :: val64)"
    using assms(1) by (simp add: unsigned_take_bit_eq take_bit_nat_eq_self)
  then show *: "take_bit n (of_nat k :: val64) = of_nat k"
    by (simp add: word_eq_iff_unsigned [where ?'a = nat])
  then show "\<not> mask n < (of_nat k :: val64)"
    by (metis take_bit_eq_mask word_and_le1 not_le)
qed

subsection \<open>Integers\<close>

lemma small_int_sign_extend:
  assumes "MIN_SMALL_INT \<le> sint i" "sint i \<le> MAX_SMALL_INT"
  shows "signed_drop_bit 16 (push_bit 16 (take_bit 48 i)) = (i :: val64)"
proof -
  have st: "signed_take_bit 47 (sint i) = sint i"
    using assms by (intro signed_take_bit_int_eq_self) (simp_all add: MIN_SMALL_INT_def MAX_SMALL_INT_def)
  have high: "bit i n = bit i 47" if "48 \<le> n" "n < 64" for n
  proof -
    have "bit (sint i) n = bit (signed_take_bit 47 (sint i)) n"
      by (simp only: st)
    also have "\<dots> = bit (sint i) 47"
      using that by (simp add: bit_signed_take_bit_iff min_def)
    finally show ?thesis
      using that by (simp add: bit_sint_iff)
  qed
  show ?thesis
    by (rule bit_word_eqI) (auto simp: bit_simps high)
qed

definition marker :: "nat \<Rightarrow> val64 \<Rightarrow> bool" where
  "marker m M = (\<forall>n. bit M n \<longrightarrow> m \<le> n \<and> n < 48)"

text \<open>
  A word of a table family: marker bits above the index field, the index below. The bits of the
  marker decide the kind, and masking gives the index.
\<close>

lemma family_word:
  assumes "take_bit m k = k" "m \<le> 48" "marker m M"
  shows "quiet (boxed TAG_POINTER (M OR k))" "tag_bits (boxed TAG_POINTER (M OR k)) = TAG_POINTER"
    "\<And>n. m \<le> n \<Longrightarrow> n < 48 \<Longrightarrow> bit (boxed TAG_POINTER (M OR k)) n = bit M n"
    "boxed TAG_POINTER (M OR k) AND mask m = k"
proof -
  note nb = fits_no_bit [OF assms(1)]
  have b: "n < 48" if "bit (M OR k) n" for n
    using that nb [of n] assms(2,3) by (cases "m \<le> n") (auto simp: bit_or_iff marker_def)
  show "quiet (boxed TAG_POINTER (M OR k))" "tag_bits (boxed TAG_POINTER (M OR k)) = TAG_POINTER"
    using pointer_word [of "M OR k", OF b] by simp_all
  show "bit (boxed TAG_POINTER (M OR k)) n = bit M n" if "m \<le> n" "n < 48" for n
    using that nb by (simp add: boxed_bit bit_or_iff)
  have "take_bit m (M OR k) = take_bit m k"
    using assms(3) by (intro bit_word_eqI) (auto simp: bit_take_bit_iff bit_or_iff marker_def dest: spec)
  then show "boxed TAG_POINTER (M OR k) AND mask m = k"
    using assms(1,2) by (simp add: take_bit_boxed flip: take_bit_eq_mask)
qed

lemma family_marker_bits:
  "bit BOXED_INT_MARKER n \<longleftrightarrow> n = 47 \<or> n = 46" "bit THIN_REF_MARKER n \<longleftrightarrow> n = 47 \<or> n = 45"
  "bit FAT_REF_MARKER n \<longleftrightarrow> n = 47 \<or> n = 46 \<or> n = 45" "bit GENERATOR_MARKER n \<longleftrightarrow> n = 47"
  unfolding family_defs bit_or_iff marker_bit by simp_all

lemma markers:
  "marker 44 BOXED_INT_MARKER" "marker 44 (BOXED_INT_MARKER OR BOXED_I128_WIDTH_BIT)"
  "marker 45 GENERATOR_MARKER" "marker 44 THIN_REF_MARKER" "marker 44 (THIN_REF_MARKER OR SLOT_REF_BIT)"
  "marker 45 FAT_REF_MARKER"
  by (auto simp: marker_def bit_or_iff marker_bit family_marker_bits)

lemma boxed_int_word:
  assumes "take_bit 44 k = k"
  shows "is_boxed_int (boxed TAG_POINTER (BOXED_INT_MARKER OR k))"
    "boxed TAG_POINTER (BOXED_INT_MARKER OR k) AND BOXED_INT_INDEX_MASK = k"
  using family_word [OF assms _ markers(1)] by (simp_all add: kind_bits family_marker_bits index_masks)

lemma boxed_i128_word:
  assumes "take_bit 44 k = k"
  shows "is_boxed_i128 (boxed TAG_POINTER (BOXED_INT_MARKER OR BOXED_I128_WIDTH_BIT OR k))"
    "boxed TAG_POINTER (BOXED_INT_MARKER OR BOXED_I128_WIDTH_BIT OR k) AND BOXED_INT_INDEX_MASK = k"
  using family_word [OF assms _ markers(2)]
  by (simp_all add: kind_bits family_marker_bits marker_bit bit_or_iff or.assoc index_masks)

lemma generator_word:
  assumes "take_bit 45 k = k"
  shows "is_generator (boxed TAG_POINTER (GENERATOR_MARKER OR k))"
    "boxed TAG_POINTER (GENERATOR_MARKER OR k) AND GENERATOR_ID_MASK = k"
  using family_word [OF assms _ markers(3)] by (simp_all add: kind_bits family_marker_bits index_masks)

lemma thin_ref_word:
  assumes "take_bit 44 k = k"
  shows "is_thin_ref (boxed TAG_POINTER (THIN_REF_MARKER OR k))"
    "\<not> is_projected_slot (boxed TAG_POINTER (THIN_REF_MARKER OR k))"
    "boxed TAG_POINTER (THIN_REF_MARKER OR k) AND THIN_INDEX_MASK = k"
  using family_word [OF assms _ markers(4)] by (simp_all add: kind_bits family_marker_bits index_masks)

lemma slot_word:
  assumes "take_bit 44 k = k"
  shows "is_projected_slot (boxed TAG_POINTER (THIN_REF_MARKER OR SLOT_REF_BIT OR k))"
    "boxed TAG_POINTER (THIN_REF_MARKER OR SLOT_REF_BIT OR k) AND THIN_INDEX_MASK = k"
  using family_word [OF assms _ markers(5)]
  by (simp_all add: kind_bits family_marker_bits marker_bit bit_or_iff or.assoc index_masks)

lemma fat_ref_word:
  assumes "take_bit 45 k = k"
  shows "is_fat_ref (boxed TAG_POINTER (FAT_REF_MARKER OR k))"
    "boxed TAG_POINTER (FAT_REF_MARKER OR k) AND REF_INDEX_MASK = k"
  using family_word [OF assms _ markers(6)] by (simp_all add: kind_bits family_marker_bits index_masks)

subsection \<open>Round trips\<close>

lemma inline_word:
  assumes "take_bit 3 t = t"
  shows "quiet (boxed t (take_bit 48 p))" "tag_bits (boxed t (take_bit 48 p)) = t"
    "take_bit 48 (boxed t (take_bit 48 p)) = take_bit 48 p"
  using boxed_quiet [OF assms, of "take_bit 48 p"] by (simp_all add: take_bit_boxed)

lemma small_payload_id: "take_bit n p = p \<Longrightarrow> n \<le> 48 \<Longrightarrow> take_bit 48 p = (p :: val64)"
  by (rule payload_fits) (meson fits_no_bit less_le_trans not_le)

lemma int_not_pointer: "TAG_INTEGER \<noteq> TAG_POINTER"
  by (simp add: tag_defs)

lemma i64_inline:
  assumes "MIN_SMALL_INT \<le> sint i" "sint i \<le> MAX_SMALL_INT"
  shows "from_i64 i tb = (boxed TAG_INTEGER (take_bit 48 i), tb)"
    "is_inline_int (boxed TAG_INTEGER (take_bit 48 i))"
    "as_i64 (boxed TAG_INTEGER (take_bit 48 i)) tb2 = i"
proof -
  note w = inline_word [OF tag_fits(2), of i]
  show "from_i64 i tb = (boxed TAG_INTEGER (take_bit 48 i), tb)"
    using assms by (simp add: from_i64_def boxed_def payload_mask_bits)
  show "is_inline_int (boxed TAG_INTEGER (take_bit 48 i))"
    by (simp add: kind_bits w)
  have "\<not> is_boxed_int (boxed TAG_INTEGER (take_bit 48 i))" "\<not> is_boxed_i128 (boxed TAG_INTEGER (take_bit 48 i))"
    by (simp_all add: kind_bits w int_not_pointer)
  then show "as_i64 (boxed TAG_INTEGER (take_bit 48 i)) tb2 = i"
    by (simp add: as_i64_def payload_mask_bits w small_int_sign_extend [OF assms])
qed

lemma boxed_ints_disjoint: "is_boxed_int v \<Longrightarrow> \<not> is_boxed_i128 v"
  by (simp add: kind_bits)

lemma i64_round_trip:
  assumes "length (boxed_ints tb) < 2 ^ 44" "from_i64 i tb = (v, tb1)" "tables_extend tb1 tb2"
  shows "is_int v" "\<not> is_boxed_i128 v" "as_i64 v tb2 = i"
proof -
  have "is_int v \<and> \<not> is_boxed_i128 v \<and> as_i64 v tb2 = i"
  proof (cases "MIN_SMALL_INT \<le> sint i \<and> sint i \<le> MAX_SMALL_INT")
    case True
    with assms(2) i64_inline [of i] show ?thesis
      by (auto simp: is_int_def kind_bits int_not_pointer)
  next
    case False
    let ?k = "of_nat (length (boxed_ints tb)) :: val64"
    note k = index_fits [OF assms(1), simplified]
    from False assms(2) k(2) have v: "v = boxed TAG_POINTER (BOXED_INT_MARKER OR ?k)"
      and tb1: "tb1 = tb\<lparr>boxed_ints := boxed_ints tb @ [i]\<rparr>"
      by (auto simp: from_i64_def from_i64_boxed_def index_masks boxed_def Let_def)
    have "table_get (boxed_ints tb2) ?k = Some i"
      using assms(1,3) tb1 by (intro table_get_new) (auto simp: tables_extend_def)
    then show ?thesis
      using boxed_int_word [OF k(1)] by (simp add: v is_int_def as_i64_def boxed_ints_disjoint)
  qed
  then show "is_int v" "\<not> is_boxed_i128 v" "as_i64 v tb2 = i"
    by simp_all
qed

lemma i128_round_trip:
  assumes "length (boxed_i128s tb) < 2 ^ 44" "from_i128_raw_signed raw s tb = (v, tb1)" "tables_extend tb1 tb2"
  shows "is_boxed_i128 v" "as_i128_raw v tb2 = raw" "boxed_i128_is_signed v tb2 = s"
proof -
  let ?k = "of_nat (length (boxed_i128s tb)) :: val64"
  note k = index_fits [OF assms(1), simplified]
  from assms(2) k(2) have v: "v = boxed TAG_POINTER (BOXED_INT_MARKER OR BOXED_I128_WIDTH_BIT OR ?k)"
    and tb1: "tb1 = tb\<lparr>boxed_i128s := boxed_i128s tb @ [(raw, s)]\<rparr>"
    by (auto simp: from_i128_raw_signed_def index_masks boxed_def Let_def)
  have "table_get (boxed_i128s tb2) ?k = Some (raw, s)"
    using assms(1,3) tb1 by (intro table_get_new) (auto simp: tables_extend_def)
  then show "is_boxed_i128 v" "as_i128_raw v tb2 = raw" "boxed_i128_is_signed v tb2 = s"
    using boxed_i128_word [OF k(1)]
    by (simp_all add: v as_i128_raw_def as_i128_of_boxed_def boxed_i128_is_signed_def)
qed

lemma thin_ref_round_trip:
  assumes "length (thin_refs tb) < 2 ^ 44" "from_thin_ref r tb = (v, tb1)" "tables_extend tb1 tb2"
  shows "is_thin_ref v" "try_as_thin_ref v tb2 = Some r"
proof -
  let ?k = "of_nat (length (thin_refs tb)) :: val64"
  note k = index_fits [OF assms(1), simplified]
  from assms(2) k(2) have v: "v = boxed TAG_POINTER (THIN_REF_MARKER OR ?k)"
    and tb1: "tb1 = tb\<lparr>thin_refs := thin_refs tb @ [r]\<rparr>"
    by (auto simp: from_thin_ref_def index_masks boxed_def Let_def)
  have "table_get (thin_refs tb2) ?k = Some r"
    using assms(1,3) tb1 by (intro table_get_new) (auto simp: tables_extend_def)
  then show "is_thin_ref v" "try_as_thin_ref v tb2 = Some r"
    using thin_ref_word [OF k(1)] by (simp_all add: v try_as_thin_ref_def)
qed

lemma fat_ref_round_trip:
  assumes "length (fat_refs tb) < 2 ^ 45" "from_fat_ref r tb = (v, tb1)" "tables_extend tb1 tb2"
  shows "try_as_fat_ref v tb2 = Some (Some r)"
proof -
  let ?k = "of_nat (length (fat_refs tb)) :: val64"
  note k = index_fits [OF assms(1), simplified]
  from assms(2) k(2) have v: "v = boxed TAG_POINTER (FAT_REF_MARKER OR ?k)"
    and tb1: "tb1 = tb\<lparr>fat_refs := fat_refs tb @ [r]\<rparr>"
    by (auto simp: from_fat_ref_def index_masks boxed_def Let_def)
  have "table_get (fat_refs tb2) ?k = Some r"
    using assms(1,3) tb1 by (intro table_get_new) (auto simp: tables_extend_def)
  then show ?thesis
    using fat_ref_word [OF k(1)] by (simp add: v try_as_fat_ref_def as_fat_ref_def)
qed

lemma small_payload_bit:
  "bit (small_payload i bs acc) n \<longleftrightarrow>
     bit acc n \<or> (i * 8 \<le> n \<and> n < 64 \<and> n div 8 - i < length bs \<and> bit (bs ! (n div 8 - i)) (n mod 8))"
proof (induction i bs acc rule: small_payload.induct)
  case (2 i b bs payload)
  have head: "bit (push_bit (i * 8) (ucast b) :: val64) n \<longleftrightarrow> n div 8 = i \<and> n < 64 \<and> bit b (n mod 8)"
  proof (cases "n div 8 = i")
    case True
    then have "i * 8 + n mod 8 = n" by (metis mult.commute mult_div_mod_eq)
    then have "i * 8 \<le> n" "n - i * 8 = n mod 8" by linarith+
    with True show ?thesis
      by (auto simp: bit_push_bit_iff bit_ucast_iff)
  next
    case False
    have "\<not> (i * 8 \<le> n \<and> n - i * 8 < 8)"
      using False by linarith
    then show ?thesis
      using False by (auto simp: bit_push_bit_iff bit_ucast_iff dest: bit_imp_le_length)
  qed
  have "(i * 8 \<le> n \<longleftrightarrow> i \<le> n div 8)" "((i + 1) * 8 \<le> n \<longleftrightarrow> i + 1 \<le> n div 8)"
    by (simp_all add: less_eq_div_iff_mult_less_eq)
  moreover have "n div 8 = i \<or> n div 8 < i \<or> i + 1 \<le> n div 8"
    by linarith
  moreover have "(b # bs) ! (n div 8 - i) = bs ! (n div 8 - (i + 1))" if "i + 1 \<le> n div 8"
    using that by (simp add: nth_Cons')
  ultimately show ?case
    unfolding small_payload.simps 2 bit_or_iff head by (elim disjE) auto
qed simp

lemma small_string_payload_fits: "length bs \<le> 6 \<Longrightarrow> take_bit 48 (small_payload 0 bs 0) = small_payload 0 bs 0"
  by (rule payload_fits) (simp add: small_payload_bit, linarith)

lemma small_string_bytes:
  assumes "length bs \<le> 6"
  shows "map (\<lambda>i. ucast (drop_bit (i * 8) (small_payload 0 bs 0) AND 0xFF)) [0..<6] = bs @ replicate (6 - length bs) 0"
proof (rule nth_equalityI)
  fix i assume "i < length (map (\<lambda>i. ucast (drop_bit (i * 8) (small_payload 0 bs 0) AND 0xFF) :: 8 word) [0..<6])"
  then have i: "i < 6" by simp
  have m: "(0xFF :: val64) = mask 8" by (simp add: mask_eq_exp_minus_1)
  have "ucast (drop_bit (i * 8) (small_payload 0 bs 0) AND 0xFF) = (if i < length bs then bs ! i else 0)"
    unfolding m
  proof (rule bit_word_eqI)
    fix n assume "n < LENGTH(8)"
    then have n: "n < 8" by simp
    then have "(i * 8 + n) div 8 = i" "(i * 8 + n) mod 8 = n" by simp_all
    with i n show "bit (ucast (drop_bit (i * 8) (small_payload 0 bs 0) AND mask 8) :: 8 word) n =
      bit (if i < length bs then bs ! i else 0) n"
      by (auto simp: bit_ucast_iff bit_drop_bit_eq bit_and_iff bit_mask_iff small_payload_bit)
  qed
  then show "map (\<lambda>i. ucast (drop_bit (i * 8) (small_payload 0 bs 0) AND 0xFF)) [0..<6] ! i =
    (bs @ replicate (6 - length bs) 0) ! i"
    using i by (simp add: nth_append)
qed (use assms in simp)

lemma fold_nonzero:
  assumes "m \<le> length bs" "0 \<notin> set bs"
  shows "fold (\<lambda>i len. if (bs @ zs) ! i \<noteq> (0 :: 8 word) then i + 1 else len) [0..<m] 0 = m"
  using assms by (induction m) (auto simp: nth_append in_set_conv_nth)

lemma fold_zero: "(\<And>i. i \<in> set is \<Longrightarrow> xs ! i = 0) \<Longrightarrow> fold (\<lambda>i len. if xs ! i \<noteq> (0 :: 8 word) then i + 1 else len) is l = l"
  by (induction "is") auto

lemma small_string_round_trip:
  assumes "from_small_string bs = Some v"
  shows "is_small_string v" "as_small_string v = bs"
proof -
  from assms have len: "length bs \<le> 6" and nz: "0 \<notin> set bs" and v: "v = boxed TAG_SMALL_STRING (small_payload 0 bs 0)"
    by (auto simp: from_small_string_def boxed_def split: if_splits)
  note w = inline_word [OF tag_fits(5), of "small_payload 0 bs 0", unfolded small_string_payload_fits [OF len]]
  show "is_small_string v"
    by (simp add: kind_bits v w)
  have "[0..<6] = [0..<length bs] @ [length bs..<6]"
    using upt_add_eq_append [of 0 "length bs" "6 - length bs"] len by simp
  moreover have "fold (\<lambda>i len. if (bs @ replicate (6 - length bs) 0) ! i \<noteq> 0 then i + 1 else len)
      [length bs..<6] (length bs) = length bs"
    by (rule fold_zero) (auto simp: nth_append)
  ultimately have "fold (\<lambda>i len. if (bs @ replicate (6 - length bs) 0) ! i \<noteq> 0 then i + 1 else len) [0..<6] 0 = length bs"
    using fold_nonzero [OF order.refl nz, of "replicate (6 - length bs) 0"] by simp
  then show "as_small_string v = bs"
    unfolding as_small_string_def payload_mask_bits v w(3) Let_def small_string_bytes [OF len]
    by (simp only: take_append take_all order.refl diff_self_eq_0 take_0 append_Nil2)
qed

lemma ucast_payload: "take_bit 48 (ucast (x :: u32) :: val64) = ucast x"
  by (rule payload_fits) (auto simp: bit_ucast_iff dest: bit_imp_le_length)

lemma id_round_trip:
  "is_type_ref (from_type t)" "as_type_id (from_type t) = t"
  "is_func_ref (from_function f)" "as_func_id (from_function f) = f"
proof -
  note w = inline_word [OF tag_fits(6), of "ucast t", unfolded ucast_payload]
    and u = inline_word [OF tag_fits(7), of "ucast f", unfolded ucast_payload]
  have t: "from_type t = boxed TAG_TYPE_REF (ucast t)" and f: "from_function f = boxed TAG_FUNC_REF (ucast f)"
    by (simp_all add: from_type_def from_function_def boxed_def)
  show "is_type_ref (from_type t)" "is_func_ref (from_function f)"
    by (simp_all add: kind_bits t f w u)
  show "as_type_id (from_type t) = t" "as_func_id (from_function f) = f"
    by (simp_all add: as_type_id_def as_func_id_def payload_mask_bits t f w u ucast_up_ucast_id is_up)
qed

lemma bool_round_trip: "try_as_bool (from_bool b) = Some b"
proof -
  have "take_bit 48 (of_bool b :: val64) = of_bool b"
    by (cases b) simp_all
  note w = inline_word [OF tag_fits(3), of "of_bool b", unfolded this]
  have f: "from_bool b = boxed TAG_BOOLEAN (of_bool b)"
    by (simp add: from_bool_def boxed_def)
  have "bit (from_bool b) 0 = b"
    unfolding f by (simp add: boxed_bit)
  then have "as_bool (from_bool b) = b"
    by (simp add: as_bool_def and_one_eq bit_0 even_iff_mod_2_eq_zero)
  then show ?thesis
    by (simp add: try_as_bool_def kind_bits f w)
qed

lemma generator_round_trip: "try_as_generator_id (from_generator g) = Some (take_bit 45 g)"
proof -
  have f: "from_generator g = boxed TAG_POINTER (GENERATOR_MARKER OR take_bit 45 g)"
    by (simp add: from_generator_def boxed_def index_masks take_bit_eq_mask)
  have "take_bit 45 (take_bit 45 g) = take_bit 45 g"
    by simp
  from generator_word [OF this] show ?thesis
    by (simp add: try_as_generator_id_def as_generator_id_def f)
qed

lemma slot_round_trip: "projected_slot k = Some v \<Longrightarrow> projection_id v = Some k"
proof -
  assume k: "projected_slot k = Some v"
  then have "take_bit 44 k = k"
    by (auto simp: projected_slot_def index_masks mask_eq_exp_minus_1 word_le_nat_alt word_eq_iff_unsigned [where ?'a = nat]
      unsigned_take_bit_eq take_bit_nat_eq_self split: if_splits)
  from slot_word [OF this] k show ?thesis
    by (auto simp: projected_slot_def projection_id_def boxed_def split: if_splits)
qed

lemma regref_round_trip:
  assumes "a < 2 ^ 24"
  shows "is_cbgr_regref (cbgr_regref a g m)" "cbgr_regref_abs (cbgr_regref a g m) = a"
    "cbgr_regref_generation (cbgr_regref a g m) = take_bit 22 g" "cbgr_regref_is_mut (cbgr_regref a g m) = m"
proof -
  let ?p = "CBGR_REGREF_MARKER OR (if m then CBGR_REGREF_MUT_BIT else 0) OR push_bit 24 (take_bit 22 (ucast g)) OR take_bit 24 (ucast a)"
  have f: "cbgr_regref a g m = boxed TAG_UNIT ?p"
    unfolding cbgr_regref_def boxed_def index_masks take_bit_eq_mask Let_def ..
  have b: "bit ?p n \<longleftrightarrow> n = 47 \<or> m \<and> n = 46 \<or> 24 \<le> n \<and> n < 46 \<and> bit g (n - 24) \<or> n < 24 \<and> bit a n" for n
    by (auto simp: bit_or_iff marker_bit bit_push_bit_iff bit_take_bit_iff bit_ucast_iff)
  have p: "take_bit 48 ?p = ?p"
    by (rule payload_fits) (auto simp: b)
  note w = boxed_quiet [OF tag_fits(4) p]
  have bits: "bit (cbgr_regref a g m) n = bit ?p n" if "n < 48" for n
    unfolding f using that by (rule boxed_bit)
  show "is_cbgr_regref (cbgr_regref a g m)"
    by (simp add: kind_bits bits b) (simp add: f w)
  show "cbgr_regref_is_mut (cbgr_regref a g m) = m"
    unfolding cbgr_regref_is_mut_def marker_bits by (simp add: bits b)
  have "take_bit 24 a = a"
    using assms by (simp add: word_eq_iff_unsigned [where ?'a = nat] word_less_nat_alt unsigned_take_bit_eq take_bit_nat_eq_self)
  then have "bit a n \<Longrightarrow> n < 24" for n
    by (metis fits_no_bit not_le)
  then show "cbgr_regref_abs (cbgr_regref a g m) = a"
    unfolding cbgr_regref_abs_def index_masks
    by (intro bit_word_eqI) (auto simp: bit_ucast_iff bit_and_iff bit_mask_iff bits b)
  show "cbgr_regref_generation (cbgr_regref a g m) = take_bit 22 g"
    unfolding cbgr_regref_generation_def index_masks
    by (intro bit_word_eqI) (auto simp: bit_ucast_iff bit_and_iff bit_mask_iff bit_drop_bit_eq bit_take_bit_iff bits b)
qed

lemma float_round_trip:
  assumes "\<not> (x AND 0x7FF0000000000000 = 0x7FF0000000000000 \<and> x AND 0x000FFFFFFFFFFFFF \<noteq> 0)"
  shows "is_float (from_f64 x)" "try_as_f64 (from_f64 x) = Some x"
proof -
  have "\<not> quiet x"
  proof
    assume q: "quiet x"
    have "bit (drop_bit 51 x) n" if "n < 12" for n
      using q that unfolding quiet_def by (simp add: bit_mask_iff)
    then have hi: "bit x (51 + n)" if "n < 12" for n
      using that by (simp add: bit_drop_bit_eq)
    have "bit x n" if "52 \<le> n" "n < 63" for n
      using hi [of "n - 51"] that by simp
    then have "x AND push_bit 52 (mask 11) = push_bit 52 (mask 11)"
      by (intro bit_word_eqI) (auto simp: bit_and_iff bit_push_bit_iff bit_mask_iff)
    moreover have "bit (x AND mask 52) 51"
      using hi [of 0] by (simp add: bit_and_iff bit_mask_iff)
    then have "x AND mask 52 \<noteq> 0"
      by auto
    moreover have "(0x7FF0000000000000 :: val64) = push_bit 52 (mask 11)" "(0x000FFFFFFFFFFFFF :: val64) = mask 52"
      by (simp_all add: mask_eq_exp_minus_1)
    ultimately show False
      using assms by metis
  qed
  moreover have "from_f64 x = x"
    unfolding from_f64_def if_not_P [OF assms] ..
  ultimately show "is_float (from_f64 x)" "try_as_f64 (from_f64 x) = Some x"
    by (simp_all add: kind_bits try_as_f64_def tag_eqs)
qed

subsection \<open>The tables as stores\<close>

text \<open>
  What the four tables promise their users: with room for one more entry, a stored value is read back
  from every later state of the tables, and storing takes one place.
\<close>

fun put_all :: "('x \<Rightarrow> value_tables \<Rightarrow> val64 \<times> value_tables) \<Rightarrow> 'x list \<Rightarrow> value_tables \<Rightarrow> val64 list \<times> value_tables" where
  "put_all put [] tb = ([], tb)"
| "put_all put (x # xs) tb =
     (let (v, tb1) = put x tb; (vs, tb2) = put_all put xs tb1 in (v # vs, tb2))"

locale table_store =
  fixes put :: "'x \<Rightarrow> value_tables \<Rightarrow> val64 \<times> value_tables"
    and get :: "val64 \<Rightarrow> value_tables \<Rightarrow> 'x option"
    and used :: "value_tables \<Rightarrow> nat"
    and capacity :: nat
  assumes put_extends: "put x tb = (v, tb1) \<Longrightarrow> tables_extend tb tb1"
    and put_uses: "put x tb = (v, tb1) \<Longrightarrow> used tb1 \<le> used tb + 1"
    and put_get: "used tb < capacity \<Longrightarrow> put x tb = (v, tb1) \<Longrightarrow> tables_extend tb1 tb2 \<Longrightarrow> get v tb2 = Some x"
begin

lemma put_all_extends: "put_all put xs tb = (vs, tb1) \<Longrightarrow> tables_extend tb tb1"
  by (induction xs arbitrary: tb vs) (auto split: prod.splits intro: tables_extend_trans put_extends)

lemma put_all_get:
  "used tb + length xs \<le> capacity \<Longrightarrow> put_all put xs tb = (vs, tb1) \<Longrightarrow> tables_extend tb1 tb2 \<Longrightarrow>
     map (\<lambda>v. get v tb2) vs = map Some xs"
proof (induction xs arbitrary: tb vs)
  case (Cons x xs)
  obtain v tb' ws where s: "put x tb = (v, tb')" "put_all put xs tb' = (ws, tb1)" "vs = v # ws"
    using Cons.prems(2) by (auto split: prod.splits)
  have "tables_extend tb' tb2"
    using put_all_extends [OF s(2)] Cons.prems(3) by (rule tables_extend_trans)
  then have "get v tb2 = Some x"
    using Cons.prems(1) s(1) by (intro put_get) simp_all
  moreover have "map (\<lambda>v. get v tb2) ws = map Some xs"
    using Cons.prems put_uses [OF s(1)] s(2) by (intro Cons.IH) simp_all
  ultimately show ?case
    by (simp add: s(3))
qed simp

end

definition try_as_i128 :: "val64 \<Rightarrow> value_tables \<Rightarrow> (128 word \<times> bool) option" where
  "try_as_i128 v tb = (if is_boxed_i128 v then Some (as_i128_raw v tb, boxed_i128_is_signed v tb) else None)"

lemmas constructor_defs = from_i64_def from_i64_boxed_def from_i128_raw_signed_def from_thin_ref_def from_fat_ref_def

interpretation ints: table_store from_i64 try_as_i64 "\<lambda>tb. length (boxed_ints tb)" "2 ^ 44"
proof unfold_locales
  show "from_i64 x tb = (v, tb1) \<Longrightarrow> tables_extend tb tb1" for x tb v tb1
    using constructors_extend(1) [of tb x] by simp
  show "from_i64 x tb = (v, tb1) \<Longrightarrow> length (boxed_ints tb1) \<le> length (boxed_ints tb) + 1" for x tb v tb1
    by (auto simp: constructor_defs Let_def split: if_splits)
  show "length (boxed_ints tb) < 2 ^ 44 \<Longrightarrow> from_i64 x tb = (v, tb1) \<Longrightarrow> tables_extend tb1 tb2 \<Longrightarrow>
    try_as_i64 v tb2 = Some x" for tb x v tb1 tb2
    using i64_round_trip by (simp add: try_as_i64_def)
qed

interpretation wide_ints: table_store "\<lambda>(raw, s). from_i128_raw_signed raw s" try_as_i128
  "\<lambda>tb. length (boxed_i128s tb)" "2 ^ 44"
proof unfold_locales
  show "(\<lambda>(raw, s). from_i128_raw_signed raw s) x tb = (v, tb1) \<Longrightarrow> tables_extend tb tb1" for x tb v tb1
    using constructors_extend(2) [of tb "fst x" "snd x"] by (simp add: case_prod_beta)
  show "(\<lambda>(raw, s). from_i128_raw_signed raw s) x tb = (v, tb1) \<Longrightarrow>
    length (boxed_i128s tb1) \<le> length (boxed_i128s tb) + 1" for x tb v tb1
    by (auto simp: constructor_defs Let_def case_prod_beta split: if_splits)
  show "length (boxed_i128s tb) < 2 ^ 44 \<Longrightarrow> (\<lambda>(raw, s). from_i128_raw_signed raw s) x tb = (v, tb1) \<Longrightarrow>
    tables_extend tb1 tb2 \<Longrightarrow> try_as_i128 v tb2 = Some x" for tb x v tb1 tb2
    using i128_round_trip [of tb "fst x" "snd x"] by (simp add: try_as_i128_def case_prod_beta)
qed

interpretation thins: table_store from_thin_ref try_as_thin_ref "\<lambda>tb. length (thin_refs tb)" "2 ^ 44"
proof unfold_locales
  show "from_thin_ref x tb = (v, tb1) \<Longrightarrow> tables_extend tb tb1" for x tb v tb1
    using constructors_extend(3) [of tb x] by simp
  show "from_thin_ref x tb = (v, tb1) \<Longrightarrow> length (thin_refs tb1) \<le> length (thin_refs tb) + 1" for x tb v tb1
    by (auto simp: constructor_defs Let_def split: if_splits)
  show "length (thin_refs tb) < 2 ^ 44 \<Longrightarrow> from_thin_ref x tb = (v, tb1) \<Longrightarrow> tables_extend tb1 tb2 \<Longrightarrow>
    try_as_thin_ref v tb2 = Some x" for tb x v tb1 tb2
    by (rule thin_ref_round_trip)
qed

interpretation fats: table_store from_fat_ref "\<lambda>v tb. Option.bind (try_as_fat_ref v tb) id" "\<lambda>tb. length (fat_refs tb)" "2 ^ 45"
proof unfold_locales
  show "from_fat_ref x tb = (v, tb1) \<Longrightarrow> tables_extend tb tb1" for x tb v tb1
    using constructors_extend(4) [of tb x] by simp
  show "from_fat_ref x tb = (v, tb1) \<Longrightarrow> length (fat_refs tb1) \<le> length (fat_refs tb) + 1" for x tb v tb1
    by (auto simp: constructor_defs Let_def split: if_splits)
  show "length (fat_refs tb) < 2 ^ 45 \<Longrightarrow> from_fat_ref x tb = (v, tb1) \<Longrightarrow> tables_extend tb1 tb2 \<Longrightarrow>
    Option.bind (try_as_fat_ref v tb2) id = Some x" for tb x v tb1 tb2
    using fat_ref_round_trip by simp
qed

subsection \<open>Properties\<close>

lemma pointer_kinds:
  "is_ptr v \<longleftrightarrow> is_generator v \<or> (is_thin_ref v \<and> \<not> is_projected_slot v) \<or> is_fat_ref v \<or> is_regular_ptr v \<or> is_nil v"
  unfolding pointer_bits kind_bits using payload_zero_bits [of v 47] by (cases "take_bit 48 v = 0") auto

text \<open>C16: every one of the 2^64 words is of exactly one kind, so that no test of a handler can confuse an
  integer with a reference or a boolean with a string. A pointer is one of five kinds, and none of
  them is an integer.\<close>

theorem value_kinds_partition:
  "length (filter (\<lambda>P. P v) value_kinds) = 1 \<and>
   (is_ptr v \<longleftrightarrow> is_generator v \<or> (is_thin_ref v \<and> \<not> is_projected_slot v) \<or> is_fat_ref v \<or> is_regular_ptr v \<or> is_nil v) \<and>
   (is_int v \<longleftrightarrow> is_inline_int v \<or> is_boxed_int v \<or> is_boxed_i128 v) \<and> \<not> (is_int v \<and> is_ptr v)"
proof -
  have "\<not> (is_int v \<and> is_ptr v)"
    unfolding is_int_def pointer_bits kind_bits using int_not_pointer by auto
  then show ?thesis
    using one_kind pointer_kinds by (simp add: is_int_def)
qed

text \<open>However many integers or references are stored one after another, as long as the table has room for
  them, at the end every one of them is read back from its word.\<close>

theorem stored_values_persist:
  "(length (boxed_ints tb) + length xs \<le> 2 ^ 44 \<longrightarrow>
      (let (vs, tb1) = put_all from_i64 xs tb in map (\<lambda>v. try_as_i64 v tb1) vs = map Some xs)) \<and>
   (length (boxed_i128s tb) + length ws \<le> 2 ^ 44 \<longrightarrow>
      (let (vs, tb1) = put_all (\<lambda>(raw, s). from_i128_raw_signed raw s) ws tb in
       map (\<lambda>v. (as_i128_raw v tb1, boxed_i128_is_signed v tb1)) vs = ws)) \<and>
   (length (thin_refs tb) + length rs \<le> 2 ^ 44 \<longrightarrow>
      (let (vs, tb1) = put_all from_thin_ref rs tb in map (\<lambda>v. try_as_thin_ref v tb1) vs = map Some rs)) \<and>
   (length (fat_refs tb) + length fs \<le> 2 ^ 45 \<longrightarrow>
      (let (vs, tb1) = put_all from_fat_ref fs tb in
       map (\<lambda>v. Option.bind (try_as_fat_ref v tb1) id) vs = map Some fs))"
proof (intro conjI impI)
  show "length (boxed_ints tb) + length xs \<le> 2 ^ 44 \<Longrightarrow>
      (let (vs, tb1) = put_all from_i64 xs tb in map (\<lambda>v. try_as_i64 v tb1) vs = map Some xs)"
    using ints.put_all_get [OF _ _ tables_extend_refl, of tb xs] by (simp split: prod.split)
  have wide: "map (\<lambda>v. (as_i128_raw v tb1, boxed_i128_is_signed v tb1)) vs = ws"
    if "map (\<lambda>v. try_as_i128 v tb1) vs = map Some ws" for vs tb1 ws
    using that by (induction vs arbitrary: ws) (auto simp: try_as_i128_def split: if_splits)
  show "length (boxed_i128s tb) + length ws \<le> 2 ^ 44 \<Longrightarrow>
      (let (vs, tb1) = put_all (\<lambda>(raw, s). from_i128_raw_signed raw s) ws tb in
       map (\<lambda>v. (as_i128_raw v tb1, boxed_i128_is_signed v tb1)) vs = ws)"
    using wide_ints.put_all_get [OF _ _ tables_extend_refl, of tb ws] wide by (auto split: prod.split)
  show "length (thin_refs tb) + length rs \<le> 2 ^ 44 \<Longrightarrow>
      (let (vs, tb1) = put_all from_thin_ref rs tb in map (\<lambda>v. try_as_thin_ref v tb1) vs = map Some rs)"
    using thins.put_all_get [OF _ _ tables_extend_refl, of tb rs] by (simp split: prod.split)
  show "length (fat_refs tb) + length fs \<le> 2 ^ 45 \<Longrightarrow>
      (let (vs, tb1) = put_all from_fat_ref fs tb in
       map (\<lambda>v. Option.bind (try_as_fat_ref v tb1) id) vs = map Some fs)"
    using fats.put_all_get [OF _ _ tables_extend_refl, of tb fs] by (simp split: prod.split)
qed

definition no_tables :: value_tables where
  "no_tables = \<lparr>boxed_ints = [], boxed_i128s = [], thin_refs = [], fat_refs = []\<rparr>"

theorem stored_values_persist_witness:
  "length (boxed_ints no_tables) + length [2 ^ 60, 5, - 1 :: 64 word] \<le> 2 ^ 44 \<and>
   (let (vs, tb1) = put_all from_i64 [2 ^ 60, 5, - 1] no_tables in map (\<lambda>v. try_as_i64 v tb1) vs = [Some (2 ^ 60), Some 5, Some (- 1)])"
proof -
  have room: "length (boxed_ints no_tables) + length [2 ^ 60, 5, - 1 :: 64 word] \<le> 2 ^ 44"
    by (simp add: no_tables_def)
  show ?thesis
    using stored_values_persist [THEN conjunct1, rule_format, OF room] room
    by (simp only: list.map simp_thms)
qed

lemma sign_extended: "length (boxed_ints tb) < 2 ^ 44 \<Longrightarrow> from_i64 i tb = (v, tb1) \<Longrightarrow> tables_extend tb1 tb2 \<Longrightarrow>
  as_i128_raw v tb2 = scast i"
  using i64_round_trip [of tb i v tb1 tb2] by (simp add: as_i128_raw_def)

text \<open>C17: reading a value gives back what it was made from, whatever was put into the tables since: every
  64-bit and 128-bit integer, reference, boolean, generator, identifier, register reference and
  string of at most six bytes without NUL, and every floating-point number but NaN bit by bit.\<close>

theorem value_round_trips:
  assumes "length (boxed_ints tb) < 2 ^ 44" "length (boxed_i128s tb) < 2 ^ 44"
    "length (thin_refs tb) < 2 ^ 44" "length (fat_refs tb) < 2 ^ 45"
  shows
    "(\<forall>i v tb1 tb2. from_i64 i tb = (v, tb1) \<longrightarrow> tables_extend tb1 tb2 \<longrightarrow>
        try_as_i64 v tb2 = Some i \<and> as_i128_raw v tb2 = scast i) \<and>
     (\<forall>raw s v tb1 tb2. from_i128_raw_signed raw s tb = (v, tb1) \<longrightarrow> tables_extend tb1 tb2 \<longrightarrow>
        as_i128_raw v tb2 = raw \<and> boxed_i128_is_signed v tb2 = s) \<and>
     (\<forall>r v tb1 tb2. from_thin_ref r tb = (v, tb1) \<longrightarrow> tables_extend tb1 tb2 \<longrightarrow> try_as_thin_ref v tb2 = Some r) \<and>
     (\<forall>r v tb1 tb2. from_fat_ref r tb = (v, tb1) \<longrightarrow> tables_extend tb1 tb2 \<longrightarrow> try_as_fat_ref v tb2 = Some (Some r)) \<and>
     (\<forall>b. try_as_bool (from_bool b) = Some b) \<and>
     (\<forall>bs v. from_small_string bs = Some v \<longrightarrow> is_small_string v \<and> as_small_string v = bs) \<and>
     (\<forall>t. is_type_ref (from_type t) \<and> as_type_id (from_type t) = t) \<and>
     (\<forall>f. is_func_ref (from_function f) \<and> as_func_id (from_function f) = f) \<and>
     (\<forall>g. try_as_generator_id (from_generator g) = Some (take_bit 45 g)) \<and>
     (\<forall>k v. projected_slot k = Some v \<longrightarrow> projection_id v = Some k) \<and>
     (\<forall>a g m. a < 2 ^ 24 \<longrightarrow>
        is_cbgr_regref (cbgr_regref a g m) \<and> cbgr_regref_abs (cbgr_regref a g m) = a \<and>
        cbgr_regref_generation (cbgr_regref a g m) = take_bit 22 g \<and> cbgr_regref_is_mut (cbgr_regref a g m) = m) \<and>
     (\<forall>x. \<not> (x AND 0x7FF0000000000000 = 0x7FF0000000000000 \<and> x AND 0x000FFFFFFFFFFFFF \<noteq> 0) \<longrightarrow>
        try_as_f64 (from_f64 x) = Some x)"
  using i64_round_trip [OF assms(1)] sign_extended [OF assms(1)] i128_round_trip [OF assms(2)]
    thin_ref_round_trip [OF assms(3)] fat_ref_round_trip [OF assms(4)] bool_round_trip small_string_round_trip
    id_round_trip generator_round_trip slot_round_trip regref_round_trip float_round_trip
  by (intro conjI allI impI) (simp_all add: try_as_i64_def)

theorem value_round_trips_witness:
  "try_as_i64 (fst (from_i64 (2 ^ 60) no_tables)) (snd (from_i64 (2 ^ 60) no_tables)) = Some (2 ^ 60) \<and>
   try_as_f64 (from_f64 0x3FF0000000000000) = Some 0x3FF0000000000000 \<and> cbgr_regref_abs (cbgr_regref 7 9 True) = 7"
proof -
  have s: "length (boxed_ints no_tables) < 2 ^ 44" "length (boxed_i128s no_tables) < 2 ^ 44"
    "length (thin_refs no_tables) < 2 ^ 44" "length (fat_refs no_tables) < 2 ^ 45"
    by (simp_all add: no_tables_def)
  note r = value_round_trips [OF s]
  have "try_as_i64 (fst (from_i64 (2 ^ 60) no_tables)) (snd (from_i64 (2 ^ 60) no_tables)) = Some (2 ^ 60)"
    using r [THEN conjunct1, rule_format, OF prod.collapse [symmetric] tables_extend_refl, of "2 ^ 60"] by (rule conjunct1)
  moreover have "cbgr_regref_abs (cbgr_regref 7 9 True) = 7"
    using r [THEN conjunct2, THEN conjunct2, THEN conjunct2, THEN conjunct2, THEN conjunct2, THEN conjunct2, THEN conjunct2, THEN conjunct2, THEN conjunct2, THEN conjunct2, THEN conjunct1, rule_format, of 7 9 True] by simp
  moreover have "try_as_f64 (from_f64 0x3FF0000000000000) = Some 0x3FF0000000000000"
    by (rule r [THEN conjunct2, THEN conjunct2, THEN conjunct2, THEN conjunct2, THEN conjunct2, THEN conjunct2, THEN conjunct2, THEN conjunct2, THEN conjunct2, THEN conjunct2, THEN conjunct2, rule_format]) simp
  ultimately show ?thesis
    by blast
qed

lemma thin_fields: "thin_epoch \<lparr>tr_ptr = p, tr_generation = g, tr_epoch_caps = push_bit 16 (ucast e) OR ucast c\<rparr> = e"
  "thin_capabilities \<lparr>tr_ptr = p, tr_generation = g, tr_epoch_caps = push_bit 16 (ucast e) OR ucast c\<rparr> = c"
proof -
  have m: "(0xFFFF :: u32) = mask 16"
    by (simp add: mask_eq_exp_minus_1)
  show "thin_epoch \<lparr>tr_ptr = p, tr_generation = g, tr_epoch_caps = push_bit 16 (ucast e) OR ucast c\<rparr> = e"
    unfolding thin_epoch_def thin_ref.simps
    by (intro bit_word_eqI) (auto simp: bit_ucast_iff bit_drop_bit_eq bit_or_iff bit_push_bit_iff dest: bit_imp_le_length)
  show "thin_capabilities \<lparr>tr_ptr = p, tr_generation = g, tr_epoch_caps = push_bit 16 (ucast e) OR ucast c\<rparr> = c"
    unfolding thin_capabilities_def thin_ref.simps m
    by (intro bit_word_eqI) (auto simp: bit_ucast_iff bit_and_iff bit_mask_iff bit_or_iff bit_push_bit_iff)
qed

text \<open>Attenuating a reference removes exactly the given capabilities and changes neither address,
  generation, epoch nor, in a fat reference, the metadata; no sequence of attenuations gives a
  capability back.\<close>

theorem attenuation_only_removes:
  "thin_capabilities (fold (\<lambda>c r. thin_attenuate r c) cs r) = fold (\<lambda>c d. d AND NOT c) cs (thin_capabilities r) \<and>
   tr_ptr (fold (\<lambda>c r. thin_attenuate r c) cs r) = tr_ptr r \<and>
   tr_generation (fold (\<lambda>c r. thin_attenuate r c) cs r) = tr_generation r \<and>
   thin_epoch (fold (\<lambda>c r. thin_attenuate r c) cs r) = thin_epoch r \<and>
   fold (\<lambda>c f. fat_attenuate f c) cs f = f\<lparr>fr_thin := fold (\<lambda>c r. thin_attenuate r c) cs (fr_thin f)\<rparr>"
proof -
  have step: "thin_capabilities (thin_attenuate r c) = thin_capabilities r AND NOT c \<and> tr_ptr (thin_attenuate r c) = tr_ptr r \<and>
    tr_generation (thin_attenuate r c) = tr_generation r \<and> thin_epoch (thin_attenuate r c) = thin_epoch r" for r c
    by (simp add: thin_attenuate_def thin_fields caps_attenuate_def Let_def)
  have "fold (\<lambda>c f. fat_attenuate f c) cs f = f\<lparr>fr_thin := fold (\<lambda>c r. thin_attenuate r c) cs (fr_thin f)\<rparr>"
    by (induction cs arbitrary: f) (simp_all add: fat_attenuate_def)
  moreover have "thin_capabilities (fold (\<lambda>c r. thin_attenuate r c) cs r) = fold (\<lambda>c d. d AND NOT c) cs (thin_capabilities r) \<and>
   tr_ptr (fold (\<lambda>c r. thin_attenuate r c) cs r) = tr_ptr r \<and>
   tr_generation (fold (\<lambda>c r. thin_attenuate r c) cs r) = tr_generation r \<and>
   thin_epoch (fold (\<lambda>c r. thin_attenuate r c) cs r) = thin_epoch r"
    by (induction cs arbitrary: r) (simp_all add: step)
  ultimately show ?thesis
    by blast
qed

lemma nan_read_back:
  assumes "x AND 0x7FF0000000000000 = 0x7FF0000000000000" and "x AND 0x000FFFFFFFFFFFFF \<noteq> 0"
  shows "try_as_f64 (from_f64 x) = Some (0x7FF8000000000000 OR take_bit 48 x)"
proof -
  have f: "from_f64 x = boxed TAG_NAN (take_bit 48 x)"
    using assms by (simp add: from_f64_def boxed_def PAYLOAD_MASK_bits take_bit_eq_mask)
  have "take_bit 48 (from_f64 x) = take_bit 48 x" "quiet (from_f64 x)" "tag_bits (from_f64 x) = TAG_NAN"
    unfolding f by (rule inline_word, simp add: tag_fits)+
  then show ?thesis
    by (simp add: try_as_f64_def tag_eqs PAYLOAD_MASK_bits take_bit_eq_mask [symmetric] or.commute)
qed

lemma boxed_i128_truthy:
  assumes "length (boxed_i128s tb) < 2 ^ 44" "from_i128_raw_signed raw s tb = (v, tb1)" "tables_extend tb1 tb2"
  shows "is_truthy v tb2 \<longleftrightarrow> take_bit 64 raw \<noteq> 0"
proof -
  note r = i128_round_trip [OF assms]
  have "as_i64 v tb2 = ucast raw"
    using r by (simp add: as_i64_def as_i128_raw_def)
  moreover have "(ucast raw :: 64 word) = 0 \<longleftrightarrow> take_bit 64 raw = 0"
    by (auto simp: bit_eq_iff bit_simps dest: bit_imp_le_length)
  moreover have "is_int v" "\<not> is_bool v"
    using r(1) by (auto simp: is_int_def kind_bits tag_defs)
  ultimately show ?thesis
    by (simp add: is_truthy_def)
qed

text \<open>Three places where a value is not what it stands for, whatever is stored and whenever it is read.
  A 128-bit integer counts as true in a condition exactly when its low half is not zero, so every
  non-zero multiple of 2 to the 64 is false. Every NaN comes back positive and quiet with the low 48 bits
  it had, although the comment says that the original bits are kept. After a reset of the tables every
  fat reference from before panics when it is asked for, where a thin one is refused.\<close>

theorem value_anomalies:
  "(length (boxed_i128s tb) < 2 ^ 44 \<and> from_i128_raw_signed raw s tb = (v, tb1) \<and> tables_extend tb1 tb2 \<longrightarrow>
      as_i128_raw v tb2 = raw \<and> (is_truthy v tb2 \<longleftrightarrow> take_bit 64 raw \<noteq> 0)) \<and>
   (x AND 0x7FF0000000000000 = 0x7FF0000000000000 \<and> x AND 0x000FFFFFFFFFFFFF \<noteq> 0 \<longrightarrow>
      try_as_f64 (from_f64 x) = Some (0x7FF8000000000000 OR take_bit 48 x)) \<and>
   (is_fat_ref f \<longrightarrow> try_as_fat_ref f (reset_global_value_tables tb) = None) \<and>
   try_as_thin_ref t (reset_global_value_tables tb) = None"
proof (intro conjI impI)
  assume "length (boxed_i128s tb) < 2 ^ 44 \<and> from_i128_raw_signed raw s tb = (v, tb1) \<and> tables_extend tb1 tb2"
  then show "as_i128_raw v tb2 = raw" "is_truthy v tb2 \<longleftrightarrow> take_bit 64 raw \<noteq> 0"
    using i128_round_trip(2) [of tb raw s v tb1 tb2] boxed_i128_truthy [of tb raw s v tb1 tb2] by blast+
qed (use nan_read_back in \<open>auto simp: try_as_fat_ref_def as_fat_ref_def try_as_thin_ref_def
    reset_global_value_tables_def table_get_def\<close>)

theorem value_anomalies_witness:
  "(case from_u128 (2 ^ 64) no_tables of (v, tb1) \<Rightarrow> as_i128_raw v tb1 = 2 ^ 64 \<and> \<not> is_truthy v tb1) \<and>
   try_as_f64 (from_f64 0xFFF0000000000001) = Some 0x7FF8000000000001"
proof -
  have "length (boxed_i128s no_tables) < 2 ^ 44"
    by (simp add: no_tables_def)
  moreover have "take_bit 64 (2 ^ 64 :: 128 word) = 0"
    by simp
  ultimately show ?thesis
    using value_anomalies [where tb = no_tables and raw = "2 ^ 64" and s = False and v = "fst (from_u128 (2 ^ 64) no_tables)"
        and ?tb1.0 = "snd (from_u128 (2 ^ 64) no_tables)" and ?tb2.0 = "snd (from_u128 (2 ^ 64) no_tables)"
        and x = "0xFFF0000000000001"]
      tables_extend_refl
    by (simp add: from_u128_def split_beta)
qed

end
