(* ===== verification/Registers.thy ===== *)
theory Registers
  imports RuntimeValue Bytecode
begin

section \<open>The register file and references to registers\<close>

text \<open>
  \<open>crates/verum_vbc/src/interpreter/registers.rs\<close>: one growing array of registers shared by all call
  frames, with a generation and an epoch for every slot; and from
  \<open>dispatch_table/handlers/cbgr_helpers.rs\<close> the references to registers, values that carry the index
  of a slot and the low 22 bits of its generation, and their validation.

  The build is a release build: sums of 32-bit indices wrap and debug assertions are absent, so an
  access by absolute index is checked against the length of the array only, and panics beyond it. The
  three arrays grow together (\<open>rf_inv\<close>), so the slices taken while a frame is pushed are in range.
  Values are the words of \<open>RuntimeValue\<close>.
\<close>

unbundle bit_operations_syntax

definition INITIAL_CAPACITY :: nat where "INITIAL_CAPACITY = 1024"
definition MAX_SIZE :: nat where "MAX_SIZE = 16 * 1024 * 1024"
definition SLOT_GEN_MAX :: u32 where "SLOT_GEN_MAX = 0xFFFFFFFE"
definition SLOT_GEN_INITIAL :: u32 where "SLOT_GEN_INITIAL = 1"
definition GEN_NO_CHECK :: u32 where "GEN_NO_CHECK = 0x7FFE"

record register_file =
  rf_registers :: "val64 list"
  rf_generations :: "u32 list"
  rf_epochs :: "16 word list"
  rf_top :: nat
  rf_global_epoch :: u64

datatype reg_panic = RegisterOverflow nat nat | IndexPanic nat

definition with_capacity :: "nat \<Rightarrow> register_file" where
  "with_capacity capacity =
     \<lparr>rf_registers = replicate capacity value_unit, rf_generations = replicate capacity SLOT_GEN_INITIAL,
      rf_epochs = replicate capacity 0, rf_top = 0, rf_global_epoch = 0\<rparr>"

definition registers_new :: register_file where
  "registers_new = with_capacity INITIAL_CAPACITY"

definition resize :: "nat \<Rightarrow> 'a \<Rightarrow> 'a list \<Rightarrow> 'a list" where
  "resize n x xs = take n xs @ replicate (n - length xs) x"

definition update_range :: "('a \<Rightarrow> 'a) \<Rightarrow> nat \<Rightarrow> nat \<Rightarrow> 'a list \<Rightarrow> 'a list" where
  "update_range f lo hi xs = map (\<lambda>i. if lo \<le> i \<and> i < hi then f (xs ! i) else xs ! i) [0..<length xs]"

definition grow_registers :: "nat \<Rightarrow> register_file \<Rightarrow> register_file" where
  "grow_registers new_top rf =
     (if length (rf_registers rf) < new_top
      then let new_size = min (new_top * 2) MAX_SIZE in
        rf\<lparr>rf_registers := resize new_size value_unit (rf_registers rf),
           rf_generations := resize new_size SLOT_GEN_INITIAL (rf_generations rf),
           rf_epochs := resize new_size 0 (rf_epochs rf)\<rparr>
      else rf)"

definition try_push_frame :: "u16 \<Rightarrow> register_file \<Rightarrow> (nat + u32) \<times> register_file" where
  "try_push_frame cnt rf =
     (let base = of_nat (rf_top rf); new_top = rf_top rf + unat cnt in
      if MAX_SIZE < new_top then (Inl new_top, rf)
      else
        let rf1 = grow_registers new_top rf in
        (Inr base,
         rf1\<lparr>rf_registers := update_range (\<lambda>_. value_unit) (rf_top rf) new_top (rf_registers rf1),
             rf_generations := update_range (\<lambda>g. g + 1) (rf_top rf) new_top (rf_generations rf1),
             rf_top := new_top\<rparr>))"

definition push_frame :: "u16 \<Rightarrow> register_file \<Rightarrow> (reg_panic, u32 \<times> register_file) run" where
  "push_frame cnt rf =
     (case try_push_frame cnt rf of
        (Inr base, rf1) \<Rightarrow> Ok (base, rf1)
      | (Inl new_top, _) \<Rightarrow> Err (RegisterOverflow new_top MAX_SIZE))"

definition pop_frame :: "u32 \<Rightarrow> register_file \<Rightarrow> (reg_panic, register_file) run" where
  "pop_frame base rf =
     (if unat base \<le> rf_top rf
      then Ok (rf\<lparr>rf_generations := update_range (\<lambda>g. g + 1) (unat base) (rf_top rf) (rf_generations rf),
                  rf_top := unat base\<rparr>)
      else Err (IndexPanic (unat base)))"

definition slot_of :: "u32 \<Rightarrow> reg \<Rightarrow> nat" where
  "slot_of base r = unat (base + ucast (reg_index r))"

definition reg_get :: "u32 \<Rightarrow> reg \<Rightarrow> register_file \<Rightarrow> val64" where
  "reg_get base r rf =
     (if length (rf_registers rf) \<le> slot_of base r then value_unit else rf_registers rf ! slot_of base r)"

definition reg_set :: "u32 \<Rightarrow> reg \<Rightarrow> val64 \<Rightarrow> register_file \<Rightarrow> register_file" where
  "reg_set base r v rf =
     (if length (rf_registers rf) \<le> slot_of base r then rf
      else rf\<lparr>rf_registers := (rf_registers rf)[slot_of base r := v]\<rparr>)"

definition index_or_panic :: "nat \<Rightarrow> 'a list \<Rightarrow> (reg_panic, 'a) run" where
  "index_or_panic i xs = (if i < length xs then Ok (xs ! i) else Err (IndexPanic i))"

definition get_absolute :: "u32 \<Rightarrow> register_file \<Rightarrow> (reg_panic, val64) run" where
  "get_absolute i rf = index_or_panic (unat i) (rf_registers rf)"

definition set_absolute :: "u32 \<Rightarrow> val64 \<Rightarrow> register_file \<Rightarrow> (reg_panic, register_file) run" where
  "set_absolute i v rf =
     (if unat i < length (rf_registers rf) then Ok (rf\<lparr>rf_registers := (rf_registers rf)[unat i := v]\<rparr>)
      else Err (IndexPanic (unat i)))"

definition get_generation :: "u32 \<Rightarrow> register_file \<Rightarrow> (reg_panic, u32) run" where
  "get_generation i rf = index_or_panic (unat i) (rf_generations rf)"

definition get_epoch :: "u32 \<Rightarrow> register_file \<Rightarrow> (reg_panic, 16 word) run" where
  "get_epoch i rf = index_or_panic (unat i) (rf_epochs rf)"

definition get_generation_epoch :: "u32 \<Rightarrow> register_file \<Rightarrow> (reg_panic, u32 \<times> 16 word) run" where
  "get_generation_epoch i rf =
     run_bind (index_or_panic (unat i) (rf_generations rf)) (\<lambda>g.
       run_bind (index_or_panic (unat i) (rf_epochs rf)) (\<lambda>e. Ok (g, e)))"

definition bump_generation :: "u32 \<Rightarrow> register_file \<Rightarrow> (reg_panic, register_file) run" where
  "bump_generation i rf =
     run_bind (index_or_panic (unat i) (rf_generations rf)) (\<lambda>current_gen.
       if SLOT_GEN_MAX \<le> current_gen
       then run_bind (index_or_panic (unat i) (rf_epochs rf)) (\<lambda>e.
         Ok (rf\<lparr>rf_epochs := (rf_epochs rf)[unat i := e + 1],
                rf_generations := (rf_generations rf)[unat i := SLOT_GEN_INITIAL],
                rf_global_epoch := rf_global_epoch rf + 1\<rparr>))
       else Ok (rf\<lparr>rf_generations := (rf_generations rf)[unat i := current_gen + 1]\<rparr>))"

definition validate_ref :: "u32 \<Rightarrow> u32 \<Rightarrow> 16 word \<Rightarrow> register_file \<Rightarrow> bool" where
  "validate_ref i ref_gen ref_epoch rf =
     (if ref_gen = GEN_NO_CHECK then True
      else if rf_top rf \<le> unat i then False
      else rf_generations rf ! unat i = ref_gen \<and> rf_epochs rf ! unat i = ref_epoch)"

definition registers_clear :: "register_file \<Rightarrow> register_file" where
  "registers_clear rf = rf\<lparr>rf_top := 0\<rparr>"

definition copy_register :: "u32 \<Rightarrow> u32 \<Rightarrow> register_file \<Rightarrow> nat \<Rightarrow> (reg_panic, register_file) run" where
  "copy_register src dst rf i =
     run_bind (get_absolute (src + of_nat i) rf) (\<lambda>v. set_absolute (dst + of_nat i) v rf)"

definition copy_range :: "u32 \<Rightarrow> reg \<Rightarrow> u32 \<Rightarrow> reg \<Rightarrow> u16 \<Rightarrow> register_file \<Rightarrow> (reg_panic, register_file) run" where
  "copy_range src_base src_start dst_base dst_start cnt rf =
     run_for rf [0..<unat cnt]
       (copy_register (src_base + ucast (reg_index src_start)) (dst_base + ucast (reg_index dst_start)))"

definition reg_swap :: "u32 \<Rightarrow> reg \<Rightarrow> reg \<Rightarrow> register_file \<Rightarrow> (reg_panic, register_file) run" where
  "reg_swap base r1 r2 rf =
     run_bind (index_or_panic (slot_of base r1) (rf_registers rf)) (\<lambda>x.
       run_bind (index_or_panic (slot_of base r2) (rf_registers rf)) (\<lambda>y.
         Ok (rf\<lparr>rf_registers := (rf_registers rf)[slot_of base r1 := y, slot_of base r2 := x]\<rparr>)))"

definition frame_iter :: "u32 \<Rightarrow> u16 \<Rightarrow> register_file \<Rightarrow> (reg_panic, val64 list) run" where
  "frame_iter base cnt rf =
     (let start = unat base; stop = min (start + unat cnt) (rf_top rf) in
      if stop < start then Err (IndexPanic start) else Ok (take (stop - start) (drop start (rf_registers rf))))"

subsection \<open>References to registers\<close>

text \<open>
  The switch \<open>VERUM_CBGR_LEGACY_INT_REFS\<close> selects an older encoding as a negative integer, kept for
  comparison; it is the first argument, off by default.
\<close>

definition CBGR_NO_CHECK_GENERATION :: u32 where "CBGR_NO_CHECK_GENERATION = 0x7FFE"
definition EPOCH_WINDOW_SIZE :: u16 where "EPOCH_WINDOW_SIZE = 0x7FFF"
definition REF_GEN_MASK :: u32 where "REF_GEN_MASK = push_bit 22 1 - 1"
definition LEGACY_CBGR_MUTABLE_BIT :: u32 where "LEGACY_CBGR_MUTABLE_BIT = 0x80000000"
definition LEGACY_CBGR_REF_ABS_INDEX_MAX :: u32 where "LEGACY_CBGR_REF_ABS_INDEX_MAX = push_bit 24 1"

definition legacy_encode :: "u32 \<Rightarrow> u32 \<Rightarrow> i64" where
  "legacy_encode abs_index generation = - 1 - ucast abs_index - push_bit 32 (ucast generation)"

definition legacy_decode :: "i64 \<Rightarrow> u32 \<times> u32" where
  "legacy_decode encoded =
     (let raw = - (encoded + 1) in
      (ucast (raw AND 0xFFFFFFFF) AND NOT LEGACY_CBGR_MUTABLE_BIT, ucast (signed_drop_bit 32 raw AND 0xFFFFFFFF)))"

definition encode_cbgr_ref :: "bool \<Rightarrow> u32 \<Rightarrow> u32 \<Rightarrow> value_tables \<Rightarrow> val64 \<times> value_tables" where
  "encode_cbgr_ref legacy abs_index generation tb =
     (if legacy then from_i64 (legacy_encode abs_index generation) tb
      else (cbgr_regref abs_index generation False, tb))"

definition encode_cbgr_ref_mut :: "bool \<Rightarrow> u32 \<Rightarrow> u32 \<Rightarrow> value_tables \<Rightarrow> val64 \<times> value_tables" where
  "encode_cbgr_ref_mut legacy abs_index generation tb =
     (if legacy then from_i64 (legacy_encode (abs_index OR LEGACY_CBGR_MUTABLE_BIT) generation) tb
      else (cbgr_regref abs_index generation True, tb))"

definition decode_cbgr_ref :: "bool \<Rightarrow> val64 \<Rightarrow> value_tables \<Rightarrow> u32 \<times> u32" where
  "decode_cbgr_ref legacy v tb =
     (if legacy then legacy_decode (as_i64 v tb) else (cbgr_regref_abs v, cbgr_regref_generation v))"

definition is_cbgr_ref_mutable :: "bool \<Rightarrow> val64 \<Rightarrow> value_tables \<Rightarrow> bool" where
  "is_cbgr_ref_mutable legacy v tb =
     (if legacy
      then let raw = - (as_i64 v tb + 1) in (ucast (raw AND 0xFFFFFFFF) :: u32) AND LEGACY_CBGR_MUTABLE_BIT \<noteq> 0
      else cbgr_regref_is_mut v)"

definition strip_cbgr_ref_mutability :: "bool \<Rightarrow> val64 \<Rightarrow> value_tables \<Rightarrow> val64 \<times> value_tables" where
  "strip_cbgr_ref_mutability legacy v tb =
     (if is_cbgr_ref_mutable legacy v tb
      then case decode_cbgr_ref legacy v tb of (abs_index, generation) \<Rightarrow> encode_cbgr_ref legacy abs_index generation tb
      else (v, tb))"

definition is_register_ref :: "bool \<Rightarrow> val64 \<Rightarrow> value_tables \<Rightarrow> bool" where
  "is_register_ref legacy v tb =
     (if legacy
      then if \<not> is_inline_int v then False
        else if - (2 ^ 32) \<le> sint (as_i64 v tb) then False
        else fst (legacy_decode (as_i64 v tb)) \<le> LEGACY_CBGR_REF_ABS_INDEX_MAX
      else is_cbgr_regref v)"

definition regref_generation_matches :: "u32 \<Rightarrow> u32 \<Rightarrow> bool" where
  "regref_generation_matches ref_generation current_generation =
     (ref_generation AND REF_GEN_MASK = current_generation AND REF_GEN_MASK)"

datatype ref_failure = RefPanic reg_panic | RefGenerationMismatch u32 u32 u32

definition validate_cbgr_generation :: "bool \<Rightarrow> register_file \<Rightarrow> u32 \<Rightarrow> u32 \<Rightarrow> (ref_failure, unit) run" where
  "validate_cbgr_generation cbgr_enabled rf abs_index ref_generation =
     (if \<not> cbgr_enabled then Ok ()
      else if ref_generation \<noteq> CBGR_NO_CHECK_GENERATION \<and> ref_generation \<noteq> GEN_NO_CHECK
      then run_bind (map_err RefPanic (get_generation abs_index rf)) (\<lambda>current_gen.
        if \<not> regref_generation_matches ref_generation current_gen
        then Err (RefGenerationMismatch abs_index ref_generation current_gen) else Ok ())
      else Ok ())"

definition validate_epoch_window :: "16 word \<Rightarrow> u64 \<Rightarrow> u16 \<Rightarrow> bool" where
  "validate_epoch_window ref_epoch current_epoch window_size =
     (let current_epoch_16 = ucast (current_epoch AND 0xFFFF) in
      if ref_epoch = current_epoch_16 then True
      else current_epoch_16 - ref_epoch \<le> window_size)"

subsection \<open>The invariant\<close>

definition rf_inv :: "register_file \<Rightarrow> bool" where
  "rf_inv rf =
     (length (rf_generations rf) = length (rf_registers rf) \<and> length (rf_epochs rf) = length (rf_registers rf) \<and>
      rf_top rf \<le> length (rf_registers rf) \<and> rf_top rf \<le> MAX_SIZE)"

lemma update_range_length [simp]: "length (update_range f lo hi xs) = length xs"
  by (simp add: update_range_def)

lemma update_range_nth [simp]:
  "i < length xs \<Longrightarrow> update_range f lo hi xs ! i = (if lo \<le> i \<and> i < hi then f (xs ! i) else xs ! i)"
  by (simp add: update_range_def)

lemma resize_length [simp]: "length (resize n x xs) = n"
  by (simp add: resize_def)

lemma resize_nth: "i < n \<Longrightarrow> resize n x xs ! i = (if i < length xs then xs ! i else x)"
  by (simp add: resize_def nth_append)

lemma with_capacity_inv [simp]: "rf_inv (with_capacity n)"
  by (simp add: rf_inv_def with_capacity_def)

lemma grow_registers_facts:
  assumes "rf_inv rf" "new_top \<le> MAX_SIZE"
  shows "length (rf_generations (grow_registers new_top rf)) = length (rf_registers (grow_registers new_top rf))"
    "length (rf_epochs (grow_registers new_top rf)) = length (rf_registers (grow_registers new_top rf))"
    "new_top \<le> length (rf_registers (grow_registers new_top rf))"
    "length (rf_registers rf) \<le> length (rf_registers (grow_registers new_top rf))"
    "\<And>i. i < length (rf_registers rf) \<Longrightarrow> rf_registers (grow_registers new_top rf) ! i = rf_registers rf ! i"
    "\<And>i. i < length (rf_registers rf) \<Longrightarrow> rf_generations (grow_registers new_top rf) ! i = rf_generations rf ! i"
    "\<And>i. i < length (rf_registers rf) \<Longrightarrow> rf_epochs (grow_registers new_top rf) ! i = rf_epochs rf ! i"
    "rf_top (grow_registers new_top rf) = rf_top rf"
    "rf_global_epoch (grow_registers new_top rf) = rf_global_epoch rf"
  using assms by (auto simp: grow_registers_def rf_inv_def Let_def resize_nth)

text \<open>
  What pushing a frame does: it fails exactly beyond the maximum, and otherwise hands out the slots
  above the top, initialised to unit and with new generations, and leaves everything else alone.
\<close>

lemma push_frame_facts:
  assumes "rf_inv rf" "push_frame cnt rf = Ok (base, rf1)"
  shows "rf_inv rf1" "unat base = rf_top rf" "rf_top rf1 = rf_top rf + unat cnt"
    "length (rf_registers rf) \<le> length (rf_registers rf1)" "rf_global_epoch rf1 = rf_global_epoch rf"
    "\<And>i. rf_top rf \<le> i \<Longrightarrow> i < rf_top rf1 \<Longrightarrow> rf_registers rf1 ! i = value_unit"
    "\<And>i. i < length (rf_registers rf) \<Longrightarrow> \<not> (rf_top rf \<le> i \<and> i < rf_top rf1) \<Longrightarrow> rf_registers rf1 ! i = rf_registers rf ! i"
    "\<And>i. i < length (rf_registers rf) \<Longrightarrow> rf_generations rf1 ! i =
        (if rf_top rf \<le> i \<and> i < rf_top rf1 then rf_generations rf ! i + 1 else rf_generations rf ! i)"
    "\<And>i. i < length (rf_registers rf) \<Longrightarrow> rf_epochs rf1 ! i = rf_epochs rf ! i"
proof -
  from assms(2) have fits: "rf_top rf + unat cnt \<le> MAX_SIZE" and base: "base = of_nat (rf_top rf)"
    and rf1: "rf1 = (grow_registers (rf_top rf + unat cnt) rf)
      \<lparr>rf_registers := update_range (\<lambda>_. value_unit) (rf_top rf) (rf_top rf + unat cnt)
         (rf_registers (grow_registers (rf_top rf + unat cnt) rf)),
       rf_generations := update_range (\<lambda>g. g + 1) (rf_top rf) (rf_top rf + unat cnt)
         (rf_generations (grow_registers (rf_top rf + unat cnt) rf)),
       rf_top := rf_top rf + unat cnt\<rparr>"
    by (auto simp: push_frame_def try_push_frame_def Let_def split: if_splits)
  note g = grow_registers_facts [OF assms(1) fits]
  show "rf_inv rf1" "rf_top rf1 = rf_top rf + unat cnt"
    "length (rf_registers rf) \<le> length (rf_registers rf1)" "rf_global_epoch rf1 = rf_global_epoch rf"
    using g fits by (simp_all add: rf1 rf_inv_def)
  have "rf_top rf < 2 ^ 32"
    using fits by (simp add: MAX_SIZE_def)
  then show "unat base = rf_top rf"
    by (simp add: base unsigned_of_nat take_bit_nat_eq_self)
  show "rf_registers rf1 ! i = value_unit" if "rf_top rf \<le> i" "i < rf_top rf1" for i
    using that g(3) by (simp add: rf1)
  show "rf_registers rf1 ! i = rf_registers rf ! i"
    if "i < length (rf_registers rf)" "\<not> (rf_top rf \<le> i \<and> i < rf_top rf1)" for i
    using that g by (auto simp: rf1)
  show "rf_generations rf1 ! i = (if rf_top rf \<le> i \<and> i < rf_top rf1 then rf_generations rf ! i + 1 else rf_generations rf ! i)"
    if "i < length (rf_registers rf)" for i
    using that g by (simp add: rf1)
  show "rf_epochs rf1 ! i = rf_epochs rf ! i" if "i < length (rf_registers rf)" for i
    using that g by (simp add: rf1)
qed

lemma push_frame_total: "(\<exists>b rf1. push_frame cnt rf = Ok (b, rf1)) \<longleftrightarrow> rf_top rf + unat cnt \<le> MAX_SIZE"
  by (simp add: push_frame_def try_push_frame_def Let_def)

lemma pop_frame_facts:
  assumes "rf_inv rf" "pop_frame base rf = Ok rf1"
  shows "rf_inv rf1" "rf_top rf1 = unat base" "unat base \<le> rf_top rf" "rf_registers rf1 = rf_registers rf"
    "rf_epochs rf1 = rf_epochs rf" "rf_global_epoch rf1 = rf_global_epoch rf"
    "\<And>i. i < length (rf_registers rf) \<Longrightarrow> rf_generations rf1 ! i =
        (if unat base \<le> i \<and> i < rf_top rf then rf_generations rf ! i + 1 else rf_generations rf ! i)"
  using assms by (auto simp: pop_frame_def rf_inv_def split: if_splits)

lemma bump_generation_facts:
  assumes "rf_inv rf" "bump_generation i rf = Ok rf1"
  shows "rf_inv rf1" "unat i < length (rf_registers rf)" "rf_registers rf1 = rf_registers rf" "rf_top rf1 = rf_top rf"
    "rf_generations rf1 = (rf_generations rf)[unat i := (if SLOT_GEN_MAX \<le> rf_generations rf ! unat i then SLOT_GEN_INITIAL
       else rf_generations rf ! unat i + 1)]"
  using assms by (auto simp: bump_generation_def index_or_panic_def rf_inv_def split: if_splits)

text \<open>Writes to registers: by frame, by absolute index, by copying and by swapping.\<close>

definition only_registers :: "register_file \<Rightarrow> register_file \<Rightarrow> bool" where
  "only_registers rf rf1 =
     (\<exists>vs. length vs = length (rf_registers rf) \<and> rf1 = rf\<lparr>rf_registers := vs\<rparr>)"

lemma only_registersI: "length vs = length (rf_registers rf) \<Longrightarrow> only_registers rf (rf\<lparr>rf_registers := vs\<rparr>)"
  by (auto simp: only_registers_def)

lemma only_registers_refl: "only_registers rf rf"
  using only_registersI [of "rf_registers rf" rf] by simp

lemma only_registers_trans: "only_registers a b \<Longrightarrow> only_registers b c \<Longrightarrow> only_registers a c"
  by (auto simp: only_registers_def)

lemma set_absolute_only: "set_absolute i v rf = Ok rf1 \<Longrightarrow> only_registers rf rf1"
  by (auto simp: set_absolute_def intro!: only_registersI split: if_splits)

lemma copy_loop_only:
  "run_for rf is (copy_register a b) = Ok rf1 \<Longrightarrow> only_registers rf rf1"
  by (induction "is" arbitrary: rf)
    (auto simp: copy_register_def intro: only_registers_refl only_registers_trans set_absolute_only)

lemma writes_only:
  "only_registers rf (reg_set base r v rf)"
  "set_absolute i v rf = Ok rf1 \<Longrightarrow> only_registers rf rf1"
  "copy_range sb s db d cnt rf = Ok rf1 \<Longrightarrow> only_registers rf rf1"
  "reg_swap base r1 r2 rf = Ok rf1 \<Longrightarrow> only_registers rf rf1"
  by (auto simp: reg_set_def reg_swap_def index_or_panic_def copy_range_def only_registers_refl
    intro!: only_registersI dest: copy_loop_only set_absolute_only split: if_splits)

lemma only_registers_inv: "only_registers rf rf1 \<Longrightarrow> rf_inv rf1 = rf_inv rf"
  by (auto simp: only_registers_def rf_inv_def)

subsection \<open>Runs of the register file\<close>

definition register_write :: "register_file \<Rightarrow> register_file \<Rightarrow> bool" where
  "register_write rf rf1 =
     ((\<exists>base r v. rf1 = reg_set base r v rf) \<or> (\<exists>i v. set_absolute i v rf = Ok rf1) \<or>
      (\<exists>sb s db d cnt. copy_range sb s db d cnt rf = Ok rf1) \<or> (\<exists>base r1 r2. reg_swap base r1 r2 rf = Ok rf1))"

lemma register_write_facts:
  assumes "register_write rf rf1"
  shows "rf_inv rf1 = rf_inv rf" "length (rf_registers rf1) = length (rf_registers rf)"
    "rf_generations rf1 = rf_generations rf" "rf_top rf1 = rf_top rf"
proof -
  have o: "only_registers rf rf1"
    using assms writes_only unfolding register_write_def by metis
  then show "rf_inv rf1 = rf_inv rf"
    by (rule only_registers_inv)
  from o show "length (rf_registers rf1) = length (rf_registers rf)" "rf_generations rf1 = rf_generations rf"
    "rf_top rf1 = rf_top rf"
    by (auto simp: only_registers_def)
qed

text \<open>
  A run of operations and the number of times it gave a slot a new generation: whenever a frame that
  covers the slot is pushed or popped, and whenever its variable goes out of scope.
\<close>

inductive reg_run :: "nat \<Rightarrow> nat \<Rightarrow> register_file \<Rightarrow> register_file \<Rightarrow> bool" for a :: nat where
  reg_start: "reg_run a 0 rf rf"
| reg_push: "reg_run a n rf0 rf \<Longrightarrow> push_frame cnt rf = Ok (b, rf1) \<Longrightarrow>
    reg_run a (n + of_bool (rf_top rf \<le> a \<and> a < rf_top rf1)) rf0 rf1"
| reg_pop: "reg_run a n rf0 rf \<Longrightarrow> pop_frame b rf = Ok rf1 \<Longrightarrow>
    reg_run a (n + of_bool (unat b \<le> a \<and> a < rf_top rf)) rf0 rf1"
| reg_bump: "reg_run a n rf0 rf \<Longrightarrow> bump_generation i rf = Ok rf1 \<Longrightarrow> reg_run a (n + of_bool (unat i = a)) rf0 rf1"
| reg_write: "reg_run a n rf0 rf \<Longrightarrow> register_write rf rf1 \<Longrightarrow> reg_run a n rf0 rf1"
| reg_clear: "reg_run a n rf0 rf \<Longrightarrow> reg_run a n rf0 (registers_clear rf)"

lemma registers_clear_facts [simp]:
  "rf_inv rf \<Longrightarrow> rf_inv (registers_clear rf)" "rf_registers (registers_clear rf) = rf_registers rf"
  "rf_generations (registers_clear rf) = rf_generations rf"
  by (simp_all add: registers_clear_def rf_inv_def)

lemma reg_run_inv:
  "reg_run a n rf0 rf \<Longrightarrow> rf_inv rf0 \<Longrightarrow> rf_inv rf \<and> length (rf_registers rf0) \<le> length (rf_registers rf)"
proof (induction rule: reg_run.induct)
  case (reg_push n rf0 rf cnt b rf1)
  with push_frame_facts(1,4) [of rf cnt b rf1] show ?case by auto
next
  case (reg_pop n rf0 rf b rf1)
  with pop_frame_facts(1,4) [of rf b rf1] show ?case by auto
next
  case (reg_bump n rf0 rf i rf1)
  with bump_generation_facts(1,3) [of rf i rf1] show ?case by auto
qed (simp_all add: register_write_facts)

text \<open>
  The generation of a slot after \<open>n\<close> renewals has moved on by \<open>n\<close>, or by up to two more when the
  counter was reset at its maximum on the way.
\<close>

definition moved :: "nat \<Rightarrow> u32 \<Rightarrow> u32 \<Rightarrow> bool" where
  "moved n g h = (\<exists>d. h = g + of_nat d \<and> (d = n \<or> 0 < n \<and> n < d \<and> d \<le> n + 2 \<and> unat h \<le> n))"

lemma moved_step:
  assumes "moved n g h" "n < 2 ^ 22"
  shows "moved (n + 1) g (h + 1)" "moved (n + 1) g (if SLOT_GEN_MAX \<le> h then SLOT_GEN_INITIAL else h + 1)"
proof -
  obtain d where d: "h = g + of_nat d" "d = n \<or> 0 < n \<and> n < d \<and> d \<le> n + 2 \<and> unat h \<le> n"
    using assms(1) by (auto simp: moved_def)
  have inc: "unat (h + 1) \<le> n + 1" if "unat h \<le> n"
    using that assms(2) by (simp add: unat_word_ariths)
  have "h + 1 = g + of_nat (d + 1)"
    by (simp add: d(1))
  then show s: "moved (n + 1) g (h + 1)"
    unfolding moved_def using d(2) inc by (intro exI [of _ "d + 1"]) auto
  have "moved (n + 1) g SLOT_GEN_INITIAL" if "SLOT_GEN_MAX \<le> h"
  proof -
    have u: "unat h = 2 ^ 32 - 2 \<or> unat h = 2 ^ 32 - 1"
      using that unsigned_less [of h, where ?'a = nat] by (simp add: SLOT_GEN_MAX_def word_le_nat_alt) linarith
    then have h: "h = - 2 \<or> h = - 1"
      by (auto dest!: unat_is)
    have "d = n"
      using d(2) u assms(2) by auto
    show ?thesis
      using h
    proof
      assume "h = - 2"
      then have "SLOT_GEN_INITIAL = g + of_nat (n + 3)"
        using d(1) \<open>d = n\<close> by (simp add: SLOT_GEN_INITIAL_def algebra_simps)
      then show ?thesis
        unfolding moved_def by (intro exI [of _ "n + 3"]) (simp add: SLOT_GEN_INITIAL_def)
    next
      assume "h = - 1"
      then have "SLOT_GEN_INITIAL = g + of_nat (n + 2)"
        using d(1) \<open>d = n\<close> by (simp add: SLOT_GEN_INITIAL_def algebra_simps)
      then show ?thesis
        unfolding moved_def by (intro exI [of _ "n + 2"]) (simp add: SLOT_GEN_INITIAL_def)
    qed
  qed
  with s show "moved (n + 1) g (if SLOT_GEN_MAX \<le> h then SLOT_GEN_INITIAL else h + 1)"
    by simp
qed

lemma reg_run_moved:
  "reg_run a n rf0 rf \<Longrightarrow> rf_inv rf0 \<Longrightarrow> a < length (rf_registers rf0) \<Longrightarrow> n < 2 ^ 22 \<Longrightarrow>
     moved n (rf_generations rf0 ! a) (rf_generations rf ! a)"
proof (induction rule: reg_run.induct)
  case (reg_start rf)
  then show ?case by (auto simp: moved_def intro: exI [of _ 0])
next
  case (reg_push n rf0 rf cnt b rf1)
  note inv = reg_run_inv [OF reg_push.hyps(1) reg_push.prems(1)]
  have "moved n (rf_generations rf0 ! a) (rf_generations rf ! a)"
    using reg_push by simp
  then show ?case
    using push_frame_facts(8) [OF inv [THEN conjunct1] reg_push.hyps(2), of a] inv reg_push.prems(2,3) moved_step(1)
    by auto
next
  case (reg_pop n rf0 rf b rf1)
  note inv = reg_run_inv [OF reg_pop.hyps(1) reg_pop.prems(1)]
  have "moved n (rf_generations rf0 ! a) (rf_generations rf ! a)"
    using reg_pop by simp
  then show ?case
    using pop_frame_facts(7) [OF inv [THEN conjunct1] reg_pop.hyps(2), of a] inv reg_pop.prems(2,3) moved_step(1)
    by auto
next
  case (reg_bump n rf0 rf i rf1)
  note inv = reg_run_inv [OF reg_bump.hyps(1) reg_bump.prems(1)]
  note b = bump_generation_facts(5) [OF inv [THEN conjunct1] reg_bump.hyps(2)]
  have m: "moved n (rf_generations rf0 ! a) (rf_generations rf ! a)"
    using reg_bump by simp
  show ?case
  proof (cases "unat i = a")
    case True
    have "a < length (rf_generations rf)"
      using inv reg_bump.prems(2) by (simp add: rf_inv_def)
    with True m reg_bump.prems(3) show ?thesis
      unfolding b using moved_step(2) [of n "rf_generations rf0 ! a" "rf_generations rf ! a"] by (auto split: if_splits)
  next
    case False
    with m show ?thesis
      unfolding b by simp
  qed
qed (simp_all add: register_write_facts)

lemma take_bit_add_of_nat:
  assumes "d < 2 ^ 22"
  shows "take_bit 22 (g + of_nat d) = take_bit 22 (g :: u32) \<longleftrightarrow> d = 0"
proof
  assume e: "take_bit 22 (g + of_nat d) = take_bit 22 g"
  have "unat (take_bit 22 (g + of_nat d)) = (unat g + d) mod 2 ^ 22" "unat (take_bit 22 g) = unat g mod 2 ^ 22"
    by (simp_all add: unsigned_take_bit_eq take_bit_eq_mod unat_word_ariths unsigned_of_nat mod_mod_cancel mod_add_right_eq)
  then have "(unat g + d) mod 2 ^ 22 = unat g mod 2 ^ 22"
    using e by simp
  then have "2 ^ 22 dvd d"
    using mod_eq_dvd_iff_nat [of "unat g" "unat g + d" "2 ^ 22"] by simp
  then show "d = 0"
    using assms by (simp add: nat_dvd_not_less) (meson nat_dvd_not_less neq0_conv)
qed simp

lemma moved_low_bits:
  assumes "moved n g h" "n + 2 < 2 ^ 22"
  shows "take_bit 22 h = take_bit 22 g \<longleftrightarrow> n = 0"
proof -
  obtain d where d: "h = g + of_nat d" "d = n \<or> 0 < n \<and> n < d \<and> d \<le> n + 2"
    using assms(1) by (auto simp: moved_def)
  have "d < 2 ^ 22" "d = 0 \<longleftrightarrow> n = 0"
    using d(2) assms(2) by auto
  with take_bit_add_of_nat [of d g] show ?thesis
    by (simp only: d(1))
qed

lemma matches_low_bits: "regref_generation_matches g h \<longleftrightarrow> take_bit 22 g = take_bit 22 h"
  by (simp add: regref_generation_matches_def REF_GEN_MASK_def take_bit_eq_mask mask_eq_exp_minus_1)

lemma decode_encoded:
  assumes "a < 2 ^ 24"
  shows "decode_cbgr_ref False (fst (encode_cbgr_ref False a g tb)) tb1 = (a, take_bit 22 g)"
    "is_register_ref False (fst (encode_cbgr_ref False a g tb)) tb1"
  using regref_round_trip [OF assms] by (simp_all add: encode_cbgr_ref_def decode_cbgr_ref_def is_register_ref_def)

lemma decode_encoded_mut:
  assumes "a < 2 ^ 24"
  shows "decode_cbgr_ref False (fst (encode_cbgr_ref_mut False a g tb)) tb1 = (a, take_bit 22 g)"
    "is_cbgr_ref_mutable False (fst (encode_cbgr_ref_mut False a g tb)) tb1"
    "strip_cbgr_ref_mutability False (fst (encode_cbgr_ref_mut False a g tb)) tb1 = (fst (encode_cbgr_ref False a g tb), tb1)"
proof -
  have "(ucast (take_bit 22 g) :: val64) AND mask 22 = ucast g AND mask 22"
    by (rule bit_word_eqI) (auto simp: bit_and_iff bit_mask_iff bit_ucast_iff bit_take_bit_iff)
  then have "cbgr_regref a (take_bit 22 g) m = cbgr_regref a g m" for m
    by (simp only: cbgr_regref_def Let_def index_masks)
  then show "decode_cbgr_ref False (fst (encode_cbgr_ref_mut False a g tb)) tb1 = (a, take_bit 22 g)"
    "is_cbgr_ref_mutable False (fst (encode_cbgr_ref_mut False a g tb)) tb1"
    "strip_cbgr_ref_mutability False (fst (encode_cbgr_ref_mut False a g tb)) tb1 = (fst (encode_cbgr_ref False a g tb), tb1)"
    using regref_round_trip [OF assms]
    by (simp_all add: encode_cbgr_ref_mut_def encode_cbgr_ref_def decode_cbgr_ref_def is_cbgr_ref_mutable_def strip_cbgr_ref_mutability_def)
qed

lemma validate_generation_iff:
  assumes "unat a < length (rf_generations rf)"
  shows "validate_cbgr_generation True rf a g = Ok () \<longleftrightarrow>
    g = GEN_NO_CHECK \<or> take_bit 22 g = take_bit 22 (rf_generations rf ! unat a)"
  using assms by (simp add: validate_cbgr_generation_def CBGR_NO_CHECK_GENERATION_def GEN_NO_CHECK_def
    get_generation_def index_or_panic_def matches_low_bits map_err_def)

text \<open>C18: A reference to a register is told from its successors: made in any state, it validates after any run of
  calls, returns, writes and scope ends exactly when the slot was not given a new generation in between,
  as long as that happened fewer than 2 to the 22nd minus 2 times and the generation it carries is not the
  one that switches the check off.\<close>

theorem stale_register_reference:
  assumes "rf_inv rf" "get_generation a rf = Ok g" "unat a < rf_top rf" "take_bit 22 g \<noteq> GEN_NO_CHECK"
    and "reg_run (unat a) n rf rf1" "n + 2 < 2 ^ 22" "v = fst (encode_cbgr_ref False a g tb)"
  shows "is_register_ref False v tb1 \<and> decode_cbgr_ref False v tb1 = (a, take_bit 22 g) \<and>
    (validate_cbgr_generation True rf1 a (take_bit 22 g) = Ok () \<longleftrightarrow> n = 0)"
proof -
  have a: "a < 2 ^ 24" and l: "unat a < length (rf_registers rf)"
    using assms(1,3) by (auto simp: rf_inv_def MAX_SIZE_def word_less_nat_alt)
  note inv = reg_run_inv [OF assms(5,1)]
  have g: "g = rf_generations rf ! unat a"
    using assms(2) by (auto simp: get_generation_def index_or_panic_def split: if_splits)
  have "moved n g (rf_generations rf1 ! unat a)"
    using reg_run_moved [OF assms(5,1) l] assms(6) by (simp add: g)
  from moved_low_bits [OF this assms(6)]
  have "validate_cbgr_generation True rf1 a (take_bit 22 g) = Ok () \<longleftrightarrow> n = 0"
    using inv l assms(4) by (subst validate_generation_iff) (auto simp: rf_inv_def)
  with decode_encoded [OF a] assms(7) show ?thesis
    by simp
qed

definition sample_registers :: register_file where
  "sample_registers =
     \<lparr>rf_registers = replicate 4 value_unit, rf_generations = [2, 2, 1, 1], rf_epochs = [0, 0, 0, 0], rf_top = 2,
      rf_global_epoch = 0\<rparr>"

theorem stale_register_reference_witness:
  "get_generation 1 sample_registers = Ok 2 \<and>
   decode_cbgr_ref False (fst (encode_cbgr_ref False 1 2 no_tables)) no_tables = (1, 2) \<and>
   validate_cbgr_generation True sample_registers 1 2 = Ok () \<and>
   bump_generation 1 sample_registers = Ok (sample_registers\<lparr>rf_generations := [2, 3, 1, 1]\<rparr>) \<and>
   validate_cbgr_generation True (sample_registers\<lparr>rf_generations := [2, 3, 1, 1]\<rparr>) 1 2 \<noteq> Ok ()"
proof -
  have i: "rf_inv sample_registers"
    by (simp add: rf_inv_def sample_registers_def MAX_SIZE_def)
  have g: "get_generation 1 sample_registers = Ok 2"
    by (simp add: get_generation_def index_or_panic_def sample_registers_def)
  have b: "bump_generation 1 sample_registers = Ok (sample_registers\<lparr>rf_generations := [2, 3, 1, 1]\<rparr>)"
    by (simp add: bump_generation_def index_or_panic_def sample_registers_def SLOT_GEN_MAX_def)
  have t: "unat (1 :: u32) < rf_top sample_registers" "take_bit 22 (2 :: u32) \<noteq> GEN_NO_CHECK"
    by (simp_all add: sample_registers_def GEN_NO_CHECK_def)
  have r0: "reg_run (unat (1 :: u32)) 0 sample_registers sample_registers"
    and r1: "reg_run (unat (1 :: u32)) 1 sample_registers (sample_registers\<lparr>rf_generations := [2, 3, 1, 1]\<rparr>)"
    using reg_start reg_bump [OF reg_start b, of "unat (1 :: u32)"] by simp_all
  from stale_register_reference [OF i g t r0 _ refl, of no_tables no_tables]
    stale_register_reference [OF i g t r1 _ refl, of no_tables no_tables] b g
  show ?thesis
    by simp
qed

subsection \<open>The generation that switches the check off\<close>

lemma bump_many:
  fixes a :: u32
  assumes "rf_inv rf" "unat a < length (rf_registers rf)" "unat (rf_generations rf ! unat a) + n < 2 ^ 32 - 1"
  shows "\<exists>rf1. reg_run (unat a) n rf rf1 \<and> rf_generations rf1 ! unat a = rf_generations rf ! unat a + of_nat n"
  using assms(3)
proof (induction n)
  case 0
  show ?case
    using reg_start by auto
next
  case (Suc n)
  then obtain rf1 where r: "reg_run (unat a) n rf rf1" and g: "rf_generations rf1 ! unat a = rf_generations rf ! unat a + of_nat n"
    by auto
  note inv = reg_run_inv [OF r assms(1)]
  have l: "unat a < length (rf_generations rf1)"
    using inv assms(2) by (simp add: rf_inv_def)
  have u: "unat (rf_generations rf1 ! unat a) = unat (rf_generations rf ! unat a) + n"
    using Suc.prems unfolding g by (simp add: unat_word_ariths unsigned_of_nat take_bit_eq_mod mod_add_right_eq)
  then have "\<not> SLOT_GEN_MAX \<le> rf_generations rf1 ! unat a"
    using Suc.prems by (simp add: word_le_nat_alt SLOT_GEN_MAX_def)
  then have "bump_generation a rf1 = Ok (rf1\<lparr>rf_generations := (rf_generations rf1)[unat a := rf_generations rf1 ! unat a + 1]\<rparr>)"
    using l by (simp add: bump_generation_def index_or_panic_def)
  from reg_bump [OF r this] show ?case
    using l by (intro exI conjI) (auto simp: g)
qed

text \<open>The generation reserved for unchecked references is one that a slot reaches: after at most 32765
  renewals its references carry it, and they validate in every state ever after, however often the
  slot is given to other variables.\<close>

theorem sentinel_generation_unchecked:
  assumes "rf_inv rf" "unat a < rf_top rf" "get_generation a rf = Ok g" "1 \<le> g" "g \<le> GEN_NO_CHECK"
  shows "\<exists>n rf1. n \<le> 32765 \<and> reg_run (unat a) n rf rf1 \<and> get_generation a rf1 = Ok GEN_NO_CHECK \<and>
    snd (decode_cbgr_ref False (fst (encode_cbgr_ref False a GEN_NO_CHECK tb)) tb1) = GEN_NO_CHECK \<and>
    (\<forall>rf2. validate_cbgr_generation True rf2 a GEN_NO_CHECK = Ok () \<and> validate_ref a GEN_NO_CHECK e rf2)"
proof -
  have l: "unat a < length (rf_registers rf)" and a: "a < 2 ^ 24"
    using assms(1,2) by (auto simp: rf_inv_def MAX_SIZE_def word_less_nat_alt)
  have g: "g = rf_generations rf ! unat a"
    using assms(3) by (auto simp: get_generation_def index_or_panic_def split: if_splits)
  define n where "n = 0x7FFE - unat g"
  have u: "1 \<le> unat g" "unat g \<le> 0x7FFE"
    using assms(4,5) by (simp_all add: word_le_nat_alt GEN_NO_CHECK_def)
  then have n: "n \<le> 32765" "unat g + n = 0x7FFE"
    by (simp_all add: n_def)
  obtain rf1 where r: "reg_run (unat a) n rf rf1" and e: "rf_generations rf1 ! unat a = g + of_nat n"
    using bump_many [OF assms(1) l, of n] n by (auto simp: g)
  have "g + of_nat n = GEN_NO_CHECK"
    using n(2) by (simp add: word_eq_iff_unsigned [where ?'a = nat] GEN_NO_CHECK_def unat_word_ariths unsigned_of_nat
      take_bit_eq_mod mod_add_right_eq)
  moreover have "unat a < length (rf_generations rf1)"
    using reg_run_inv [OF r assms(1)] l by (simp add: rf_inv_def)
  ultimately have "get_generation a rf1 = Ok GEN_NO_CHECK"
    using e by (simp add: get_generation_def index_or_panic_def)
  moreover have "snd (decode_cbgr_ref False (fst (encode_cbgr_ref False a GEN_NO_CHECK tb)) tb1) = GEN_NO_CHECK"
    using decode_encoded(1) [OF a, of GEN_NO_CHECK tb tb1] by (simp add: GEN_NO_CHECK_def)
  moreover have "validate_cbgr_generation True rf2 a GEN_NO_CHECK = Ok ()" "validate_ref a GEN_NO_CHECK e rf2" for rf2
    by (simp_all add: validate_cbgr_generation_def validate_ref_def)
  ultimately show ?thesis
    using n(1) r by blast
qed

theorem sentinel_generation_unchecked_witness:
  "rf_inv sample_registers \<and> (\<exists>n rf1. n \<le> 32765 \<and> reg_run 1 n sample_registers rf1 \<and> get_generation 1 rf1 = Ok GEN_NO_CHECK)"
proof -
  have i: "rf_inv sample_registers" "unat (1 :: u32) < rf_top sample_registers" "get_generation 1 sample_registers = Ok 2"
    by (simp_all add: rf_inv_def sample_registers_def MAX_SIZE_def get_generation_def index_or_panic_def)
  have g: "1 \<le> (2 :: u32)" "2 \<le> GEN_NO_CHECK"
    by (simp_all add: GEN_NO_CHECK_def)
  show ?thesis
    using sentinel_generation_unchecked [OF i g] i(1) unat_1 by metis
qed

end
