(* ===== verification/CallStack.thy ===== *)
theory CallStack
  imports Registers
begin

section \<open>The call stack and the windows of the register file\<close>

text \<open>
  \<open>crates/verum_vbc/src/interpreter/stack.rs\<close>: the frames of the calls in progress, a bound on their
  number, and the tables of generic witnesses some frames own. A call pushes a frame on the stack and
  registers on the register file (\<open>handle_call\<close> of \<open>handlers/calls.rs\<close>), a return pops both and
  writes the result into the caller's window (\<open>do_return\<close> of \<open>dispatch_table/mod.rs\<close>). The
  stack computes the base of a window from the frames below, the register file from its top; that both agree
  is an invariant.

  The type of the tables of witnesses is a parameter. \<open>machine_call\<close> is the end of \<open>handle_call\<close>, when the
  callee has been found and no native or intrinsic function stands in for it; \<open>machine_return\<close> is
  \<open>do_return\<close> from the pop of the frame on, when the value to return is settled. Of the interpreter
  they touch the stack and the register file: the scopes of contexts, the tasks, the statistics and
  the tape of gradients are state of other parts, which read neither, and are left out.
\<close>

definition DEFAULT_MAX_DEPTH :: nat where "DEFAULT_MAX_DEPTH = 1024"

record call_frame =
  cf_function :: u32
  cf_pc :: u32
  cf_operand_end :: u32
  cf_reg_base :: u32
  cf_reg_count :: u16
  cf_return_pc :: u32
  cf_return_reg :: reg
  cf_caller_base :: u32

definition call_frame_new :: "u32 \<Rightarrow> u32 \<Rightarrow> u16 \<Rightarrow> u32 \<Rightarrow> reg \<Rightarrow> u32 \<Rightarrow> call_frame" where
  "call_frame_new f base cnt return_pc return_reg caller_base =
     \<lparr>cf_function = f, cf_pc = 0, cf_operand_end = - 1, cf_reg_base = base, cf_reg_count = cnt,
      cf_return_pc = return_pc, cf_return_reg = return_reg, cf_caller_base = caller_base\<rparr>"

record 'w call_stack =
  cs_frames :: "call_frame list"
  cs_max_depth :: nat
  cs_witnesses :: "(nat \<times> 'w) list"

datatype stack_error = StackOverflow nat nat | StackUnderflow

definition stack_with_max_depth :: "nat \<Rightarrow> 'w call_stack" where
  "stack_with_max_depth n = \<lparr>cs_frames = [], cs_max_depth = n, cs_witnesses = []\<rparr>"

definition stack_new :: "'w call_stack" where
  "stack_new = stack_with_max_depth DEFAULT_MAX_DEPTH"

definition stack_push_frame :: "u32 \<Rightarrow> u16 \<Rightarrow> u32 \<Rightarrow> reg \<Rightarrow> 'w call_stack \<Rightarrow> (stack_error, u32 \<times> 'w call_stack) run" where
  "stack_push_frame f cnt return_pc return_reg st =
     (if cs_max_depth st \<le> length (cs_frames st)
      then Err (StackOverflow (length (cs_frames st)) (cs_max_depth st))
      else
        let (base, caller_base) =
          (if cs_frames st = [] then (0, 0)
           else let current = last (cs_frames st) in
             (cf_reg_base current + ucast (cf_reg_count current), cf_reg_base current))
        in Ok (base, st\<lparr>cs_frames := cs_frames st @ [call_frame_new f base cnt return_pc return_reg caller_base]\<rparr>))"

definition pop_while :: "('a \<Rightarrow> bool) \<Rightarrow> 'a list \<Rightarrow> 'a list" where
  "pop_while P xs = rev (dropWhile P (rev xs))"

definition stack_pop_frame :: "'w call_stack \<Rightarrow> (stack_error, call_frame \<times> 'w call_stack) run" where
  "stack_pop_frame st =
     (if cs_frames st = [] then Err StackUnderflow
      else let frames = butlast (cs_frames st) in
        Ok (last (cs_frames st),
            st\<lparr>cs_frames := frames,
               cs_witnesses := pop_while (\<lambda>(d, _). length frames < d) (cs_witnesses st)\<rparr>))"

definition set_generic_witnesses :: "'w \<Rightarrow> 'w call_stack \<Rightarrow> 'w call_stack" where
  "set_generic_witnesses ws st = st\<lparr>cs_witnesses := cs_witnesses st @ [(length (cs_frames st), ws)]\<rparr>"

definition clear_current_generic_witnesses :: "'w call_stack \<Rightarrow> 'w call_stack" where
  "clear_current_generic_witnesses st =
     st\<lparr>cs_witnesses := pop_while (\<lambda>(d, _). d = length (cs_frames st)) (cs_witnesses st)\<rparr>"

definition current_generic_witnesses :: "'w call_stack \<Rightarrow> 'w option" where
  "current_generic_witnesses st =
     (if cs_witnesses st = [] then None
      else case last (cs_witnesses st) of (d, ws) \<Rightarrow> if d = length (cs_frames st) then Some ws else None)"

definition stack_current :: "'w call_stack \<Rightarrow> call_frame option" where
  "stack_current st = (if cs_frames st = [] then None else Some (last (cs_frames st)))"

definition stack_at :: "nat \<Rightarrow> 'w call_stack \<Rightarrow> call_frame option" where
  "stack_at i st = (if i < length (cs_frames st) then Some (cs_frames st ! i) else None)"

definition stack_parent :: "'w call_stack \<Rightarrow> call_frame option" where
  "stack_parent st = (if 2 \<le> length (cs_frames st) then stack_at (length (cs_frames st) - 2) st else None)"

definition stack_depth :: "'w call_stack \<Rightarrow> nat" where
  "stack_depth st = length (cs_frames st)"

definition stack_is_empty :: "'w call_stack \<Rightarrow> bool" where
  "stack_is_empty st = (cs_frames st = [])"

definition stack_clear :: "'w call_stack \<Rightarrow> 'w call_stack" where
  "stack_clear st = st\<lparr>cs_frames := []\<rparr>"

definition stack_trace :: "'w call_stack \<Rightarrow> (u32 \<times> u32) list" where
  "stack_trace st = map (\<lambda>f. (cf_function f, cf_pc f)) (rev (cs_frames st))"

definition stack_reg_base :: "'w call_stack \<Rightarrow> u32" where
  "stack_reg_base st = (case stack_current st of Some f \<Rightarrow> cf_reg_base f | None \<Rightarrow> 0)"

definition stack_pc :: "'w call_stack \<Rightarrow> u32" where
  "stack_pc st = (case stack_current st of Some f \<Rightarrow> cf_pc f | None \<Rightarrow> 0)"

definition stack_set_pc :: "u32 \<Rightarrow> 'w call_stack \<Rightarrow> 'w call_stack" where
  "stack_set_pc p st =
     (case stack_current st of
        Some f \<Rightarrow> st\<lparr>cs_frames := butlast (cs_frames st) @ [f\<lparr>cf_pc := p\<rparr>]\<rparr>
      | None \<Rightarrow> st)"

definition stack_advance_pc :: "u32 \<Rightarrow> 'w call_stack \<Rightarrow> 'w call_stack" where
  "stack_advance_pc delta st =
     (case stack_current st of
        Some f \<Rightarrow> st\<lparr>cs_frames := butlast (cs_frames st) @ [f\<lparr>cf_pc := cf_pc f + delta\<rparr>]\<rparr>
      | None \<Rightarrow> st)"

subsection \<open>Calls and returns\<close>

record 'w machine =
  m_stack :: "'w call_stack"
  m_registers :: register_file

datatype machine_error = StackFailure stack_error | RegisterPanic reg_panic

definition copy_argument :: "u32 \<Rightarrow> u32 \<Rightarrow> reg \<Rightarrow> nat \<Rightarrow> register_file \<Rightarrow> register_file" where
  "copy_argument caller_base new_base start i rf =
     (let src = Reg (reg_index start + of_nat i); dst = Reg (of_nat i)
      in reg_set new_base dst (reg_get caller_base src rf) rf)"

definition machine_call :: "u32 \<Rightarrow> u16 \<Rightarrow> reg \<Rightarrow> reg_range \<Rightarrow> 'w machine \<Rightarrow> (machine_error, 'w machine) run" where
  "machine_call f cnt dst args m =
     (let return_pc = stack_pc (m_stack m); caller_base = stack_reg_base (m_stack m) in
      run_bind (map_err StackFailure (stack_push_frame f cnt return_pc dst (m_stack m))) (\<lambda>(new_base, st).
        run_bind (map_err RegisterPanic (push_frame cnt (m_registers m))) (\<lambda>(_, rf).
          let rf1 = fold (copy_argument caller_base new_base (range_start args)) [0..<unat (range_count args)] rf
          in Ok \<lparr>m_stack = stack_set_pc 0 st, m_registers = rf1\<rparr>)))"

text \<open>The result is the value that leaves the program when the last frame has returned.\<close>

definition machine_return :: "val64 \<Rightarrow> 'w machine \<Rightarrow> (machine_error, val64 option \<times> 'w machine) run" where
  "machine_return v m =
     (case stack_pop_frame (m_stack m) of
        Err _ \<Rightarrow> Ok (Some v, m)
      | NoFuel \<Rightarrow> NoFuel
      | Ok (frame, st) \<Rightarrow>
          run_bind (map_err RegisterPanic (pop_frame (cf_reg_base frame) (m_registers m))) (\<lambda>rf.
            if stack_is_empty st then Ok (Some v, \<lparr>m_stack = st, m_registers = rf\<rparr>)
            else Ok (None,
              \<lparr>m_stack = stack_set_pc (cf_return_pc frame) st,
               m_registers = reg_set (cf_caller_base frame) (cf_return_reg frame) v rf\<rparr>)))"

definition machine_get_reg :: "reg \<Rightarrow> 'w machine \<Rightarrow> val64" where
  "machine_get_reg r m = reg_get (stack_reg_base (m_stack m)) r (m_registers m)"

definition machine_set_reg :: "reg \<Rightarrow> val64 \<Rightarrow> 'w machine \<Rightarrow> 'w machine" where
  "machine_set_reg r v m = m\<lparr>m_registers := reg_set (stack_reg_base (m_stack m)) r v (m_registers m)\<rparr>"

definition machine_reset :: "'w machine \<Rightarrow> 'w machine" where
  "machine_reset m = \<lparr>m_stack = stack_clear (m_stack m), m_registers = registers_clear (m_registers m)\<rparr>"

subsection \<open>Windows\<close>

definition window_end :: "call_frame list \<Rightarrow> nat" where
  "window_end fs = sum_list (map (\<lambda>f. unat (cf_reg_count f)) fs)"

definition windows_ok :: "call_frame list \<Rightarrow> bool" where
  "windows_ok fs =
     (\<forall>k < length fs. unat (cf_reg_base (fs ! k)) = window_end (take k fs) \<and>
        cf_caller_base (fs ! k) = (if k = 0 then 0 else cf_reg_base (fs ! (k - 1))))"

definition witnesses_ok :: "'w call_stack \<Rightarrow> bool" where
  "witnesses_ok st = (sorted (map fst (cs_witnesses st)) \<and> (\<forall>(d, _) \<in> set (cs_witnesses st). d \<le> length (cs_frames st)))"

definition vm_inv :: "'w machine \<Rightarrow> bool" where
  "vm_inv m =
     (rf_inv (m_registers m) \<and> windows_ok (cs_frames (m_stack m)) \<and>
      rf_top (m_registers m) = window_end (cs_frames (m_stack m)) \<and>
      length (cs_frames (m_stack m)) \<le> cs_max_depth (m_stack m) \<and> witnesses_ok (m_stack m))"

lemma window_end_simps [simp]: "window_end [] = 0" "window_end (fs @ [f]) = window_end fs + unat (cf_reg_count f)"
  by (simp_all add: window_end_def)

lemma windows_ok_Nil [simp]: "windows_ok []"
  by (simp add: windows_ok_def)

lemma windows_ok_snoc [simp]:
  "windows_ok (fs @ [f]) \<longleftrightarrow> windows_ok fs \<and> unat (cf_reg_base f) = window_end fs \<and>
     cf_caller_base f = (if fs = [] then 0 else cf_reg_base (last fs))"
proof -
  let ?Q = "\<lambda>gs k. unat (cf_reg_base (gs ! k)) = window_end (take k gs) \<and>
    cf_caller_base (gs ! k) = (if k = 0 then 0 else cf_reg_base (gs ! (k - 1)))"
  have "windows_ok (fs @ [f]) \<longleftrightarrow> (\<forall>k < length fs. ?Q (fs @ [f]) k) \<and> ?Q (fs @ [f]) (length fs)"
    by (simp add: windows_ok_def All_less_Suc) blast
  also have "?Q (fs @ [f]) k = ?Q fs k" if "k < length fs" for k
    using that by (cases k) (simp_all add: nth_append)
  then have "(\<forall>k < length fs. ?Q (fs @ [f]) k) \<longleftrightarrow> windows_ok fs"
    unfolding windows_ok_def by blast
  finally show ?thesis
    by (simp add: nth_append last_conv_nth)
qed

lemmas windows_ok_two [simp] = windows_ok_snoc [of "fs @ [g]" f, simplified] for fs g f

lemma window_end_two [simp]: "window_end (fs @ [g, f]) = window_end fs + unat (cf_reg_count g) + unat (cf_reg_count f)"
  by (simp add: window_end_def)

lemma window_end_mono: "window_end (take k fs) \<le> window_end fs"
  by (metis append_take_drop_id le_add1 map_append sum_list_append window_end_def)

lemma slot_of_above:
  assumes "unat base \<le> MAX_SIZE"
  shows "slot_of base r = unat base + unat (reg_index r)"
proof -
  have "unat (reg_index r) < 2 ^ 16"
    using unsigned_less [of "reg_index r", where ?'a = nat] by simp
  then show ?thesis
    using assms by (simp add: slot_of_def unat_word_ariths MAX_SIZE_def unsigned_ucast_eq take_bit_nat_eq_self)
qed

lemma reg_set_facts [simp]:
  "rf_top (reg_set b r v rf) = rf_top rf" "rf_generations (reg_set b r v rf) = rf_generations rf"
  "length (rf_registers (reg_set b r v rf)) = length (rf_registers rf)" "rf_inv (reg_set b r v rf) = rf_inv rf"
  "i < length (rf_registers rf) \<Longrightarrow> rf_registers (reg_set b r v rf) ! i = (if i = slot_of b r then v else rf_registers rf ! i)"
  by (auto simp: reg_set_def rf_inv_def)

lemma copy_arguments_facts:
  "rf_top (fold (copy_argument cb nb start) is rf) = rf_top rf \<and>
   length (rf_registers (fold (copy_argument cb nb start) is rf)) = length (rf_registers rf) \<and>
   rf_inv (fold (copy_argument cb nb start) is rf) = rf_inv rf \<and>
   (unat nb \<le> MAX_SIZE \<longrightarrow> (\<forall>i < unat nb. i < length (rf_registers rf) \<longrightarrow>
      rf_registers (fold (copy_argument cb nb start) is rf) ! i = rf_registers rf ! i))"
  by (induction "is" arbitrary: rf) (simp_all add: copy_argument_def Let_def slot_of_above)

lemma stack_current_snoc: "cs_frames st = fs @ [f] \<Longrightarrow> stack_current st = Some f"
  by (simp add: stack_current_def)

lemma set_pc_facts [simp]:
  "length (cs_frames (stack_set_pc p st)) = length (cs_frames st)"
  "cs_max_depth (stack_set_pc p st) = cs_max_depth st" "cs_witnesses (stack_set_pc p st) = cs_witnesses st"
  "windows_ok (cs_frames (stack_set_pc p st)) = windows_ok (cs_frames st)"
  "window_end (cs_frames (stack_set_pc p st)) = window_end (cs_frames st)"
  "stack_reg_base (stack_set_pc p st) = stack_reg_base st"
proof -
  have "length (cs_frames (stack_set_pc p st)) = length (cs_frames st) \<and>
    cs_max_depth (stack_set_pc p st) = cs_max_depth st \<and> cs_witnesses (stack_set_pc p st) = cs_witnesses st \<and>
    windows_ok (cs_frames (stack_set_pc p st)) = windows_ok (cs_frames st) \<and>
    window_end (cs_frames (stack_set_pc p st)) = window_end (cs_frames st) \<and>
    stack_reg_base (stack_set_pc p st) = stack_reg_base st"
    by (cases "cs_frames st" rule: rev_cases)
      (simp_all add: stack_set_pc_def stack_current_def stack_reg_base_def)
  then show "length (cs_frames (stack_set_pc p st)) = length (cs_frames st)"
    "cs_max_depth (stack_set_pc p st) = cs_max_depth st" "cs_witnesses (stack_set_pc p st) = cs_witnesses st"
    "windows_ok (cs_frames (stack_set_pc p st)) = windows_ok (cs_frames st)"
    "window_end (cs_frames (stack_set_pc p st)) = window_end (cs_frames st)"
    "stack_reg_base (stack_set_pc p st) = stack_reg_base st"
    by blast+
qed

lemma set_pc_witnesses [simp]: "witnesses_ok (stack_set_pc p st) = witnesses_ok st"
  by (simp add: witnesses_ok_def)

text \<open>The stack and the register file agree on the base of a new window.\<close>

lemma stack_push_facts:
  assumes "stack_push_frame f cnt rpc dst st = Ok (base, st1)" "windows_ok (cs_frames st)"
    "window_end (cs_frames st) \<le> MAX_SIZE"
  shows "length (cs_frames st) < cs_max_depth st" "unat base = window_end (cs_frames st)"
    "cs_frames st1 = cs_frames st @ [call_frame_new f base cnt rpc dst (stack_reg_base st)]"
    "cs_max_depth st1 = cs_max_depth st" "cs_witnesses st1 = cs_witnesses st"
    "windows_ok (cs_frames st1)"
proof -
  have "length (cs_frames st) < cs_max_depth st \<and> unat base = window_end (cs_frames st) \<and>
    cs_frames st1 = cs_frames st @ [call_frame_new f base cnt rpc dst (stack_reg_base st)] \<and>
    cs_max_depth st1 = cs_max_depth st \<and> cs_witnesses st1 = cs_witnesses st \<and> windows_ok (cs_frames st1)"
  proof (cases "cs_frames st" rule: rev_cases)
    case Nil
    then have "base = 0" "st1 = st\<lparr>cs_frames := [] @ [call_frame_new f 0 cnt rpc dst 0]\<rparr>" "0 < cs_max_depth st"
      using assms(1) by (auto simp: stack_push_frame_def split: if_splits)
    with Nil show ?thesis
      by (simp add: windows_ok_def call_frame_new_def stack_reg_base_def stack_current_def)
  next
    case (snoc fs g)
    have u: "unat (cf_reg_base g + ucast (cf_reg_count g)) = unat (cf_reg_base g) + unat (cf_reg_count g)"
      using assms(2,3) snoc
      by (simp add: unat_word_ariths MAX_SIZE_def unsigned_ucast_eq take_bit_nat_eq_self)
    from snoc assms(1) have "base = cf_reg_base g + ucast (cf_reg_count g)" "length (cs_frames st) < cs_max_depth st"
      "st1 = st\<lparr>cs_frames := cs_frames st @ [call_frame_new f base cnt rpc dst (cf_reg_base g)]\<rparr>"
      by (auto simp: stack_push_frame_def Let_def split: if_splits)
    with snoc assms(2) u show ?thesis
      by (simp add: call_frame_new_def stack_reg_base_def stack_current_def)
  qed
  then show "length (cs_frames st) < cs_max_depth st" "unat base = window_end (cs_frames st)"
    "cs_frames st1 = cs_frames st @ [call_frame_new f base cnt rpc dst (stack_reg_base st)]"
    "cs_max_depth st1 = cs_max_depth st" "cs_witnesses st1 = cs_witnesses st" "windows_ok (cs_frames st1)"
    by blast+
qed

lemma machine_call_facts:
  assumes "vm_inv m" "machine_call f cnt dst args m = Ok m1"
  obtains base where "unat base = rf_top (m_registers m)"
    "cs_frames (m_stack m1) = cs_frames (m_stack m) @
       [call_frame_new f base cnt (stack_pc (m_stack m)) dst (stack_reg_base (m_stack m))]"
    "vm_inv m1" "rf_top (m_registers m1) = rf_top (m_registers m) + unat cnt"
    "\<And>i. i < rf_top (m_registers m) \<Longrightarrow> rf_registers (m_registers m1) ! i = rf_registers (m_registers m) ! i"
    "cs_witnesses (m_stack m1) = cs_witnesses (m_stack m)" "cs_max_depth (m_stack m1) = cs_max_depth (m_stack m)"
proof -
  let ?fs = "cs_frames (m_stack m)" and ?rf = "m_registers m"
  from assms(1) have inv: "rf_inv ?rf" "windows_ok ?fs" "rf_top ?rf = window_end ?fs"
    "witnesses_ok (m_stack m)" "length ?fs \<le> cs_max_depth (m_stack m)"
    by (simp_all add: vm_inv_def)
  have fits: "window_end ?fs \<le> MAX_SIZE" "rf_top ?rf \<le> length (rf_registers ?rf)"
    using inv by (simp_all add: rf_inv_def)
  from assms(2) obtain base st b rf where p: "stack_push_frame f cnt (stack_pc (m_stack m)) dst (m_stack m) = Ok (base, st)"
    and r: "push_frame cnt ?rf = Ok (b, rf)"
    and m1: "m1 = \<lparr>m_stack = stack_set_pc 0 st,
      m_registers = fold (copy_argument (stack_reg_base (m_stack m)) base (range_start args)) [0..<unat (range_count args)] rf\<rparr>"
    by (auto simp: machine_call_def Let_def)
  note s = stack_push_facts [OF p inv(2) fits(1)]
  note g = push_frame_facts [OF inv(1) r]
  note c = copy_arguments_facts [of "stack_reg_base (m_stack m)" base "range_start args" "[0..<unat (range_count args)]" rf]
  have fr: "cs_frames (m_stack m1) = ?fs @ [call_frame_new f base cnt (stack_pc (m_stack m)) dst (stack_reg_base (m_stack m))]"
    using s(3) by (simp add: m1 stack_set_pc_def stack_current_def call_frame_new_def)
  show thesis
  proof (rule that [OF _ fr])
    show ub: "unat base = rf_top ?rf"
      using s(2) inv(3) by simp
    show "rf_top (m_registers m1) = rf_top ?rf + unat cnt"
      using c g(3) by (simp add: m1)
    show "cs_witnesses (m_stack m1) = cs_witnesses (m_stack m)" "cs_max_depth (m_stack m1) = cs_max_depth (m_stack m)"
      by (simp_all add: m1 s)
    show "vm_inv m1"
      using c g(1,3) s inv(3,4) unfolding vm_inv_def
      by (simp add: m1 call_frame_new_def witnesses_ok_def) (force intro: le_SucI)
    show "rf_registers (m_registers m1) ! i = rf_registers ?rf ! i" if "i < rf_top ?rf" for i
      using that c g(4) g(7) [of i] ub fits inv(3) by (simp add: m1)
  qed
qed

lemma sorted_pop_while:
  assumes "sorted (map fst ws)"
  shows "pop_while (\<lambda>(d, _). n < d) ws = filter (\<lambda>(d, _). d \<le> n) ws"
  using assms
proof (induction ws rule: rev_induct)
  case (snoc w ws)
  have "filter (\<lambda>p. fst p \<le> n) ws = ws" if "fst w \<le> n"
    using that snoc.prems by (intro filter_True) (auto simp: sorted_append)
  with snoc show ?case
    by (cases "n < fst w") (auto simp: pop_while_def sorted_append case_prod_beta)
qed (simp add: pop_while_def)

lemma stack_pop_witnesses:
  assumes "witnesses_ok st" "stack_pop_frame st = Ok (f, st1)"
  shows "witnesses_ok st1" "cs_frames st = cs_frames st1 @ [f]" "cs_max_depth st1 = cs_max_depth st"
    "cs_witnesses st1 = filter (\<lambda>(d, _). d \<le> length (cs_frames st1)) (cs_witnesses st)"
proof -
  have ne: "cs_frames st \<noteq> []" and f: "f = last (cs_frames st)"
    and st1: "st1 = st\<lparr>cs_frames := butlast (cs_frames st),
      cs_witnesses := pop_while (\<lambda>(d, _). length (butlast (cs_frames st)) < d) (cs_witnesses st)\<rparr>"
    using assms(2) by (auto simp: stack_pop_frame_def Let_def split: if_splits)
  have so: "sorted (map fst (cs_witnesses st))"
    using assms(1) by (simp add: witnesses_ok_def)
  show "cs_frames st = cs_frames st1 @ [f]" "cs_max_depth st1 = cs_max_depth st"
    using ne by (simp_all add: st1 f)
  show w: "cs_witnesses st1 = filter (\<lambda>(d, _). d \<le> length (cs_frames st1)) (cs_witnesses st)"
    by (simp add: st1 sorted_pop_while [OF so])
  show "witnesses_ok st1"
    unfolding witnesses_ok_def w using so by (auto intro: sorted_filter)
qed

lemma machine_return_facts:
  assumes "vm_inv m" "machine_return v m = Ok (w, m1)" "cs_frames (m_stack m) = fs @ [g, f]"
  shows "w = None" "vm_inv m1" "cs_frames (m_stack m1) = fs @ [g\<lparr>cf_pc := cf_return_pc f\<rparr>]"
    "rf_top (m_registers m1) = unat (cf_reg_base f)"
    "cs_max_depth (m_stack m1) = cs_max_depth (m_stack m)"
    "\<And>i. i < rf_top (m_registers m) \<Longrightarrow> rf_registers (m_registers m1) ! i =
       (if i = slot_of (cf_reg_base g) (cf_return_reg f) then v else rf_registers (m_registers m) ! i)"
proof -
  let ?rf = "m_registers m"
  from assms(1,3) have inv: "rf_inv ?rf" "windows_ok ((fs @ [g]) @ [f])" "rf_top ?rf = window_end ((fs @ [g]) @ [f])"
    "witnesses_ok (m_stack m)" "length (cs_frames (m_stack m)) \<le> cs_max_depth (m_stack m)"
    by (simp_all add: vm_inv_def)
  obtain st where p: "stack_pop_frame (m_stack m) = Ok (f, st)"
    using assms(3) by (simp add: stack_pop_frame_def Let_def)
  note s = stack_pop_witnesses [OF inv(4) p]
  have fr: "cs_frames st = fs @ [g]"
    using s(2) assms(3) by simp
  from assms(2) obtain rf where r: "pop_frame (cf_reg_base f) ?rf = Ok rf" and w: "w = None"
    and m1: "m1 = \<lparr>m_stack = stack_set_pc (cf_return_pc f) st,
      m_registers = reg_set (cf_caller_base f) (cf_return_reg f) v rf\<rparr>"
    by (auto simp: machine_return_def p stack_is_empty_def fr)
  note q = pop_frame_facts [OF inv(1) r]
  have cb: "cf_caller_base f = cf_reg_base g" "unat (cf_reg_base f) = window_end (fs @ [g])" "windows_ok (fs @ [g])"
    using inv(2) unfolding windows_ok_snoc [of "fs @ [g]"] by simp_all
  show "w = None" by (rule w)
  show "cs_frames (m_stack m1) = fs @ [g\<lparr>cf_pc := cf_return_pc f\<rparr>]"
    by (simp add: m1 stack_set_pc_def stack_current_def fr)
  show "rf_top (m_registers m1) = unat (cf_reg_base f)" "cs_max_depth (m_stack m1) = cs_max_depth (m_stack m)"
    using q s by (simp_all add: m1)
  show "vm_inv m1"
    using q s(1,3) cb inv(5) assms(3) fr unfolding vm_inv_def by (simp add: m1 del: windows_ok_snoc window_end_simps)
  show "rf_registers (m_registers m1) ! i =
      (if i = slot_of (cf_reg_base g) (cf_return_reg f) then v else rf_registers ?rf ! i)" if "i < rf_top ?rf" for i
    using that q inv(1) by (simp add: m1 cb rf_inv_def)
qed

lemma windows_disjoint:
  assumes "windows_ok fs" "j < k" "k < length fs"
  shows "unat (cf_reg_base (fs ! j)) + unat (cf_reg_count (fs ! j)) \<le> unat (cf_reg_base (fs ! k))"
proof -
  have "window_end (take (Suc j) fs) = window_end (take j fs) + unat (cf_reg_count (fs ! j))"
    using assms(2,3) by (simp add: take_Suc_conv_app_nth)
  moreover have "window_end (take (Suc j) (take k fs)) \<le> window_end (take k fs)"
    by (rule window_end_mono)
  ultimately show ?thesis
    using assms by (simp add: windows_ok_def min_absorb1)
qed

lemma windows_mono: "windows_ok fs \<Longrightarrow> j \<le> k \<Longrightarrow> k < length fs \<Longrightarrow> unat (cf_reg_base (fs ! j)) \<le> unat (cf_reg_base (fs ! k))"
  using windows_disjoint [of fs j k] by (cases "j = k") auto

lemma windows_below_top: "windows_ok fs \<Longrightarrow> k < length fs \<Longrightarrow> unat (cf_reg_base (fs ! k)) \<le> window_end fs"
  using window_end_mono [of k fs] by (simp add: windows_ok_def)

lemma vm_inv_registers:
  "vm_inv m \<Longrightarrow> rf_inv rf \<Longrightarrow> rf_top rf = rf_top (m_registers m) \<Longrightarrow> vm_inv (m\<lparr>m_registers := rf\<rparr>)"
  by (simp add: vm_inv_def)

lemma vm_inv_set_pc: "vm_inv m \<Longrightarrow> vm_inv (m\<lparr>m_stack := stack_set_pc p (m_stack m)\<rparr>)"
  by (simp add: vm_inv_def)

lemma vm_inv_witnesses:
  assumes "vm_inv m"
  shows "vm_inv (m\<lparr>m_stack := set_generic_witnesses ws (m_stack m)\<rparr>)"
    "vm_inv (m\<lparr>m_stack := clear_current_generic_witnesses (m_stack m)\<rparr>)"
proof -
  have w: "witnesses_ok (m_stack m)"
    using assms by (simp add: vm_inv_def)
  have "witnesses_ok (set_generic_witnesses ws (m_stack m))"
    using w by (auto simp: witnesses_ok_def set_generic_witnesses_def sorted_append)
  moreover have "witnesses_ok (clear_current_generic_witnesses (m_stack m))"
  proof -
    define ps where "ps = pop_while (\<lambda>(d, _). d = length (cs_frames (m_stack m))) (cs_witnesses (m_stack m))"
    obtain zs where z: "cs_witnesses (m_stack m) = ps @ zs"
      unfolding ps_def pop_while_def by (metis rev_append rev_rev_ident takeWhile_dropWhile_id)
    have "cs_witnesses (clear_current_generic_witnesses (m_stack m)) = ps"
      "cs_frames (clear_current_generic_witnesses (m_stack m)) = cs_frames (m_stack m)"
      by (simp_all add: clear_current_generic_witnesses_def ps_def)
    then show ?thesis
      using w z by (simp add: witnesses_ok_def sorted_append)
  qed
  ultimately show "vm_inv (m\<lparr>m_stack := set_generic_witnesses ws (m_stack m)\<rparr>)"
    "vm_inv (m\<lparr>m_stack := clear_current_generic_witnesses (m_stack m)\<rparr>)"
    using assms by (simp_all add: vm_inv_def set_generic_witnesses_def clear_current_generic_witnesses_def)
qed

text \<open>
  What the callee of a call does until it returns: it calls and returns itself, writes registers of the
  current frame under whatever register operands its code has, ends scopes, jumps and is given
  witnesses. Writes through references are writes to another's registers on purpose, and left out.
\<close>

inductive callee_run :: "nat \<Rightarrow> 'w machine \<Rightarrow> 'w machine \<Rightarrow> bool" for d :: nat and m0 :: "'w machine" where
  callee_start: "callee_run d m0 m0"
| callee_call: "callee_run d m0 m \<Longrightarrow> machine_call f cnt dst args m = Ok m1 \<Longrightarrow> callee_run d m0 m1"
| callee_return: "callee_run d m0 m \<Longrightarrow> Suc d < length (cs_frames (m_stack m)) \<Longrightarrow>
    machine_return v m = Ok (w, m1) \<Longrightarrow> callee_run d m0 m1"
| callee_write: "callee_run d m0 m \<Longrightarrow> callee_run d m0 (machine_set_reg r v m)"
| callee_scope: "callee_run d m0 m \<Longrightarrow> bump_generation i (m_registers m) = Ok rf \<Longrightarrow> callee_run d m0 (m\<lparr>m_registers := rf\<rparr>)"
| callee_jump: "callee_run d m0 m \<Longrightarrow> callee_run d m0 (m\<lparr>m_stack := stack_set_pc p (m_stack m)\<rparr>)"
| callee_witnesses: "callee_run d m0 m \<Longrightarrow> callee_run d m0 (m\<lparr>m_stack := set_generic_witnesses ws (m_stack m)\<rparr>)"

definition protects :: "nat \<Rightarrow> 'w machine \<Rightarrow> 'w machine \<Rightarrow> bool" where
  "protects d m0 m =
     (vm_inv m \<and> d < length (cs_frames (m_stack m)) \<and>
      take d (cs_frames (m_stack m)) = take d (cs_frames (m_stack m0)) \<and>
      (cs_frames (m_stack m) ! d)\<lparr>cf_pc := 0\<rparr> = (cs_frames (m_stack m0) ! d)\<lparr>cf_pc := 0\<rparr> \<and>
      (\<forall>i < unat (cf_reg_base (cs_frames (m_stack m0) ! d)).
         rf_registers (m_registers m) ! i = rf_registers (m_registers m0) ! i))"

lemma same_base: "f\<lparr>cf_pc := 0\<rparr> = g\<lparr>cf_pc := 0\<rparr> \<Longrightarrow> cf_reg_base f = cf_reg_base g \<and> cf_return_reg f = cf_return_reg g \<and>
   cf_return_pc f = cf_return_pc g \<and> cf_caller_base f = cf_caller_base g"
  by (cases f, cases g) simp

lemma protects_bounds:
  assumes "protects d m0 m"
  shows "unat (cf_reg_base (cs_frames (m_stack m0) ! d)) \<le> unat (stack_reg_base (m_stack m))"
    "unat (cf_reg_base (cs_frames (m_stack m0) ! d)) \<le> rf_top (m_registers m)"
    "unat (stack_reg_base (m_stack m)) \<le> MAX_SIZE" "rf_top (m_registers m) \<le> length (rf_registers (m_registers m))"
proof -
  let ?fs = "cs_frames (m_stack m)"
  from assms have w: "windows_ok ?fs" "d < length ?fs" "rf_top (m_registers m) = window_end ?fs" "rf_inv (m_registers m)"
    and b: "cf_reg_base (cs_frames (m_stack m0) ! d) = cf_reg_base (?fs ! d)"
    by (auto simp: protects_def vm_inv_def dest: same_base)
  have l: "stack_reg_base (m_stack m) = cf_reg_base (?fs ! (length ?fs - 1))"
    using w(2) by (auto simp: stack_reg_base_def stack_current_def last_conv_nth)
  show "unat (cf_reg_base (cs_frames (m_stack m0) ! d)) \<le> unat (stack_reg_base (m_stack m))"
    using windows_mono [OF w(1), of d "length ?fs - 1"] w(2) by (simp add: b l)
  show "unat (cf_reg_base (cs_frames (m_stack m0) ! d)) \<le> rf_top (m_registers m)"
    using windows_below_top [OF w(1,2)] by (simp add: b w(3))
  show "unat (stack_reg_base (m_stack m)) \<le> MAX_SIZE" "rf_top (m_registers m) \<le> length (rf_registers (m_registers m))"
    using windows_below_top [OF w(1), of "length ?fs - 1"] w(2,3,4) unfolding l rf_inv_def by linarith+
qed

lemma protects_call:
  assumes "protects d m0 m" "machine_call f cnt dst args m = Ok m1"
  shows "protects d m0 m1"
proof -
  have inv: "vm_inv m"
    using assms(1) by (simp add: protects_def)
  note b = protects_bounds [OF assms(1)]
  from machine_call_facts [OF inv assms(2)] obtain base where
    c: "cs_frames (m_stack m1) = cs_frames (m_stack m) @
       [call_frame_new f base cnt (stack_pc (m_stack m)) dst (stack_reg_base (m_stack m))]" "vm_inv m1"
    "\<And>i. i < rf_top (m_registers m) \<Longrightarrow> rf_registers (m_registers m1) ! i = rf_registers (m_registers m) ! i"
    by metis
  show ?thesis
    using assms(1) c(2) b(2) unfolding protects_def c(1) by (auto simp: nth_append c(3))
qed

lemma protects_return:
  assumes "protects d m0 m" "Suc d < length (cs_frames (m_stack m))" "machine_return v m = Ok (w, m1)"
  shows "protects d m0 m1"
proof -
  obtain fs g f where fr: "cs_frames (m_stack m) = fs @ [g, f]"
  proof (cases "cs_frames (m_stack m)" rule: rev_cases)
    case (snoc gs f)
    then show thesis
      using that assms(2) by (cases gs rule: rev_cases) auto
  qed (use assms(2) in simp)
  have inv: "vm_inv m"
    using assms(1) by (simp add: protects_def)
  note r = machine_return_facts [OF inv assms(3) fr]
  let ?B = "unat (cf_reg_base (cs_frames (m_stack m0) ! d))"
  have d: "d \<le> length fs"
    using assms(2) fr by simp
  have w: "windows_ok (fs @ [g, f])" "rf_top (m_registers m) \<le> MAX_SIZE"
    using inv fr by (simp_all add: vm_inv_def rf_inv_def del: windows_ok_two)
  have B: "?B = unat (cf_reg_base ((fs @ [g, f]) ! d))"
    using assms(1) fr by (auto simp: protects_def dest: same_base)
  have "?B \<le> unat (cf_reg_base g)"
    using windows_mono [OF w(1) d] by (simp add: B)
  moreover have "unat (cf_reg_base g) \<le> MAX_SIZE"
    using windows_below_top [OF w(1), of "length fs"] w(2) inv fr by (simp add: vm_inv_def)
  ultimately have s: "slot_of (cf_reg_base g) (cf_return_reg f) \<ge> ?B"
    by (simp add: slot_of_above)
  have regs: "rf_registers (m_registers m1) ! i = rf_registers (m_registers m0) ! i" if "i < ?B" for i
    using that s r(6) [of i] protects_bounds(2) [OF assms(1)] assms(1) by (auto simp: protects_def)
  have "(cs_frames (m_stack m1) ! d)\<lparr>cf_pc := 0\<rparr> = (cs_frames (m_stack m) ! d)\<lparr>cf_pc := 0\<rparr>"
    using d unfolding r(3) fr by (cases "d = length fs") (simp_all add: nth_append)
  moreover have "take d (cs_frames (m_stack m1)) = take d (cs_frames (m_stack m))"
    using d unfolding r(3) fr by simp
  ultimately show ?thesis
    using assms(1) r(2) regs d unfolding protects_def by (simp add: r(3))
qed

lemma protects_write: "protects d m0 m \<Longrightarrow> protects d m0 (machine_set_reg r v m)"
  using protects_bounds [of d m0 m] slot_of_above [of "stack_reg_base (m_stack m)" r]
  by (auto simp: protects_def machine_set_reg_def vm_inv_def)

lemma protects_jump: 
  assumes "protects d m0 m"
  shows "protects d m0 (m\<lparr>m_stack := stack_set_pc p (m_stack m)\<rparr>)"
proof -
  have inv: "vm_inv (m\<lparr>m_stack := stack_set_pc p (m_stack m)\<rparr>)"
    using assms by (simp add: protects_def vm_inv_set_pc)
  obtain fs f where fr: "cs_frames (m_stack m) = fs @ [f]" "d \<le> length fs"
    using assms by (cases "cs_frames (m_stack m)" rule: rev_cases) (auto simp: protects_def)
  have e: "cs_frames (stack_set_pc p (m_stack m)) = fs @ [f\<lparr>cf_pc := p\<rparr>]"
    by (simp add: stack_set_pc_def stack_current_def fr)
  have "((fs @ [f\<lparr>cf_pc := p\<rparr>]) ! d)\<lparr>cf_pc := 0\<rparr> = ((fs @ [f]) ! d)\<lparr>cf_pc := 0\<rparr>"
    using fr(2) by (cases "d = length fs") (simp_all add: nth_append)
  with assms inv fr show ?thesis
    unfolding protects_def by (simp add: e)
qed

lemma callee_run_protects: "callee_run d m0 m \<Longrightarrow> protects d m0 m0 \<Longrightarrow> protects d m0 m"
proof (induction rule: callee_run.induct)
  case (callee_scope m i rf)
  then have p: "protects d m0 m" by simp
  then have inv: "vm_inv m"
    by (simp add: protects_def)
  then have "rf_inv (m_registers m)"
    by (simp add: vm_inv_def)
  note b = bump_generation_facts [OF this callee_scope.hyps(2)]
  with p inv show ?case
    by (simp add: protects_def vm_inv_registers)
next
  case (callee_witnesses m ws)
  then have p: "protects d m0 m" by simp
  then have "vm_inv (m\<lparr>m_stack := set_generic_witnesses ws (m_stack m)\<rparr>)"
    by (simp add: protects_def vm_inv_witnesses)
  with p show ?case
    by (simp add: protects_def set_generic_witnesses_def)
qed (blast intro: protects_call protects_return protects_write protects_jump)+


lemma machine_return_total: "vm_inv m \<Longrightarrow> \<exists>w m1. machine_return v m = Ok (w, m1)"
proof (cases "cs_frames (m_stack m)" rule: rev_cases)
  case (snoc fs f)
  assume "vm_inv m"
  with snoc have "unat (cf_reg_base f) \<le> rf_top (m_registers m)"
    by (simp add: vm_inv_def)
  with snoc show ?thesis
    by (simp add: machine_return_def stack_pop_frame_def pop_frame_def Let_def)
qed (simp add: machine_return_def stack_pop_frame_def)

definition sample_machine :: "nat machine" where
  "sample_machine =
     \<lparr>m_stack = \<lparr>cs_frames = [call_frame_new 0 0 2 0 (Reg 0) 0], cs_max_depth = 4, cs_witnesses = []\<rparr>,
      m_registers = sample_registers\<rparr>"

lemma sample_vm_inv: "vm_inv sample_machine"
  by (simp add: vm_inv_def sample_machine_def sample_registers_def rf_inv_def MAX_SIZE_def windows_ok_def
    window_end_def call_frame_new_def witnesses_ok_def)


subsection \<open>Every state of the machine\<close>

text \<open>The states reached by calls, returns, writes of every kind, scope ends, jumps and witnesses.\<close>

inductive machine_reach :: "nat \<Rightarrow> nat \<Rightarrow> 'w machine \<Rightarrow> bool" for n :: nat and c :: nat where
  reach_start: "machine_reach n c \<lparr>m_stack = stack_with_max_depth n, m_registers = with_capacity c\<rparr>"
| reach_call: "machine_reach n c m \<Longrightarrow> machine_call f cnt dst args m = Ok m1 \<Longrightarrow> machine_reach n c m1"
| reach_return: "machine_reach n c m \<Longrightarrow> machine_return v m = Ok (w, m1) \<Longrightarrow> machine_reach n c m1"
| reach_write: "machine_reach n c m \<Longrightarrow> register_write (m_registers m) rf \<Longrightarrow> machine_reach n c (m\<lparr>m_registers := rf\<rparr>)"
| reach_scope: "machine_reach n c m \<Longrightarrow> bump_generation i (m_registers m) = Ok rf \<Longrightarrow> machine_reach n c (m\<lparr>m_registers := rf\<rparr>)"
| reach_jump: "machine_reach n c m \<Longrightarrow> machine_reach n c (m\<lparr>m_stack := stack_set_pc p (m_stack m)\<rparr>)"
| reach_witnesses: "machine_reach n c m \<Longrightarrow> machine_reach n c (m\<lparr>m_stack := set_generic_witnesses ws (m_stack m)\<rparr>)"
| reach_clear_witnesses:
    "machine_reach n c m \<Longrightarrow> machine_reach n c (m\<lparr>m_stack := clear_current_generic_witnesses (m_stack m)\<rparr>)"

lemma machine_return_inv:
  assumes "vm_inv m" "machine_return v m = Ok (w, m1)"
  shows "vm_inv m1 \<and> cs_max_depth (m_stack m1) = cs_max_depth (m_stack m)"
proof (cases "cs_frames (m_stack m)" rule: rev_cases)
  case Nil
  with assms show ?thesis
    by (auto simp: machine_return_def stack_pop_frame_def)
next
  case (snoc gs f)
  show ?thesis
  proof (cases gs rule: rev_cases)
    case (snoc fs g)
    with \<open>cs_frames (m_stack m) = gs @ [f]\<close> have "cs_frames (m_stack m) = fs @ [g, f]"
      by simp
    from machine_return_facts(2,5) [OF assms this] show ?thesis
      by simp
  next
    case Nil
    with snoc assms(1) have f: "cs_frames (m_stack m) = [f]" "cf_reg_base f = 0" "rf_inv (m_registers m)" "witnesses_ok (m_stack m)"
      by (simp_all add: vm_inv_def windows_ok_def unat_eq_0)
    then obtain st where p: "stack_pop_frame (m_stack m) = Ok (f, st)"
      by (simp add: stack_pop_frame_def Let_def)
    note s = stack_pop_witnesses [OF f(4) p]
    from assms(2) s(2) f(1) obtain rf where r: "pop_frame 0 (m_registers m) = Ok rf" and "m1 = \<lparr>m_stack = st, m_registers = rf\<rparr>"
      by (auto simp: machine_return_def p stack_is_empty_def f(2))
    with pop_frame_facts [OF f(3) r] s f(1) show ?thesis
      by (simp add: vm_inv_def)
  qed
qed

lemma machine_reach_inv: "machine_reach n c m \<Longrightarrow> vm_inv m \<and> cs_max_depth (m_stack m) = n"
proof (induction rule: machine_reach.induct)
  case reach_start
  show ?case
    by (simp add: vm_inv_def stack_with_max_depth_def witnesses_ok_def) (simp add: with_capacity_def)
next
  case (reach_call m f cnt dst args m1)
  with machine_call_facts [of m f cnt dst args m1] show ?case by metis
next
  case (reach_return m v w m1)
  with machine_return_inv [of m v w m1] show ?case by simp
next
  case (reach_write m rf)
  with register_write_facts [of "m_registers m" rf] show ?case
    by (simp add: vm_inv_registers vm_inv_def)
next
  case (reach_scope m i rf)
  then have "rf_inv (m_registers m)" by (simp add: vm_inv_def)
  from bump_generation_facts(1,4) [OF this reach_scope.hyps(2)] reach_scope show ?case
    by (simp add: vm_inv_registers)
next
  case (reach_jump m p)
  then show ?case by (simp add: vm_inv_set_pc)
next
  case (reach_witnesses m ws)
  then show ?case by (simp add: vm_inv_witnesses) (simp add: set_generic_witnesses_def)
next
  case (reach_clear_witnesses m)
  then show ?case by (simp add: vm_inv_witnesses) (simp add: clear_current_generic_witnesses_def)
qed



text \<open>Resetting the machine keeps the tables of generic witnesses: after a reset, a frame at the depth of one
  that had witnesses before is given that table, although it belongs to a frame of the run before.\<close>

theorem reset_leaves_witnesses:
  assumes "0 < cs_max_depth st" "length (cs_frames st) = 1"
  shows "current_generic_witnesses (set_generic_witnesses ws st) = Some ws \<and>
    (\<exists>b st1. stack_push_frame f cnt pc dst (stack_clear (set_generic_witnesses ws st)) = Ok (b, st1) \<and>
       current_generic_witnesses st1 = Some ws)"
  using assms by (simp add: current_generic_witnesses_def set_generic_witnesses_def stack_clear_def stack_push_frame_def)

theorem reset_leaves_witnesses_witness:
  "\<exists>b st1. stack_push_frame 9 1 0 (Reg 0) (stack_clear (set_generic_witnesses (42 :: nat) (m_stack sample_machine))) = Ok (b, st1) \<and>
     current_generic_witnesses st1 = Some 42"
  using reset_leaves_witnesses [of "m_stack sample_machine" 42 9 1 0 "Reg 0"] by (simp add: sample_machine_def)

end
