(* ===== verification/Spec2Isabelle.thy ===== *)
theory Spec2Isabelle
  imports NbeInductive LeanReader CommandLine UniverseAscent BytecodeCodecs CbgrHeap CallStack
begin

text \<open>
  \<^bold>\<open>The native proof checker of Verum and the base of its virtual machine\<close>

  The crate \<open>crates/verum_proof\<close> decides whether a serialized certificate proves its claim. It is
  the trusted core of the repository: everything else may produce a certificate, only this crate
  accepts one. This library models the crate and proves what an acceptance means. Its second part
  models what the virtual machine for compiled programs (\<open>crates/verum_vbc\<close>) is built on: the encoding
  of bytecode, the representation of values and the references checked by generation.

  \<^bold>\<open>The program.\<close> Bytes enter \<open>admission::replay_with_limits\<close>: the policy is validated
  (\<open>limits.rs\<close>), the JSON envelope is scanned, a strict decoder yields a judgment (profile, statement,
  certificate), its structure is admitted within node and depth budgets, and the certificate is
  verified twice, by explicit substitution (\<open>proof_checker.rs\<close>) and by normalisation by evaluation
  (\<open>proof_checker_nbe.rs\<close>). Any failure becomes a report with a diagnostic; only when all stages pass
  is the report accepting. The executable (\<open>main.rs\<close>) does not run this in its own process: a
  supervisor (\<open>process.rs\<close>) launches a copy of the program as a worker under operating-system
  ceilings, polls it against a wall-clock and a memory budget, validates the report it leaves behind
  and turns the outcome into an exit status. A second mode prints a judgment as Lean source
  (\<open>lean_export.rs\<close>) for an independent check.

  A program that is run instead of proved reaches the virtual machine as bytecode, whose integers,
  registers and strings \<open>encoding.rs\<close> writes and reads. At run time every value is one word
  (\<open>value.rs\<close>), with larger payloads in side tables. Objects live on a heap (\<open>cbgr_heap.rs\<close>) behind
  headers with a generation and an epoch (\<open>verum_common/src/cbgr.rs\<close>); a reference carries the pair it
  was made with, and every use compares the two. Calls take windows of registers from one array
  (\<open>registers.rs\<close>, \<open>stack.rs\<close>), whose slots carry generations of their own.

  \<^bold>\<open>The theories.\<close>
  \<^item> \<open>Prelude\<close>: Rust's checked and saturating integers, orderings and sorting, \<open>Result\<close> with the
    question mark and loops as the type \<open>run\<close>, and the order \<open>run_le\<close> for recursion bounds.
  \<^item> \<open>Levels\<close>: \<open>Level\<close> and its operations; exact arithmetic, soundness and (closed) completeness of
    level equality, and that \<open>normalize\<close> is not idempotent, although documented so.
  \<^item> \<open>Terms\<close>: \<open>Term\<close>, \<open>DataField\<close>, \<open>DataConstructor\<close>, \<open>map_children\<close>, \<open>map_variables\<close>, \<open>shift_up\<close>,
    \<open>shift_down\<close>, \<open>subst\<close>, \<open>contains_free_by\<close>; every traversal is the generic one (locale
    \<open>traversal\<close>), the substitution calculus, round trips and scopes, and that the shift at machine
    width (\<open>shift_up_usize\<close>) is the shift on natural numbers for every term in scope.
  \<^item> \<open>Telescopes\<close>: \<open>instantiate_fields\<close>, \<open>field_domain\<close>, \<open>rebind_fields\<close>, \<open>induction_case_type\<close>;
    instantiation is simultaneous substitution and branch types are well scoped.
  \<^item> \<open>Contexts\<close>: \<open>Foundation\<close>, \<open>CheckError\<close>, \<open>Context\<close>; the interface \<open>environment\<close> and that every
    context the checker can build returns what was entered.
  \<^item> \<open>Conversion\<close>: \<open>whnf_fuel\<close>, \<open>def_eq\<close> and their helpers; the budget counts the
    heads visited exactly, normalisation is total and idempotent, equality is symmetric.
  \<^item> \<open>ConvSpec\<close>: the declarative congruence \<open>conv\<close>; reduction and \<open>def_eq\<close> are sound for it.
  \<^item> \<open>Checker\<close>: \<open>infer\<close>, \<open>check\<close>, \<open>check_against\<close>, \<open>Certificate\<close>, one definition per arm.
  \<^item> \<open>Typing\<close>: the typing rules as the inductive judgement \<open>has_type\<close>; the checker derives what it
    accepts (locale \<open>sound_calls\<close>), accepted certificates are closed and respect the foundation.
  \<^item> \<open>Limits\<close>, \<open>Envelope\<close>, \<open>Admission\<close>: the policy, the envelope scan and its grammar, structural
    admission, error classification, decoding and replay.
  \<^item> \<open>Nbe\<close>, \<open>NbeChecker\<close>: the second checker: values, closures, \<open>eval\<close>, \<open>quote\<close>, \<open>def_eq\<close>,
    \<open>NbeContext\<close>, \<open>infer_value\<close>, \<open>check_value\<close>, \<open>verify_certificate\<close>.
  \<^item> \<open>Stability\<close>: \<open>conv\<close> is stable under shifting and instantiation.
  \<^item> \<open>Denotation\<close>: the term a value stands for at a level (\<open>emb\<close>), the well-formed values (\<open>vok\<close>), and
    that captured closures denote what closures over the whole environment would.
  \<^item> \<open>NbeSpec\<close>: evaluation, readback and conversion on values are sound for \<open>conv\<close> (locales
    \<open>sound_evaluation\<close>, \<open>sound_quote\<close>, \<open>sound_veq\<close>, interpreted at every bound).
  \<^item> \<open>Weakening\<close>: typing derivations move along insertions of entries anywhere in a context.
  \<^item> \<open>NbeVars\<close>, \<open>NbeScope\<close>: evaluation and the second checker never mention a variable level that is
    not bound (locales \<open>confined_eval\<close>, \<open>scoped_calls\<close>).
  \<^item> \<open>NbeTyping\<close>, \<open>NbeInductive\<close>: the second checker derives what it accepts in the same judgement
    \<open>has_type\<close> (locale \<open>sound_nbe\<close>, interpreted on the model at every bound), inductive families
    included; each checker alone is therefore sufficient.
  \<^item> \<open>Decimal\<close>: printing and reading of unsigned integers and their round trip.
  \<^item> \<open>Worker\<close>: \<open>process.rs\<close>: \<open>effective_limits\<close>, \<open>install_limits\<close>, the worker, the polling loop of
    \<open>run_worker_command\<close> (\<open>poll_once\<close>, \<open>monitor\<close>), \<open>validate_worker_report\<close> and the supervisor
    (\<open>supervise\<close>, in the code another \<open>replay_with_limits\<close>); the ceilings in force are the ones in the
    receipt, the loop ends, an accepting report was earned and process failures are no verdicts.
  \<^item> \<open>LeanExport\<close>, \<open>LeanReader\<close>: the encoder of \<open>lean_export.rs\<close> to the byte; which judgments have
    Lean source, that names of the input never reach it, and a reader that recovers the judgment.
  \<^item> \<open>CommandLine\<close>: \<open>main.rs\<close>: the option parser and the modes of \<open>main\<close>; parsing inverts printing,
    and a zero exit status of a check goes back to an accepting run of the pipeline.
  \<^item> \<open>Ordinals\<close>, \<open>UniverseAscent\<close>: two self-contained parts of the compiler's rule-based kernel
    (\<open>crates/verum_kernel\<close>): \<open>ordinal.rs\<close>, where comparison decides the order of values on ordinals
    without suprema and goes wrong with them, and \<open>universe_ascent.rs\<close> with its audit trail, where the
    extended rule is conservative over the three-tier rule and every admit leaves an audit entry.
  \<^item> \<open>Bytecode\<close>, \<open>BytecodeCodecs\<close>: \<open>encoding.rs\<close>: encoders and decoders over a byte list and an offset,
    the stream variants over any reader and writer (locales \<open>byte_source\<close>, \<open>byte_sink\<close>); each pair is a
    \<open>codec\<close>, so sequences of values are read back; the integer decoder agrees with unbounded arithmetic
    on every input, no decoder leaves the data, and the size functions are exact.
  \<^item> \<open>Cbgr\<close>: \<open>cbgr.rs\<close>: both headers, one definition per atomic operation of increment and validation,
    and threads that interleave; the counter is refined by every interleaving and stale references are
    detected, except across a wrap of the packed header, inside the window of a wrap and when an
    invalidated header is incremented again (locale \<open>generational\<close>, interpreted on both headers).
  \<^item> \<open>CbgrHeap\<close>: \<open>cbgr_heap.rs\<close> over a memory of headers, metadata and contents, with the step relation
    \<open>heap_step\<close>; the accounting invariant, and that use after free is reported for good.
  \<^item> \<open>RuntimeValue\<close>: \<open>value.rs\<close>: layout, constructors, tests, accessors and side tables; every word has
    exactly one kind, every constructor is read back (locale \<open>table_store\<close>, interpreted on the four
    tables), and attenuation only removes capabilities.
  \<^item> \<open>Registers\<close>: \<open>registers.rs\<close> and the register references of \<open>cbgr_helpers.rs\<close>: frames of registers in
    one array with a generation for every slot; a reference is told from its successors, but the
    generation that means unchecked is one that slots reach.
  \<^item> \<open>CallStack\<close>: \<open>stack.rs\<close> with the call and return of the interpreter over both: call depth and register
    windows keep their bounds and stay disjoint, and a call leaves the registers of its callers alone.
  \<^item> \<open>Spec2Isabelle\<close>: the pipeline with both checkers in place and the verdict of the whole program.

  \<^bold>\<open>Bounds.\<close> The only budget of the code is \<open>WHNF_FUEL_CEILING\<close>, 2 to the 20 heads visited (contracted or found
  normal) per normalisation; it is an argument of \<open>whnf_fuel\<close> and stays as it is. The recursion of \<open>def_eq\<close>,
  \<open>infer\<close>, \<open>check_against\<close>, \<open>eval\<close>, \<open>quote\<close> and \<open>check_value\<close> has no budget in the code and, on
  ill-typed input, may not end; there the model takes a bound on the depth of recursion and answers
  \<open>NoFuel\<close> when it is reached. No bound is fixed anywhere: every theorem is stated for all bounds,
  and a larger bound never changes an answer (\<open>verify_stable\<close>, \<open>verify_certificate_stable\<close>). Loops
  that end (\<open>whnf_fuel\<close>, \<open>split_family\<close>, the admission loop, the envelope scan) are total functions.
  The polling loop of the supervisor ends only because time passes: \<open>monitor\<close> is a partial function
  of the observations, shown to return when the sleep between two of them takes its time. The loops
  of the integer decoders end after ten bytes and are total. A reference is told from its successors
  as long as the epoch, stored in 16 bits, advances fewer than 65536 times; the side tables hold 2 to
  the 44 entries (2 to the 45 fat references), and the round trips assume room for one more.

  \<^bold>\<open>Assumptions.\<close> De Bruijn indices and list lengths (\<open>usize\<close>) are natural numbers. In a release build
  their sums wrap, and the one that an index of the input reaches is that in \<open>shift_up\<close>:
  \<open>index_arithmetic_exact\<close> shows that it cannot for a term in scope that fits into memory. Admission
  establishes scope for the pipeline; the theorems about the substitution checker and its conversion on
  their own (\<open>certificate_sound\<close>, \<open>checker_sound\<close>, \<open>def_eq_sound\<close>) assume it. The second checker
  infers fields unshifted and turns indices into levels. Level constants are 32-bit words. The JSON decoder (serde) and the
  source hash \<open>checker_identity\<close> are arguments without hypotheses. The operating system is an
  argument of \<open>Worker\<close> and \<open>CommandLine\<close>; what is used of it are named hypotheses:
  \<open>posix_rlimits\<close> (lowering a limit succeeds and changes nothing else), \<open>sleeps\<close> (a sleep takes at
  least its time), \<open>runs_itself\<close> (a launched executable that exits with status zero wrote what
  \<open>main\<close> writes for the same arguments and input) and \<open>faithful_codecs\<close> (what decodes is what was
  encoded). Each has a concrete instance on which the theorem that uses it is applied. The second part
  is a release build, where unchecked arithmetic wraps and debug assertions are absent; its atomic
  operations are sequentially consistent; the system allocator is an argument of \<open>CbgrHeap\<close>
  that returns a new address each time, since the code never gives memory back; and \<open>heap_step\<close> keeps the set of handles their owner may still
  free, which is the contract of the unsafe \<open>free\<close>.

  \<^bold>\<open>Not modelled.\<close> In \<open>verum_proof\<close>: the serde implementations and the printing of diagnostics to
  standard error. Of the rule-based kernel everything but its ordinals, its universe-ascent rule and
  its bridge audit: it is another proof system, with terms and certificates of its own. Of the virtual machine:
  the instruction set with its handlers other than call and return, the code generator, the module format, and of the modelled
  files the rendering of values and the conversions between integers and floating-point numbers.
  Outside these: the compiler, the type system of the source language, code generation, the language
  server and the other crates. They produce certificates and programs, and take no part in accepting
  the former or in representing the latter.
\<close>

section \<open>The replay pipeline with both checkers\<close>

abbreviation native_replay ::
  "decoder \<Rightarrow> string \<Rightarrow> nat \<Rightarrow> nat \<Rightarrow> byte list \<Rightarrow> foundation \<Rightarrow> admission_limits \<Rightarrow> (unit, report) run" where
  "native_replay decode ci n m \<equiv>
     replay_with_limits decode ci (verify_with_foundation n) (verify_certificate_with_foundation m)"

lemma accepting_report:
  "replay_with_limits decode ci sub nbe bytes f lim = Ok r \<Longrightarrow> r_accepted r \<longleftrightarrow> r_outcome r = Accepted"
  using report_failure_fields [of ci f lim] decode_judgment_Err [of decode ci bytes f lim]
  by (auto simp: replay_with_limits_def accepted_report_def is_consistent_def split: run.splits)

lemma replay_accepts:
  "(\<exists>r. replay_with_limits decode ci sub nbe bytes f lim = Ok r \<and> r_accepted r) \<longleftrightarrow>
   (\<exists>j. decode_judgment decode ci bytes f lim = Ok j \<and> sub (j_certificate j) f = Ok () \<and>
        nbe (j_certificate j) f = Ok ())"
  using replay_accepted_iff [of decode ci sub nbe bytes f lim] accepting_report by blast

lemma replay_provable:
  assumes "native_replay decode ci n m bytes f lim = Ok r" and "r_outcome r = Accepted"
  obtains j where "decode_judgment decode ci bytes f lim = Ok j" "decode bytes = Some j" "j_profile j = profile_for f"
    "has_type f [] (cert_term (j_certificate j)) (j_statement j)" "\<exists>l. has_type f [] (j_statement j) (Universe l)"
proof -
  obtain j where j: "decode_judgment decode ci bytes f lim = Ok j"
    and v: "verify_with_foundation n (j_certificate j) f = Ok ()"
    using replay_accepted_iff [THEN iffD1] assms by blast
  with verify_sound [OF v] that show thesis by (auto simp: decode_judgment_Ok)
qed

lemma envelope_grammar:
  assumes "admission_valid lim"
  shows "json_envelope bytes (the (json_nesting_limit lim)) = Ok () \<longleftrightarrow>
    (\<exists>cs. without_strings bytes = Some cs \<and> nested (8 * (max_depth lim + 1) + 8) cs)"
  using assms by (auto simp: json_nesting_limit_eq admission_valid_def json_envelope_def
      json_loop_without_strings bracket_loop_iff split: if_splits option.splits)

text \<open>C2: Acceptance means provability: when the pipeline accepts some bytes, with any decoder, they
  are within the byte budget and, outside strings, within the nesting budget; they decode to one
  judgment of the requested profile, whose certificate claims exactly the statement; proof and
  statement are closed, each within the depth budget and together, the claim counted again, within the
  node budget; and the statement has a closed derivation by the proof in the declarative type system
  of the selected foundation.\<close>

theorem replay_sound:
  assumes "native_replay decode ci n m bytes f lim = Ok r" and "r_accepted r" and "max_nodes lim < 2 ^ 64"
  shows "\<exists>j cs. length bytes \<le> max_bytes lim \<and>
    without_strings bytes = Some cs \<and> nested (8 * (max_depth lim + 1) + 8) cs \<and>
    decode bytes = Some j \<and> j_profile j = profile_for f \<and> cert_claimed_type (j_certificate j) = j_statement j \<and>
    has_type f [] (cert_term (j_certificate j)) (j_statement j) \<and>
    (\<exists>l. has_type f [] (j_statement j) (Universe l)) \<and>
    scoped 0 (cert_term (j_certificate j)) \<and> scoped 0 (j_statement j) \<and>
    term_depth (cert_term (j_certificate j)) \<le> max_depth lim \<and> term_depth (j_statement j) \<le> max_depth lim \<and>
    2 * term_count (j_statement j) + term_count (cert_term (j_certificate j)) \<le> max_nodes lim"
proof -
  have "r_outcome r = Accepted" using accepting_report assms(1,2) by blast
  with assms(1) obtain j where j: "decode_judgment decode ci bytes f lim = Ok j"
    and t: "has_type f [] (cert_term (j_certificate j)) (j_statement j)" "\<exists>l. has_type f [] (j_statement j) (Universe l)"
    by (rule replay_provable)
  have w: "max_nodes lim < word_limit" using assms(3) by (simp add: word_limit_def)
  from j obtain cs where "without_strings bytes = Some cs" "nested (8 * (max_depth lim + 1) + 8) cs"
    unfolding decode_judgment_Ok using envelope_grammar by blast
  with j [unfolded decode_judgment_Ok admit_structure_iff [OF w]] t show ?thesis
    by (intro exI [of _ j] exI [of _ cs]) auto
qed

lemma identity_replayed:
  "native_replay (\<lambda>_. Some identity_judgment) ''id'' 4 5 [open_brace, close_brace] Intensional default_admission =
   Ok (accepted_report ''id'' Intensional default_admission)"
  using identity_verified [of 0 Intensional] identity_verified_nbe [of Intensional] identity_decoded
  by (simp add: replay_with_limits_def identity_judgment_def)

theorem replay_sound_witness:
  "has_type Intensional [] (cert_term identity_certificate) (cert_claimed_type identity_certificate) \<and>
   term_depth (cert_claimed_type identity_certificate) \<le> 512"
  using replay_sound [OF identity_replayed]
  by (auto simp: accepted_report_def default_admission_def identity_judgment_def)

text \<open>C1: The verdict of the program: when a run of \<open>verum-proof\<close> that checks a judgment exits with status
  zero, its command line selected a foundation and a valid policy, the whole of standard input fits the
  policy and decodes to a judgment, and the statement of that judgment has a closed derivation in the
  declarative type system of the foundation. The run goes through the supervisor, a launched copy of
  the program, its pipeline and both checkers.\<close>

theorem verum_proof_sound:
  assumes "main decode cod ci (native_replay decode ci n m) h args = Ok (0, out)" and "checks args"
    and "runs_itself decode cod ci (native_replay decode ci n m) h" and "faithful_codecs cod"
  shows "\<exists>f lim input j. options args = Ok (f, lim) \<and> replay_valid lim \<and> h_stdin h = Some input \<and>
    length input \<le> max_bytes (rl_admission lim) \<and> decode input = Some j \<and> j_profile j = profile_for f \<and>
    has_type f [] (cert_term (j_certificate j)) (j_statement j) \<and> (\<exists>l. has_type f [] (j_statement j) (Universe l)) \<and>
    scoped 0 (cert_term (j_certificate j)) \<and> scoped 0 (j_statement j)"
proof -
  obtain f lim input r where opt: "options args = Ok (f, lim)" "h_stdin h = Some input"
    "length input \<le> max_bytes (rl_admission lim)"
    and acc: "native_replay decode ci n m input f (rl_admission lim) = Ok r" "r_outcome r = Accepted"
    using assms by (rule checked_by_pipeline)
  from acc obtain j where j: "decode input = Some j" "j_profile j = profile_for f"
    "has_type f [] (cert_term (j_certificate j)) (j_statement j)" "\<exists>l. has_type f [] (j_statement j) (Universe l)"
    by (rule replay_provable)
  moreover have "scoped 0 (cert_term (j_certificate j))" "scoped 0 (j_statement j)"
    using j has_type_scoped by fastforce+
  moreover have "replay_valid lim" using opt(1) by (auto simp: options_def split: if_splits)
  ultimately show ?thesis using opt by blast
qed

theorem verum_proof_sound_witness:
  "has_type Intensional [] (cert_term identity_certificate) (cert_claimed_type identity_certificate)"
proof -
  let ?pipe = "native_replay (\<lambda>_. Some identity_judgment) ''id'' 4 5"
  have "runs_itself (\<lambda>_. Some identity_judgment) sample_codecs ''id'' ?pipe sample_host"
    by (rule sample_runs_itself) (rule identity_replayed)
  from verum_proof_sound [OF sample_check _ this sample_codecs_faithful] show ?thesis
    by (auto simp: checks_def options_def default_replay_valid identity_judgment_def)
qed

text \<open>The two checkers are redundant safeguards: each one alone, at any bound and as long as no index
  wraps (\<open>index_arithmetic_exact\<close>), accepts only what is derivable, so a judgment that passes either of them is a theorem of its foundation, closed and
  of a well-formed statement.\<close>

theorem either_checker_suffices:
  assumes "verify_with_foundation n cert f = Ok () \<or> verify_certificate_with_foundation m cert f = Ok ()"
  shows "has_type f [] (cert_term cert) (cert_claimed_type cert) \<and>
    (\<exists>l. has_type f [] (cert_claimed_type cert) (Universe l)) \<and> scoped 0 (cert_term cert) \<and> scoped 0 (cert_claimed_type cert)"
proof -
  have "has_type f [] (cert_term cert) (cert_claimed_type cert) \<and> (\<exists>l. has_type f [] (cert_claimed_type cert) (Universe l))"
    using assms verify_sound verify_certificate_sound by blast
  then show ?thesis using has_type_scoped by fastforce
qed

theorem either_checker_suffices_witness:
  "has_type Intensional [] (cert_term identity_certificate) (cert_claimed_type identity_certificate)"
  using either_checker_suffices [of 0 identity_certificate Intensional 5] identity_verified_nbe [of Intensional] by simp

text \<open>C8: What acceptance requires, exactly: a valid policy, bytes within their budget and inside
  the envelope grammar, a decoded judgment of the requested profile, structural admission, a
  certificate for the statement itself, and acceptance by both checkers.\<close>

theorem replay_accepts_iff:
  "(\<exists>r. native_replay decode ci n m bytes f lim = Ok r \<and> r_accepted r) \<longleftrightarrow>
   (\<exists>j cs. admission_valid lim \<and> length bytes \<le> max_bytes lim \<and>
      without_strings bytes = Some cs \<and> nested (8 * (max_depth lim + 1) + 8) cs \<and>
      decode bytes = Some j \<and> j_profile j = profile_for f \<and> admit_structure j lim = Ok () \<and>
      cert_claimed_type (j_certificate j) = j_statement j \<and>
      verify_with_foundation n (j_certificate j) f = Ok () \<and>
      verify_certificate_with_foundation m (j_certificate j) f = Ok ())"
  unfolding replay_accepts decode_judgment_Ok using envelope_grammar by auto

text \<open>The recursion bounds of the model do not show in the reports: once both checkers have returned on
  the decoded certificate, all larger bounds give the same report.\<close>

theorem replay_returns:
  assumes "\<And>j. decode bytes = Some j \<Longrightarrow>
      verify_with_foundation n (j_certificate j) f \<noteq> NoFuel \<and>
      verify_certificate_with_foundation m (j_certificate j) f \<noteq> NoFuel"
  shows "\<exists>r. \<forall>n' m'. n \<le> n' \<longrightarrow> m \<le> m' \<longrightarrow> native_replay decode ci n' m' bytes f lim = Ok r"
proof (cases "decode_judgment decode ci bytes f lim")
  case (Ok j)
  then have "decode bytes = Some j" by (simp add: decode_judgment_Ok)
  note ret = assms [OF this]
  have s: "verify_with_foundation n' (j_certificate j) f = verify_with_foundation n (j_certificate j) f"
    if "n \<le> n'" for n'
    using verify_le [of n "j_certificate j" f "n' - n"] that ret by (auto simp: run_le_def)
  have b: "verify_certificate_with_foundation m' (j_certificate j) f =
      verify_certificate_with_foundation m (j_certificate j) f" if "m \<le> m'" for m'
    using verify_certificate_le [of m "j_certificate j" f "m' - m"] that ret by (auto simp: run_le_def)
  obtain r where "native_replay decode ci n m bytes f lim = Ok r"
    using ret Ok
    by (cases "verify_with_foundation n (j_certificate j) f";
        cases "verify_certificate_with_foundation m (j_certificate j) f") (auto simp: replay_with_limits_def)
  then have "native_replay decode ci n' m' bytes f lim = Ok r" if "n \<le> n'" "m \<le> m'" for n' m'
    using Ok unfolding replay_with_limits_def by (simp only: run.case s [OF that(1)] b [OF that(2)])
  then show ?thesis by blast
next
  case (Err r)
  then show ?thesis by (simp add: replay_with_limits_def)
qed (use decode_judgment_neq_NoFuel in blast)

end
